(* ===== verification/Prelude.thy ===== *)
theory Prelude
  imports Main "HOL-Library.AList" "HOL-Library.Word"
begin

section \<open>Prelude\<close>

text \<open>
  What every component of the development shares.

  \<^item> The collections of the source's language: a JavaScript \<open>Map\<close> iterates in insertion order and
    keeps the place of a key that is set again, which is how \<open>AList.update\<close> and \<open>AList.delete\<close> treat
    an association list; a \<open>Set\<close> is a list without repetitions. A \<open>Map\<close> whose values are \<open>Set\<close>s,
    the shape of every index of the document store, has its own pair of operations.
  \<^item> The names of the model's types: URIs and client ids are strings, a text is the list of its
    UTF-16 code units, as JavaScript counts a string.
  \<^item> A locale for a component whose operations all keep one invariant, with the lifting of the
    invariant from one operation to a run of them.
\<close>

named_theorems js_simps \<open>rewrite rules for maps and sets in insertion order\<close>
named_theorems js_intros \<open>distinctness of keys and elements\<close>

type_synonym uri = string
type_synonym client_id = string
type_synonym text_body = "16 word list"

subsection \<open>Maps in insertion order\<close>

type_synonym ('k, 'v) js_map = "('k \<times> 'v) list"

abbreviation js_set :: "'k \<Rightarrow> 'v \<Rightarrow> ('k, 'v) js_map \<Rightarrow> ('k, 'v) js_map" where
  "js_set \<equiv> AList.update"

abbreviation js_delete :: "'k \<Rightarrow> ('k, 'v) js_map \<Rightarrow> ('k, 'v) js_map" where
  "js_delete \<equiv> AList.delete"

abbreviation js_get :: "('k, 'v) js_map \<Rightarrow> 'k \<Rightarrow> 'v option" where
  "js_get \<equiv> map_of"

definition js_has :: "('k, 'v) js_map \<Rightarrow> 'k \<Rightarrow> bool" where
  "js_has m k \<longleftrightarrow> k \<in> fst ` set m"

abbreviation js_keys :: "('k, 'v) js_map \<Rightarrow> 'k list" where
  "js_keys m \<equiv> map fst m"

definition js_map_ok :: "('k, 'v) js_map \<Rightarrow> bool" where
  "js_map_ok m \<longleftrightarrow> distinct (js_keys m)"

lemma js_get_set [js_simps]: "js_get (js_set k v m) x = (if x = k then Some v else js_get m x)"
  by (simp add: update_conv)

lemma js_get_delete [js_simps]: "js_get (js_delete k m) x = (if x = k then None else js_get m x)"
  by (simp add: delete_conv')

lemma js_has_get: "js_has m k \<longleftrightarrow> js_get m k \<noteq> None"
  by (simp add: js_has_def map_of_eq_None_iff)

lemma js_has_set [js_simps]: "js_has (js_set k v m) x \<longleftrightarrow> x = k \<or> js_has m x"
  by (simp add: js_has_get js_get_set)

lemma js_has_delete [js_simps]: "js_has (js_delete k m) x \<longleftrightarrow> x \<noteq> k \<and> js_has m x"
  by (simp add: js_has_get js_get_delete)

lemma js_map_ok_Nil [js_intros, simp]: "js_map_ok []"
  by (simp add: js_map_ok_def)

lemma js_map_ok_single [js_intros, simp]: "js_map_ok [p]"
  by (simp add: js_map_ok_def)

lemma js_map_ok_set [js_intros]: "js_map_ok m \<Longrightarrow> js_map_ok (js_set k v m)"
  by (simp add: js_map_ok_def distinct_update)

lemma js_map_ok_delete [js_intros]: "js_map_ok m \<Longrightarrow> js_map_ok (js_delete k m)"
  by (simp add: js_map_ok_def distinct_delete)

lemma js_get_mem: "js_map_ok m \<Longrightarrow> (k, v) \<in> set m \<longleftrightarrow> js_get m k = Some v"
  by (simp add: js_map_ok_def)

lemma js_keys_set: "js_keys (js_set k v m) = (if js_has m k then js_keys m else js_keys m @ [k])"
  by (simp add: update_keys js_has_def)

subsection \<open>Sets in insertion order\<close>

definition set_add :: "'a \<Rightarrow> 'a list \<Rightarrow> 'a list" where
  "set_add x xs = (if x \<in> set xs then xs else xs @ [x])"

abbreviation set_delete :: "'a \<Rightarrow> 'a list \<Rightarrow> 'a list" where
  "set_delete \<equiv> removeAll"

lemma set_set_add [js_simps, simp]: "set (set_add x xs) = insert x (set xs)"
  by (auto simp: set_add_def)

lemma distinct_set_add [js_intros]: "distinct xs \<Longrightarrow> distinct (set_add x xs)"
  by (simp add: set_add_def)

lemma set_add_not_Nil [simp]: "set_add x xs \<noteq> []"
  by (auto simp: set_add_def)

subsection \<open>Maps from keys to sets\<close>

text \<open>
  The source adds to a set it first creates when the key is new, and drops the key once its set is
  empty, so that having the key says that the set has an element.
\<close>

type_synonym ('k, 'v) multi = "('k, 'v list) js_map"

definition multi_get :: "('k, 'v) multi \<Rightarrow> 'k \<Rightarrow> 'v list" where
  "multi_get m k = (case js_get m k of None \<Rightarrow> [] | Some xs \<Rightarrow> xs)"

definition multi_add :: "'k \<Rightarrow> 'v \<Rightarrow> ('k, 'v) multi \<Rightarrow> ('k, 'v) multi" where
  "multi_add k v m = js_set k (set_add v (multi_get m k)) m"

definition multi_del :: "'k \<Rightarrow> 'v \<Rightarrow> ('k, 'v) multi \<Rightarrow> ('k, 'v) multi" where
  "multi_del k v m =
     (case js_get m k of
        None \<Rightarrow> m
      | Some xs \<Rightarrow> (let ys = set_delete v xs in if ys = [] then js_delete k m else js_set k ys m))"

definition multi_ok :: "('k, 'v) multi \<Rightarrow> bool" where
  "multi_ok m \<longleftrightarrow> js_map_ok m \<and> (\<forall>k xs. js_get m k = Some xs \<longrightarrow> xs \<noteq> [] \<and> distinct xs)"

lemma multi_okI:
  "js_map_ok m \<Longrightarrow> (\<And>k xs. js_get m k = Some xs \<Longrightarrow> xs \<noteq> [] \<and> distinct xs) \<Longrightarrow> multi_ok m"
  by (simp add: multi_ok_def)

lemma multi_ok_Nil [js_intros, simp]: "multi_ok []"
  by (simp add: multi_ok_def)

lemma multi_get_distinct: "multi_ok m \<Longrightarrow> distinct (multi_get m k)"
  by (auto simp: multi_ok_def multi_get_def split: option.splits)

lemma multi_has: "multi_ok m \<Longrightarrow> js_has m k \<longleftrightarrow> multi_get m k \<noteq> []"
  by (auto simp: multi_ok_def multi_get_def js_has_get split: option.splits)

lemma multi_get_add [js_simps]:
  "multi_get (multi_add k v m) x = (if x = k then set_add v (multi_get m k) else multi_get m x)"
  by (simp add: multi_get_def multi_add_def js_get_set)

lemma multi_get_del [js_simps]:
  "multi_get (multi_del k v m) x = (if x = k then set_delete v (multi_get m k) else multi_get m x)"
  by (auto simp: multi_get_def multi_del_def js_get_set js_get_delete Let_def split: option.splits)

lemma multi_get_js_delete [js_simps]:
  "multi_get (js_delete k m) x = (if x = k then [] else multi_get m x)"
  by (simp add: multi_get_def js_get_delete)

lemma multi_ok_add [js_intros]: "multi_ok m \<Longrightarrow> multi_ok (multi_add k v m)"
  by (auto simp: multi_ok_def multi_add_def js_get_set multi_get_def
      intro!: js_map_ok_set distinct_set_add split: if_splits option.splits)

lemma distinct_removeAll_js: "distinct xs \<Longrightarrow> distinct (removeAll v xs)"
  by (simp add: distinct_removeAll)

lemma multi_ok_del [js_intros]: "multi_ok m \<Longrightarrow> multi_ok (multi_del k v m)"
  by (auto simp: multi_ok_def multi_del_def js_get_set js_get_delete Let_def
      intro!: js_map_ok_set js_map_ok_delete distinct_removeAll_js split: if_splits option.splits)

subsection \<open>Components that keep an invariant\<close>

text \<open>
  A component is a state and a step per operation, \<open>None\<close> where the operation throws and leaves the
  state as it was. \<open>run\<close> performs operations in order and passes over the ones that throw.
\<close>

locale component =
  fixes step :: "'op \<Rightarrow> 's \<Rightarrow> 's option"
    and inv :: "'s \<Rightarrow> bool"
  assumes step_inv: "inv s \<Longrightarrow> step op s = Some s' \<Longrightarrow> inv s'"
begin

fun run :: "'op list \<Rightarrow> 's \<Rightarrow> 's" where
  "run [] s = s"
| "run (op # ops) s = run ops (case step op s of None \<Rightarrow> s | Some s' \<Rightarrow> s')"

lemma run_inv: "inv s \<Longrightarrow> inv (run ops s)"
  by (induction ops arbitrary: s) (auto intro: step_inv split: option.splits)

lemma run_append: "run (xs @ ys) s = run ys (run xs s)"
  by (induction xs arbitrary: s) auto

end

text \<open>
  A component whose state only moves along a preorder: what holds between the states before and after
  each operation holds over every run.
\<close>

locale progress_component = component step inv
  for step :: "'op \<Rightarrow> 's \<Rightarrow> 's option" and inv :: "'s \<Rightarrow> bool" +
  fixes progress :: "'s \<Rightarrow> 's \<Rightarrow> bool"
  assumes progress_refl: "progress s s"
    and progress_trans: "progress s t \<Longrightarrow> progress t u \<Longrightarrow> progress s u"
    and step_progress: "inv s \<Longrightarrow> step op s = Some s' \<Longrightarrow> progress s s'"
begin

lemma run_progress: "inv s \<Longrightarrow> progress s (run ops s)"
proof (induction ops arbitrary: s)
  case Nil
  show ?case by (simp add: progress_refl)
next
  case (Cons op ops)
  show ?case
  proof (cases "step op s")
    case None
    then show ?thesis using Cons by simp
  next
    case (Some s')
    then have "inv s'" and "progress s s'"
      using Cons.prems step_inv step_progress by blast+
    then show ?thesis using Cons.IH [of s'] Some by (auto intro: progress_trans)
  qed
qed

lemma run_between: "inv s \<Longrightarrow> progress (run ops s) (run (ops @ more) s)"
  by (simp add: run_append run_inv run_progress)

end

end
