(* ===== verification/SessionRegistry.thy ===== *)
theory SessionRegistry
  imports Prelude
begin

section \<open>The client session registry\<close>

text \<open>
  \<open>ClientSessionRegistry\<close> of \<open>core/src/documents/client-session-registry.ts\<close>: which client ids are
  registered sessions, which client has which document open, kept in two indexes that mirror each
  other, and the version id each client last declared for its own buffer. An operation that throws
  answers \<open>Inl\<close> the error and leaves the registry as it was. \<open>closedEvents\<close> holds what
  \<open>onDidCloseSession\<close> fired, in order.
\<close>

definition LANGUAGE_CLIENT_ID :: client_id where "LANGUAGE_CLIENT_ID = ''language-client''"
definition UNKNOWN_CLIENT_ID :: client_id where "UNKNOWN_CLIENT_ID = ''unknown''"
definition DOCUMENT_RELEASE_CLIENT_ID :: client_id where
  "DOCUMENT_RELEASE_CLIENT_ID = ''document-release''"
definition INTEGRITY_CLIENT_ID :: client_id where "INTEGRITY_CLIENT_ID = ''integrity''"

definition FRAMEWORK_CLIENT_IDS :: "client_id list" where
  "FRAMEWORK_CLIENT_IDS = [LANGUAGE_CLIENT_ID, UNKNOWN_CLIENT_ID, DOCUMENT_RELEASE_CLIENT_ID]"

definition RESERVED_CLIENT_IDS :: "client_id list" where
  "RESERVED_CLIENT_IDS = FRAMEWORK_CLIENT_IDS @ [INTEGRITY_CLIENT_ID]"

datatype session_state = Live | Closing

datatype end_cause = Closed | Lost

datatype session_error =
    ReservedClientIdError client_id
  | DuplicateClientIdError client_id
  | SessionClosedError client_id

record registry =
  sessions :: "(client_id, session_state) js_map"
  clientsByUri :: "(uri, client_id) multi"
  opensByClient :: "(client_id, uri) multi"
  clientVersions :: "(uri, (client_id, int) js_map) js_map"
  closedEvents :: "(client_id \<times> end_cause) list"

definition new_registry :: registry where
  "new_registry = \<lparr>sessions = [], clientsByUri = [], opensByClient = [], clientVersions = [], closedEvents = []\<rparr>"

subsection \<open>Operations\<close>

definition register :: "client_id \<Rightarrow> registry \<Rightarrow> session_error + registry" where
  "register c R =
     (if c \<in> set RESERVED_CLIENT_IDS then Inl (ReservedClientIdError c)
      else if js_has (sessions R) c \<or> js_has (opensByClient R) c then Inl (DuplicateClientIdError c)
      else Inr (R\<lparr>sessions := js_set c Live (sessions R)\<rparr>))"

definition isRegistered :: "client_id \<Rightarrow> registry \<Rightarrow> bool" where
  "isRegistered c R \<longleftrightarrow> js_has (sessions R) c"

definition opensOf :: "client_id \<Rightarrow> registry \<Rightarrow> uri list" where
  "opensOf c R = multi_get (opensByClient R) c"

definition beginClose :: "client_id \<Rightarrow> registry \<Rightarrow> uri list \<times> registry" where
  "beginClose c R =
     (let R' = (if js_has (sessions R) c then R\<lparr>sessions := js_set c Closing (sessions R)\<rparr> else R)
      in (opensOf c R', R'))"

text \<open>
  The loop of \<open>unregister\<close> over the client versions: a URI's map loses the client, and the URI goes
  when that empties its map.
\<close>

fun drop_versions :: "client_id \<Rightarrow> (uri, (client_id, int) js_map) js_map \<Rightarrow> (uri, (client_id, int) js_map) js_map" where
  "drop_versions c [] = []"
| "drop_versions c ((u, vs) # rest) =
     (if js_has vs c \<and> js_delete c vs = [] then drop_versions c rest
      else (u, js_delete c vs) # drop_versions c rest)"

definition unregister :: "client_id \<Rightarrow> end_cause \<Rightarrow> registry \<Rightarrow> registry" where
  "unregister c cause R =
     (if \<not> js_has (sessions R) c then R
      else R\<lparr>sessions := js_delete c (sessions R),
             clientVersions := drop_versions c (clientVersions R),
             closedEvents := closedEvents R @ [(c, cause)]\<rparr>)"

definition assertCanOpen :: "client_id \<Rightarrow> registry \<Rightarrow> session_error option" where
  "assertCanOpen c R = (if js_get (sessions R) c = Some Closing then Some (SessionClosedError c) else None)"

definition addOpen :: "uri \<Rightarrow> client_id \<Rightarrow> registry \<Rightarrow> session_error + bool \<times> registry" where
  "addOpen u c R =
     (case assertCanOpen c R of
        Some e \<Rightarrow> Inl e
      | None \<Rightarrow>
          if u \<in> set (multi_get (opensByClient R) c) then Inr (False, R)
          else Inr (True, R\<lparr>opensByClient := multi_add c u (opensByClient R),
                             clientsByUri := multi_add u c (clientsByUri R)\<rparr>))"

text \<open>
  \<open>removeOpen\<close> ends with the versions: the entry of the URI goes when it is empty after the delete,
  as \<open>!versions?.size\<close> says, which deleting an absent key also satisfies.
\<close>

definition removeOpen :: "uri \<Rightarrow> client_id \<Rightarrow> registry \<Rightarrow> bool \<times> registry" where
  "removeOpen u c R =
     (if u \<notin> set (multi_get (opensByClient R) c) then (False, R)
      else (True, R\<lparr>opensByClient := multi_del c u (opensByClient R),
                     clientsByUri := multi_del u c (clientsByUri R),
                     clientVersions :=
                       (case js_get (clientVersions R) u of
                          None \<Rightarrow> clientVersions R
                        | Some vs \<Rightarrow>
                            (let vs' = js_delete c vs
                             in if vs' = [] then js_delete u (clientVersions R)
                                else js_set u vs' (clientVersions R)))\<rparr>))"

definition setClientVersion :: "uri \<Rightarrow> client_id \<Rightarrow> int \<Rightarrow> registry \<Rightarrow> registry" where
  "setClientVersion u c v R =
     R\<lparr>clientVersions :=
         js_set u (js_set c v (case js_get (clientVersions R) u of None \<Rightarrow> [] | Some vs \<Rightarrow> vs)) (clientVersions R)\<rparr>"

definition clientVersionOf :: "uri \<Rightarrow> client_id \<Rightarrow> registry \<Rightarrow> int option" where
  "clientVersionOf u c R = Option.bind (js_get (clientVersions R) u) (\<lambda>vs. js_get vs c)"

definition forgetClientVersions :: "uri \<Rightarrow> registry \<Rightarrow> registry" where
  "forgetClientVersions u R = R\<lparr>clientVersions := js_delete u (clientVersions R)\<rparr>"

definition isOpenIn :: "uri \<Rightarrow> client_id \<Rightarrow> registry \<Rightarrow> bool" where
  "isOpenIn u c R \<longleftrightarrow> c \<in> set (multi_get (clientsByUri R) u)"

definition isOpen :: "uri \<Rightarrow> registry \<Rightarrow> bool" where
  "isOpen u R \<longleftrightarrow> js_has (clientsByUri R) u"

definition clientsOf :: "uri \<Rightarrow> registry \<Rightarrow> client_id list" where
  "clientsOf u R = multi_get (clientsByUri R) u"

definition openDocuments :: "registry \<Rightarrow> (uri \<times> client_id list) list" where
  "openDocuments R = clientsByUri R"

definition clear :: "registry \<Rightarrow> registry" where
  "clear R = R\<lparr>sessions := [], clientsByUri := [], opensByClient := [], clientVersions := []\<rparr>"

lemmas registry_defs = register_def isRegistered_def opensOf_def beginClose_def unregister_def
  assertCanOpen_def addOpen_def removeOpen_def setClientVersion_def clientVersionOf_def
  forgetClientVersions_def isOpenIn_def isOpen_def clientsOf_def clear_def

subsection \<open>The invariant: the two indexes mirror each other\<close>

definition registry_ok :: "registry \<Rightarrow> bool" where
  "registry_ok R \<longleftrightarrow>
     multi_ok (clientsByUri R) \<and> multi_ok (opensByClient R) \<and> js_map_ok (sessions R) \<and>
     (\<forall>u c. c \<in> set (multi_get (clientsByUri R) u) \<longleftrightarrow> u \<in> set (multi_get (opensByClient R) c)) \<and>
     (\<forall>c. js_has (sessions R) c \<longrightarrow> c \<notin> set RESERVED_CLIENT_IDS)"

lemma registry_okD:
  assumes "registry_ok R"
  shows "multi_ok (clientsByUri R)" "multi_ok (opensByClient R)" "js_map_ok (sessions R)"
    "c \<in> set (multi_get (clientsByUri R) u) \<longleftrightarrow> u \<in> set (multi_get (opensByClient R) c)"
    "js_has (sessions R) c \<Longrightarrow> c \<notin> set RESERVED_CLIENT_IDS"
  using assms by (auto simp: registry_ok_def)

lemma new_registry_ok [simp]: "registry_ok new_registry"
  by (simp add: registry_ok_def new_registry_def multi_get_def js_has_def)

lemma isOpen_clientsOf: "registry_ok R \<Longrightarrow> isOpen u R \<longleftrightarrow> clientsOf u R \<noteq> []"
  by (simp add: isOpen_def clientsOf_def registry_ok_def multi_has)

lemma isOpen_isOpenIn: "registry_ok R \<Longrightarrow> isOpen u R \<longleftrightarrow> (\<exists>c. isOpenIn u c R)"
  by (auto simp: isOpen_clientsOf clientsOf_def isOpenIn_def neq_Nil_conv intro: list.set_intros)
     (metis list.set_cases)

lemma opensOf_isOpenIn: "registry_ok R \<Longrightarrow> u \<in> set (opensOf c R) \<longleftrightarrow> isOpenIn u c R"
  by (simp add: opensOf_def isOpenIn_def registry_ok_def)

lemma clientsOf_isOpenIn: "c \<in> set (clientsOf u R) \<longleftrightarrow> isOpenIn u c R"
  by (simp add: clientsOf_def isOpenIn_def)

lemma distinct_clientsOf: "registry_ok R \<Longrightarrow> distinct (clientsOf u R)"
  by (simp add: clientsOf_def registry_ok_def multi_get_distinct)

lemma distinct_opensOf: "registry_ok R \<Longrightarrow> distinct (opensOf c R)"
  by (simp add: opensOf_def registry_ok_def multi_get_distinct)

subsection \<open>Every operation keeps the invariant\<close>

lemma registry_ok_sessions:
  "registry_ok R \<Longrightarrow> js_map_ok ss \<Longrightarrow> (\<And>c. js_has ss c \<Longrightarrow> c \<notin> set RESERVED_CLIENT_IDS) \<Longrightarrow>
   registry_ok (R\<lparr>sessions := ss\<rparr>)"
  by (simp add: registry_ok_def)

lemma registry_ok_frame [simp]:
  "registry_ok (R\<lparr>clientVersions := vs\<rparr>) = registry_ok R"
  "registry_ok (R\<lparr>closedEvents := es\<rparr>) = registry_ok R"
  by (simp_all add: registry_ok_def)

lemma register_ok: "registry_ok R \<Longrightarrow> register c R = Inr R' \<Longrightarrow> registry_ok R'"
  by (auto simp: register_def registry_ok_def js_has_set intro: js_map_ok_set split: if_splits)

lemma beginClose_ok: "registry_ok R \<Longrightarrow> registry_ok (snd (beginClose c R))"
  by (auto simp: beginClose_def registry_ok_def js_has_set Let_def intro: js_map_ok_set)

lemma unregister_ok: "registry_ok R \<Longrightarrow> registry_ok (unregister c cause R)"
  by (auto simp: unregister_def registry_ok_def js_has_delete intro: js_map_ok_delete)

lemma addOpen_ok:
  assumes "registry_ok R" and "addOpen u c R = Inr (b, R')"
  shows "registry_ok R'"
proof (cases "u \<in> set (multi_get (opensByClient R) c)")
  case True
  with assms show ?thesis by (auto simp: addOpen_def split: option.splits)
next
  case False
  with assms(2) have "R' = R\<lparr>opensByClient := multi_add c u (opensByClient R),
                             clientsByUri := multi_add u c (clientsByUri R)\<rparr>"
    by (auto simp: addOpen_def split: option.splits)
  then show ?thesis
    using assms(1) by (auto simp: registry_ok_def multi_get_add intro: multi_ok_add)
qed

lemma removeOpen_ok: "registry_ok R \<Longrightarrow> registry_ok (snd (removeOpen u c R))"
  by (auto simp: removeOpen_def registry_ok_def multi_get_del intro: multi_ok_del)

datatype registry_op =
    RegRegister client_id
  | RegBeginClose client_id
  | RegUnregister client_id end_cause
  | RegAddOpen uri client_id
  | RegRemoveOpen uri client_id
  | RegSetClientVersion uri client_id int
  | RegForgetClientVersions uri
  | RegClear

fun registry_step :: "registry_op \<Rightarrow> registry \<Rightarrow> registry option" where
  "registry_step (RegRegister c) R = (case register c R of Inl _ \<Rightarrow> None | Inr R' \<Rightarrow> Some R')"
| "registry_step (RegBeginClose c) R = Some (snd (beginClose c R))"
| "registry_step (RegUnregister c cause) R = Some (unregister c cause R)"
| "registry_step (RegAddOpen u c) R = (case addOpen u c R of Inl _ \<Rightarrow> None | Inr (_, R') \<Rightarrow> Some R')"
| "registry_step (RegRemoveOpen u c) R = Some (snd (removeOpen u c R))"
| "registry_step (RegSetClientVersion u c v) R = Some (setClientVersion u c v R)"
| "registry_step (RegForgetClientVersions u) R = Some (forgetClientVersions u R)"
| "registry_step RegClear R = Some (clear R)"

lemma registry_step_ok: "registry_ok R \<Longrightarrow> registry_step op R = Some R' \<Longrightarrow> registry_ok R'"
proof (cases op)
  case RegClear
  then show "registry_ok R \<Longrightarrow> registry_step op R = Some R' \<Longrightarrow> registry_ok R'"
    by (auto simp: clear_def registry_ok_def multi_get_def js_has_def)
qed (auto simp: setClientVersion_def forgetClientVersions_def
      intro: register_ok beginClose_ok unregister_ok addOpen_ok removeOpen_ok split: sum.splits)

interpretation reg: component registry_step registry_ok
  by unfold_locales (rule registry_step_ok)

subsection \<open>What an open, a close and a session's end change\<close>

lemma isOpenIn_addOpen:
  "addOpen u c R = Inr (b, R') \<Longrightarrow> registry_ok R \<Longrightarrow>
   isOpenIn v d R' \<longleftrightarrow> (v = u \<and> d = c) \<or> isOpenIn v d R"
  by (auto simp: addOpen_def isOpenIn_def multi_get_add registry_okD(4) split: option.splits if_splits)

lemma isOpenIn_removeOpen:
  "registry_ok R \<Longrightarrow> isOpenIn v d (snd (removeOpen u c R)) \<longleftrightarrow> isOpenIn v d R \<and> \<not> (v = u \<and> d = c)"
  by (auto simp: removeOpen_def isOpenIn_def multi_get_del registry_okD(4))

lemma fst_removeOpen: "registry_ok R \<Longrightarrow> fst (removeOpen u c R) \<longleftrightarrow> isOpenIn u c R"
  by (auto simp: removeOpen_def isOpenIn_def registry_okD(4))

lemma isOpenIn_frame [simp]:
  "isOpenIn v d (setClientVersion u c x R) = isOpenIn v d R"
  "isOpenIn v d (forgetClientVersions u R) = isOpenIn v d R"
  "isOpenIn v d (unregister c cause R) = isOpenIn v d R"
  "isOpenIn v d (snd (beginClose c R)) = isOpenIn v d R"
  by (simp_all add: isOpenIn_def setClientVersion_def forgetClientVersions_def unregister_def beginClose_def Let_def)

lemma isOpenIn_register: "register c R = Inr R' \<Longrightarrow> isOpenIn v d R' = isOpenIn v d R"
  by (auto simp: isOpenIn_def register_def split: if_splits)

lemma sessions_frame [simp]:
  "sessions (setClientVersion u c x R) = sessions R"
  "sessions (forgetClientVersions u R) = sessions R"
  "sessions (snd (removeOpen u c R)) = sessions R"
  by (simp_all add: setClientVersion_def forgetClientVersions_def removeOpen_def)

lemma registry_ok_versions [simp]:
  "registry_ok (setClientVersion u c x R) = registry_ok R"
  "registry_ok (forgetClientVersions u R) = registry_ok R"
  by (simp_all add: setClientVersion_def forgetClientVersions_def)

lemma addOpen_closing: "js_get (sessions R) c = Some Closing \<Longrightarrow> addOpen u c R = Inl (SessionClosedError c)"
  by (simp add: addOpen_def assertCanOpen_def)

lemma registry_step_closing:
  assumes "registry_ok R" and "js_get (sessions R) c = Some Closing" and "registry_step op R = Some R'"
    and "\<forall>cause. op \<noteq> RegUnregister c cause" and "op \<noteq> RegClear"
  shows "js_get (sessions R') c = Some Closing \<and> set (opensOf c R') \<subseteq> set (opensOf c R)"
  using assms
  by (cases op)
     (auto simp: registry_defs multi_get_add multi_get_del js_get_set js_get_delete js_has_get Let_def
       split: sum.splits option.splits if_splits)

fun remove_opens :: "uri list \<Rightarrow> client_id \<Rightarrow> registry \<Rightarrow> registry" where
  "remove_opens [] c R = R"
| "remove_opens (u # us) c R = remove_opens us c (snd (removeOpen u c R))"

lemma remove_opens_ok: "registry_ok R \<Longrightarrow> registry_ok (remove_opens us c R)"
  by (induction us arbitrary: R) (auto intro: removeOpen_ok)

lemma isOpenIn_remove_opens:
  "registry_ok R \<Longrightarrow> isOpenIn v d (remove_opens us c R) \<longleftrightarrow> isOpenIn v d R \<and> \<not> (v \<in> set us \<and> d = c)"
  by (induction us arbitrary: R) (auto simp: isOpenIn_removeOpen removeOpen_ok)

lemma drop_versions_none: "js_get (drop_versions c m) u = Some vs \<Longrightarrow> js_get vs c = None"
  by (induction c m rule: drop_versions.induct) (auto simp: js_get_delete split: if_splits)

lemma clientVersionOf_unregister: "js_has (sessions R) c \<Longrightarrow> clientVersionOf u c (unregister c cause R) = None"
  by (cases "js_get (drop_versions c (clientVersions R)) u")
     (auto simp: clientVersionOf_def unregister_def dest: drop_versions_none)

subsection \<open>Properties\<close>

text \<open>
  Whatever operations run, in any order and with any of them refused, the two indexes agree: a
  client is among a document's holders exactly when the document is among the client's opens, a
  document counts as open exactly when it has a holder, no holder or open is listed twice, and no
  reserved id is ever a session.
\<close>

theorem registry_indexes_agree:
  fixes ops c u
  defines "R \<equiv> reg.run ops new_registry"
  shows "(u \<in> set (opensOf c R) \<longleftrightarrow> c \<in> set (clientsOf u R)) \<and> (isOpen u R \<longleftrightarrow> clientsOf u R \<noteq> []) \<and>
         distinct (opensOf c R) \<and> distinct (clientsOf u R) \<and> \<not> (isRegistered c R \<and> c \<in> set RESERVED_CLIENT_IDS)"
proof -
  have "registry_ok R" unfolding R_def by (rule reg.run_inv) simp
  then show ?thesis
    by (auto simp: opensOf_isOpenIn clientsOf_isOpenIn isOpen_clientsOf distinct_opensOf distinct_clientsOf
        isRegistered_def dest: registry_okD(5))
qed

text \<open>
  from the moment a session begins to close, no operation but its own unregistration gives it
  another open or makes it live again, so the opens its close returned are all there will be to close.
\<close>

theorem closing_session_opens_nothing:
  assumes "js_get (sessions R) c = Some Closing" and "registry_ok R"
    and "\<forall>op \<in> set ops. (\<forall>cause. op \<noteq> RegUnregister c cause) \<and> op \<noteq> RegClear"
  shows "js_get (sessions (reg.run ops R)) c = Some Closing \<and> set (opensOf c (reg.run ops R)) \<subseteq> set (opensOf c R)"
  using assms
proof (induction ops arbitrary: R)
  case Nil
  then show ?case by simp
next
  case (Cons op ops)
  show ?case
  proof (cases "registry_step op R")
    case None
    then show ?thesis using Cons by simp
  next
    case (Some R')
    then have "js_get (sessions R') c = Some Closing \<and> set (opensOf c R') \<subseteq> set (opensOf c R)"
      using registry_step_closing [OF Cons.prems(2,1) Some] Cons.prems(3) by simp
    moreover have "registry_ok R'" using registry_step_ok Cons.prems(2) Some by blast
    ultimately show ?thesis using Cons.IH [of R'] Cons.prems(3) Some by auto
  qed
qed

theorem closing_session_opens_nothing_witness:
  "js_get (sessions (reg.run [RegAddOpen ''b'' ''s'', RegRemoveOpen ''a'' ''s'']
      \<lparr>sessions = [(''s'', Closing)], clientsByUri = [(''a'', [''s''])], opensByClient = [(''s'', [''a''])],
       clientVersions = [], closedEvents = []\<rparr>)) ''s'' = Some Closing"
  by (rule closing_session_opens_nothing [THEN conjunct1])
     (auto simp: registry_ok_def multi_ok_def js_map_ok_def multi_get_def js_has_def RESERVED_CLIENT_IDS_def
       FRAMEWORK_CLIENT_IDS_def LANGUAGE_CLIENT_ID_def UNKNOWN_CLIENT_ID_def DOCUMENT_RELEASE_CLIENT_ID_def
       INTEGRITY_CLIENT_ID_def split: if_splits)

text \<open>
  closing every open that beginClose returned and then unregistering frees the id completely:
  it holds nothing, is no session, has no declared version left, and may be registered again, while
  every other client keeps its opens.
\<close>

theorem session_end_frees_id:
  assumes "registry_ok R" and "isRegistered c R"
  shows "let (us, R1) = beginClose c R; R2 = unregister c cause (remove_opens us c R1)
         in opensOf c R2 = [] \<and> \<not> isRegistered c R2 \<and> (\<exists>R3. register c R2 = Inr R3) \<and>
            (\<forall>u. clientVersionOf u c R2 = None) \<and>
            (\<forall>d u. d \<noteq> c \<longrightarrow> isOpenIn u d R2 = isOpenIn u d R)"
proof -
  let ?R1 = "snd (beginClose c R)"
  let ?Rm = "remove_opens (opensOf c R) c ?R1"
  let ?R2 = "unregister c cause ?Rm"
  have ok1: "registry_ok ?R1" by (rule beginClose_ok [OF assms(1)])
  have okm: "registry_ok ?Rm" by (rule remove_opens_ok [OF ok1])
  have ok2: "registry_ok ?R2" by (rule unregister_ok [OF okm])
  have fst1: "fst (beginClose c R) = opensOf c R"
    by (simp add: beginClose_def opensOf_def Let_def)
  have open2: "isOpenIn u d ?R2 \<longleftrightarrow> isOpenIn u d R \<and> d \<noteq> c" for u d
    using isOpenIn_remove_opens [OF ok1] opensOf_isOpenIn [OF assms(1)] by auto
  have none: "opensOf c ?R2 = []"
    using opensOf_isOpenIn [OF ok2] open2 by (metis list.set_intros(1) neq_Nil_conv)
  have sess: "js_has (sessions ?Rm) c" "sessions ?R2 = js_delete c (sessions ?Rm)"
  proof -
    have keep: "sessions (remove_opens us c S) = sessions S" for us S
      by (induction us arbitrary: S) simp_all
    show "js_has (sessions ?Rm) c"
      using assms(2) by (simp add: keep beginClose_def isRegistered_def js_has_set Let_def)
    then show "sessions ?R2 = js_delete c (sessions ?Rm)" by (simp add: unregister_def)
  qed
  have "c \<notin> set RESERVED_CLIENT_IDS" by (rule registry_okD(5) [OF okm sess(1)])
  moreover have "\<not> js_has (opensByClient ?R2) c"
    using none multi_has [OF registry_okD(2) [OF ok2]] by (simp add: opensOf_def)
  moreover have "\<not> js_has (sessions ?R2) c" by (simp add: sess(2) js_has_delete)
  ultimately have "\<exists>R3. register c ?R2 = Inr R3" "\<not> isRegistered c ?R2"
    by (simp_all add: register_def isRegistered_def)
  moreover have "clientVersionOf u c ?R2 = None" for u
    by (rule clientVersionOf_unregister [OF sess(1)])
  ultimately show ?thesis using none open2 fst1 by (simp add: case_prod_beta Let_def)
qed

theorem session_end_frees_id_witness:
  "let R = \<lparr>sessions = [(''s'', Live)], clientsByUri = [(''a'', [''s''])], opensByClient = [(''s'', [''a''])],
            clientVersions = [], closedEvents = []\<rparr>;
       (us, R1) = beginClose ''s'' R
   in opensOf ''s'' (unregister ''s'' Lost (remove_opens us ''s'' R1)) = []"
proof -
  let ?R = "\<lparr>sessions = [(''s'', Live)], clientsByUri = [(''a'', [''s''])], opensByClient = [(''s'', [''a''])],
            clientVersions = [], closedEvents = []\<rparr>"
  have "registry_ok ?R" "isRegistered ''s'' ?R"
    by (auto simp: registry_ok_def multi_ok_def js_map_ok_def multi_get_def js_has_def RESERVED_CLIENT_IDS_def
       FRAMEWORK_CLIENT_IDS_def LANGUAGE_CLIENT_ID_def UNKNOWN_CLIENT_ID_def DOCUMENT_RELEASE_CLIENT_ID_def
       INTEGRITY_CLIENT_ID_def isRegistered_def split: if_splits)
  from session_end_frees_id [OF this, of Lost] show ?thesis by (auto simp: case_prod_beta Let_def)
qed

end
