(* ===== verification/ReleaseScheduler.thy ===== *)
theory ReleaseScheduler
  imports Prelude
begin

section \<open>The document release scheduler\<close>

text \<open>
  \<open>DefaultDocumentReleaseScheduler\<close> of \<open>core/src/documents/document-release-scheduler.ts\<close>: it decides
  when the store releases a document no client holds, at once or after a grace. The clock is an
  argument: \<open>now\<close> is its monotonic reading in milliseconds, a stopwatch is the reading at its start, and
  a timer of \<open>setTimer\<close> is the reading at which it is due. A cancelled timer never fires, and a key has
  at most one, since \<open>defer\<close> cancels the timer before it. The callback of a release is the caller's: \<open>defer\<close>
  answers whether it is run now, and \<open>timerFires\<close> is the timer's callback up to that call.
\<close>

type_synonym time = int

datatype open_decision = Keep | Release | NoRelease

record scheduler =
  graceMs :: int
  deferred :: "(uri, time) js_map"
  lostClients :: "(uri, (client_id, time) js_map) js_map"

definition new_scheduler :: "int \<Rightarrow> scheduler" where
  "new_scheduler grace = \<lparr>graceMs = grace, deferred = [], lostClients = []\<rparr>"

definition recordLoss :: "uri \<Rightarrow> client_id \<Rightarrow> time \<Rightarrow> scheduler \<Rightarrow> scheduler" where
  "recordLoss key c now S =
     S\<lparr>lostClients := js_set key
         (js_set c now (case js_get (lostClients S) key of None \<Rightarrow> [] | Some lost \<Rightarrow> lost)) (lostClients S)\<rparr>"

definition cancel :: "uri \<Rightarrow> scheduler \<Rightarrow> scheduler" where
  "cancel key S = S\<lparr>deferred := js_delete key (deferred S)\<rparr>"

definition defer_release :: "uri \<Rightarrow> time \<Rightarrow> scheduler \<Rightarrow> bool \<times> scheduler" where
  "defer_release key now S =
     (let S' = cancel key S
      in if graceMs S' \<le> 0 then (True, S')
         else (False, S'\<lparr>deferred := js_set key (now + graceMs S') (deferred S')\<rparr>))"

definition isDeferred :: "uri \<Rightarrow> scheduler \<Rightarrow> bool" where
  "isDeferred key S \<longleftrightarrow> js_has (deferred S) key"

definition timerFires :: "uri \<Rightarrow> time \<Rightarrow> scheduler \<Rightarrow> scheduler option" where
  "timerFires key now S =
     (case js_get (deferred S) key of
        Some due \<Rightarrow> if due \<le> now then Some (S\<lparr>deferred := js_delete key (deferred S)\<rparr>) else None
      | None \<Rightarrow> None)"

text \<open>The loop of \<open>resolveOpen\<close> over the losses: a claim past its grace is dropped.\<close>

definition drop_expired :: "int \<Rightarrow> time \<Rightarrow> (client_id, time) js_map \<Rightarrow> (client_id, time) js_map" where
  "drop_expired grace now lost = filter (\<lambda>(_, since). \<not> grace \<le> now - since) lost"

definition resolveOpen :: "uri \<Rightarrow> client_id \<Rightarrow> time \<Rightarrow> scheduler \<Rightarrow> open_decision \<times> scheduler" where
  "resolveOpen key c now S =
     (let (returning, S1) =
        (case js_get (lostClients S) key of
           None \<Rightarrow> (False, S)
         | Some lost \<Rightarrow>
             (let lost1 = drop_expired (graceMs S) now lost; lost2 = js_delete c lost1
              in (js_has lost1 c,
                  S\<lparr>lostClients := (if lost2 = [] then js_delete key (lostClients S)
                                     else js_set key lost2 (lostClients S))\<rparr>)))
      in if \<not> js_has (deferred S1) key then (NoRelease, S1)
         else (if returning then Keep else Release, cancel key S1))"

definition clearLosses :: "uri \<Rightarrow> scheduler \<Rightarrow> scheduler" where
  "clearLosses key S = S\<lparr>lostClients := js_delete key (lostClients S)\<rparr>"

subsection \<open>What a claim is\<close>

definition lossOf :: "uri \<Rightarrow> client_id \<Rightarrow> scheduler \<Rightarrow> time option" where
  "lossOf key c S = Option.bind (js_get (lostClients S) key) (\<lambda>lost. js_get lost c)"

definition losses_ok :: "scheduler \<Rightarrow> bool" where
  "losses_ok S \<longleftrightarrow> (\<forall>key lost. js_get (lostClients S) key = Some lost \<longrightarrow> js_map_ok lost)"

definition has_claim :: "uri \<Rightarrow> client_id \<Rightarrow> time \<Rightarrow> scheduler \<Rightarrow> bool" where
  "has_claim key c now S \<longleftrightarrow> (case lossOf key c S of None \<Rightarrow> False | Some since \<Rightarrow> now - since < graceMs S)"

lemma js_get_filter: "js_map_ok m \<Longrightarrow> js_get (filter (\<lambda>(_, v). P v) m) k = Option.bind (js_get m k) (\<lambda>v. if P v then Some v else None)"
proof (induction m)
  case (Cons p m)
  obtain k' v' where p: "p = (k', v')" by (cases p)
  show ?case
  proof (cases "k = k'")
    case True
    with Cons.prems have "js_get m k = None" by (simp add: js_map_ok_def p map_of_eq_None_iff)
    with Cons True show ?thesis by (auto simp: p js_map_ok_def)
  next
    case False
    with Cons show ?thesis by (auto simp: p js_map_ok_def)
  qed
qed simp

lemma js_map_ok_filter: "js_map_ok m \<Longrightarrow> js_map_ok (filter P m)"
  by (simp add: js_map_ok_def distinct_map_filter)

lemma js_get_drop_expired:
  "js_map_ok lost \<Longrightarrow> js_get (drop_expired grace now lost) c =
     Option.bind (js_get lost c) (\<lambda>since. if now - since < grace then Some since else None)"
  using js_get_filter [of lost "\<lambda>since. \<not> grace \<le> now - since" c]
  by (simp add: drop_expired_def not_le)

lemma isDeferred_cancel [simp]: "isDeferred k (cancel key S) \<longleftrightarrow> k \<noteq> key \<and> isDeferred k S"
  by (simp add: isDeferred_def cancel_def js_has_delete)

lemma graceMs_frame [simp]:
  "graceMs (recordLoss key c now S) = graceMs S" "graceMs (cancel key S) = graceMs S"
  "graceMs (snd (defer_release key now S)) = graceMs S" "graceMs (clearLosses key S) = graceMs S"
  "graceMs (snd (resolveOpen key c now S)) = graceMs S"
  by (auto simp: recordLoss_def cancel_def defer_release_def clearLosses_def resolveOpen_def Let_def split: option.splits)

lemma deferred_frame [simp]:
  "isDeferred k (recordLoss key c now S) = isDeferred k S" "isDeferred k (clearLosses key S) = isDeferred k S"
  by (simp_all add: isDeferred_def recordLoss_def clearLosses_def)

lemma lossOf_recordLoss: "lossOf k d (recordLoss key c now S) = (if k = key \<and> d = c then Some now else lossOf k d S)"
  by (auto simp: lossOf_def recordLoss_def js_get_set split: option.splits)

lemma lossOf_clearLosses: "lossOf k d (clearLosses key S) = (if k = key then None else lossOf k d S)"
  by (simp add: lossOf_def clearLosses_def js_get_delete)

lemma lossOf_cancel [simp]: "lossOf k d (cancel key S) = lossOf k d S"
  by (simp add: lossOf_def cancel_def)

lemma isDeferred_defer_release:
  "isDeferred k (snd (defer_release key now S)) \<longleftrightarrow> (k = key \<and> 0 < graceMs S) \<or> (k \<noteq> key \<and> isDeferred k S)"
  by (auto simp: defer_release_def Let_def isDeferred_def cancel_def js_has_set js_has_delete)

lemma fst_defer_release: "fst (defer_release key now S) \<longleftrightarrow> graceMs S \<le> 0"
  by (simp add: defer_release_def Let_def)

lemma isDeferred_resolveOpen:
  "isDeferred k (snd (resolveOpen key c now S)) \<longleftrightarrow> k \<noteq> key \<and> isDeferred k S"
  by (auto simp: resolveOpen_def Let_def isDeferred_def cancel_def js_has_delete split: option.splits)

lemma fst_resolveOpen:
  assumes "losses_ok S"
  shows "fst (resolveOpen key c now S) =
     (if \<not> isDeferred key S then NoRelease else if has_claim key c now S then Keep else Release)"
proof (cases "js_get (lostClients S) key")
  case None
  then show ?thesis by (simp add: resolveOpen_def isDeferred_def has_claim_def lossOf_def)
next
  case (Some lost)
  then have "js_map_ok lost" using assms by (simp add: losses_ok_def)
  then have "js_has (drop_expired (graceMs S) now lost) c \<longleftrightarrow> has_claim key c now S"
    using Some by (auto simp: js_has_get js_get_drop_expired has_claim_def lossOf_def split: option.splits)
  then show ?thesis using Some by (simp add: resolveOpen_def isDeferred_def Let_def)
qed

lemma lossOf_resolveOpen:
  assumes "losses_ok S"
  shows "lossOf k d (snd (resolveOpen key c now S)) =
     (if k \<noteq> key then lossOf k d S
      else if d = c \<or> \<not> has_claim key d now S then None else lossOf k d S)"
proof (cases "js_get (lostClients S) key")
  case None
  then show ?thesis by (auto simp: resolveOpen_def Let_def lossOf_def cancel_def)
next
  case (Some lost)
  then have "js_map_ok lost" using assms by (simp add: losses_ok_def)
  then have del: "js_get (js_delete c (drop_expired (graceMs S) now lost)) d =
      (if d = c \<or> \<not> has_claim key d now S then None else lossOf key d S)"
    using Some by (auto simp: js_get_delete js_get_drop_expired has_claim_def lossOf_def split: option.splits)
  show ?thesis
  proof (cases "js_delete c (drop_expired (graceMs S) now lost) = []")
    case True
    with del have "d = c \<or> \<not> has_claim key d now S \<or> lossOf key d S = None" by (auto split: if_splits)
    with True Some show ?thesis
      by (auto simp: resolveOpen_def Let_def lossOf_def cancel_def js_get_delete)
  next
    case False
    with Some del show ?thesis
      by (auto simp: resolveOpen_def Let_def lossOf_def cancel_def js_get_set)
  qed
qed

lemma losses_ok_frame [simp]:
  "losses_ok (S\<lparr>deferred := ds\<rparr>) = losses_ok S" "losses_ok (cancel key S) = losses_ok S"
  "losses_ok (snd (defer_release key now S)) = losses_ok S"
  by (simp_all add: losses_ok_def cancel_def defer_release_def Let_def)

lemma losses_ok_new: "losses_ok (new_scheduler g)"
  by (simp add: losses_ok_def new_scheduler_def)

lemma losses_ok_recordLoss: "losses_ok S \<Longrightarrow> losses_ok (recordLoss key c now S)"
  by (cases "js_get (lostClients S) key")
     (auto simp: losses_ok_def recordLoss_def js_get_set intro: js_map_ok_set split: if_splits)

lemma losses_ok_clearLosses: "losses_ok S \<Longrightarrow> losses_ok (clearLosses key S)"
  by (auto simp: losses_ok_def clearLosses_def js_get_delete split: if_splits)

lemma losses_ok_resolveOpen: "losses_ok S \<Longrightarrow> losses_ok (snd (resolveOpen key c now S))"
  by (cases "js_get (lostClients S) key")
     (auto simp: losses_ok_def resolveOpen_def cancel_def js_get_delete js_get_set Let_def drop_expired_def
       intro!: js_map_ok_delete js_map_ok_filter)

lemmas losses_ok_steps = losses_ok_new losses_ok_recordLoss losses_ok_clearLosses losses_ok_resolveOpen

lemma timerFires_deferred:
  "timerFires key now S = Some S' \<Longrightarrow> isDeferred key S \<and> (isDeferred k S' \<longleftrightarrow> k \<noteq> key \<and> isDeferred k S)"
  by (cases "js_get (deferred S) key") (auto simp: timerFires_def isDeferred_def js_has_delete js_has_get js_get_delete split: if_splits)

subsection \<open>Properties\<close>

text \<open>
  an open of a document that waits out its grace keeps the unsaved text exactly for a client that
  was itself lost from this document less than the grace ago; any other opener releases the document
  first. Either way the deferral is over, the opener's claim is used up, and no claim on another
  document is touched.
\<close>

theorem deferred_open_decision:
  assumes "losses_ok S"
  shows "let (decision, S') = resolveOpen key c now S
         in (decision = Keep \<longleftrightarrow> isDeferred key S \<and> (\<exists>since. lossOf key c S = Some since \<and> now - since < graceMs S)) \<and>
            (decision = NoRelease \<longleftrightarrow> \<not> isDeferred key S) \<and> \<not> isDeferred key S' \<and> lossOf key c S' = None \<and>
            (\<forall>k d. k \<noteq> key \<longrightarrow> lossOf k d S' = lossOf k d S \<and> isDeferred k S' = isDeferred k S)"
  using fst_resolveOpen [OF assms] lossOf_resolveOpen [OF assms] isDeferred_resolveOpen
  by (auto simp: case_prod_beta Let_def has_claim_def split: option.splits)

theorem deferred_open_decision_witness:
  "fst (resolveOpen ''a'' ''form'' 105 (snd (defer_release ''a'' 100 (recordLoss ''a'' ''form'' 100 (new_scheduler 10))))) = Keep"
proof -
  let ?S = "snd (defer_release ''a'' 100 (recordLoss ''a'' ''form'' 100 (new_scheduler 10)))"
  have "losses_ok ?S" by (simp add: losses_ok_steps)
  from deferred_open_decision [OF this, of "''a''" "''form''" 105] show ?thesis
    by (auto simp: isDeferred_def defer_release_def recordLoss_def new_scheduler_def cancel_def js_has_def
        lossOf_def case_prod_beta Let_def)
qed

text \<open>
  a deferred release runs exactly once its whole grace has passed: its timer is due at the deferral
  plus the grace and no earlier, firing ends the deferral, and it does not fire again; without a grace
  the release runs in the deferral itself and nothing is left waiting.
\<close>

theorem grace_timer:
  "let (now_released, S') = defer_release key t S
   in (now_released \<longleftrightarrow> graceMs S \<le> 0) \<and> (isDeferred key S' \<longleftrightarrow> \<not> now_released) \<and>
      ((\<exists>S''. timerFires key now S' = Some S'') \<longleftrightarrow> 0 < graceMs S \<and> t + graceMs S \<le> now) \<and>
      (\<forall>S''. timerFires key now S' = Some S'' \<longrightarrow> \<not> isDeferred key S'' \<and> (\<forall>later. timerFires key later S'' = None))"
  by (auto simp: defer_release_def timerFires_def isDeferred_def cancel_def Let_def js_get_set js_get_delete
      js_has_set js_has_delete split: if_splits)

theorem grace_timer_witness:
  "\<exists>S''. timerFires ''a'' 110 (snd (defer_release ''a'' 100 (new_scheduler 10))) = Some S'' \<and> timerFires ''a'' 200 S'' = None"
  using grace_timer [of "''a''" 100 "new_scheduler 10" 110]
  by (auto simp: case_prod_beta new_scheduler_def)

end
