(* ===== verification/TextHash.thy ===== *)
theory TextHash
  imports Prelude
begin

section \<open>The digest of a text\<close>

text \<open>
  \<open>textHash\<close> of \<open>protocol/src/util.ts\<close>: the cyrb53 digest by which the text ledger and every client
  tell whether a text changed. \<open>Math.imul\<close>, \<open>>>>\<close> and \<open>^\<close> are the operations of a 32-bit word; a
  code unit, 16 bits wide, is widened by \<open>ucast\<close>.

  The digest is not injective, and no theorem here says so. What holds, and is proved: the parts of a
  text may be hashed apart, and a change of a single code unit always changes the digest, because
  each round and the finalisation are bijections of the state.
\<close>

unbundle bit_operations_syntax

type_synonym u32 = "32 word"

definition round1 :: "16 word \<Rightarrow> u32 \<Rightarrow> u32" where
  "round1 code h = (h XOR ucast code) * 2654435761"

definition round2 :: "16 word \<Rightarrow> u32 \<Rightarrow> u32" where
  "round2 code h = (h XOR ucast code) * 1597334677"

definition absorb :: "16 word \<Rightarrow> u32 \<times> u32 \<Rightarrow> u32 \<times> u32" where
  "absorb code = (\<lambda>(h1, h2). (round1 code h1, round2 code h2))"

text \<open>\<open>h ^ (h >>> n)\<close>, the mixing step of the finalisation.\<close>

definition xorshift :: "nat \<Rightarrow> u32 \<Rightarrow> u32" where
  "xorshift n h = h XOR drop_bit n h"

definition finalise :: "u32 \<times> u32 \<Rightarrow> u32 \<times> u32" where
  "finalise = (\<lambda>(h1, h2).
     let h1a = xorshift 16 h1 * 2246822507;
         h1b = h1a XOR (xorshift 13 h2 * 3266489909);
         h2a = xorshift 16 h2 * 2246822507;
         h2b = h2a XOR (xorshift 13 h1b * 3266489909)
     in (h2b, h1b))"

definition cyrb53 :: "text_body list \<Rightarrow> u32 \<times> u32" where
  "cyrb53 parts = finalise (fold (\<lambda>part s. fold absorb part s) parts (0xdeadbeef, 0x41c6ce57))"

text \<open>\<open>toString(16)\<close> on a 32-bit word, padded to eight digits: its eight hexadecimal digits.\<close>

definition hex_digit :: "u32 \<Rightarrow> char" where
  "hex_digit w = ''0123456789abcdef'' ! unat (w AND 15)"

definition hex8 :: "u32 \<Rightarrow> string" where
  "hex8 w = map (\<lambda>i. hex_digit (drop_bit (4 * (7 - i)) w)) [0..<8]"

definition textHash_parts :: "text_body list \<Rightarrow> string" where
  "textHash_parts parts = (let (high, low) = cyrb53 parts in hex8 high @ hex8 low)"

definition textHash :: "text_body \<Rightarrow> string" where
  "textHash text = textHash_parts [text]"

subsection \<open>Rounds and finalisation are injective\<close>

lemma odd_mult_cancel:
  fixes a b c :: u32
  assumes "odd (uint c)" and "a * c = b * c"
  shows "a = b"
proof -
  have "(uint a * uint c) mod 2 ^ 32 = (uint b * uint c) mod 2 ^ 32"
    using arg_cong [OF assms(2), of uint] by (simp add: uint_word_ariths)
  then have "(2::int) ^ 32 dvd (uint a - uint b) * uint c"
    by (simp add: mod_eq_dvd_iff left_diff_distrib)
  moreover have "coprime ((2::int) ^ 32) (uint c)"
    using assms(1) by (simp only: coprime_power_left_iff coprime_left_2_iff_odd) simp
  ultimately have "(2::int) ^ 32 dvd uint a - uint b"
    by (simp only: coprime_dvd_mult_left_iff)
  then have "uint a mod 2 ^ 32 = uint b mod 2 ^ 32"
    by (simp add: mod_eq_dvd_iff)
  moreover have "uint a < 2 ^ 32" "uint b < 2 ^ 32" "0 \<le> uint a" "0 \<le> uint b"
    using uint_lt2p [of a] uint_lt2p [of b] by simp_all
  ultimately show ?thesis by (simp add: word_uint_eq_iff)
qed

lemma xor_cancel:
  fixes a b c :: "'a::len word"
  shows "a XOR c = b XOR c \<longleftrightarrow> a = b"
  by (metis xor.right_neutral xor_self_eq xor.assoc)

lemma xor_cancel_left:
  fixes a b c :: "'a::len word"
  shows "c XOR a = c XOR b \<longleftrightarrow> a = b"
  by (simp add: xor.commute [of c] xor_cancel)

lemma round1_inj: "round1 code h = round1 code h' \<longleftrightarrow> h = h'"
  by (auto simp: round1_def xor_cancel dest: odd_mult_cancel [rotated])

lemma round2_inj: "round2 code h = round2 code h' \<longleftrightarrow> h = h'"
  by (auto simp: round2_def xor_cancel dest: odd_mult_cancel [rotated])

lemma ucast16_inj: "(ucast (x :: 16 word) :: u32) = ucast y \<longleftrightarrow> x = y"
proof
  assume "(ucast x :: u32) = ucast y"
  then have "(ucast (ucast x :: u32) :: 16 word) = ucast (ucast y :: u32)"
    by (rule arg_cong)
  then show "x = y" by (simp add: ucast_down_ucast_id is_down)
qed simp

lemma round1_code: "round1 c h = round1 c' h \<longleftrightarrow> c = c'"
  by (auto simp: round1_def xor_cancel_left ucast16_inj dest: odd_mult_cancel [rotated])

lemma xorshift16_involution: "xorshift 16 (xorshift 16 h) = h"
proof -
  have "drop_bit 32 h = 0"
    by (rule bit_eqI) (simp add: bit_drop_bit_eq bit_imp_le_length)
  then show ?thesis
    by (simp add: xorshift_def xor.assoc)
qed

lemma xorshift16_inj: "xorshift 16 h = xorshift 16 h' \<longleftrightarrow> h = h'"
  by (metis xorshift16_involution)

lemma finalise_inj: "finalise s = finalise s' \<longleftrightarrow> s = s'"
proof
  assume eq: "finalise s = finalise s'"
  obtain a b where s: "s = (a, b)" by (cases s)
  obtain c d where s': "s' = (c, d)" by (cases s')
  from eq have low: "xorshift 16 a * 2246822507 XOR (xorshift 13 b * 3266489909)
      = xorshift 16 c * 2246822507 XOR (xorshift 13 d * 3266489909)"
    by (simp add: s s' finalise_def Let_def)
  from eq have "xorshift 16 b * 2246822507 = xorshift 16 d * 2246822507"
    by (simp add: s s' finalise_def Let_def low xor_cancel)
  then have b: "b = d"
    using odd_mult_cancel [of 2246822507 "xorshift 16 b" "xorshift 16 d"] by (simp add: xorshift16_inj)
  from low have "xorshift 16 a * 2246822507 = xorshift 16 c * 2246822507"
    by (simp add: b xor_cancel)
  then have "a = c"
    using odd_mult_cancel [of 2246822507 "xorshift 16 a" "xorshift 16 c"] by (simp add: xorshift16_inj)
  with b show "s = s'" by (simp add: s s')
qed simp

subsection \<open>Hexadecimal digits determine the word\<close>

lemma hex_digit_inj: "hex_digit v = hex_digit w \<longleftrightarrow> v AND 15 = w AND 15"
proof
  have lt: "unat (u AND 15) < 16" for u :: u32
    using word_and_le1 [of u 15] by (simp add: word_le_nat_alt)
  have dist: "distinct ''0123456789abcdef''" by simp
  assume "hex_digit v = hex_digit w"
  then have "unat (v AND 15) = unat (w AND 15)"
    using lt [of v] lt [of w] nth_eq_iff_index_eq [OF dist] by (simp add: hex_digit_def)
  then show "v AND 15 = w AND 15" by (simp only: word_unat_eq_iff)
qed (simp add: hex_digit_def)

lemma nibble_bit:
  fixes w :: u32
  shows "bit w n \<longleftrightarrow> bit (drop_bit (4 * (n div 4)) w AND 15) (n mod 4)"
proof -
  have "bit (15 :: u32) (n mod 4)"
  proof -
    have "n mod 4 = 0 \<or> n mod 4 = 1 \<or> n mod 4 = 2 \<or> n mod 4 = 3" by arith
    then show ?thesis by (elim disjE) (simp_all add: bit_numeral_rec)
  qed
  moreover have "4 * (n div 4) + n mod 4 = n" by simp
  ultimately show ?thesis by (simp only: bit_and_iff bit_drop_bit_eq) simp
qed

lemma hex8_inj: "hex8 v = hex8 w \<longleftrightarrow> v = w"
proof
  assume eq: "hex8 v = hex8 w"
  have nibble: "drop_bit (4 * k) v AND 15 = drop_bit (4 * k) w AND 15" if "k < 8" for k
  proof -
    have "hex8 v ! (7 - k) = hex8 w ! (7 - k)" by (simp add: eq)
    moreover have "[0..<8] ! (7 - k) = 7 - k" by (subst nth_upt) auto
    ultimately show ?thesis using that by (simp add: hex8_def hex_digit_inj del: upt_Suc)
  qed
  show "v = w"
  proof (rule bit_word_eqI)
    fix n
    assume "n < LENGTH(32)"
    then have "n div 4 < 8" by simp
    then show "bit v n \<longleftrightarrow> bit w n"
      by (simp only: nibble_bit [of v n] nibble_bit [of w n] nibble)
  qed
qed simp

lemma length_hex8 [simp]: "length (hex8 w) = 8"
  by (simp add: hex8_def)

subsection \<open>The digest\<close>

lemma absorb_inj: "absorb c s = absorb c s' \<longleftrightarrow> s = s'"
  by (auto simp: absorb_def round1_inj round2_inj split: prod.splits)

lemma absorb_fold_inj: "fold absorb cs s = fold absorb cs s' \<longleftrightarrow> s = s'"
  by (induction cs arbitrary: s s') (auto simp: absorb_inj)

lemma fold_absorb_parts: "fold (\<lambda>part s. fold absorb part s) parts s = fold absorb (concat parts) s"
  by (induction parts arbitrary: s) auto

lemma textHash_eq_state:
  "textHash a = textHash b \<longleftrightarrow> fold absorb a (0xdeadbeef, 0x41c6ce57) = fold absorb b (0xdeadbeef, 0x41c6ce57)"
proof -
  obtain h l where a: "cyrb53 [a] = (h, l)" by (cases "cyrb53 [a]")
  obtain h' l' where b: "cyrb53 [b] = (h', l')" by (cases "cyrb53 [b]")
  have "textHash a = textHash b \<longleftrightarrow> cyrb53 [a] = cyrb53 [b]"
    by (simp add: textHash_def textHash_parts_def a b hex8_inj)
  then show ?thesis by (simp add: cyrb53_def finalise_inj)
qed

lemma textHash_length: "length (textHash text) = 16"
  by (simp add: textHash_def textHash_parts_def split: prod.splits)

text \<open>
  a text hashed in parts, as the server hashes a large document, has the digest of the parts
  joined, so a client that holds the whole text can compare.
\<close>

theorem textHash_parts_join: "textHash_parts parts = textHash (concat parts)"
  by (simp add: textHash_def textHash_parts_def cyrb53_def fold_absorb_parts)

text \<open>
  C37: replacing a single code unit anywhere in a text always changes its digest. (Two texts that
  differ in more than one code unit can share a digest.)
\<close>

theorem textHash_single_edit:
  assumes "c \<noteq> c'"
  shows "textHash (pre @ c # post) \<noteq> textHash (pre @ c' # post)"
proof
  assume "textHash (pre @ c # post) = textHash (pre @ c' # post)"
  then have "absorb c (fold absorb pre (0xdeadbeef, 0x41c6ce57)) = absorb c' (fold absorb pre (0xdeadbeef, 0x41c6ce57))"
    by (simp add: textHash_eq_state absorb_fold_inj)
  then have "c = c'" by (auto simp: absorb_def round1_code split: prod.splits)
  with assms show False by simp
qed

theorem textHash_single_edit_witness:
  "textHash ([104] @ 105 # [33]) \<noteq> textHash ([104] @ 106 # [33])"
  by (rule textHash_single_edit) simp

end
