(* ===== verification/TextLedger.thy ===== *)
theory TextLedger
  imports TextHash
begin

section \<open>The text ledger\<close>

text \<open>
  \<open>DefaultTextLedger\<close> of \<open>core/src/documents/text-ledger.ts\<close>: where the version sequence of each
  document stands, kept across closes and reopens, and who authored each version. A text document of
  the store is an object with an identity, which keys the ledger's cache of digests (a \<open>WeakMap\<close> in the
  code); the default configuration changes a document in place, so the identity outlives a change.
\<close>

record text_document =
  docId :: nat
  docUri :: uri
  docLanguage :: string
  docVersion :: int
  docText :: text_body

record text_record =
  recVersion :: int
  recHash :: string

record text_ledger =
  records :: "(uri, text_record) js_map"
  authors :: "(uri, (int, client_id) js_map) js_map"
  hashes :: "(nat, int \<times> string) js_map"

definition new_ledger :: text_ledger where
  "new_ledger = \<lparr>records = [], authors = [], hashes = []\<rparr>"

subsection \<open>Operations\<close>

definition openingVersion :: "uri \<Rightarrow> text_body \<Rightarrow> text_ledger \<Rightarrow> int option" where
  "openingVersion key text L =
     (case js_get (records L) key of
        None \<Rightarrow> None
      | Some r \<Rightarrow> Some (if recHash r = textHash text then recVersion r else recVersion r + 1))"

definition hashOf :: "text_document \<Rightarrow> text_ledger \<Rightarrow> string \<times> text_ledger" where
  "hashOf d L =
     (case js_get (hashes L) (docId d) of
        Some (v, h) \<Rightarrow>
          if v = docVersion d then (h, L)
          else (textHash (docText d), L\<lparr>hashes := js_set (docId d) (docVersion d, textHash (docText d)) (hashes L)\<rparr>)
      | None \<Rightarrow> (textHash (docText d), L\<lparr>hashes := js_set (docId d) (docVersion d, textHash (docText d)) (hashes L)\<rparr>))"

definition record_release :: "uri \<Rightarrow> text_document \<Rightarrow> text_ledger \<Rightarrow> text_ledger" where
  "record_release key d L =
     (let (h, L') = hashOf d L
      in L'\<lparr>records := js_set key \<lparr>recVersion = docVersion d, recHash = h\<rparr> (records L')\<rparr>)"

definition recordOf :: "uri \<Rightarrow> text_ledger \<Rightarrow> text_record option" where
  "recordOf key L = js_get (records L) key"

definition reconcile :: "uri \<Rightarrow> text_body \<Rightarrow> text_ledger \<Rightarrow> int \<times> text_ledger" where
  "reconcile key text L =
     (let step = (\<lambda>version. (version,
            L\<lparr>records := js_set key \<lparr>recVersion = version, recHash = textHash text\<rparr> (records L)\<rparr>))
      in case js_get (records L) key of
           Some r \<Rightarrow> if recHash r = textHash text then (recVersion r, L) else step (recVersion r + 1)
         | None \<Rightarrow> step 0)"

text \<open>
  \<open>history[version] = author\<close> on an array: the map from version to author, whose \<open>at(-1)\<close> is the
  entry of the greatest index. A negative version is a plain property of the array, which \<open>at\<close> does
  not count.
\<close>

definition setAuthor :: "uri \<Rightarrow> int \<Rightarrow> client_id \<Rightarrow> text_ledger \<Rightarrow> text_ledger" where
  "setAuthor key version author L =
     L\<lparr>authors := js_set key
         (js_set version author (case js_get (authors L) key of None \<Rightarrow> [] | Some h \<Rightarrow> h)) (authors L)\<rparr>"

definition latest_author :: "(int, client_id) js_map \<Rightarrow> client_id option" where
  "latest_author h =
     (let ks = filter (\<lambda>k. 0 \<le> k) (js_keys h)
      in if ks = [] then None else js_get h (fold max ks 0))"

definition authorOf :: "uri \<Rightarrow> int option \<Rightarrow> text_ledger \<Rightarrow> client_id option" where
  "authorOf key version L =
     (case version of
        Some v \<Rightarrow> Option.bind (js_get (authors L) key) (\<lambda>h. js_get h v)
      | None \<Rightarrow> Option.bind (js_get (authors L) key) latest_author)"

definition clearAuthors :: "uri \<Rightarrow> text_ledger \<Rightarrow> text_ledger" where
  "clearAuthors key L = L\<lparr>authors := js_delete key (authors L)\<rparr>"

lemmas ledger_defs = openingVersion_def record_release_def recordOf_def reconcile_def setAuthor_def
  authorOf_def clearAuthors_def

subsection \<open>The digest cache\<close>

text \<open>
  The cache is coherent for a document when an entry for its identity at its version is the digest of
  its text. A change of the text steps the version, so the entry of an older version is never used.
\<close>

definition cache_ok :: "text_document \<Rightarrow> text_ledger \<Rightarrow> bool" where
  "cache_ok d L \<longleftrightarrow> (\<forall>v h. js_get (hashes L) (docId d) = Some (v, h) \<longrightarrow>
     v \<le> docVersion d \<and> (v = docVersion d \<longrightarrow> h = textHash (docText d)))"

lemma hashOf_value: "cache_ok d L \<Longrightarrow> fst (hashOf d L) = textHash (docText d)"
  by (auto simp: hashOf_def cache_ok_def split: option.splits)

lemma hashOf_frame [simp]:
  "records (snd (hashOf d L)) = records L" "authors (snd (hashOf d L)) = authors L"
  by (auto simp: hashOf_def split: option.splits)

lemma cache_ok_hashOf:
  "cache_ok d L \<Longrightarrow> cache_ok d' L \<Longrightarrow> (docId d = docId d' \<Longrightarrow> d = d') \<Longrightarrow> cache_ok d' (snd (hashOf d L))"
  by (auto simp: hashOf_def cache_ok_def js_get_set split: option.splits if_splits)

lemma cache_ok_frame [simp]:
  "cache_ok d (L\<lparr>records := rs\<rparr>) = cache_ok d L" "cache_ok d (L\<lparr>authors := as\<rparr>) = cache_ok d L"
  by (simp_all add: cache_ok_def)

lemma recordOf_frame [simp]:
  "recordOf key (snd (hashOf d L)) = recordOf key L"
  "recordOf key (setAuthor k v a L) = recordOf key L"
  "recordOf key (clearAuthors k L) = recordOf key L"
  by (simp_all add: recordOf_def setAuthor_def clearAuthors_def)

lemma hashes_frame [simp]:
  "hashes (setAuthor k v a L) = hashes L" "hashes (clearAuthors k L) = hashes L"
  "hashes (snd (reconcile k t L)) = hashes L"
  by (auto simp: setAuthor_def clearAuthors_def reconcile_def Let_def split: option.splits)

lemma recordOf_record_release:
  "cache_ok d L \<Longrightarrow> recordOf k (record_release key d L) =
     (if k = key then Some \<lparr>recVersion = docVersion d, recHash = textHash (docText d)\<rparr> else recordOf k L)"
  using hashOf_value [of d L]
  by (auto simp: record_release_def recordOf_def js_get_set case_prod_beta Let_def)

lemma recordOf_reconcile:
  "recordOf k (snd (reconcile key text L)) =
     (if k = key then Some \<lparr>recVersion = fst (reconcile key text L), recHash = textHash text\<rparr> else recordOf k L)"
  by (auto simp: reconcile_def recordOf_def js_get_set Let_def split: option.splits)

subsection \<open>The contract of a version sequence\<close>

text \<open>
  What the store, the document factories and the clients' base-version gates rely on: a sequence per
  key that is recorded with a digest of the text it stands at, continued by a first open and by text
  that arrives from outside. The laws speak of digests, as the code compares them.
\<close>

locale version_sequence =
  fixes standing :: "'k \<Rightarrow> 's \<Rightarrow> (int \<times> 'h) option"
    and digest :: "'t \<Rightarrow> 'h"
    and opens_at :: "'k \<Rightarrow> 't \<Rightarrow> 's \<Rightarrow> int option"
    and external :: "'k \<Rightarrow> 't \<Rightarrow> 's \<Rightarrow> int \<times> 's"
  assumes opening_standing:
      "opens_at k t s = map_option (\<lambda>(v, h). if h = digest t then v else v + 1) (standing k s)"
    and external_version:
      "fst (external k t s) = (case opens_at k t s of None \<Rightarrow> 0 | Some v \<Rightarrow> v)"
    and external_standing:
      "standing k' (snd (external k t s)) =
         (if k' = k then Some (fst (external k t s), digest t) else standing k' s)"
begin

lemma opening_after_external: "opens_at k t (snd (external k t s)) = Some (fst (external k t s))"
  by (simp add: opening_standing external_standing)

lemma external_idem: "fst (external k t (snd (external k t s))) = fst (external k t s)"
  by (simp add: external_version [of k t "snd (external k t s)"] opening_after_external)

lemma external_steps:
  "digest t \<noteq> digest t' \<Longrightarrow> fst (external k t' (snd (external k t s))) = fst (external k t s) + 1"
  by (simp add: external_version [of k t' "snd (external k t s)"] opening_standing external_standing)

lemma external_frame: "k' \<noteq> k \<Longrightarrow> opens_at k' t' (snd (external k t s)) = opens_at k' t' s"
  by (simp add: opening_standing external_standing)

lemma opening_monotone: "standing k s = Some (v, h) \<Longrightarrow> opens_at k t s = Some w \<Longrightarrow> v \<le> w \<and> w \<le> v + 1"
  by (auto simp: opening_standing split: if_splits)

lemma opening_same_version: "standing k s = Some (v, h) \<Longrightarrow> opens_at k t s = Some v \<longleftrightarrow> digest t = h"
  by (auto simp: opening_standing)

end

definition standing_of :: "uri \<Rightarrow> text_ledger \<Rightarrow> (int \<times> string) option" where
  "standing_of key L = map_option (\<lambda>r. (recVersion r, recHash r)) (recordOf key L)"

interpretation seq: version_sequence standing_of textHash openingVersion reconcile
proof unfold_locales
  show "openingVersion k t s = map_option (\<lambda>(v, h). if h = textHash t then v else v + 1) (standing_of k s)" for k t s
    by (auto simp: openingVersion_def standing_of_def recordOf_def split: option.splits)
  show "fst (reconcile k t s) = (case openingVersion k t s of None \<Rightarrow> 0 | Some v \<Rightarrow> v)" for k t s
    by (auto simp: reconcile_def openingVersion_def Let_def split: option.splits)
  show "standing_of k' (snd (reconcile k t s)) =
      (if k' = k then Some (fst (reconcile k t s), textHash t) else standing_of k' s)" for k' k t s
    by (simp add: standing_of_def recordOf_reconcile)
qed

subsection \<open>Properties\<close>

text \<open>
  a released document that is opened again continues its sequence and never restarts it: with
  text of the same digest it opens at the version it was released at, with any other text exactly one
  step on; the release of one document leaves every other document's sequence alone.
\<close>

theorem reopen_continues_sequence:
  assumes "cache_ok d L"
  shows "openingVersion key text (record_release key d L) =
           Some (if textHash text = textHash (docText d) then docVersion d else docVersion d + 1) \<and>
         (other \<noteq> key \<longrightarrow> openingVersion other text (record_release key d L) = openingVersion other text L)"
  using recordOf_record_release [OF assms]
  by (auto simp: seq.opening_standing standing_of_def)

theorem reopen_continues_sequence_witness:
  "openingVersion ''a'' [104, 106] (record_release ''a''
     \<lparr>docId = 0, docUri = ''a'', docLanguage = ''x'', docVersion = 4, docText = [104, 105]\<rparr> new_ledger) = Some 5"
proof -
  have "textHash [104, 106] \<noteq> textHash [104, 105 :: 16 word]"
    using textHash_single_edit [of 106 105 "[104]" "[]"] by simp
  then show ?thesis
    by (subst reopen_continues_sequence [THEN conjunct1]) (simp_all add: cache_ok_def new_ledger_def)
qed

text \<open>
  text that reaches a closed document from outside the store steps its sequence exactly when its
  digest changed: reporting the same text again returns the same version, reporting text with another
  digest the next one, and a first open with the reported text opens at the reported version.
\<close>

theorem reconcile_steps_iff_changed:
  "let (v, L') = reconcile key text L
   in fst (reconcile key text' L') = (if textHash text' = textHash text then v else v + 1) \<and>
      openingVersion key text L' = Some v"
  using seq.external_steps [of "text" "text'" key L] seq.opening_after_external [of key "text" L]
    seq.external_version [of key "text'" "snd (reconcile key text L)"]
  by (auto simp: case_prod_beta Let_def seq.opening_standing seq.external_standing)

lemma fold_max_ge: "(a :: int) \<le> fold max ks a \<and> (\<forall>k \<in> set ks. k \<le> fold max ks a)"
proof (induction ks arbitrary: a)
  case (Cons k ks)
  from Cons [of "max k a"] show ?case by auto
qed simp

lemma fold_max_mem: "fold max ks (a :: int) = a \<or> fold max ks a \<in> set ks"
proof (induction ks arbitrary: a)
  case (Cons k ks)
  from Cons [of "max k a"] show ?case by (auto simp: max_def split: if_splits)
qed simp

lemma latest_author_Max:
  assumes "js_get h v = Some a" "0 \<le> v" "\<And>w. js_has h w \<Longrightarrow> w \<le> v"
  shows "latest_author h = Some a"
proof -
  let ?ks = "filter (\<lambda>k. 0 \<le> k) (js_keys h)"
  have v: "v \<in> set ?ks" using assms(1,2) by (auto dest: map_of_SomeD intro: rev_image_eqI)
  have "v \<le> fold max ?ks 0" using fold_max_ge [of 0 ?ks] v by blast
  moreover have "fold max ?ks 0 \<le> v"
    using fold_max_mem [of ?ks 0] assms(2,3) by (auto simp: js_has_def)
  ultimately have "fold max ?ks 0 = v" by simp
  moreover have "?ks \<noteq> []" using v by (metis empty_iff list.set(1))
  ultimately show ?thesis using assms(1) by (simp add: latest_author_def Let_def)
qed

text \<open>
  the author of a version is who last was recorded for it; asked without a version, the ledger
  names the author of the newest version, and version 0 is never read as "the newest".
\<close>

theorem author_lookup:
  assumes "0 \<le> v" and "\<And>w h. js_get (authors L) key = Some h \<Longrightarrow> js_has h w \<Longrightarrow> w \<le> v"
  shows "authorOf key None (setAuthor key v a L) = Some a \<and> authorOf key (Some v) (setAuthor key v a L) = Some a \<and>
         (w \<noteq> v \<longrightarrow> authorOf key (Some w) (setAuthor key v a L) = authorOf key (Some w) L)"
proof -
  let ?h = "js_set v a (case js_get (authors L) key of None \<Rightarrow> [] | Some h \<Rightarrow> h)"
  have "latest_author ?h = Some a"
  proof (rule latest_author_Max [of _ v])
    show "js_get ?h v = Some a" by (simp add: js_get_set)
    show "w \<le> v" if "js_has ?h w" for w
      using that assms(2) [of _ w] by (cases "js_get (authors L) key") (auto simp: js_has_get js_get_set split: if_splits)
  qed (rule assms(1))
  then show ?thesis
    by (auto simp: authorOf_def setAuthor_def js_get_set split: option.splits)
qed

theorem author_lookup_witness:
  "authorOf ''a'' None (setAuthor ''a'' 1 ''form'' (setAuthor ''a'' 0 ''editor'' new_ledger)) = Some ''form''"
  by (rule author_lookup [THEN conjunct1])
     (auto simp: setAuthor_def new_ledger_def js_has_def split: if_splits)

end
