(* ===== verification/DirtyState.thy ===== *)
theory DirtyState
  imports TextLedger
begin

section \<open>The dirty state tracker\<close>

text \<open>
  \<open>DefaultDirtyStateTracker\<close> of \<open>core/src/documents/dirty-state-tracker.ts\<close>: whether each document
  differs from what its file is known to hold, announced when the answer changes. A document released
  dirty still owes the announcement that it is clean; the token of that debt, a fresh object in the
  code, is a number never used before. An operation that may announce takes the ledger too, for the
  digest an announcement carries. \<open>dirtyEvents\<close> holds what \<open>onDidChangeDirty\<close> fired, in order.
\<close>

record text_state =
  tsVersion :: int
  tsHash :: string
  tsDirty :: bool

record dirty_entry =
  baseline :: "text_body option"
  dirty :: bool
  created :: bool

record tracker =
  states :: "(uri, dirty_entry) js_map"
  owedClean :: "(uri, nat) js_map"
  nextToken :: nat
  dirtyEvents :: "(uri \<times> text_state option) list"

definition new_tracker :: tracker where
  "new_tracker = \<lparr>states = [], owedClean = [], nextToken = 0, dirtyEvents = []\<rparr>"

subsection \<open>Operations\<close>

definition isDirty :: "uri \<Rightarrow> tracker \<Rightarrow> bool" where
  "isDirty key T = (case js_get (states T) key of None \<Rightarrow> False | Some e \<Rightarrow> dirty e)"

definition refreshDirty :: "uri \<Rightarrow> text_document \<Rightarrow> tracker \<times> text_ledger \<Rightarrow> tracker \<times> text_ledger" where
  "refreshDirty key d = (\<lambda>(T, L).
     case js_get (states T) key of
       None \<Rightarrow> (T, L)
     | Some e \<Rightarrow>
         (let now = (Some (docText d) \<noteq> baseline e)
          in if now = dirty e then (T, L)
             else (let (h, L') = hashOf d L
                   in (T\<lparr>states := js_set key (e\<lparr>dirty := now\<rparr>) (states T),
                         dirtyEvents := dirtyEvents T @ [(key, Some \<lparr>tsVersion = docVersion d, tsHash = h, tsDirty = now\<rparr>)]\<rparr>, L'))))"

definition track :: "uri \<Rightarrow> text_document \<Rightarrow> text_body option \<Rightarrow> tracker \<times> text_ledger \<Rightarrow> tracker \<times> text_ledger" where
  "track key d diskText = (\<lambda>(T, L).
     refreshDirty key d
       (T\<lparr>states := js_set key \<lparr>baseline = diskText, dirty = js_has (owedClean T) key, created = False\<rparr> (states T),
          owedClean := js_delete key (owedClean T)\<rparr>, L))"

definition setDiskBaseline :: "uri \<Rightarrow> text_document \<Rightarrow> text_body option \<Rightarrow> tracker \<times> text_ledger \<Rightarrow> tracker \<times> text_ledger" where
  "setDiskBaseline key d text = (\<lambda>(T, L).
     case js_get (states T) key of
       None \<Rightarrow> (T, L)
     | Some e \<Rightarrow>
         refreshDirty key d
           (T\<lparr>states := js_set key (e\<lparr>baseline := text, created := created e \<and> text = None\<rparr>) (states T)\<rparr>, L))"

definition hasDiskBaseline :: "uri \<Rightarrow> tracker \<Rightarrow> bool" where
  "hasDiskBaseline key T = (case js_get (states T) key of None \<Rightarrow> False | Some e \<Rightarrow> baseline e \<noteq> None)"

definition markCreated :: "uri \<Rightarrow> text_document \<Rightarrow> tracker \<times> text_ledger \<Rightarrow> tracker \<times> text_ledger" where
  "markCreated key d = (\<lambda>(T, L).
     case js_get (states T) key of
       None \<Rightarrow> (T, L)
     | Some e \<Rightarrow>
         refreshDirty key d (T\<lparr>states := js_set key (e\<lparr>baseline := None, created := True\<rparr>) (states T)\<rparr>, L))"

definition isUnsavedCreation :: "uri \<Rightarrow> tracker \<Rightarrow> bool" where
  "isUnsavedCreation key T = (case js_get (states T) key of None \<Rightarrow> False | Some e \<Rightarrow> created e)"

text \<open>\<open>release\<close> answers the token of the announcement a document released dirty owes.\<close>

definition release :: "uri \<Rightarrow> tracker \<Rightarrow> nat option \<times> tracker" where
  "release key T =
     (let T' = T\<lparr>states := js_delete key (states T)\<rparr>
      in if isDirty key T
         then (Some (nextToken T), T'\<lparr>owedClean := js_set key (nextToken T) (owedClean T'), nextToken := Suc (nextToken T)\<rparr>)
         else (None, T'))"

definition isOwed :: "uri \<Rightarrow> nat \<Rightarrow> tracker \<Rightarrow> bool" where
  "isOwed key token T \<longleftrightarrow> js_get (owedClean T) key = Some token"

definition announce :: "uri \<Rightarrow> nat \<Rightarrow> text_state option \<Rightarrow> tracker \<Rightarrow> tracker" where
  "announce key token text T =
     (if isOwed key token T
      then T\<lparr>owedClean := js_delete key (owedClean T), dirtyEvents := dirtyEvents T @ [(key, text)]\<rparr>
      else T)"

lemmas tracker_defs = isDirty_def refreshDirty_def track_def setDiskBaseline_def hasDiskBaseline_def
  markCreated_def isUnsavedCreation_def release_def isOwed_def announce_def

subsection \<open>What an observer of the events knows\<close>

text \<open>The answers announced for a document, oldest first: an event without text says clean.\<close>

definition announced :: "uri \<Rightarrow> (uri \<times> text_state option) list \<Rightarrow> bool list" where
  "announced key evs =
     map (\<lambda>(_, text). case text of None \<Rightarrow> False | Some ts \<Rightarrow> tsDirty ts) (filter (\<lambda>(k, _). k = key) evs)"

fun alternating :: "bool \<Rightarrow> bool list \<Rightarrow> bool" where
  "alternating prev [] = True"
| "alternating prev (b # bs) = (b \<noteq> prev \<and> alternating b bs)"

definition believed :: "uri \<Rightarrow> tracker \<Rightarrow> bool" where
  "believed key T = (let bs = announced key (dirtyEvents T) in if bs = [] then False else last bs)"

lemma alternating_snoc:
  "alternating a (bs @ [b]) \<longleftrightarrow> alternating a bs \<and> b \<noteq> (if bs = [] then a else last bs)"
  by (induction bs arbitrary: a) auto

lemma announced_snoc:
  "announced key (evs @ [(k, text)]) =
     announced key evs @ (if k = key then [case text of None \<Rightarrow> False | Some ts \<Rightarrow> tsDirty ts] else [])"
  by (simp add: announced_def)

text \<open>
  The tracker and its observers agree on a document: its announced answers alternate, the last one is
  the dirty flag of a tracked document, and for an untracked one it is "dirty" exactly while the clean
  announcement is owed. No document is tracked and owed at once.
\<close>

definition agree :: "dirty_entry option \<Rightarrow> nat option \<Rightarrow> bool list \<Rightarrow> bool" where
  "agree entry owed bs \<longleftrightarrow> alternating False bs \<and>
     (let belief = (bs \<noteq> [] \<and> last bs)
      in case entry of Some e \<Rightarrow> belief = dirty e \<and> owed = None | None \<Rightarrow> belief = (owed \<noteq> None))"

definition tracker_ok :: "tracker \<Rightarrow> bool" where
  "tracker_ok T \<longleftrightarrow>
     (\<forall>key. agree (js_get (states T) key) (js_get (owedClean T) key) (announced key (dirtyEvents T))) \<and>
     (\<forall>key token. js_get (owedClean T) key = Some token \<longrightarrow> token < nextToken T)"

lemma tracker_ok_agree:
  "tracker_ok T \<Longrightarrow> agree (js_get (states T) key) (js_get (owedClean T) key) (announced key (dirtyEvents T))"
  by (simp add: tracker_ok_def)

lemma tracker_ok_token: "tracker_ok T \<Longrightarrow> js_get (owedClean T) key = Some token \<Longrightarrow> token < nextToken T"
  by (simp add: tracker_ok_def)

text \<open>Only the document an operation is about can change; the others keep their agreement.\<close>

lemma tracker_ok_update:
  assumes "tracker_ok T"
    and "\<And>k. k \<noteq> key \<Longrightarrow> js_get (states T') k = js_get (states T) k"
    and "\<And>k. k \<noteq> key \<Longrightarrow> js_get (owedClean T') k = js_get (owedClean T) k"
    and "\<And>k. k \<noteq> key \<Longrightarrow> announced k (dirtyEvents T') = announced k (dirtyEvents T)"
    and "agree (js_get (states T') key) (js_get (owedClean T') key) (announced key (dirtyEvents T'))"
    and "nextToken T \<le> nextToken T'"
    and "\<And>token. js_get (owedClean T') key = Some token \<Longrightarrow> token < nextToken T'"
  shows "tracker_ok T'"
  unfolding tracker_ok_def
proof (intro conjI allI impI)
  show "agree (js_get (states T') k) (js_get (owedClean T') k) (announced k (dirtyEvents T'))" for k
    using assms(1-5) by (cases "k = key") (simp_all add: tracker_ok_def)
  show "token < nextToken T'" if "js_get (owedClean T') k = Some token" for k token
  proof (cases "k = key")
    case False
    with that assms(3) have "token < nextToken T" using tracker_ok_token [OF assms(1)] by metis
    with assms(6) show ?thesis by simp
  qed (use that assms(7) in simp)
qed

lemma new_tracker_ok [simp]: "tracker_ok new_tracker"
  by (simp add: tracker_ok_def agree_def new_tracker_def announced_def)

subsection \<open>Effects of the operations\<close>

lemma refreshDirty_states:
  "js_get (states (fst (refreshDirty key d (T, L)))) k =
     (if k = key then map_option (\<lambda>e. e\<lparr>dirty := (Some (docText d) \<noteq> baseline e)\<rparr>) (js_get (states T) key)
      else js_get (states T) k)"
  by (auto simp: refreshDirty_def js_get_set case_prod_beta Let_def split: option.splits)

lemma refreshDirty_frame [simp]:
  "owedClean (fst (refreshDirty key d (T, L))) = owedClean T"
  "nextToken (fst (refreshDirty key d (T, L))) = nextToken T"
  "records (snd (refreshDirty key d (T, L))) = records L"
  "authors (snd (refreshDirty key d (T, L))) = authors L"
  by (auto simp: refreshDirty_def case_prod_beta Let_def split: option.splits)

lemma refreshDirty_ledger: "snd (refreshDirty key d (T, L)) = L \<or> snd (refreshDirty key d (T, L)) = snd (hashOf d L)"
  by (auto simp: refreshDirty_def case_prod_beta Let_def split: option.splits)

lemma refreshDirty_events:
  "dirtyEvents (fst (refreshDirty key d (T, L))) =
     dirtyEvents T @
     (case js_get (states T) key of
        None \<Rightarrow> []
      | Some e \<Rightarrow>
          if (Some (docText d) \<noteq> baseline e) = dirty e then []
          else [(key, Some \<lparr>tsVersion = docVersion d, tsHash = fst (hashOf d L), tsDirty = (Some (docText d) \<noteq> baseline e)\<rparr>)])"
  by (auto simp: refreshDirty_def case_prod_beta Let_def split: option.splits)

lemma js_has_states_refreshDirty: "js_has (states (fst (refreshDirty key d (T, L)))) k = js_has (states T) k"
  by (auto simp: js_has_get refreshDirty_states)

lemma refreshDirty_ok:
  assumes "tracker_ok T"
  shows "tracker_ok (fst (refreshDirty key d (T, L)))"
proof (rule tracker_ok_update [OF assms, of key], goal_cases)
  case (3 k)
  then show ?case by (auto simp: refreshDirty_events announced_def split: option.splits)
next
  case 4
  show ?case using tracker_ok_agree [OF assms, of key]
    by (auto simp: refreshDirty_events refreshDirty_states agree_def announced_snoc alternating_snoc
        Let_def split: option.splits)
qed (use tracker_ok_token [OF assms] in \<open>auto simp: refreshDirty_states\<close>)

text \<open>What \<open>track\<close> and the setters write before they refresh keeps the dirty flag an observer believes.\<close>

lemma track_ok:
  assumes "tracker_ok T" and "\<not> js_has (states T) key"
  shows "tracker_ok (fst (track key d disk (T, L)))"
  unfolding track_def split
proof (rule refreshDirty_ok, rule tracker_ok_update [OF assms(1), of key], goal_cases)
  case 4
  show ?case using tracker_ok_agree [OF assms(1), of key] assms(2)
    by (auto simp: agree_def js_get_set js_get_delete js_has_get Let_def)
qed (auto simp: js_get_set js_get_delete)

lemma tracker_ok_edit_state:
  assumes "tracker_ok T" and "js_get (states T) key = Some e0" and "dirty e = dirty e0"
  shows "tracker_ok (T\<lparr>states := js_set key e (states T)\<rparr>)"
proof (rule tracker_ok_update [OF assms(1), of key], goal_cases)
  case 4
  show ?case using tracker_ok_agree [OF assms(1), of key] assms(2,3)
    by (auto simp: agree_def js_get_set Let_def)
qed (use tracker_ok_token [OF assms(1)] in \<open>auto simp: js_get_set\<close>)

lemma setDiskBaseline_ok: "tracker_ok T \<Longrightarrow> tracker_ok (fst (setDiskBaseline key d text (T, L)))"
  by (auto simp: setDiskBaseline_def intro!: refreshDirty_ok tracker_ok_edit_state split: option.splits)

lemma markCreated_ok: "tracker_ok T \<Longrightarrow> tracker_ok (fst (markCreated key d (T, L)))"
  by (auto simp: markCreated_def intro!: refreshDirty_ok tracker_ok_edit_state split: option.splits)

lemma release_ok:
  assumes "tracker_ok T"
  shows "tracker_ok (snd (release key T))"
proof (rule tracker_ok_update [OF assms, of key], goal_cases)
  case 4
  show ?case using tracker_ok_agree [OF assms, of key]
    by (auto simp: agree_def release_def isDirty_def js_get_set js_get_delete Let_def split: option.splits)
next
  case (6 token)
  then show ?case using tracker_ok_token [OF assms, of key]
    by (auto simp: release_def js_get_set Let_def split: if_splits)
qed (auto simp: release_def js_get_set js_get_delete Let_def)

lemma announce_ok:
  assumes "tracker_ok T" and "case text of None \<Rightarrow> True | Some ts \<Rightarrow> \<not> tsDirty ts"
  shows "tracker_ok (announce key token text T)"
proof (cases "isOwed key token T")
  case True
  show ?thesis
  proof (rule tracker_ok_update [OF assms(1), of key], goal_cases)
    case 4
    show ?case using tracker_ok_agree [OF assms(1), of key] True assms(2)
      by (auto simp: agree_def announce_def isOwed_def js_get_delete announced_snoc alternating_snoc
          Let_def split: option.splits)
  qed (use True in \<open>auto simp: announce_def js_get_delete announced_snoc\<close>)
qed (use assms(1) in \<open>simp add: announce_def\<close>)

subsection \<open>Runs of the tracker\<close>

text \<open>
  The operations the store performs: it tracks a document only at its first open, when the document is
  not tracked, and the text it announces a released document clean with is never dirty.
\<close>

datatype tracker_op =
    TTrack uri text_document "text_body option"
  | TRefresh uri text_document
  | TSetDiskBaseline uri text_document "text_body option"
  | TMarkCreated uri text_document
  | TRelease uri
  | TAnnounce uri nat "text_state option"

fun tracker_step :: "tracker_op \<Rightarrow> tracker \<times> text_ledger \<Rightarrow> (tracker \<times> text_ledger) option" where
  "tracker_step (TTrack key d disk) s = (if js_has (states (fst s)) key then None else Some (track key d disk s))"
| "tracker_step (TRefresh key d) s = Some (refreshDirty key d s)"
| "tracker_step (TSetDiskBaseline key d text) s = Some (setDiskBaseline key d text s)"
| "tracker_step (TMarkCreated key d) s = Some (markCreated key d s)"
| "tracker_step (TRelease key) s = Some (snd (release key (fst s)), snd s)"
| "tracker_step (TAnnounce key token text) s =
     (if (case text of None \<Rightarrow> True | Some ts \<Rightarrow> \<not> tsDirty ts)
      then Some (announce key token text (fst s), snd s) else None)"

lemma tracker_step_ok:
  assumes "tracker_ok (fst s)" and "tracker_step op s = Some s'"
  shows "tracker_ok (fst s')"
proof -
  obtain T L where s: "s = (T, L)" by (cases s)
  show ?thesis using assms unfolding s
    by (cases op)
       (auto intro: track_ok refreshDirty_ok setDiskBaseline_ok markCreated_ok release_ok announce_ok split: if_splits)
qed

interpretation tracker: component tracker_step "\<lambda>s. tracker_ok (fst s)"
  by unfold_locales (rule tracker_step_ok)

subsection \<open>Properties\<close>

text \<open>
  C38: an observer that only listens is never told the same answer twice and never left with a wrong
  one: after any run the announced answers of a document alternate, starting with "dirty", and the last
  of them ("clean" when there was none) is the tracker's answer; for a document no longer tracked it is
  "dirty" exactly while a clean announcement is still owed.
\<close>

theorem dirty_announcements_faithful:
  fixes ops key L
  defines "T \<equiv> fst (tracker.run ops (new_tracker, L))"
  shows "alternating False (announced key (dirtyEvents T)) \<and>
         (js_has (states T) key \<longrightarrow> believed key T = isDirty key T) \<and>
         (\<not> js_has (states T) key \<longrightarrow> believed key T = js_has (owedClean T) key)"
proof -
  have "tracker_ok T" unfolding T_def by (rule tracker.run_inv) simp
  from tracker_ok_agree [OF this, of key] show ?thesis
    by (auto simp: agree_def believed_def isDirty_def js_has_get Let_def split: option.splits)
qed

theorem dirty_announcements_faithful_witness:
  "believed ''a'' (fst (tracker.run [TTrack ''a'' \<lparr>docId = 0, docUri = ''a'', docLanguage = ''x'', docVersion = 1, docText = [1]\<rparr> (Some []),
      TRelease ''a''] (new_tracker, new_ledger)))"
proof -
  let ?ops = "[TTrack ''a'' \<lparr>docId = 0, docUri = ''a'', docLanguage = ''x'', docVersion = 1, docText = [1]\<rparr> (Some []), TRelease ''a'']"
  let ?T = "fst (tracker.run ?ops (new_tracker, new_ledger))"
  have "\<not> js_has (states ?T) ''a'' \<and> js_has (owedClean ?T) ''a''"
    by (simp add: new_tracker_def new_ledger_def track_def refreshDirty_def hashOf_def release_def isDirty_def js_has_def Let_def)
  with dirty_announcements_faithful [where ops = ?ops and key = "''a''" and L = new_ledger] show ?thesis by blast
qed

text \<open>
  a document released dirty owes one clean announcement and a clean one owes none. Made while it is
  owed, the announcement is heard once and is then spent; a first open before it is made takes it over,
  and a later release owes a new one, so the announcement of the earlier release changes nothing.
\<close>

theorem clean_announcement_once:
  assumes "tracker_ok T" and "release key T = (Some token, T1)"
  shows "isDirty key T \<and> \<not> isDirty key T1 \<and> isOwed key token T1 \<and>
         dirtyEvents (announce key token text T1) = dirtyEvents T @ [(key, text)] \<and>
         announce key token text' (announce key token text T1) = announce key token text T1 \<and>
         (let T2 = fst (track key d disk (T1, L))
          in announce key token text T2 = T2 \<and>
             announce key token text (snd (release key T2)) = snd (release key T2))"
proof -
  have T: "isDirty key T" "token = nextToken T"
    "T1 = T\<lparr>states := js_delete key (states T), owedClean := js_set key (nextToken T) (owedClean T), nextToken := Suc (nextToken T)\<rparr>"
    using assms(2) by (auto simp: release_def Let_def split: if_splits)
  let ?T2 = "fst (track key d disk (T1, L))"
  have owed2: "js_get (owedClean ?T2) key = None" and next2: "nextToken ?T2 = Suc (nextToken T)"
    by (simp_all add: track_def T js_get_delete)
  then have "announce key token text ?T2 = ?T2"
    "announce key token text (snd (release key ?T2)) = snd (release key ?T2)"
    by (simp_all add: announce_def isOwed_def release_def T(2) js_get_set Let_def)
  moreover have "\<not> isDirty key T1" "isOwed key token T1"
    "dirtyEvents (announce key token text T1) = dirtyEvents T @ [(key, text)]"
    "announce key token text' (announce key token text T1) = announce key token text T1"
    by (simp_all add: T isDirty_def isOwed_def announce_def js_get_delete js_get_set)
  ultimately show ?thesis using T(1) by (simp add: Let_def)
qed

theorem clean_announcement_once_witness:
  "let T = \<lparr>states = [(''a'', \<lparr>baseline = None, dirty = True, created = True\<rparr>)], owedClean = [], nextToken = 3,
             dirtyEvents = [(''a'', Some \<lparr>tsVersion = 1, tsHash = [], tsDirty = True\<rparr>)]\<rparr>
   in isOwed ''a'' 3 (snd (release ''a'' T))"
proof -
  let ?T = "\<lparr>states = [(''a'', \<lparr>baseline = None, dirty = True, created = True\<rparr>)], owedClean = [], nextToken = 3,
             dirtyEvents = [(''a'', Some \<lparr>tsVersion = 1, tsHash = [], tsDirty = True\<rparr>)]\<rparr> :: tracker"
  have "tracker_ok ?T"
    by (auto simp: tracker_ok_def announced_def agree_def)
  moreover have "release ''a'' ?T = (Some 3, snd (release ''a'' ?T))"
    by (simp add: release_def isDirty_def)
  ultimately show ?thesis using clean_announcement_once [of ?T "''a''" 3 "snd (release ''a'' ?T)"] by (simp add: Let_def)
qed

end
