(* ===== verification/ClientShadow.thy ===== *)
theory ClientShadow
  imports TextLedger
begin

section \<open>The language client shadow\<close>

text \<open>
  \<open>DefaultLanguageClientShadow\<close> of \<open>core/src/documents/language-client-shadow.ts\<close>: what the text editor is
  known to hold under each URI it opened. Three things of it are not code of the repository and are
  parameters, the fields of \<open>text_lib\<close>: \<open>update\<close> of the text-document type, \<open>TextDocument.applyEdits\<close> and
  \<open>diffLines\<close>. Where a theorem needs what their documentation says of them, it is a hypothesis:
  \<open>text_lib_ok\<close> for full-text and empty changes and for no edits, \<open>line_script\<close> for the line diff.

  The object \<open>LanguageClientDocumentState\<close> of an open has an identity in the code, which a push compares
  when its outcome arrives; here it is \<open>openId\<close>. A prepared push settles once: the closure's flag is the
  set \<open>settledPushes\<close>.
\<close>

type_synonym version = int

datatype position = Position (line: int) (character: int)
datatype range = Range (range_start: position) (range_end: position)
datatype text_edit = TextEdit (edit_range: range) (new_text: text_body)
datatype change = FullText text_body | RangedText range text_body

record hunk =
  added :: bool
  removed :: bool
  hunkCount :: "int option"
  hunkValue :: text_body

record text_lib =
  update_text :: "text_body \<Rightarrow> change list \<Rightarrow> text_body"
  apply_edits :: "text_body \<Rightarrow> text_edit list \<Rightarrow> text_body"
  diff_lines :: "text_body \<Rightarrow> text_body \<Rightarrow> hunk list"

definition text_lib_ok :: "text_lib \<Rightarrow> bool" where
  "text_lib_ok lib \<longleftrightarrow> (\<forall>t. update_text lib t [] = t) \<and> (\<forall>t s. update_text lib t [FullText s] = s) \<and>
     (\<forall>t. apply_edits lib t [] = t)"

record open_state =
  openId :: nat
  declaredVersion :: int
  pushedVersion :: "int option"

record shadow =
  opens :: "(uri, (uri, open_state) js_map) js_map"
  baselines :: "(uri, text_body) js_map"
  heardTexts :: "(uri, text_body) js_map"
  pending :: "(uri, string list) js_map"
  heldVersions :: "(uri, version) js_map"
  nextOpenId :: nat
  nextPushId :: nat
  settledPushes :: "nat list"

definition new_shadow :: shadow where
  "new_shadow = \<lparr>opens = [], baselines = [], heardTexts = [], pending = [], heldVersions = [],
                 nextOpenId = 0, nextPushId = 0, settledPushes = []\<rparr>"

datatype verdict = Echo | Divergent text_body | Direct
datatype push_outcome = Applied | Refused | Failed

record prepared_push =
  pushId :: nat
  pushKey :: uri
  pushUri :: uri
  pushEdits :: "text_edit list"
  pushAddress :: "int option"
  pushOpenId :: nat

definition PENDING_ECHO_CAP :: nat where "PENDING_ECHO_CAP = 32"

definition MAX_UINTEGER :: int where "MAX_UINTEGER = 2147483647"

definition FULL_RANGE :: range where
  "FULL_RANGE = Range (Position 0 0) (Position MAX_UINTEGER MAX_UINTEGER)"

subsection \<open>Edits\<close>

definition isFullReplace :: "text_edit list \<Rightarrow> bool" where
  "isFullReplace edits =
     (case edits of
        [e] \<Rightarrow> line (range_start (edit_range e)) = line (range_start FULL_RANGE) \<and>
               character (range_start (edit_range e)) = character (range_start FULL_RANGE) \<and>
               line (range_end (edit_range e)) = line (range_end FULL_RANGE)
      | _ \<Rightarrow> False)"

definition hunk_count :: "hunk \<Rightarrow> int" where
  "hunk_count h = (case hunkCount h of None \<Rightarrow> 0 | Some n \<Rightarrow> n)"

definition changed_hunk :: "hunk \<Rightarrow> bool" where
  "changed_hunk h \<longleftrightarrow> added h \<or> removed h"

definition removed_lines :: "hunk list \<Rightarrow> int" where
  "removed_lines hs = sum_list (map hunk_count (filter removed hs))"

definition added_text :: "hunk list \<Rightarrow> text_body" where
  "added_text hs = concat (map hunkValue (filter added hs))"

text \<open>The two nested loops of \<open>diffToEdits\<close>: a run of changed hunks becomes one edit.\<close>

function edits_from :: "int \<Rightarrow> hunk list \<Rightarrow> text_edit list" where
  "edits_from oldLine [] = []"
| "edits_from oldLine (h # hs) =
     (if \<not> changed_hunk h then edits_from (oldLine + hunk_count h) hs
      else (let run = takeWhile changed_hunk (h # hs); rest = dropWhile changed_hunk (h # hs);
                n = removed_lines run
            in TextEdit (Range (Position oldLine 0) (Position (oldLine + n) 0)) (added_text run)
               # edits_from (oldLine + n) rest))"
  by pat_completeness auto
termination
  by (relation "measure (\<lambda>(_, hs). length hs)")
     (auto simp: le_imp_less_Suc length_dropWhile_le)

definition diffToEdits :: "text_lib \<Rightarrow> text_body \<Rightarrow> text_body \<Rightarrow> text_edit list" where
  "diffToEdits lib oldText newText = edits_from 0 (diff_lines lib oldText newText)"

subsection \<open>Operations\<close>

definition open_state_of :: "uri \<Rightarrow> uri \<Rightarrow> shadow \<Rightarrow> open_state option" where
  "open_state_of key u S = Option.bind (js_get (opens S) key) (\<lambda>us. js_get us u)"

definition shadow_isOpen :: "uri \<Rightarrow> shadow \<Rightarrow> bool" where
  "shadow_isOpen key S \<longleftrightarrow> js_has (opens S) key"

definition shadow_isOpenAt :: "uri \<Rightarrow> uri \<Rightarrow> shadow \<Rightarrow> bool" where
  "shadow_isOpenAt key u S \<longleftrightarrow> open_state_of key u S \<noteq> None"

definition shadow_declaredVersion :: "uri \<Rightarrow> uri \<Rightarrow> shadow \<Rightarrow> int option" where
  "shadow_declaredVersion key u S = map_option declaredVersion (open_state_of key u S)"

definition shadow_heldVersion :: "uri \<Rightarrow> uri \<Rightarrow> shadow \<Rightarrow> version option" where
  "shadow_heldVersion key u S = (if shadow_isOpenAt key u S then js_get (heldVersions S) u else None)"

definition invalidateText :: "uri \<Rightarrow> shadow \<Rightarrow> shadow" where
  "invalidateText u S = S\<lparr>baselines := js_delete u (baselines S), pending := js_delete u (pending S)\<rparr>"

definition setHeldVersion :: "uri \<Rightarrow> version option \<Rightarrow> shadow \<Rightarrow> shadow" where
  "setHeldVersion u held S =
     S\<lparr>heldVersions := (case held of None \<Rightarrow> js_delete u (heldVersions S) | Some v \<Rightarrow> js_set u v (heldVersions S))\<rparr>"

definition shadow_addOpen :: "uri \<Rightarrow> uri \<Rightarrow> int \<Rightarrow> text_body \<Rightarrow> bool \<Rightarrow> version option \<Rightarrow> shadow \<Rightarrow> shadow" where
  "shadow_addOpen key u version text firstOpen held S =
     (let uris = (case js_get (opens S) key of None \<Rightarrow> [] | Some us \<Rightarrow> us)
      in if js_has uris u then S
         else (let S1 = S\<lparr>opens := js_set key (js_set u \<lparr>openId = nextOpenId S, declaredVersion = version, pushedVersion = None\<rparr> uris) (opens S),
                          nextOpenId := Suc (nextOpenId S)\<rparr>;
                   S2 = invalidateText u S1;
                   S3 = S2\<lparr>heardTexts := js_set u text (heardTexts S2)\<rparr>;
                   S4 = setHeldVersion u held S3
               in if firstOpen then S4\<lparr>baselines := js_set u text (baselines S4)\<rparr> else S4))"

definition set_open_state :: "uri \<Rightarrow> uri \<Rightarrow> open_state \<Rightarrow> shadow \<Rightarrow> shadow" where
  "set_open_state key u st S =
     S\<lparr>opens := (case js_get (opens S) key of None \<Rightarrow> opens S | Some us \<Rightarrow> js_set key (js_set u st us) (opens S))\<rparr>"

definition heardOr :: "uri \<Rightarrow> text_body \<Rightarrow> shadow \<Rightarrow> text_body" where
  "heardOr u synced S = (case js_get (heardTexts S) u of None \<Rightarrow> synced | Some t \<Rightarrow> t)"

fun find_index :: "('a \<Rightarrow> bool) \<Rightarrow> 'a list \<Rightarrow> nat option" where
  "find_index P [] = None"
| "find_index P (x # xs) = (if P x then Some 0 else map_option Suc (find_index P xs))"

definition pending_of :: "uri \<Rightarrow> shadow \<Rightarrow> string list" where
  "pending_of u S = (case js_get (pending S) u of None \<Rightarrow> [] | Some q \<Rightarrow> q)"

definition classify :: "text_lib \<Rightarrow> uri \<Rightarrow> text_document \<Rightarrow> change list \<Rightarrow> shadow \<Rightarrow> verdict \<times> shadow" where
  "classify lib u d changes S =
     (let heard = heardOr u (docText d) S; queue = pending_of u S
      in if queue = [] \<and> heard = docText d then (Direct, S)
         else (let reconstructed = update_text lib heard changes;
                   S1 = S\<lparr>heardTexts := js_set u reconstructed (heardTexts S)\<rparr>
               in case find_index (\<lambda>h. h = textHash reconstructed) queue of
                    Some i \<Rightarrow> (Echo, S1\<lparr>pending := js_set u (drop (Suc i) queue) (pending S1)\<rparr>)
                  | None \<Rightarrow>
                      (if heard = docText d then Direct else Divergent reconstructed,
                       if queue = [] then S1 else S1\<lparr>pending := js_delete u (pending S1)\<rparr>)))"

definition acceptChange :: "text_lib \<Rightarrow> uri \<Rightarrow> uri \<Rightarrow> int \<Rightarrow> text_document \<Rightarrow> change list \<Rightarrow> shadow \<Rightarrow> verdict \<times> shadow" where
  "acceptChange lib key u version d changes S =
     (let S1 = (case open_state_of key u S of
                  None \<Rightarrow> S
                | Some st \<Rightarrow> set_open_state key u (st\<lparr>declaredVersion := version\<rparr>) S);
          (verdict, S2) = classify lib u d changes S1
      in (verdict,
          if verdict = Echo \<and> js_get (heardTexts S2) u = Some (docText d)
          then S2\<lparr>heldVersions := js_set u (docVersion d) (heldVersions S2)\<rparr> else S2))"

definition setLanguageClientText :: "uri \<Rightarrow> text_body \<Rightarrow> version option \<Rightarrow> shadow \<Rightarrow> shadow" where
  "setLanguageClientText u text held S =
     setHeldVersion u held
       (S\<lparr>baselines := js_set u text (baselines S), heardTexts := js_set u text (heardTexts S),
          pending := js_delete u (pending S)\<rparr>)"

definition forget_text :: "uri \<Rightarrow> shadow \<Rightarrow> shadow" where
  "forget_text u S =
     (let S1 = invalidateText u S
      in S1\<lparr>heardTexts := js_delete u (heardTexts S1), heldVersions := js_delete u (heldVersions S1)\<rparr>)"

definition shadow_removeOpen :: "uri \<Rightarrow> uri \<Rightarrow> shadow \<Rightarrow> shadow" where
  "shadow_removeOpen key u S =
     (case js_get (opens S) key of
        None \<Rightarrow> S
      | Some us \<Rightarrow>
          if \<not> js_has us u then S
          else (let us' = js_delete u us; S1 = forget_text u S
                in S1\<lparr>opens := (if us' = [] then js_delete key (opens S1) else js_set key us' (opens S1))\<rparr>))"

definition pushTargets :: "uri \<Rightarrow> shadow \<Rightarrow> uri list" where
  "pushTargets key S = (case js_get (opens S) key of None \<Rightarrow> [] | Some us \<Rightarrow> js_keys us)"

definition removeAllOpens :: "uri \<Rightarrow> shadow \<Rightarrow> shadow" where
  "removeAllOpens key S =
     (let S1 = fold forget_text (pushTargets key S) S in S1\<lparr>opens := js_delete key (opens S1)\<rparr>)"

definition computeEdits :: "text_lib \<Rightarrow> uri \<Rightarrow> text_body \<Rightarrow> shadow \<Rightarrow> text_edit list \<times> shadow" where
  "computeEdits lib u text S =
     (let old = js_get (baselines S) u; S1 = S\<lparr>baselines := js_set u text (baselines S)\<rparr>;
          fullReplace = TextEdit FULL_RANGE text
      in if old = Some text then ([], S)
         else case old of
                None \<Rightarrow> (if js_get (heardTexts S) u = Some text then [] else [fullReplace], S1)
              | Some oldText \<Rightarrow>
                  (let edits = diffToEdits lib oldText text
                   in (if apply_edits lib oldText edits \<noteq> text then [fullReplace] else edits, S1)))"

definition recordPendingPush :: "uri \<Rightarrow> text_body \<Rightarrow> shadow \<Rightarrow> shadow" where
  "recordPendingPush u text S =
     (let queue = pending_of u S @ [textHash text]
      in S\<lparr>pending := js_set u (if PENDING_ECHO_CAP < length queue then tl queue else queue) (pending S)\<rparr>)"

definition preparePush :: "text_lib \<Rightarrow> uri \<Rightarrow> uri \<Rightarrow> text_body \<Rightarrow> shadow \<Rightarrow> prepared_push option \<times> shadow" where
  "preparePush lib key u text S =
     (case open_state_of key u S of
        None \<Rightarrow> (None, S)
      | Some st \<Rightarrow>
          (let (edits, S1) = computeEdits lib u text S
           in if edits = [] then (None, S1)
              else (let S2 = recordPendingPush u text S1;
                        address = (if isFullReplace edits then None
                                   else Some (max (declaredVersion st)
                                     (case pushedVersion st of None \<Rightarrow> declaredVersion st | Some v \<Rightarrow> v)))
                    in (Some \<lparr>pushId = nextPushId S2, pushKey = key, pushUri = u, pushEdits = edits,
                             pushAddress = address, pushOpenId = openId st\<rparr>,
                        S2\<lparr>nextPushId := Suc (nextPushId S2)\<rparr>))))"

definition settle :: "prepared_push \<Rightarrow> open_state \<Rightarrow> push_outcome \<Rightarrow> shadow \<Rightarrow> shadow" where
  "settle p st outcome S =
     (if outcome \<noteq> Applied then invalidateText (pushUri p) S
      else case pushAddress p of
             None \<Rightarrow> S
           | Some v \<Rightarrow> set_open_state (pushKey p) (pushUri p) (st\<lparr>pushedVersion := Some (v + 1)\<rparr>) S)"

definition notifyOutcome :: "prepared_push \<Rightarrow> push_outcome \<Rightarrow> shadow \<Rightarrow> shadow" where
  "notifyOutcome p outcome S =
     (if pushId p \<in> set (settledPushes S) then S
      else (let S1 = S\<lparr>settledPushes := pushId p # settledPushes S\<rparr>
            in case open_state_of (pushKey p) (pushUri p) S1 of
                 None \<Rightarrow> S1
               | Some st \<Rightarrow> if openId st = pushOpenId p then settle p st outcome S1 else S1))"

lemmas shadow_defs = open_state_of_def shadow_isOpen_def shadow_isOpenAt_def shadow_declaredVersion_def
  shadow_heldVersion_def invalidateText_def setHeldVersion_def shadow_addOpen_def set_open_state_def
  heardOr_def pending_of_def classify_def acceptChange_def setLanguageClientText_def forget_text_def
  shadow_removeOpen_def pushTargets_def removeAllOpens_def computeEdits_def recordPendingPush_def
  preparePush_def settle_def notifyOutcome_def

subsection \<open>A line diff becomes edits that reproduce the new text\<close>

text \<open>
  What the documentation of \<open>diffLines\<close> says of its hunks, for the old text as a list of lines: a hunk
  that is kept or removed covers the next \<open>count\<close> old lines, one kept or added is the next part of the
  new text. \<open>line_edits\<close> is what a list of edits over whole lines does to the lines from \<open>from\<close> on.
\<close>

fun line_script :: "hunk list \<Rightarrow> text_body list \<Rightarrow> text_body \<Rightarrow> bool" where
  "line_script [] olds new \<longleftrightarrow> olds = [] \<and> new = []"
| "line_script (h # hs) olds new \<longleftrightarrow>
     \<not> (added h \<and> removed h) \<and>
     (if added h then take (length (hunkValue h)) new = hunkValue h \<and> line_script hs olds (drop (length (hunkValue h)) new)
      else 0 \<le> hunk_count h \<and> nat (hunk_count h) \<le> length olds \<and>
           hunkValue h = concat (take (nat (hunk_count h)) olds) \<and>
           (if removed h then line_script hs (drop (nat (hunk_count h)) olds) new
            else take (length (hunkValue h)) new = hunkValue h \<and>
                 line_script hs (drop (nat (hunk_count h)) olds) (drop (length (hunkValue h)) new)))"

fun line_edits :: "int \<Rightarrow> text_body list \<Rightarrow> text_edit list \<Rightarrow> text_body option" where
  "line_edits from olds [] = Some (concat olds)"
| "line_edits from olds (TextEdit (Range (Position a c) (Position b d)) s # es) =
     (if from \<le> a \<and> a \<le> b \<and> c = 0 \<and> d = 0 \<and> nat (b - from) \<le> length olds
      then map_option (\<lambda>rest. concat (take (nat (a - from)) olds) @ s @ rest)
             (line_edits b (drop (nat (b - from)) olds) es)
      else None)"

text \<open>Lines no edit reaches go through unchanged, wherever the edits start.\<close>

lemma line_edits_skip:
  assumes "line_edits (from + int n) (drop n olds) es = Some t" and "n \<le> length olds"
  shows "line_edits from olds es = Some (concat (take n olds) @ t)"
proof (cases es)
  case Nil
  with assms(1) show ?thesis by (metis append_take_drop_id concat_append line_edits.simps(1) option.inject)
next
  case (Cons e es')
  obtain a c b d s where e: "e = TextEdit (Range (Position a c) (Position b d)) s"
    by (metis position.exhaust range.exhaust text_edit.exhaust)
  from assms(1) obtain rest where c: "from + int n \<le> a" "a \<le> b" "c = 0" "d = 0" "nat (b - (from + int n)) \<le> length olds - n"
    and r: "line_edits b (drop (nat (b - (from + int n))) (drop n olds)) es' = Some rest"
    and t: "t = concat (take (nat (a - (from + int n))) (drop n olds)) @ s @ rest"
    by (auto simp: Cons e split: if_splits)
  have n1: "nat (b - (from + int n)) + n = nat (b - from)" "nat (a - from) = n + nat (a - (from + int n))"
    using c(1,2) by linarith+
  have "take (nat (a - from)) olds = take n olds @ take (nat (a - (from + int n))) (drop n olds)"
    unfolding n1(2) by (rule take_add)
  then show ?thesis using c r t n1(1) assms(2) by (simp add: Cons e)
qed

lemma changed_run:
  assumes "line_script (run @ rest) olds new" and "\<forall>h \<in> set run. changed_hunk h"
  shows "0 \<le> removed_lines run \<and> nat (removed_lines run) \<le> length olds \<and>
         take (length (added_text run)) new = added_text run \<and>
         line_script rest (drop (nat (removed_lines run)) olds) (drop (length (added_text run)) new)"
  using assms
proof (induction run arbitrary: olds new)
  case Nil
  then show ?case by (simp add: removed_lines_def added_text_def)
next
  case (Cons h run)
  show ?case
  proof (cases "added h")
    case True
    with Cons.prems have a: "\<not> removed h" "take (length (hunkValue h)) new = hunkValue h"
      and "line_script (run @ rest) olds (drop (length (hunkValue h)) new)" by auto
    from Cons.IH [OF this(3)] Cons.prems(2) True a show ?thesis
      by (auto simp: removed_lines_def added_text_def take_add add.commute)
  next
    case False
    with Cons.prems have r: "removed h" "0 \<le> hunk_count h" "nat (hunk_count h) \<le> length olds"
      and "line_script (run @ rest) (drop (nat (hunk_count h)) olds) new"
      by (auto simp: changed_hunk_def)
    from Cons.IH [OF this(4)] Cons.prems(2) False r show ?thesis
      by (auto simp: removed_lines_def added_text_def nat_add_distrib add.commute)
  qed
qed

text \<open>
  the edits a line diff is turned into are ordered, whole-line and within the old text, and applied
  to the old lines they give exactly the new text, however the changed hunks are grouped.
\<close>

theorem diff_edits_reproduce:
  assumes "line_script hunks olds new"
  shows "line_edits from olds (edits_from from hunks) = Some new"
  using assms
proof (induction "from" hunks arbitrary: olds new rule: edits_from.induct)
  case (1 oldLine)
  then show ?case by simp
next
  case (2 oldLine h hs)
  show ?case
  proof (cases "changed_hunk h")
    case False
    let ?n = "nat (hunk_count h)"
    from 2(3) False have k: "0 \<le> hunk_count h" "?n \<le> length olds" "hunkValue h = concat (take ?n olds)"
      "take (length (hunkValue h)) new = hunkValue h"
      "line_script hs (drop ?n olds) (drop (length (hunkValue h)) new)"
      by (auto simp: changed_hunk_def)
    have "line_edits (oldLine + int ?n) (drop ?n olds) (edits_from (oldLine + hunk_count h) hs)
        = Some (drop (length (hunkValue h)) new)"
      using 2(1) [OF False k(5)] k(1) by simp
    from line_edits_skip [OF this k(2)] k(3,4) False show ?thesis
      by (metis append_take_drop_id edits_from.simps(2))
  next
    case True
    define run rest n where "run = takeWhile changed_hunk (h # hs)" and "rest = dropWhile changed_hunk (h # hs)"
      and "n = removed_lines run"
    have "line_script (run @ rest) olds new" using 2(3) by (simp only: run_def rest_def takeWhile_dropWhile_id)
    moreover have "\<forall>h' \<in> set run. changed_hunk h'" unfolding run_def by (blast dest: set_takeWhileD)
    ultimately have "0 \<le> n \<and> nat n \<le> length olds \<and> take (length (added_text run)) new = added_text run \<and>
      line_script rest (drop (nat n) olds) (drop (length (added_text run)) new)"
      unfolding n_def by (rule changed_run)
    then have r: "0 \<le> n" "nat n \<le> length olds" "take (length (added_text run)) new = added_text run"
      "line_script rest (drop (nat n) olds) (drop (length (added_text run)) new)"
      by blast+
    have IH: "line_edits (oldLine + n) (drop (nat n) olds) (edits_from (oldLine + n) rest)
        = Some (drop (length (added_text run)) new)"
      by (rule 2(2) [OF _ run_def rest_def n_def r(4)]) (use True in simp)
    have eq: "edits_from oldLine (h # hs) =
        TextEdit (Range (Position oldLine 0) (Position (oldLine + n) 0)) (added_text run) # edits_from (oldLine + n) rest"
      using True by (simp add: run_def rest_def n_def Let_def)
    have join: "added_text run @ drop (length (added_text run)) new = new"
      using r(3) by (metis append_take_drop_id)
    show ?thesis unfolding eq using IH r(1,2) join by simp
  qed
qed

theorem diff_edits_reproduce_witness:
  "line_edits 0 [[1], [2]] (edits_from 0
     [\<lparr>added = False, removed = False, hunkCount = Some 1, hunkValue = [1]\<rparr>,
      \<lparr>added = False, removed = True, hunkCount = Some 1, hunkValue = [2]\<rparr>,
      \<lparr>added = True, removed = False, hunkCount = Some 2, hunkValue = [3, 4]\<rparr>]) = Some [1, 3, 4]"
  by (rule diff_edits_reproduce) (simp add: hunk_count_def)

subsection \<open>Effects on the opens\<close>

lemma open_state_of_frame [simp]:
  "open_state_of k w (invalidateText u S) = open_state_of k w S"
  "open_state_of k w (setHeldVersion u held S) = open_state_of k w S"
  "open_state_of k w (setLanguageClientText u text held S) = open_state_of k w S"
  "open_state_of k w (forget_text u S) = open_state_of k w S"
  "open_state_of k w (S\<lparr>heardTexts := hs\<rparr>) = open_state_of k w S"
  "open_state_of k w (S\<lparr>baselines := bs\<rparr>) = open_state_of k w S"
  "open_state_of k w (S\<lparr>heldVersions := vs\<rparr>) = open_state_of k w S"
  "open_state_of k w (S\<lparr>pending := ps\<rparr>) = open_state_of k w S"
  "open_state_of k w (S\<lparr>nextOpenId := n\<rparr>) = open_state_of k w S"
  "open_state_of k w (S\<lparr>nextPushId := n\<rparr>) = open_state_of k w S"
  "open_state_of k w (S\<lparr>settledPushes := ns\<rparr>) = open_state_of k w S"
  by (simp_all add: shadow_defs Let_def)

lemma opens_frame [simp]:
  "opens (invalidateText u S) = opens S" "opens (setHeldVersion u held S) = opens S"
  "opens (setLanguageClientText u text held S) = opens S" "opens (forget_text u S) = opens S"
  "opens (snd (classify lib u d changes S)) = opens S" "opens (snd (computeEdits lib u text S)) = opens S"
  "opens (recordPendingPush u text S) = opens S"
  by (auto simp: invalidateText_def setHeldVersion_def setLanguageClientText_def forget_text_def classify_def
      computeEdits_def recordPendingPush_def Let_def split: option.splits)

lemma opens_fold_forget [simp]: "opens (fold forget_text us S) = opens S"
  by (induction us arbitrary: S) simp_all

lemma open_state_of_opens: "opens S = opens S' \<Longrightarrow> open_state_of k w S = open_state_of k w S'"
  by (simp add: open_state_of_def)

lemma open_state_of_frame2 [simp]:
  "open_state_of k w (snd (classify lib u d changes S)) = open_state_of k w S"
  "open_state_of k w (snd (computeEdits lib u text S)) = open_state_of k w S"
  "open_state_of k w (recordPendingPush u text S) = open_state_of k w S"
  by (rule open_state_of_opens, simp)+

lemma open_state_of_addOpen:
  "open_state_of k w (shadow_addOpen key u v text firstOpen held S) =
     (if k = key \<and> w = u \<and> open_state_of key u S = None
      then Some \<lparr>openId = nextOpenId S, declaredVersion = v, pushedVersion = None\<rparr> else open_state_of k w S)"
  by (auto simp: shadow_addOpen_def open_state_of_def js_get_set js_has_get setHeldVersion_def invalidateText_def
      Let_def split: option.splits)

lemma open_state_of_set:
  "open_state_of k w (set_open_state key u st S) =
     (if k = key \<and> w = u \<and> js_has (opens S) key then Some st else open_state_of k w S)"
  by (auto simp: set_open_state_def open_state_of_def js_get_set js_has_get split: option.splits)

lemma open_state_of_acceptChange:
  "open_state_of k w (snd (acceptChange lib key u v d changes S)) =
     (if k = key \<and> w = u then map_option (\<lambda>st. st\<lparr>declaredVersion := v\<rparr>) (open_state_of key u S)
      else open_state_of k w S)"
proof (cases "open_state_of key u S")
  case None
  then show ?thesis
    by (auto simp: acceptChange_def case_prod_beta Let_def)
next
  case (Some st)
  then have "js_has (opens S) key"
    by (cases "js_get (opens S) key") (auto simp: open_state_of_def js_has_get)
  moreover have "open_state_of k w (snd (acceptChange lib key u v d changes S)) =
      open_state_of k w (set_open_state key u (st\<lparr>declaredVersion := v\<rparr>) S)"
    using Some by (auto simp: acceptChange_def case_prod_beta Let_def)
  ultimately show ?thesis using Some by (simp add: open_state_of_set)
qed

lemma open_state_of_removeOpen:
  "open_state_of k w (shadow_removeOpen key u S) = (if k = key \<and> w = u then None else open_state_of k w S)"
proof (cases "js_get (opens S) key")
  case (Some us)
  have "js_get (js_delete u us) x = None" if "js_delete u us = []" for x using that by simp
  then have "w \<noteq> u \<Longrightarrow> js_delete u us = [] \<Longrightarrow> js_get us w = None" by (metis js_get_delete)
  with Some show ?thesis
    by (auto simp: shadow_removeOpen_def open_state_of_def js_get_set js_get_delete js_has_get Let_def)
qed (auto simp: shadow_removeOpen_def open_state_of_def)

lemma open_state_of_removeAllOpens:
  "open_state_of k w (removeAllOpens key S) = (if k = key then None else open_state_of k w S)"
  by (simp add: removeAllOpens_def open_state_of_def js_get_delete Let_def)

lemma isOpenAt_None: "\<not> shadow_isOpenAt key u S \<longleftrightarrow> open_state_of key u S = None"
  by (simp add: shadow_isOpenAt_def)

subsection \<open>Effects on what the client is known to hold\<close>

text \<open>What the client was last heard to hold under a URI, with the version the store held it at.\<close>

abbreviation heard :: "shadow \<Rightarrow> uri \<Rightarrow> text_body option" where
  "heard S u \<equiv> js_get (heardTexts S) u"

abbreviation held :: "shadow \<Rightarrow> uri \<Rightarrow> version option" where
  "held S u \<equiv> js_get (heldVersions S) u"

lemma heard_held_invalidate [simp]:
  "heard (invalidateText u S) w = heard S w" "held (invalidateText u S) w = held S w"
  by (simp_all add: invalidateText_def)

lemma heard_held_setText:
  "heard (setLanguageClientText u text v S) w = (if w = u then Some text else heard S w)"
  "held (setLanguageClientText u text v S) w = (if w = u then v else held S w)"
  by (auto simp: setLanguageClientText_def setHeldVersion_def js_get_set js_get_delete split: option.splits)

lemma heard_held_addOpen:
  "heard (shadow_addOpen key u v text firstOpen h S) w =
     (if w = u \<and> open_state_of key u S = None then Some text else heard S w)"
  "held (shadow_addOpen key u v text firstOpen h S) w =
     (if w = u \<and> open_state_of key u S = None then h else held S w)"
  by (auto simp: shadow_addOpen_def setHeldVersion_def invalidateText_def open_state_of_def js_has_get js_get_set
      js_get_delete Let_def split: option.splits)

lemma heard_held_forget:
  "heard (forget_text u S) w = (if w = u then None else heard S w)"
  "held (forget_text u S) w = (if w = u then None else held S w)"
  by (auto simp: forget_text_def invalidateText_def js_get_delete Let_def)

lemma heard_held_fold_forget:
  "heard (fold forget_text us S) w = (if w \<in> set us then None else heard S w)"
  "held (fold forget_text us S) w = (if w \<in> set us then None else held S w)"
  by (induction us arbitrary: S) (auto simp: heard_held_forget)

lemma heard_held_removeOpen:
  "heard (shadow_removeOpen key u S) w = (if w = u \<and> open_state_of key u S \<noteq> None then None else heard S w)"
  "held (shadow_removeOpen key u S) w = (if w = u \<and> open_state_of key u S \<noteq> None then None else held S w)"
  by (auto simp: shadow_removeOpen_def open_state_of_def js_has_get heard_held_forget Let_def split: option.splits)

lemma pushTargets_isOpenAt: "u \<in> set (pushTargets key S) \<longleftrightarrow> shadow_isOpenAt key u S"
  using js_has_get [of "case js_get (opens S) key of None \<Rightarrow> [] | Some us \<Rightarrow> us" u]
  by (auto simp: pushTargets_def shadow_isOpenAt_def open_state_of_def js_has_def split: option.splits)

lemma heard_held_removeAllOpens:
  "heard (removeAllOpens key S) w = (if shadow_isOpenAt key w S then None else heard S w)"
  "held (removeAllOpens key S) w = (if shadow_isOpenAt key w S then None else held S w)"
  by (simp_all add: removeAllOpens_def heard_held_fold_forget pushTargets_isOpenAt Let_def)

lemma heard_held_set_open_state [simp]:
  "heard (set_open_state key u st S) w = heard S w" "held (set_open_state key u st S) w = held S w"
  "pending_of w (set_open_state key u st S) = pending_of w S"
  by (simp_all add: set_open_state_def pending_of_def)

lemma heard_classify:
  "heard (snd (classify lib u d changes S)) w =
     (if w = u \<and> \<not> (pending_of u S = [] \<and> heardOr u (docText d) S = docText d)
      then Some (update_text lib (heardOr u (docText d) S) changes) else heard S w)"
  "held (snd (classify lib u d changes S)) w = held S w"
  by (auto simp: classify_def js_get_set Let_def split: option.splits)

lemma classify_frame:
  assumes "pending_of u S' = pending_of u S" and "heard S' u = heard S u"
  shows "fst (classify lib u d changes S') = fst (classify lib u d changes S)"
  using assms by (auto simp: classify_def heardOr_def Let_def split: option.splits)

lemma fst_acceptChange: "fst (acceptChange lib key u v d changes S) = fst (classify lib u d changes S)"
  by (auto simp: acceptChange_def case_prod_beta Let_def intro!: classify_frame split: option.splits)

lemma heard_acceptChange:
  "heard (snd (acceptChange lib key u v d changes S)) w =
     (if w = u \<and> \<not> (pending_of u S = [] \<and> heardOr u (docText d) S = docText d)
      then Some (update_text lib (heardOr u (docText d) S) changes) else heard S w)"
  by (auto simp: acceptChange_def case_prod_beta heard_classify heardOr_def Let_def split: option.splits)

lemma held_acceptChange:
  "held (snd (acceptChange lib key u v d changes S)) w =
     (if w = u \<and> fst (classify lib u d changes S) = Echo \<and> heard (snd (acceptChange lib key u v d changes S)) u = Some (docText d)
      then Some (docVersion d) else held S w)"
proof -
  let ?S1 = "case open_state_of key u S of None \<Rightarrow> S | Some st \<Rightarrow> set_open_state key u (st\<lparr>declaredVersion := v\<rparr>) S"
  have f: "fst (classify lib u d changes ?S1) = fst (classify lib u d changes S)"
    by (rule classify_frame) (simp_all split: option.splits)
  have "held ?S1 w = held S w" by (simp split: option.splits)
  with f show ?thesis
    by (auto simp: acceptChange_def case_prod_beta heard_classify js_get_set Let_def)
qed

text \<open>A verdict says how the changed buffer relates to the synced text.\<close>

lemma classify_verdict:
  "fst (classify lib u d changes S) = Divergent t \<Longrightarrow>
     t = update_text lib (heardOr u (docText d) S) changes \<and> heardOr u (docText d) S \<noteq> docText d"
  "fst (classify lib u d changes S) = Direct \<Longrightarrow> heardOr u (docText d) S = docText d"
  "fst (classify lib u d changes S) = Echo \<Longrightarrow>
     pending_of u S \<noteq> [] \<and> textHash (update_text lib (heardOr u (docText d) S) changes) \<in> set (pending_of u S)"
proof -
  have find: "find_index P xs = Some i \<Longrightarrow> \<exists>x \<in> set xs. P x" for P :: "string \<Rightarrow> bool" and xs i
    by (induction xs arbitrary: i) (auto split: if_splits)
  show "fst (classify lib u d changes S) = Divergent t \<Longrightarrow>
     t = update_text lib (heardOr u (docText d) S) changes \<and> heardOr u (docText d) S \<noteq> docText d"
    "fst (classify lib u d changes S) = Direct \<Longrightarrow> heardOr u (docText d) S = docText d"
    by (auto simp: classify_def Let_def split: option.splits if_splits)
  show "fst (classify lib u d changes S) = Echo \<Longrightarrow>
     pending_of u S \<noteq> [] \<and> textHash (update_text lib (heardOr u (docText d) S) changes) \<in> set (pending_of u S)"
    by (auto simp: classify_def Let_def dest: find split: option.splits if_splits)
qed

subsection \<open>A key of the opens has an open\<close>

definition opens_ok :: "shadow \<Rightarrow> bool" where
  "opens_ok S \<longleftrightarrow> (\<forall>key us. js_get (opens S) key = Some us \<longrightarrow> us \<noteq> [])"

lemma opens_ok_isOpen: "opens_ok S \<Longrightarrow> shadow_isOpen key S \<longleftrightarrow> (\<exists>u. open_state_of key u S \<noteq> None)"
proof (cases "js_get (opens S) key")
  case (Some us)
  moreover assume "opens_ok S"
  ultimately obtain p us' where "us = p # us'" by (cases us) (auto simp: opens_ok_def)
  then have "js_get us (fst p) \<noteq> None" by (cases p) simp
  with Some show ?thesis by (auto simp: shadow_isOpen_def js_has_get open_state_of_def)
qed (simp add: shadow_isOpen_def js_has_get open_state_of_def)

lemma opens_ok_cong: "opens_ok S \<Longrightarrow> opens S' = opens S \<Longrightarrow> opens_ok S'"
  by (simp add: opens_ok_def)

lemma js_set_not_Nil [simp]: "js_set k v m \<noteq> []"
  by (cases m) auto

lemma opens_ok_set_open_state: "opens_ok S \<Longrightarrow> opens_ok (set_open_state key u st S)"
  by (auto simp: opens_ok_def set_open_state_def js_get_set split: option.splits if_splits)

lemma opens_ok_acceptChange: "opens_ok S \<Longrightarrow> opens_ok (snd (acceptChange lib key u v d changes S))"
proof -
  assume ok: "opens_ok S"
  let ?S1 = "case open_state_of key u S of None \<Rightarrow> S | Some st \<Rightarrow> set_open_state key u (st\<lparr>declaredVersion := v\<rparr>) S"
  have "opens_ok ?S1" using ok by (simp add: opens_ok_set_open_state split: option.splits)
  moreover have "opens (snd (acceptChange lib key u v d changes S)) = opens ?S1"
    by (auto simp: acceptChange_def case_prod_beta Let_def)
  ultimately show ?thesis by (rule opens_ok_cong)
qed

lemma opens_ok_addOpen: "opens_ok S \<Longrightarrow> opens_ok (shadow_addOpen key u v text f h S)"
proof -
  assume ok: "opens_ok S"
  let ?us = "case js_get (opens S) key of None \<Rightarrow> [] | Some us \<Rightarrow> us"
  show ?thesis
  proof (cases "js_has ?us u")
    case False
    then have "opens (shadow_addOpen key u v text f h S) =
        js_set key (js_set u \<lparr>openId = nextOpenId S, declaredVersion = v, pushedVersion = None\<rparr> ?us) (opens S)"
      by (simp add: shadow_addOpen_def Let_def setHeldVersion_def invalidateText_def)
    with ok show ?thesis by (simp add: opens_ok_def js_get_set)
  qed (use ok in \<open>simp add: shadow_addOpen_def Let_def\<close>)
qed

lemma opens_ok_removeOpen: "opens_ok S \<Longrightarrow> opens_ok (shadow_removeOpen key u S)"
  by (simp add: shadow_removeOpen_def opens_ok_def js_get_set js_get_delete Let_def split: option.splits if_splits)

lemma opens_ok_removeAllOpens: "opens_ok S \<Longrightarrow> opens_ok (removeAllOpens key S)"
  by (simp add: removeAllOpens_def opens_ok_def js_get_delete Let_def)

lemma opens_preparePush [simp]: "opens (snd (preparePush lib key u text S)) = opens S"
  by (simp add: preparePush_def case_prod_beta Let_def split: option.splits)

lemma opens_ok_notifyOutcome: "opens_ok S \<Longrightarrow> opens_ok (notifyOutcome p out S)"
proof -
  assume ok: "opens_ok S"
  have ok1: "opens_ok (S\<lparr>settledPushes := ps\<rparr>)" for ps
    by (rule opens_ok_cong [OF ok]) simp
  have "opens_ok (invalidateText u S1)" if "opens_ok S1" for u S1
    by (rule opens_ok_cong [OF that]) simp
  then have "opens_ok (settle p st out S1)" if "opens_ok S1" for st S1
    using that by (simp add: settle_def opens_ok_set_open_state split: option.splits)
  with ok ok1 show ?thesis
    by (simp add: notifyOutcome_def Let_def split: option.splits)
qed

lemma opens_ok_same:
  assumes "opens_ok S"
  shows "opens_ok (setLanguageClientText u text h S)" "opens_ok (invalidateText u S)"
    "opens_ok (snd (preparePush lib key u text S))"
  by (rule opens_ok_cong [OF assms], simp)+

lemma opens_ok_new: "opens_ok new_shadow"
  by (simp add: opens_ok_def new_shadow_def)

lemmas opens_ok_steps = opens_ok_new opens_ok_same opens_ok_addOpen opens_ok_removeOpen opens_ok_removeAllOpens
  opens_ok_notifyOutcome opens_ok_acceptChange

lemma open_state_of_preparePush [simp]: "open_state_of k w (snd (preparePush lib key u text S)) = open_state_of k w S"
  by (auto simp: preparePush_def case_prod_beta Let_def split: option.splits)

lemma heard_held_preparePush [simp]:
  "heard (snd (preparePush lib key u text S)) w = heard S w"
  "held (snd (preparePush lib key u text S)) w = held S w"
  by (auto simp: preparePush_def computeEdits_def recordPendingPush_def case_prod_beta Let_def split: option.splits)

lemma open_notifyOutcome:
  "open_state_of k w (notifyOutcome p out S) = None \<longleftrightarrow> open_state_of k w S = None"
  "heard (notifyOutcome p out S) w = heard S w" "held (notifyOutcome p out S) w = held S w"
  by (auto simp: notifyOutcome_def settle_def open_state_of_set Let_def split: option.splits if_splits)

subsection \<open>The invariant of the shadow\<close>

text \<open>The queue of pushes in flight is bounded, and a new open gets an identity no open has.\<close>

definition shadow_ok :: "shadow \<Rightarrow> bool" where
  "shadow_ok S \<longleftrightarrow> (\<forall>u. length (pending_of u S) \<le> PENDING_ECHO_CAP) \<and>
     (\<forall>key u st. open_state_of key u S = Some st \<longrightarrow> openId st < nextOpenId S)"

lemma pending_of_simps [simp]:
  "pending_of w (invalidateText u S) = (if w = u then [] else pending_of w S)"
  "pending_of w (setHeldVersion u h S) = pending_of w S"
  "pending_of w (setLanguageClientText u text h S) = (if w = u then [] else pending_of w S)"
  "pending_of w (forget_text u S) = (if w = u then [] else pending_of w S)"
  "pending_of w (S\<lparr>heardTexts := hs\<rparr>) = pending_of w S" "pending_of w (S\<lparr>baselines := bs\<rparr>) = pending_of w S"
  "pending_of w (S\<lparr>heldVersions := vs\<rparr>) = pending_of w S" "pending_of w (S\<lparr>opens := os\<rparr>) = pending_of w S"
  "pending_of w (S\<lparr>nextOpenId := n\<rparr>) = pending_of w S" "pending_of w (S\<lparr>nextPushId := n\<rparr>) = pending_of w S"
  "pending_of w (S\<lparr>settledPushes := ns\<rparr>) = pending_of w S"
  "pending_of w (snd (computeEdits lib u text S)) = pending_of w S"
  by (auto simp: pending_of_def invalidateText_def setHeldVersion_def setLanguageClientText_def forget_text_def
      computeEdits_def js_get_delete Let_def split: option.splits)

lemma nextOpenId_simps [simp]:
  "nextOpenId (invalidateText u S) = nextOpenId S" "nextOpenId (setHeldVersion u h S) = nextOpenId S"
  "nextOpenId (setLanguageClientText u text h S) = nextOpenId S" "nextOpenId (forget_text u S) = nextOpenId S"
  "nextOpenId (set_open_state key u st S) = nextOpenId S" "nextOpenId (recordPendingPush u text S) = nextOpenId S"
  "nextOpenId (snd (classify lib u d changes S)) = nextOpenId S" "nextOpenId (snd (computeEdits lib u text S)) = nextOpenId S"
  "nextOpenId (snd (acceptChange lib key u v d changes S)) = nextOpenId S"
  by (auto simp: invalidateText_def setHeldVersion_def setLanguageClientText_def forget_text_def set_open_state_def
      recordPendingPush_def classify_def acceptChange_def computeEdits_def Let_def split: option.splits)

lemma nextOpenId_fold_forget [simp]: "nextOpenId (fold forget_text us S) = nextOpenId S"
  by (induction us arbitrary: S) simp_all

lemma pending_of_fold_forget: "length (pending_of w (fold forget_text us S)) \<le> length (pending_of w S)"
proof (induction us arbitrary: S)
  case (Cons u us)
  have "length (pending_of w (fold forget_text us (forget_text u S))) \<le> length (pending_of w (forget_text u S))"
    by (rule Cons)
  also have "\<dots> \<le> length (pending_of w S)" by simp
  finally show ?case by simp
qed simp

lemma pending_of_classify: "length (pending_of w (snd (classify lib u d changes S))) \<le> length (pending_of w S)"
  by (auto simp: classify_def pending_of_def js_get_set js_get_delete Let_def split: option.splits)

lemma pending_of_acceptChange:
  "length (pending_of w (snd (acceptChange lib key u v d changes S))) \<le> length (pending_of w S)"
proof -
  let ?S1 = "case open_state_of key u S of None \<Rightarrow> S | Some st \<Rightarrow> set_open_state key u (st\<lparr>declaredVersion := v\<rparr>) S"
  have "pending_of w ?S1 = pending_of w S" by (simp split: option.splits)
  with pending_of_classify [of w lib u d changes ?S1] show ?thesis
    by (auto simp: acceptChange_def case_prod_beta Let_def)
qed

lemma pending_of_addOpen:
  "length (pending_of w (shadow_addOpen key u v text f h S)) \<le> length (pending_of w S)"
  "nextOpenId S \<le> nextOpenId (shadow_addOpen key u v text f h S)"
  "open_state_of key u S = None \<Longrightarrow> nextOpenId (shadow_addOpen key u v text f h S) = Suc (nextOpenId S)"
  by (auto simp: shadow_addOpen_def open_state_of_def js_has_get Let_def split: option.splits)

lemma pending_of_removeOpen:
  "length (pending_of w (shadow_removeOpen key u S)) \<le> length (pending_of w S)"
  "nextOpenId (shadow_removeOpen key u S) = nextOpenId S"
  "length (pending_of w (removeAllOpens key S)) \<le> length (pending_of w S)"
  "nextOpenId (removeAllOpens key S) = nextOpenId S"
  by (auto simp: shadow_removeOpen_def removeAllOpens_def pending_of_fold_forget Let_def split: option.splits)

lemma shadow_okI:
  assumes "shadow_ok S" and "\<And>w. length (pending_of w S') \<le> length (pending_of w S)" and "nextOpenId S \<le> nextOpenId S'"
    and "\<And>k w st. open_state_of k w S' = Some st \<Longrightarrow> (\<exists>st'. open_state_of k w S = Some st' \<and> openId st = openId st') \<or> openId st < nextOpenId S'"
  shows "shadow_ok S'"
  unfolding shadow_ok_def
proof (intro conjI allI impI)
  show "length (pending_of u S') \<le> PENDING_ECHO_CAP" for u
    using assms(1) le_trans [OF assms(2)] by (simp add: shadow_ok_def)
  show "openId st < nextOpenId S'" if "open_state_of key u S' = Some st" for key u st
  proof -
    have "openId st' < nextOpenId S'" if "open_state_of key u S = Some st'" for st'
    proof -
      have "openId st' < nextOpenId S" using assms(1) that by (simp add: shadow_ok_def)
      then show ?thesis using assms(3) by simp
    qed
    with assms(4) [OF that] show ?thesis by auto
  qed
qed

lemma shadow_addOpen_ok: "shadow_ok S \<Longrightarrow> shadow_ok (shadow_addOpen key u v text f h S)"
  by (rule shadow_okI [of S])
     (auto simp: pending_of_addOpen open_state_of_addOpen split: if_splits)

lemma acceptChange_ok: "shadow_ok S \<Longrightarrow> shadow_ok (snd (acceptChange lib key u v d changes S))"
  by (rule shadow_okI [of S])
     (auto simp: pending_of_acceptChange open_state_of_acceptChange split: if_splits)

lemma removeOpen_shadow_ok: "shadow_ok S \<Longrightarrow> shadow_ok (shadow_removeOpen key u S)"
  by (rule shadow_okI [of S]) (auto simp: pending_of_removeOpen open_state_of_removeOpen split: if_splits)

lemma removeAllOpens_ok: "shadow_ok S \<Longrightarrow> shadow_ok (removeAllOpens key S)"
  by (rule shadow_okI [of S]) (auto simp: pending_of_removeOpen open_state_of_removeAllOpens split: if_splits)

lemma setText_ok: "shadow_ok S \<Longrightarrow> shadow_ok (setLanguageClientText u text h S)"
  by (rule shadow_okI [of S]) auto

lemma invalidate_ok: "shadow_ok S \<Longrightarrow> shadow_ok (invalidateText u S)"
  by (rule shadow_okI [of S]) auto

lemma preparePush_ok:
  assumes "shadow_ok S"
  shows "shadow_ok (snd (preparePush lib key u text S))"
proof -
  have "length (pending_of w (recordPendingPush u text S1)) \<le> PENDING_ECHO_CAP"
    if "length (pending_of w S1) \<le> PENDING_ECHO_CAP" for w S1
    using that by (auto simp: recordPendingPush_def pending_of_def js_get_set Let_def split: option.splits)
  with assms show ?thesis
    by (auto simp: shadow_ok_def preparePush_def case_prod_beta Let_def split: option.splits)
qed

lemma notifyOutcome_ok: "shadow_ok S \<Longrightarrow> shadow_ok (notifyOutcome p out S)"
  by (rule shadow_okI [of S])
     (auto simp: notifyOutcome_def settle_def open_state_of_set Let_def split: option.splits if_splits)

datatype shadow_op =
    ShAddOpen uri uri int text_body bool "version option"
  | ShAcceptChange uri uri int text_document "change list"
  | ShSetText uri text_body "version option"
  | ShRemoveOpen uri uri
  | ShRemoveAllOpens uri
  | ShPreparePush uri uri text_body
  | ShNotifyOutcome prepared_push push_outcome
  | ShInvalidate uri

fun shadow_step :: "text_lib \<Rightarrow> shadow_op \<Rightarrow> shadow \<Rightarrow> shadow option" where
  "shadow_step lib (ShAddOpen key u v text f h) S = Some (shadow_addOpen key u v text f h S)"
| "shadow_step lib (ShAcceptChange key u v d cs) S = Some (snd (acceptChange lib key u v d cs S))"
| "shadow_step lib (ShSetText u text h) S = Some (setLanguageClientText u text h S)"
| "shadow_step lib (ShRemoveOpen key u) S = Some (shadow_removeOpen key u S)"
| "shadow_step lib (ShRemoveAllOpens key) S = Some (removeAllOpens key S)"
| "shadow_step lib (ShPreparePush key u text) S = Some (snd (preparePush lib key u text S))"
| "shadow_step lib (ShNotifyOutcome p out) S = Some (notifyOutcome p out S)"
| "shadow_step lib (ShInvalidate u) S = Some (invalidateText u S)"

lemma shadow_step_ok: "shadow_ok S \<Longrightarrow> shadow_step lib op S = Some S' \<Longrightarrow> shadow_ok S'"
  by (cases op)
     (auto intro: shadow_addOpen_ok acceptChange_ok setText_ok removeOpen_shadow_ok removeAllOpens_ok preparePush_ok
       notifyOutcome_ok invalidate_ok)

interpretation shadow: component "shadow_step lib" shadow_ok for lib
  by unfold_locales (rule shadow_step_ok)

lemma new_shadow_ok [simp]: "shadow_ok new_shadow"
  by (simp add: shadow_ok_def new_shadow_def pending_of_def open_state_of_def)

subsection \<open>Properties\<close>

definition witness_lib :: text_lib where
  "witness_lib = \<lparr>update_text = (\<lambda>t cs. fold (\<lambda>c t. case c of FullText s \<Rightarrow> s | RangedText r s \<Rightarrow> t) cs t),
     apply_edits = (\<lambda>t es. fold (\<lambda>e t. new_text e) es t), diff_lines = (\<lambda>a b. [])\<rparr>"

lemma witness_lib_ok: "text_lib_ok witness_lib"
  by (simp add: text_lib_ok_def witness_lib_def)

text \<open>
  Whatever the line diff answers, a push never corrupts what it is applied to: the edits sent are
  either the replacement of the whole text, or reproduce the new text from the text the client is
  believed to hold; nothing is sent only when the client is believed or was last heard to hold it
  already; and the new text is the baseline of the next push.
\<close>

theorem push_edits_verified:
  assumes "text_lib_ok lib" and "computeEdits lib u new S = (edits, S')"
  shows "js_get (baselines S') u = Some new \<and>
    (edits = [] \<longrightarrow> js_get (baselines S) u = Some new \<or> (js_get (baselines S) u = None \<and> heard S u = Some new)) \<and>
    (edits \<noteq> [] \<longrightarrow> edits = [TextEdit FULL_RANGE new] \<or>
       (\<exists>old. js_get (baselines S) u = Some old \<and> apply_edits lib old edits = new))"
  using assms by (auto simp: computeEdits_def text_lib_ok_def js_get_set Let_def split: if_splits option.splits)

theorem push_edits_verified_witness:
  "js_get (baselines (snd (computeEdits witness_lib ''f'' [2] (new_shadow\<lparr>baselines := [(''f'', [1])]\<rparr>)))) ''f'' = Some [2]"
  by (rule push_edits_verified [OF witness_lib_ok surjective_pairing, THEN conjunct1])

text \<open>
  however many pushes the client never answers, the queue of pushes in flight under a URI stays
  within its cap of 32.
\<close>

theorem pending_pushes_bounded: "length (pending_of u (shadow.run lib ops new_shadow)) \<le> 32"
proof -
  have "shadow_ok (shadow.run lib ops new_shadow)" by (rule shadow.run_inv) simp
  then show ?thesis by (simp add: shadow_ok_def PENDING_ECHO_CAP_def)
qed

text \<open>
  the outcome of a push counts once and only for the open it was made for: a second outcome changes
  nothing, and one that arrives after the client closed and reopened the URI changes nothing but being
  marked as settled, so a refusal of a push to the old buffer cannot drop what is known of the new one.
\<close>

theorem stale_outcome_ignored:
  assumes "shadow_ok S" and "preparePush lib key u new S = (Some p, S1)"
  shows "notifyOutcome p out' (notifyOutcome p out S3) = notifyOutcome p out S3 \<and>
    (let S2 = shadow_addOpen key u v declared f h (shadow_removeOpen key u S1)
     in notifyOutcome p out S2 = S2 \<or> notifyOutcome p out S2 = S2\<lparr>settledPushes := pushId p # settledPushes S2\<rparr>)"
proof -
  have settled: "pushId p \<in> set (settledPushes (notifyOutcome p o1 S4))" for o1 S4
    by (auto simp: notifyOutcome_def settle_def invalidateText_def set_open_state_def Let_def
        split: option.splits push_outcome.splits)
  then have twice: "notifyOutcome p out' (notifyOutcome p out S3) = notifyOutcome p out S3"
    by (subst (1) notifyOutcome_def) simp
  obtain st where st: "open_state_of key u S = Some st" "pushOpenId p = openId st" "pushKey p = key" "pushUri p = u"
    and next1: "nextOpenId S1 = nextOpenId S"
    using assms(2) by (auto simp: preparePush_def case_prod_beta Let_def split: option.splits if_splits)
  let ?S2 = "shadow_addOpen key u v declared f h (shadow_removeOpen key u S1)"
  have "open_state_of key u ?S2 = Some \<lparr>openId = nextOpenId S, declaredVersion = v, pushedVersion = None\<rparr>"
    by (simp add: open_state_of_addOpen open_state_of_removeOpen pending_of_removeOpen next1)
  moreover have "openId st < nextOpenId S" using assms(1) st(1) by (simp add: shadow_ok_def)
  ultimately have "notifyOutcome p out ?S2 = ?S2 \<or> notifyOutcome p out ?S2 = ?S2\<lparr>settledPushes := pushId p # settledPushes ?S2\<rparr>"
    by (simp add: notifyOutcome_def st Let_def)
  with twice show ?thesis by (simp add: Let_def)
qed

theorem stale_outcome_ignored_witness:
  "let S = shadow_addOpen ''k'' ''f'' 1 [1] True None new_shadow; (p, S1) = preparePush witness_lib ''k'' ''f'' [2] S;
       S2 = shadow_addOpen ''k'' ''f'' 1 [7] True None (shadow_removeOpen ''k'' ''f'' S1)
   in notifyOutcome (the p) Refused S2 = S2 \<or>
      notifyOutcome (the p) Refused S2 = S2\<lparr>settledPushes := pushId (the p) # settledPushes S2\<rparr>"
proof -
  let ?S = "shadow_addOpen ''k'' ''f'' 1 [1] True None new_shadow"
  have "\<exists>p S1. preparePush witness_lib ''k'' ''f'' [2] ?S = (Some p, S1)"
    by (simp add: preparePush_def shadow_addOpen_def new_shadow_def open_state_of_def computeEdits_def
        diffToEdits_def witness_lib_def invalidateText_def setHeldVersion_def js_has_def Let_def)
  then obtain p S1 where p: "preparePush witness_lib ''k'' ''f'' [2] ?S = (Some p, S1)" by blast
  from stale_outcome_ignored [OF shadow_addOpen_ok [OF new_shadow_ok] p, of _ _ _ 1 "[7]" True None] p
  show ?thesis by (simp add: Let_def)
qed

end
