(* ===== verification/ModelLedger.thy ===== *)
theory ModelLedger
  imports TextLedger
begin

section \<open>The model ledger\<close>

text \<open>
  \<open>DefaultModelLedger\<close> of \<open>core/src/documents/model-ledger.ts\<close>: the version of the text each parsed
  root came from. A root is an object with an identity, which keys the \<open>WeakMap\<close> and the \<open>WeakSet\<close>;
  the text of its concrete syntax tree, where it has one, is a field of the root.
\<close>

definition UNRECORDED_VERSION :: int where "UNRECORDED_VERSION = -2"

definition STALE_VERSION :: int where "STALE_VERSION = -1"

record model_root =
  rootId :: nat
  rootCst :: "text_body option"

record model_record =
  modelVersion :: int
  modelText :: "text_body option"

record model_ledger =
  modelRecords :: "(nat, model_record) js_map"
  placeholders :: "nat list"

definition new_model_ledger :: model_ledger where
  "new_model_ledger = \<lparr>modelRecords = [], placeholders = []\<rparr>"

definition record_model :: "model_root \<Rightarrow> int \<Rightarrow> text_body option \<Rightarrow> model_ledger \<Rightarrow> model_ledger" where
  "record_model root version txt M =
     M\<lparr>modelRecords := js_set (rootId root)
         \<lparr>modelVersion = version,
          modelText = (case txt of Some t \<Rightarrow> Some t
                       | None \<Rightarrow> Option.bind (js_get (modelRecords M) (rootId root)) modelText)\<rparr>
         (modelRecords M)\<rparr>"

definition versionOf :: "model_root \<Rightarrow> model_ledger \<Rightarrow> int" where
  "versionOf root M =
     (case js_get (modelRecords M) (rootId root) of None \<Rightarrow> UNRECORDED_VERSION | Some r \<Rightarrow> modelVersion r)"

definition textOf :: "model_root \<Rightarrow> model_ledger \<Rightarrow> text_body option" where
  "textOf root M =
     (case Option.bind (js_get (modelRecords M) (rootId root)) modelText of
        Some t \<Rightarrow> Some t
      | None \<Rightarrow> rootCst root)"

definition markPlaceholder :: "model_root \<Rightarrow> model_ledger \<Rightarrow> model_ledger" where
  "markPlaceholder root M =
     M\<lparr>placeholders := set_add (rootId root) (placeholders M),
       modelRecords := js_delete (rootId root) (modelRecords M)\<rparr>"

definition isPlaceholder :: "model_root \<Rightarrow> model_ledger \<Rightarrow> bool" where
  "isPlaceholder root M \<longleftrightarrow> rootId root \<in> set (placeholders M)"

lemmas model_ledger_defs = record_model_def versionOf_def textOf_def markPlaceholder_def isPlaceholder_def

lemma versionOf_record_model:
  "versionOf r (record_model root v t M) = (if rootId r = rootId root then v else versionOf r M)"
  by (auto simp: versionOf_def record_model_def js_get_set)

lemma textOf_record_model:
  "textOf r (record_model root v t M) =
     (if rootId r = rootId root \<and> t \<noteq> None then t else textOf r M)"
  by (auto simp: textOf_def record_model_def js_get_set split: option.splits)

lemma model_ledger_markPlaceholder:
  "versionOf r (markPlaceholder root M) = (if rootId r = rootId root then UNRECORDED_VERSION else versionOf r M)"
  "isPlaceholder r (markPlaceholder root M) \<longleftrightarrow> rootId r = rootId root \<or> isPlaceholder r M"
  "isPlaceholder r (record_model root v t M) = isPlaceholder r M"
  by (auto simp: versionOf_def markPlaceholder_def isPlaceholder_def record_model_def js_get_delete)

subsection \<open>Properties\<close>

text \<open>
  A root recorded again without text keeps the text recorded before, at the new version; a mark as
  placeholder drops the record, so the version of the root conflicts with every write, and the records of
  other roots stay.
\<close>

theorem model_record_kept:
  "textOf root (record_model root v None (record_model root w (Some t) M)) = Some t \<and>
   versionOf root (record_model root v txt M) = v \<and>
   versionOf root (markPlaceholder root M) = UNRECORDED_VERSION \<and>
   textOf root (markPlaceholder root M) = rootCst root \<and> isPlaceholder root (markPlaceholder root M) \<and>
   (rootId r = rootId root \<or>
    (versionOf r (markPlaceholder root M) = versionOf r M \<and> versionOf r (record_model root v txt M) = versionOf r M \<and>
     textOf r (record_model root v txt M) = textOf r M))"
  by (auto simp: versionOf_record_model textOf_record_model model_ledger_markPlaceholder)
     (auto simp: textOf_def markPlaceholder_def js_get_delete)

end
