(* ===== verification/TextDocuments.thy ===== *)
theory TextDocuments
  imports SessionRegistry ReleaseScheduler DirtyState ClientShadow ModelLedger
begin

section \<open>The text document store\<close>

text \<open>
  \<open>DefaultHydraniumTextDocuments\<close> of \<open>core/src/documents/hydranium-text-documents.ts\<close>: the one text store
  every client writes to, composed of the session registry, the text ledger, the language client shadow,
  the dirty state tracker and the release scheduler. Each operation is one transition of \<open>store\<close>, in the
  order of the statements of the method. What the store calls but does not own is in \<open>env\<close>: the URI
  policy, the syntactic \<open>normalize\<close> of URIs, and the text library of the shadow. The clock's reading, the
  built root the workspace has for a document, and whether a delete is under way are arguments.

  Fired events are appended to \<open>storeLog\<close>; listeners are not modelled. The hand-over of a released
  document to the release handler is an event, and \<open>releaseSettled\<close> is the handler's promise settling.
  Documents are objects: a change keeps the identity, as the default configuration changes in place, and
  a newly created one gets the next.
\<close>

record env =
  canonical :: "uri \<Rightarrow> uri"
  normalize :: "uri \<Rightarrow> uri"
  textLib :: text_lib

datatype store_event =
    EvOpen uri version text_body client_id
  | EvContent uri version text_body client_id
  | EvClose uri version client_id
  | EvWillSave uri version int
  | EvSave uri version text_body client_id
  | EvLanguageClientSaved uri
  | EvReleased uri
  | EvHandOver uri bool "nat option"

datatype store_error =
    NoVersionError uri
  | NotOpenForChangesError uri
  | SessionRefused session_error
  | DocumentNotOpenError uri client_id
  | ConflictError uri version version

record store =
  synced :: "(uri, text_document) js_map"
  pendingContent :: "(uri, text_body) js_map"
  sessionReg :: registry
  openedVersions :: "(uri, version) js_map"
  ledger :: text_ledger
  langShadow :: shadow
  dirtyTracker :: tracker
  releases :: scheduler
  nextDocId :: nat
  storeLog :: "store_event list"

definition new_store :: "int \<Rightarrow> store" where
  "new_store grace =
     \<lparr>synced = [], pendingContent = [], sessionReg = new_registry, openedVersions = [], ledger = new_ledger,
      langShadow = new_shadow, dirtyTracker = new_tracker, releases = new_scheduler grace,
      nextDocId = 0, storeLog = []\<rparr>"

definition fire :: "store_event \<Rightarrow> store \<Rightarrow> store" where
  "fire ev S = S\<lparr>storeLog := storeLog S @ [ev]\<rparr>"

abbreviation with_registry :: "(registry \<Rightarrow> registry) \<Rightarrow> store \<Rightarrow> store" where
  "with_registry f S \<equiv> S\<lparr>sessionReg := f (sessionReg S)\<rparr>"

abbreviation with_shadow :: "(shadow \<Rightarrow> shadow) \<Rightarrow> store \<Rightarrow> store" where
  "with_shadow f S \<equiv> S\<lparr>langShadow := f (langShadow S)\<rparr>"

definition with_tracker :: "(tracker \<times> text_ledger \<Rightarrow> tracker \<times> text_ledger) \<Rightarrow> store \<Rightarrow> store" where
  "with_tracker f S =
     (let (T, L) = f (dirtyTracker S, ledger S) in S\<lparr>dirtyTracker := T, ledger := L\<rparr>)"

definition documentKey :: "env \<Rightarrow> uri \<Rightarrow> uri" where
  "documentKey E u = canonical E u"

definition toLanguageClientUri :: "env \<Rightarrow> uri \<Rightarrow> uri" where
  "toLanguageClientUri E u = normalize E u"

subsection \<open>Reads\<close>

text \<open>\<open>super.get\<close> looks the normalized URI up.\<close>

definition store_get :: "env \<Rightarrow> uri \<Rightarrow> store \<Rightarrow> text_document option" where
  "store_get E u S =
     (case js_get (synced S) (normalize E u) of
        Some d \<Rightarrow> Some d
      | None \<Rightarrow> js_get (synced S) (documentKey E u))"

definition store_version :: "env \<Rightarrow> uri \<Rightarrow> store \<Rightarrow> version" where
  "store_version E u S =
     (case store_get E u S of
        Some d \<Rightarrow> docVersion d
      | None \<Rightarrow> (case recordOf (documentKey E u) (ledger S) of Some r \<Rightarrow> recVersion r | None \<Rightarrow> 0))"

definition openedVersion :: "env \<Rightarrow> uri \<Rightarrow> store \<Rightarrow> version option" where
  "openedVersion E u S = js_get (openedVersions S) (documentKey E u)"

definition store_isDirty :: "env \<Rightarrow> uri \<Rightarrow> store \<Rightarrow> bool" where
  "store_isDirty E u S = isDirty (documentKey E u) (dirtyTracker S)"

definition store_isUnsavedCreation :: "env \<Rightarrow> uri \<Rightarrow> store \<Rightarrow> bool" where
  "store_isUnsavedCreation E u S = isUnsavedCreation (documentKey E u) (dirtyTracker S)"

definition isReleaseDeferred :: "env \<Rightarrow> uri \<Rightarrow> store \<Rightarrow> bool" where
  "isReleaseDeferred E u S = isDeferred (documentKey E u) (releases S)"

definition store_isOpen :: "env \<Rightarrow> uri \<Rightarrow> store \<Rightarrow> bool" where
  "store_isOpen E u S = js_has (synced S) (documentKey E u)"

definition isOpenInAnyClient :: "env \<Rightarrow> uri \<Rightarrow> store \<Rightarrow> bool" where
  "isOpenInAnyClient E u S = isOpen (documentKey E u) (sessionReg S)"

definition isOpenInClient :: "env \<Rightarrow> uri \<Rightarrow> client_id \<Rightarrow> store \<Rightarrow> bool" where
  "isOpenInClient E u c S = isOpenIn (documentKey E u) c (sessionReg S)"

definition isOpenInLanguageClient :: "env \<Rightarrow> uri \<Rightarrow> store \<Rightarrow> bool" where
  "isOpenInLanguageClient E u S = isOpenInClient E u LANGUAGE_CLIENT_ID S"

definition store_clientsOf :: "env \<Rightarrow> uri \<Rightarrow> store \<Rightarrow> client_id list" where
  "store_clientsOf E u S = clientsOf (documentKey E u) (sessionReg S)"

definition isOnlyOpenInClient :: "env \<Rightarrow> uri \<Rightarrow> client_id \<Rightarrow> store \<Rightarrow> bool" where
  "isOnlyOpenInClient E u c S \<longleftrightarrow> clientsOf (documentKey E u) (sessionReg S) = [c]"

definition getAuthor :: "env \<Rightarrow> uri \<Rightarrow> version option \<Rightarrow> store \<Rightarrow> client_id option" where
  "getAuthor E u v S = authorOf (documentKey E u) v (ledger S)"

definition textState :: "env \<Rightarrow> uri \<Rightarrow> store \<Rightarrow> text_state option \<times> store" where
  "textState E u S =
     (case store_get E u S of
        Some d \<Rightarrow>
          (let (h, L) = hashOf d (ledger S)
           in (Some \<lparr>tsVersion = docVersion d, tsHash = h, tsDirty = store_isDirty E u S\<rparr>, S\<lparr>ledger := L\<rparr>))
      | None \<Rightarrow>
          (map_option (\<lambda>r. \<lparr>tsVersion = recVersion r, tsHash = recHash r, tsDirty = False\<rparr>)
             (recordOf (documentKey E u) (ledger S)), S))"

definition assertLanguageClientHolds :: "env \<Rightarrow> bool \<Rightarrow> uri \<Rightarrow> int \<Rightarrow> store \<Rightarrow> store_error option" where
  "assertLanguageClientHolds E deleting u v S =
     (let key = documentKey E u; clientUri = toLanguageClientUri E u
      in case (shadow_declaredVersion key clientUri (langShadow S), js_get (synced S) key) of
           (Some declared, Some d) \<Rightarrow>
             (if deleting then Some (DocumentNotOpenError u LANGUAGE_CLIENT_ID)
              else (let h = (if declared = v then shadow_heldVersion key clientUri (langShadow S) else None)
                    in if h \<noteq> Some (docVersion d)
                       then Some (ConflictError u (case h of None \<Rightarrow> STALE_VERSION | Some b \<Rightarrow> b) (docVersion d))
                       else None))
         | _ \<Rightarrow> Some (DocumentNotOpenError u LANGUAGE_CLIENT_ID))"

definition isLanguageClientBehind :: "env \<Rightarrow> uri \<Rightarrow> version \<Rightarrow> store \<Rightarrow> bool" where
  "isLanguageClientBehind E u v S =
     (let key = documentKey E u; clientUri = toLanguageClientUri E u
      in shadow_isOpenAt key clientUri (langShadow S) \<and>
         (case shadow_heldVersion key clientUri (langShadow S) of None \<Rightarrow> True | Some h \<Rightarrow> h < v))"

subsection \<open>Commits\<close>

definition store_setAuthor :: "env \<Rightarrow> uri \<Rightarrow> version \<Rightarrow> client_id \<Rightarrow> store \<Rightarrow> store" where
  "store_setAuthor E u v c S = S\<lparr>ledger := setAuthor (documentKey E u) v c (ledger S)\<rparr>"

definition commitText :: "env \<Rightarrow> uri \<Rightarrow> text_document \<Rightarrow> client_id \<Rightarrow> store \<Rightarrow> store" where
  "commitText E key d author S =
     with_tracker (refreshDirty key d)
       (store_setAuthor E key (docVersion d) author (S\<lparr>synced := js_set key d (synced S)\<rparr>))"

definition update_doc :: "env \<Rightarrow> text_document \<Rightarrow> change list \<Rightarrow> version \<Rightarrow> text_document" where
  "update_doc E d changes v = d\<lparr>docText := update_text (textLib E) (docText d) changes, docVersion := v\<rparr>"

definition commitChange ::
  "env \<Rightarrow> uri \<Rightarrow> text_document \<Rightarrow> change list \<Rightarrow> client_id \<Rightarrow> store \<Rightarrow> (text_document \<times> bool) \<times> store" where
  "commitChange E key d changes author S =
     (let next = update_doc E d changes (docVersion d + 1); changed = (docText next \<noteq> docText d)
      in if changed then ((next, True), commitText E key next author S)
         else (let next' = update_doc E next [] (docVersion d)
               in ((next', False), S\<lparr>synced := js_set key next' (synced S)\<rparr>)))"

definition refreshContent :: "env \<Rightarrow> uri \<Rightarrow> client_id \<Rightarrow> store \<Rightarrow> store" where
  "refreshContent E u c S =
     (case js_get (synced S) (documentKey E u) of
        None \<Rightarrow> S
      | Some d \<Rightarrow> fire (EvContent (docUri d) (docVersion d) (docText d) c) S)"

definition applyContentChange ::
  "env \<Rightarrow> uri \<Rightarrow> text_body \<Rightarrow> client_id \<Rightarrow> store \<Rightarrow> store_error + version \<times> store" where
  "applyContentChange E u txt c S =
     (let key = documentKey E u
      in case js_get (synced S) key of
           None \<Rightarrow> Inl (NotOpenForChangesError u)
         | Some d \<Rightarrow>
             (let ((d', changed), S1) =
                (if docText d = txt then ((d, False), S) else commitChange E key d [FullText txt] c S)
              in Inr (docVersion d', fire (EvContent (docUri d') (docVersion d') (docText d') c) S1)))"

datatype repair_commit = RepairNotOpen | RepairStale | RepairCommitted text_document

definition commitRepair :: "env \<Rightarrow> uri \<Rightarrow> text_body \<Rightarrow> text_body \<Rightarrow> store \<Rightarrow> repair_commit \<times> store" where
  "commitRepair E u parsedFrom repaired S =
     (let key = documentKey E u
      in case js_get (synced S) key of
           None \<Rightarrow> (RepairNotOpen, S)
         | Some d \<Rightarrow>
             if docText d \<noteq> parsedFrom then (RepairStale, S)
             else if repaired = parsedFrom then (RepairCommitted d, S)
             else (let ((d', _), S1) = commitChange E key d [FullText repaired] INTEGRITY_CLIENT_ID S
                   in (RepairCommitted d', S1)))"

definition reconcileExternalContent :: "env \<Rightarrow> uri \<Rightarrow> text_body \<Rightarrow> store \<Rightarrow> version option \<times> store" where
  "reconcileExternalContent E u txt S =
     (let key = documentKey E u
      in case js_get (synced S) key of
           Some d \<Rightarrow> (if docText d = txt then Some (docVersion d) else None, S)
         | None \<Rightarrow> (let (v, L) = reconcile key txt (ledger S) in (Some v, S\<lparr>ledger := L\<rparr>)))"

definition store_setDiskBaseline :: "env \<Rightarrow> uri \<Rightarrow> text_body option \<Rightarrow> store \<Rightarrow> store" where
  "store_setDiskBaseline E u txt S =
     (let key = documentKey E u
      in case js_get (synced S) key of
           None \<Rightarrow> S
         | Some d \<Rightarrow> with_tracker (setDiskBaseline key d txt) S)"

definition store_markCreated :: "env \<Rightarrow> uri \<Rightarrow> store \<Rightarrow> store" where
  "store_markCreated E u S =
     (let key = documentKey E u
      in case js_get (synced S) key of
           None \<Rightarrow> S
         | Some d \<Rightarrow> with_tracker (markCreated key d) S)"

definition stagePendingContent :: "env \<Rightarrow> uri \<Rightarrow> text_body \<Rightarrow> store \<Rightarrow> store" where
  "stagePendingContent E u txt S = S\<lparr>pendingContent := js_set (documentKey E u) txt (pendingContent S)\<rparr>"

definition consumePendingContent :: "env \<Rightarrow> uri \<Rightarrow> store \<Rightarrow> text_body option \<times> store" where
  "consumePendingContent E u S =
     (let key = documentKey E u
      in (js_get (pendingContent S) key, S\<lparr>pendingContent := js_delete key (pendingContent S)\<rparr>))"

definition store_setLanguageClientText :: "env \<Rightarrow> uri \<Rightarrow> text_body \<Rightarrow> store \<Rightarrow> store" where
  "store_setLanguageClientText E u txt S =
     with_shadow (setLanguageClientText (toLanguageClientUri E u) txt
       (case store_get E u S of Some d \<Rightarrow> if docText d = txt then Some (docVersion d) else None | None \<Rightarrow> None)) S"

definition store_invalidateLanguageClientText :: "env \<Rightarrow> uri \<Rightarrow> store \<Rightarrow> store" where
  "store_invalidateLanguageClientText E u S = with_shadow (invalidateText (toLanguageClientUri E u)) S"

subsection \<open>Releases\<close>

text \<open>
  \<open>releaseDocument\<close>. The event \<open>EvHandOver\<close> is the call of the release handler with the released
  document; its flag is \<open>wasOnDisk\<close> and its token the clean announcement the document owes.
\<close>

definition releaseDocument :: "uri \<Rightarrow> store \<Rightarrow> store" where
  "releaseDocument key S =
     (case js_get (synced S) key of
        None \<Rightarrow> S
      | Some d \<Rightarrow>
          (let L1 = clearAuthors key (record_release key d (ledger S));
               wasOnDisk = hasDiskBaseline key (dirtyTracker S);
               (token, T1) = release key (dirtyTracker S);
               S1 = S\<lparr>ledger := L1, dirtyTracker := T1, synced := js_delete key (synced S),
                      openedVersions := js_delete key (openedVersions S),
                      sessionReg := forgetClientVersions key (sessionReg S),
                      pendingContent := js_delete key (pendingContent S),
                      releases := clearLosses key (releases S)\<rparr>
           in fire (EvHandOver key wasOnDisk token) (fire (EvReleased key) S1)))"

definition release_unless_open :: "uri \<Rightarrow> store \<Rightarrow> store" where
  "release_unless_open key S = (if isOpen key (sessionReg S) then S else releaseDocument key S)"

definition deferRelease :: "time \<Rightarrow> uri \<Rightarrow> store \<Rightarrow> store" where
  "deferRelease now key S =
     (let (release_now, R) = defer_release key now (releases S); S1 = S\<lparr>releases := R\<rparr>
      in if release_now then release_unless_open key S1 else S1)"

text \<open>The timer of a deferred release, which runs the callback \<open>defer\<close> was given.\<close>

definition releaseTimer :: "time \<Rightarrow> uri \<Rightarrow> store \<Rightarrow> store option" where
  "releaseTimer now key S =
     (case timerFires key now (releases S) of
        None \<Rightarrow> None
      | Some R \<Rightarrow> Some (release_unless_open key (S\<lparr>releases := R\<rparr>)))"

definition resolveDeferredRelease :: "time \<Rightarrow> uri \<Rightarrow> client_id \<Rightarrow> store \<Rightarrow> store" where
  "resolveDeferredRelease now key c S =
     (let (decision, R) = resolveOpen key c now (releases S); S1 = S\<lparr>releases := R\<rparr>
      in if decision = Release then releaseDocument key S1 else S1)"

definition releaseIfDeferred :: "uri \<Rightarrow> store \<Rightarrow> store" where
  "releaseIfDeferred key S =
     (if isDeferred key (releases S) then releaseDocument key (S\<lparr>releases := cancel key (releases S)\<rparr>) else S)"

text \<open>
  \<open>announceClean\<close> of \<open>handOverRelease\<close>, run when the handler's promise settles: \<open>built\<close> says that it
  fulfilled, \<open>inBuild\<close> that the workspace then has the document.
\<close>

definition releaseSettled :: "env \<Rightarrow> uri \<Rightarrow> nat option \<Rightarrow> bool \<Rightarrow> bool \<Rightarrow> store \<Rightarrow> store" where
  "releaseSettled E key token built inBuild S =
     (case token of
        None \<Rightarrow> S
      | Some t \<Rightarrow>
          if \<not> isOwed key t (dirtyTracker S) then S
          else (let (ts, S1) = (if built \<and> inBuild then textState E key S else (None, S))
                in S1\<lparr>dirtyTracker := announce key t ts (dirtyTracker S1)\<rparr>))"

subsection \<open>Closes\<close>

definition close_in_shadow :: "env \<Rightarrow> uri \<Rightarrow> store \<Rightarrow> store" where
  "close_in_shadow E u S =
     (let key = documentKey E u; clientUri = toLanguageClientUri E u
      in with_shadow (if shadow_isOpenAt key clientUri (langShadow S)
                      then shadow_removeOpen key clientUri else removeAllOpens key) S)"

definition notifyDidCloseTextDocument ::
  "env \<Rightarrow> time \<Rightarrow> uri \<Rightarrow> client_id \<Rightarrow> end_cause \<Rightarrow> store \<Rightarrow> store" where
  "notifyDidCloseTextDocument E now u c cause S =
     (let key = documentKey E u; S1 = (if c = LANGUAGE_CLIENT_ID then close_in_shadow E u S else S)
      in if c = LANGUAGE_CLIENT_ID \<and> shadow_isOpen key (langShadow S1) then S1
         else (let (removed, R) = removeOpen key c (sessionReg S1); S2 = S1\<lparr>sessionReg := R\<rparr>
               in if \<not> removed then S2
                  else (let S3 = (if cause = Lost then S2\<lparr>releases := recordLoss key c now (releases S2)\<rparr> else S2)
                        in case js_get (synced S3) key of
                             None \<Rightarrow> S3
                           | Some d \<Rightarrow>
                               (let S4 = fire (EvClose (docUri d) (docVersion d) c) S3
                                in if isOpen key (sessionReg S4) then S4
                                   else if cause = Lost then deferRelease now key S4
                                   else releaseDocument key S4))))"

definition registerSession :: "client_id \<Rightarrow> store \<Rightarrow> store_error + store" where
  "registerSession c S =
     (case register c (sessionReg S) of Inl e \<Rightarrow> Inl (SessionRefused e) | Inr R \<Rightarrow> Inr (S\<lparr>sessionReg := R\<rparr>))"

definition closeSession :: "env \<Rightarrow> time \<Rightarrow> client_id \<Rightarrow> end_cause \<Rightarrow> store \<Rightarrow> store" where
  "closeSession E now c cause S =
     (if \<not> isRegistered c (sessionReg S) then S
      else (let (us, R) = beginClose c (sessionReg S);
                S1 = fold (\<lambda>u. notifyDidCloseTextDocument E now u c cause) us (S\<lparr>sessionReg := R\<rparr>)
            in with_registry (unregister c cause) S1))"

definition closeLanguageClientDocuments :: "env \<Rightarrow> time \<Rightarrow> store \<Rightarrow> store" where
  "closeLanguageClientDocuments E now S =
     fold (\<lambda>u S. notifyDidCloseTextDocument E now u LANGUAGE_CLIENT_ID Closed (with_shadow (removeAllOpens u) S))
       (opensOf LANGUAGE_CLIENT_ID (sessionReg S)) S"

definition notifyDocumentDeleted :: "env \<Rightarrow> time \<Rightarrow> uri \<Rightarrow> store \<Rightarrow> store" where
  "notifyDocumentDeleted E now u S =
     (let key = documentKey E u
      in releaseIfDeferred key
           (fold (\<lambda>c S. if c \<noteq> LANGUAGE_CLIENT_ID then notifyDidCloseTextDocument E now key c Closed S else S)
              (clientsOf key (sessionReg S)) S))"

definition store_delete :: "env \<Rightarrow> time \<Rightarrow> uri \<Rightarrow> store \<Rightarrow> store" where
  "store_delete E now u S =
     (let key = documentKey E u; S0 = with_shadow (removeAllOpens key) S;
          S1 = fold (\<lambda>c. notifyDidCloseTextDocument E now key c Closed) (clientsOf key (sessionReg S0)) S0;
          S2 = releaseIfDeferred key S1
      in S2\<lparr>synced := js_delete (normalize E key) (synced S2)\<rparr>)"

subsection \<open>Opens\<close>

definition builtRootOpeningVersion ::
  "(model_root \<times> text_body) option \<Rightarrow> model_ledger \<Rightarrow> text_body \<Rightarrow> version option" where
  "builtRootOpeningVersion built M txt =
     (case built of
        None \<Rightarrow> None
      | Some (root, builtText) \<Rightarrow>
          (let recorded = versionOf root M
           in if recorded = UNRECORDED_VERSION \<or> recorded = STALE_VERSION then None
              else Some (if (case textOf root M of Some t \<Rightarrow> t | None \<Rightarrow> builtText) = txt
                         then recorded else recorded + 1)))"

text \<open>The version a first open starts at: \<open>openingVersion ?? builtRootOpeningVersion ?? td.version\<close>.\<close>

definition first_version ::
  "(model_root \<times> text_body) option \<Rightarrow> model_ledger \<Rightarrow> uri \<Rightarrow> text_body \<Rightarrow> int \<Rightarrow> text_ledger \<Rightarrow> version" where
  "first_version built M key txt declared L =
     (case openingVersion key txt L of
        Some v \<Rightarrow> v
      | None \<Rightarrow> (case builtRootOpeningVersion built M txt of Some v \<Rightarrow> v | None \<Rightarrow> declared))"

text \<open>The branch of \<open>notifyDidOpenTextDocument\<close> that makes the document.\<close>

definition firstOpen ::
  "env \<Rightarrow> (model_root \<times> text_body) option \<Rightarrow> model_ledger \<Rightarrow> uri \<Rightarrow> string \<Rightarrow> int \<Rightarrow> text_body \<Rightarrow> client_id
   \<Rightarrow> store \<Rightarrow> store" where
  "firstOpen E built M u languageId declared txt c S =
     (let key = documentKey E u;
          (staged, S1) = consumePendingContent E key S;
          content = (case staged of Some p \<Rightarrow> p | None \<Rightarrow> txt);
          v = first_version built M key content declared (ledger S1);
          S2 = (if c = LANGUAGE_CLIENT_ID \<and> content = txt
                then with_shadow (setLanguageClientText (toLanguageClientUri E u) content (Some v)) S1 else S1);
          d = \<lparr>docId = nextDocId S2, docUri = key, docLanguage = languageId, docVersion = v, docText = content\<rparr>;
          S3 = commitText E key d c (S2\<lparr>nextDocId := Suc (nextDocId S2)\<rparr>);
          S4 = S3\<lparr>openedVersions := js_set key v (openedVersions S3)\<rparr>;
          S5 = with_tracker (track key d (Some txt)) S4
      in fire (EvContent key v content c) (fire (EvOpen key v content c) S5))"

definition notifyDidOpenTextDocument ::
  "env \<Rightarrow> time \<Rightarrow> (model_root \<times> text_body) option \<Rightarrow> model_ledger \<Rightarrow> uri \<Rightarrow> string \<Rightarrow> int \<Rightarrow> text_body
   \<Rightarrow> client_id \<Rightarrow> store \<Rightarrow> store_error + store" where
  "notifyDidOpenTextDocument E now built M u languageId declared txt c S =
     (let key = documentKey E u
      in case (if isOpenIn key c (sessionReg S) then None else assertCanOpen c (sessionReg S)) of
           Some e \<Rightarrow> Inl (SessionRefused e)
         | None \<Rightarrow>
             (let S1 = resolveDeferredRelease now key c S;
                  document = js_get (synced S1) key;
                  S2 = (if c = LANGUAGE_CLIENT_ID
                        then with_shadow (shadow_addOpen key (toLanguageClientUri E u) declared txt (document = None)
                               (case document of
                                  Some d \<Rightarrow> if docText d = txt then Some (docVersion d) else None
                                | None \<Rightarrow> None)) S1
                        else S1)
              in if isOpenInClient E key c S2 then Inr S2
                 else case addOpen key c (sessionReg S2) of
                        Inl e \<Rightarrow> Inl (SessionRefused e)
                      | Inr (_, R) \<Rightarrow>
                          (let S3 = S2\<lparr>sessionReg := setClientVersion key c declared R\<rparr>
                           in Inr (if document = None then firstOpen E built M u languageId declared txt c S3
                                   else refreshContent E key c S3))))"

definition attachClient :: "env \<Rightarrow> time \<Rightarrow> uri \<Rightarrow> client_id \<Rightarrow> store \<Rightarrow> store_error + bool \<times> store" where
  "attachClient E now u c S =
     (let key = documentKey E u
      in if \<not> js_has (synced S) key \<or> isOpenInClient E key c S then Inr (False, S)
         else case assertCanOpen c (sessionReg S) of
                Some e \<Rightarrow> Inl (SessionRefused e)
              | None \<Rightarrow>
                  (let S1 = resolveDeferredRelease now key c S
                   in case js_get (synced S1) key of
                        None \<Rightarrow> Inr (False, S1)
                      | Some d \<Rightarrow>
                          (case addOpen key c (sessionReg S1) of
                             Inl e \<Rightarrow> Inl (SessionRefused e)
                           | Inr (_, R) \<Rightarrow> Inr (True, S1\<lparr>sessionReg := setClientVersion key c (docVersion d) R\<rparr>))))"

subsection \<open>Changes\<close>

definition lastSeen :: "env \<Rightarrow> uri \<Rightarrow> client_id \<Rightarrow> text_document \<Rightarrow> store \<Rightarrow> int" where
  "lastSeen E u c d S =
     (let key = documentKey E u
      in case (if c = LANGUAGE_CLIENT_ID then shadow_declaredVersion key (toLanguageClientUri E u) (langShadow S) else None) of
           Some v \<Rightarrow> v
         | None \<Rightarrow> (case clientVersionOf key c (sessionReg S) of Some v \<Rightarrow> v | None \<Rightarrow> docVersion d))"

definition notifyDidChangeTextDocument ::
  "env \<Rightarrow> uri \<Rightarrow> int option \<Rightarrow> change list \<Rightarrow> client_id \<Rightarrow> store \<Rightarrow> store_error + store" where
  "notifyDidChangeTextDocument E u declared changes c S =
     (if changes = [] then Inr S
      else case declared of
             None \<Rightarrow> Inl (NoVersionError u)
           | Some v \<Rightarrow>
               (let key = documentKey E u; clientUri = toLanguageClientUri E u; editor = (c = LANGUAGE_CLIENT_ID)
                in case js_get (synced S) key of
                     None \<Rightarrow> Inr S
                   | Some d \<Rightarrow>
                       if v \<le> lastSeen E u c d S then Inr S
                       else
                         (let S1 = with_registry (setClientVersion key c v) S;
                              (verdict, W) = (if editor then acceptChange (textLib E) key clientUri v d changes (langShadow S1)
                                              else (Direct, langShadow S1));
                              S2 = S1\<lparr>langShadow := W\<rparr>
                          in if verdict = Echo then Inr S2
                             else
                               (let ((d', changed), S3) =
                                  commitChange E key d (case verdict of Divergent t \<Rightarrow> [FullText t] | _ \<Rightarrow> changes) c S2;
                                    S4 = (if editor then with_shadow (setLanguageClientText clientUri (docText d') (Some (docVersion d'))) S3
                                          else S3)
                                in if editor \<and> \<not> changed then Inr S4
                                   else Inr (fire (EvContent (docUri d') (docVersion d') (docText d') c) S4)))))"

subsection \<open>Saves\<close>

definition announceSave :: "text_document \<Rightarrow> client_id \<Rightarrow> store \<Rightarrow> store" where
  "announceSave d c S = fire (EvSave (docUri d) (docVersion d) (docText d) c) S"

definition notifyWillSaveTextDocument :: "env \<Rightarrow> uri \<Rightarrow> int \<Rightarrow> store \<Rightarrow> store" where
  "notifyWillSaveTextDocument E u reason S =
     (case js_get (synced S) (documentKey E u) of
        None \<Rightarrow> S
      | Some d \<Rightarrow> fire (EvWillSave (docUri d) (docVersion d) reason) S)"

definition notifyDidSaveTextDocument :: "env \<Rightarrow> uri \<Rightarrow> text_body option \<Rightarrow> client_id \<Rightarrow> store \<Rightarrow> store" where
  "notifyDidSaveTextDocument E u txt c S =
     (case js_get (synced S) (documentKey E u) of
        None \<Rightarrow> S
      | Some d \<Rightarrow>
          announceSave d c (case txt of Some t \<Rightarrow> store_setDiskBaseline E (docUri d) (Some t) S | None \<Rightarrow> S))"

text \<open>
  \<open>notifyLanguageClientSave\<close> before and after the file is read back: the document found before the read
  is kept for after it; \<open>onDisk\<close> is the text read, \<open>None\<close> when reading failed.
\<close>

definition languageClientSaveBegins :: "env \<Rightarrow> uri \<Rightarrow> store \<Rightarrow> text_document option \<times> store" where
  "languageClientSaveBegins E u S =
     (case js_get (synced S) (documentKey E u) of
        None \<Rightarrow> (None, S)
      | Some d \<Rightarrow> (Some d, fire (EvLanguageClientSaved (docUri d)) S))"

definition languageClientSaveRead :: "env \<Rightarrow> text_document \<Rightarrow> text_body option \<Rightarrow> store \<Rightarrow> store" where
  "languageClientSaveRead E before onDisk S =
     (case onDisk of
        None \<Rightarrow> S
      | Some txt \<Rightarrow>
          (let S1 = store_setDiskBaseline E (docUri before) (Some txt) S;
               d = (case js_get (synced S1) (documentKey E (docUri before)) of Some d \<Rightarrow> d | None \<Rightarrow> before)
           in if txt \<noteq> docText d then S1 else announceSave d LANGUAGE_CLIENT_ID S1))"

text \<open>
  What \<open>reloadDiskBaseline\<close> takes as the baseline: the first read, or, when it failed and the file is
  found to exist after all, a second one.
\<close>

definition reloaded_text :: "text_body option \<Rightarrow> bool \<Rightarrow> text_body option \<Rightarrow> text_body option" where
  "reloaded_text read1 exists read2 = (if read1 = None \<and> exists then read2 else read1)"

definition reloadDiskBaseline :: "env \<Rightarrow> uri \<Rightarrow> text_body option \<Rightarrow> bool \<Rightarrow> text_body option \<Rightarrow> store \<Rightarrow> store" where
  "reloadDiskBaseline E u read1 exists read2 S =
     (let key = documentKey E u
      in if \<not> js_has (synced S) key then S
         else store_setDiskBaseline E key (reloaded_text read1 exists read2) S)"

subsection \<open>Pushes to the language client\<close>

text \<open>
  The loop of \<open>applyEditToLanguageClient\<close>: each target is prepared after the reply to the one before.
  \<open>reply\<close> stands for the client: \<open>Some True\<close> and \<open>Some False\<close> are \<open>result.applied\<close>, \<open>None\<close> a failed call.
\<close>

fun push_to_targets ::
  "env \<Rightarrow> uri \<Rightarrow> text_body \<Rightarrow> (prepared_push \<Rightarrow> bool option) \<Rightarrow> uri list \<Rightarrow> bool option \<Rightarrow> store
   \<Rightarrow> (unit + bool option) \<times> store" where
  "push_to_targets E key txt reply [] lastResult S = (Inr lastResult, S)"
| "push_to_targets E key txt reply (clientUri # rest) lastResult S =
     (let (push, W) = preparePush (textLib E) key clientUri txt (langShadow S); S1 = S\<lparr>langShadow := W\<rparr>
      in case push of
           None \<Rightarrow> push_to_targets E key txt reply rest lastResult S1
         | Some p \<Rightarrow>
             (case reply p of
                None \<Rightarrow> (Inl (), with_shadow (notifyOutcome p Failed) S1)
              | Some applied \<Rightarrow>
                  push_to_targets E key txt reply rest (Some applied)
                    (with_shadow (notifyOutcome p (if applied then Applied else Refused)) S1)))"

definition applyEditToLanguageClient ::
  "env \<Rightarrow> bool \<Rightarrow> uri \<Rightarrow> text_body \<Rightarrow> (prepared_push \<Rightarrow> bool option) \<Rightarrow> store \<Rightarrow> (unit + bool option) \<times> store" where
  "applyEditToLanguageClient E connected u txt reply S =
     (if \<not> connected then (Inr None, S)
      else push_to_targets E (documentKey E u) txt reply (pushTargets (documentKey E u) (langShadow S)) None S)"

subsection \<open>Names in the log\<close>

text \<open>\<open>formatClientId\<close>: \<open>lastIndexOf('#')\<close> and \<open>slice(0, separator + 9)\<close>.\<close>

definition formatClientId :: "client_id \<Rightarrow> string" where
  "formatClientId c =
     (if CHR ''#'' \<notin> set c then c
      else (let separator = length c - 1 - length (takeWhile (\<lambda>x. x \<noteq> CHR ''#'') (rev c))
            in take (separator + 9) c))"

end
