(* ===== verification/StoreInvariant.thy ===== *)
theory StoreInvariant
  imports TextDocuments
begin

section \<open>The invariant of the text document store\<close>

text \<open>
  What ties the store's collaborators together, for each key: a document is held exactly while some
  client has it open or its release is deferred; it is tracked for dirtiness with the flag that its text
  and baseline give; its opening version is kept; the shadow has it open only while the registry says
  that the language client does. Across keys: the collaborators' own invariants, and documents with an
  identity of their own whose digests the ledger caches truthfully.

  The URI policy and the text library are parameters. \<open>env_ok\<close> says what their documentation does: the
  canonical form of a canonical or of a normalized URI is the canonical form itself, and a full-text
  change or no change give the text one expects.
\<close>

definition env_ok :: "env \<Rightarrow> bool" where
  "env_ok E \<longleftrightarrow> (\<forall>u. canonical E (canonical E u) = canonical E u) \<and>
     (\<forall>u. canonical E (normalize E u) = canonical E u) \<and> text_lib_ok (textLib E)"

definition docs_ok :: "(uri, text_document) js_map \<Rightarrow> nat \<Rightarrow> text_ledger \<Rightarrow> bool" where
  "docs_ok D n L \<longleftrightarrow>
     (\<forall>k d. js_get D k = Some d \<longrightarrow> docId d < n \<and> cache_ok d L) \<and>
     (\<forall>k k' d d'. js_get D k = Some d \<longrightarrow> js_get D k' = Some d' \<longrightarrow> docId d = docId d' \<longrightarrow> k = k') \<and>
     (\<forall>i \<ge> n. js_get (hashes L) i = None)"

definition base_ok :: "store \<Rightarrow> bool" where
  "base_ok S \<longleftrightarrow> registry_ok (sessionReg S) \<and> shadow_ok (langShadow S) \<and> opens_ok (langShadow S) \<and>
     tracker_ok (dirtyTracker S) \<and> losses_ok (releases S) \<and> docs_ok (synced S) (nextDocId S) (ledger S)"

text \<open>What the collaborators say of one key.\<close>

record key_view =
  viewDoc :: "text_document option"
  viewEntry :: "dirty_entry option"
  viewOpened :: "version option"
  viewDeferred :: bool
  viewClients :: "client_id \<Rightarrow> bool"
  viewUris :: "uri \<Rightarrow> bool"

definition view :: "store \<Rightarrow> uri \<Rightarrow> key_view" where
  "view S k = \<lparr>viewDoc = js_get (synced S) k, viewEntry = js_get (states (dirtyTracker S)) k,
               viewOpened = js_get (openedVersions S) k, viewDeferred = isDeferred k (releases S),
               viewClients = (\<lambda>c. isOpenIn k c (sessionReg S)),
               viewUris = (\<lambda>u. open_state_of k u (langShadow S) \<noteq> None)\<rparr>"

definition view_ok :: "env \<Rightarrow> uri \<Rightarrow> key_view \<Rightarrow> bool" where
  "view_ok E k V \<longleftrightarrow>
     (case viewDoc V of
        None \<Rightarrow> viewEntry V = None \<and> viewOpened V = None \<and> \<not> viewDeferred V \<and>
                (\<forall>c. \<not> viewClients V c) \<and> (\<forall>u. \<not> viewUris V u)
      | Some d \<Rightarrow>
          canonical E k = k \<and> docUri d = k \<and>
          (case viewEntry V of None \<Rightarrow> False | Some e \<Rightarrow> dirty e = (Some (docText d) \<noteq> baseline e)) \<and>
          (case viewOpened V of None \<Rightarrow> False | Some v \<Rightarrow> v \<le> docVersion d) \<and>
          (viewDeferred V \<longleftrightarrow> (\<forall>c. \<not> viewClients V c)) \<and>
          (\<forall>u. viewUris V u \<longrightarrow> viewClients V LANGUAGE_CLIENT_ID \<and> canonical E u = k))"

definition store_ok :: "env \<Rightarrow> store \<Rightarrow> bool" where
  "store_ok E S \<longleftrightarrow> base_ok S \<and> (\<forall>k. view_ok E k (view S k))"

lemma store_okI:
  assumes "store_ok E S" and "base_ok S'" and "\<And>k. k \<noteq> key \<Longrightarrow> view S' k = view S k"
    and "view_ok E key (view S' key)"
  shows "store_ok E S'"
  using assms by (metis store_ok_def)

lemma store_okD: "store_ok E S \<Longrightarrow> base_ok S" "store_ok E S \<Longrightarrow> view_ok E k (view S k)"
  by (simp_all add: store_ok_def)

lemma base_okD:
  assumes "base_ok S"
  shows "registry_ok (sessionReg S)" "shadow_ok (langShadow S)" "opens_ok (langShadow S)"
    "tracker_ok (dirtyTracker S)" "losses_ok (releases S)" "docs_ok (synced S) (nextDocId S) (ledger S)"
  using assms by (simp_all add: base_ok_def)

lemma view_sel [simp]:
  "viewDoc (view S k) = js_get (synced S) k"
  "viewEntry (view S k) = js_get (states (dirtyTracker S)) k"
  "viewOpened (view S k) = js_get (openedVersions S) k"
  "viewDeferred (view S k) = isDeferred k (releases S)"
  "viewClients (view S k) = (\<lambda>c. isOpenIn k c (sessionReg S))"
  "viewUris (view S k) = (\<lambda>u. open_state_of k u (langShadow S) \<noteq> None)"
  by (simp_all add: view_def)

lemma view_eqI:
  assumes "js_get (synced S') k = js_get (synced S) k"
    "js_get (states (dirtyTracker S')) k = js_get (states (dirtyTracker S)) k"
    "js_get (openedVersions S') k = js_get (openedVersions S) k"
    "isDeferred k (releases S') = isDeferred k (releases S)"
    "\<And>c. isOpenIn k c (sessionReg S') = isOpenIn k c (sessionReg S)"
    "\<And>u. (open_state_of k u (langShadow S') = None) = (open_state_of k u (langShadow S) = None)"
  shows "view S' k = view S k"
  using assms by (auto simp: view_def)

subsection \<open>Documents and digests\<close>

lemma docs_ok_records [simp]:
  "docs_ok D n (L\<lparr>records := rs\<rparr>) = docs_ok D n L" "docs_ok D n (L\<lparr>authors := as\<rparr>) = docs_ok D n L"
  by (simp_all add: docs_ok_def)

lemma docs_ok_ledger [simp]:
  "docs_ok D n (setAuthor k v a L) = docs_ok D n L" "docs_ok D n (clearAuthors k L) = docs_ok D n L"
  by (simp_all add: setAuthor_def clearAuthors_def)

lemma docs_ok_hashes: "hashes L' = hashes L \<Longrightarrow> docs_ok D n L' = docs_ok D n L"
  by (simp add: docs_ok_def cache_ok_def)

lemma docs_ok_reconcile [simp]: "docs_ok D n (snd (reconcile k t L)) = docs_ok D n L"
  by (rule docs_ok_hashes) simp

lemma docs_okI:
  assumes "\<And>k d. js_get D k = Some d \<Longrightarrow> docId d < n" "\<And>k d. js_get D k = Some d \<Longrightarrow> cache_ok d L"
    and "\<And>k k' d d'. js_get D k = Some d \<Longrightarrow> js_get D k' = Some d' \<Longrightarrow> docId d = docId d' \<Longrightarrow> k = k'"
    and "\<And>i. n \<le> i \<Longrightarrow> js_get (hashes L) i = None"
  shows "docs_ok D n L"
  using assms by (simp add: docs_ok_def)

lemma docs_okD:
  assumes "docs_ok D n L"
  shows "js_get D k = Some d \<Longrightarrow> docId d < n" "js_get D k = Some d \<Longrightarrow> cache_ok d L"
    "js_get D k = Some d \<Longrightarrow> js_get D k' = Some d' \<Longrightarrow> docId d = docId d' \<Longrightarrow> k = k'"
    "n \<le> i \<Longrightarrow> js_get (hashes L) i = None"
  using assms by (simp_all add: docs_ok_def)

lemma docs_ok_hashOf:
  assumes "docs_ok D n L" and "js_get D k = Some d"
  shows "docs_ok D n (snd (hashOf d L))"
proof (rule docs_okI)
  note ok = docs_okD [OF assms(1)]
  show "js_get (hashes (snd (hashOf d L))) i = None" if "n \<le> i" for i
    using ok(4) [OF that] ok(1) [OF assms(2)] that by (auto simp: hashOf_def js_get_set split: option.splits)
  show "cache_ok x (snd (hashOf d L))" if x: "js_get D k' = Some x" for k' x
  proof (rule cache_ok_hashOf [OF ok(2) [OF assms(2)] ok(2) [OF x]])
    show "d = x" if "docId d = docId x" using ok(3) [OF assms(2) x that] assms(2) x by simp
  qed
qed (use docs_okD [OF assms(1)] in blast)+

lemma docs_ok_delete: "docs_ok D n L \<Longrightarrow> docs_ok (js_delete k D) n L"
  by (simp add: docs_ok_def js_get_delete)

lemma docs_ok_update:
  assumes "docs_ok D n L" and "js_get D k = Some d" and "docId d' = docId d"
    and "docVersion d < docVersion d' \<or> (docVersion d = docVersion d' \<and> docText d = docText d')"
  shows "docs_ok (js_set k d' D) n L"
proof (rule docs_okI)
  note ok = docs_okD [OF assms(1)]
  have d': "cache_ok d' L" "docId d' < n"
    using ok(1,2) [OF assms(2)] assms(3,4) by (auto simp: cache_ok_def)
  show "docId x < n" "cache_ok x L" if "js_get (js_set k d' D) k' = Some x" for k' x
    using that d' ok(1,2) by (auto simp: js_get_set split: if_splits)
  have only: "k' = k" if "js_get D k' = Some x" "docId x = docId d'" for k' x
    using ok(3) [OF that(1) assms(2)] assms(3) that(2) by simp
  show "k1 = k2" if "js_get (js_set k d' D) k1 = Some x" "js_get (js_set k d' D) k2 = Some y" "docId x = docId y" for k1 k2 x y
    using that only [of k1 x] only [of k2 y] ok(3) [of k1 x k2 y] by (auto simp: js_get_set split: if_splits)
qed (use docs_okD [OF assms(1)] in blast)

lemma docs_ok_create:
  assumes "docs_ok D n L" and "docId d = n"
  shows "docs_ok (js_set k d D) (Suc n) L"
proof (rule docs_okI)
  note ok = docs_okD [OF assms(1)]
  show "docId x < Suc n" "cache_ok x L" if "js_get (js_set k d D) k' = Some x" for k' x
    using that assms(2) ok(1,2) [of k' x] ok(4) [of n] by (auto simp: js_get_set cache_ok_def split: if_splits)
  show "k1 = k2" if "js_get (js_set k d D) k1 = Some x" "js_get (js_set k d D) k2 = Some y" "docId x = docId y" for k1 k2 x y
    using that assms(2) ok(1) [of k1 x] ok(1) [of k2 y] ok(3) [of k1 x k2 y] by (auto simp: js_get_set split: if_splits)
  show "js_get (hashes L) i = None" if "Suc n \<le> i" for i using that ok(4) [of i] by simp
qed

lemma docs_ok_refresh:
  assumes "docs_ok D n L" and "js_get D k = Some d"
  shows "docs_ok D n (snd (refreshDirty key d (T, L)))"
  using refreshDirty_ledger [of key d T L] docs_ok_hashOf [OF assms] assms(1) by auto

text \<open>What the setters of the tracker do to the ledger is what a refresh does.\<close>

lemma docs_ok_tracker:
  assumes "docs_ok D n L" and "js_get D k = Some d"
  shows "docs_ok D n (snd (setDiskBaseline key d txt (T, L)))" "docs_ok D n (snd (markCreated key d (T, L)))"
    "docs_ok D n (snd (track key d txt (T, L)))"
  using assms docs_ok_refresh [OF assms]
  by (auto simp: setDiskBaseline_def markCreated_def track_def split: option.splits)

subsection \<open>Fields the glue leaves alone\<close>

lemma fire_simps [simp]:
  "synced (fire ev S) = synced S" "pendingContent (fire ev S) = pendingContent S"
  "sessionReg (fire ev S) = sessionReg S" "openedVersions (fire ev S) = openedVersions S"
  "ledger (fire ev S) = ledger S" "langShadow (fire ev S) = langShadow S"
  "dirtyTracker (fire ev S) = dirtyTracker S" "releases (fire ev S) = releases S"
  "nextDocId (fire ev S) = nextDocId S" "storeLog (fire ev S) = storeLog S @ [ev]"
  by (simp_all add: fire_def)

lemma with_tracker_simps [simp]:
  "synced (with_tracker f S) = synced S" "pendingContent (with_tracker f S) = pendingContent S"
  "sessionReg (with_tracker f S) = sessionReg S" "openedVersions (with_tracker f S) = openedVersions S"
  "ledger (with_tracker f S) = snd (f (dirtyTracker S, ledger S))"
  "langShadow (with_tracker f S) = langShadow S"
  "dirtyTracker (with_tracker f S) = fst (f (dirtyTracker S, ledger S))" "releases (with_tracker f S) = releases S"
  "nextDocId (with_tracker f S) = nextDocId S" "storeLog (with_tracker f S) = storeLog S"
  by (simp_all add: with_tracker_def case_prod_beta)

lemma setAuthor_simps [simp]:
  "synced (store_setAuthor E u v c S) = synced S" "sessionReg (store_setAuthor E u v c S) = sessionReg S"
  "openedVersions (store_setAuthor E u v c S) = openedVersions S"
  "ledger (store_setAuthor E u v c S) = setAuthor (documentKey E u) v c (ledger S)"
  "langShadow (store_setAuthor E u v c S) = langShadow S" "dirtyTracker (store_setAuthor E u v c S) = dirtyTracker S"
  "releases (store_setAuthor E u v c S) = releases S" "nextDocId (store_setAuthor E u v c S) = nextDocId S"
  "pendingContent (store_setAuthor E u v c S) = pendingContent S" "storeLog (store_setAuthor E u v c S) = storeLog S"
  by (simp_all add: store_setAuthor_def)

lemma view_fire [simp]: "view (fire ev S) = view S" "base_ok (fire ev S) = base_ok S"
  by (auto simp: view_def base_ok_def)

lemma store_ok_fire [simp]: "store_ok E (fire ev S) = store_ok E S"
  by (simp add: store_ok_def)

lemma new_store_ok [simp]: "store_ok E (new_store grace)"
  by (simp add: store_ok_def base_ok_def view_ok_def view_def new_store_def docs_ok_def new_ledger_def
      losses_ok_new opens_ok_new new_tracker_def isDeferred_def new_scheduler_def new_registry_def isOpenIn_def
      multi_get_def open_state_of_def new_shadow_def js_has_def)
     (simp add: tracker_ok_def agree_def announced_def shadow_ok_def pending_of_def open_state_of_def
      opens_ok_def registry_ok_def multi_get_def js_has_def losses_ok_def)

subsection \<open>One key apart\<close>

definition ok_except :: "env \<Rightarrow> uri \<Rightarrow> store \<Rightarrow> bool" where
  "ok_except E key S \<longleftrightarrow> base_ok S \<and> (\<forall>k. k \<noteq> key \<longrightarrow> view_ok E k (view S k))"

lemma store_ok_except: "store_ok E S \<longleftrightarrow> ok_except E key S \<and> view_ok E key (view S key)"
  by (auto simp: store_ok_def ok_except_def)

lemma ok_except_step:
  "ok_except E key S \<Longrightarrow> base_ok S' \<Longrightarrow> (\<And>k. k \<noteq> key \<Longrightarrow> view S' k = view S k) \<Longrightarrow> ok_except E key S'"
  by (simp add: ok_except_def)

lemma ok_exceptD: "ok_except E key S \<Longrightarrow> base_ok S"
  by (simp add: ok_except_def)

lemma ok_except_fire [simp]: "ok_except E key (fire ev S) = ok_except E key S"
  by (simp add: ok_except_def)

lemma base_ok_same:
  assumes "base_ok S" and "sessionReg S' = sessionReg S" "langShadow S' = langShadow S"
    "dirtyTracker S' = dirtyTracker S" "releases S' = releases S" "synced S' = synced S"
    "nextDocId S' = nextDocId S" "docs_ok (synced S) (nextDocId S) (ledger S')"
  shows "base_ok S'"
  using assms by (simp add: base_ok_def)

lemma base_ok_with_tracker:
  assumes "base_ok S" and "tracker_ok (fst (f (dirtyTracker S, ledger S)))"
    and "docs_ok (synced S) (nextDocId S) (snd (f (dirtyTracker S, ledger S)))"
  shows "base_ok (with_tracker f S)"
  using assms by (simp add: base_ok_def)

subsection \<open>Commits\<close>

lemma commitText_simps [simp]:
  "synced (commitText E key d c S) = js_set key d (synced S)" "sessionReg (commitText E key d c S) = sessionReg S"
  "openedVersions (commitText E key d c S) = openedVersions S" "langShadow (commitText E key d c S) = langShadow S"
  "releases (commitText E key d c S) = releases S" "nextDocId (commitText E key d c S) = nextDocId S"
  "records (ledger (commitText E key d c S)) = records (ledger S)"
  "storeLog (commitText E key d c S) = storeLog S" "pendingContent (commitText E key d c S) = pendingContent S"
  by (simp_all add: commitText_def setAuthor_def)

lemma commitText_base:
  assumes "base_ok S" and "docs_ok (js_set key d (synced S)) (nextDocId S) (ledger S)"
  shows "base_ok (commitText E key d c S)"
proof -
  let ?S1 = "store_setAuthor E key (docVersion d) c (S\<lparr>synced := js_set key d (synced S)\<rparr>)"
  have "base_ok ?S1" using assms by (simp add: base_ok_def)
  moreover have "docs_ok (synced ?S1) (nextDocId ?S1) (snd (refreshDirty key d (dirtyTracker ?S1, ledger ?S1)))"
    by (rule docs_ok_refresh [of _ _ _ key]) (use assms(2) in \<open>simp_all add: js_get_set\<close>)
  ultimately show ?thesis
    unfolding commitText_def by (intro base_ok_with_tracker refreshDirty_ok) (simp_all add: base_okD(4) [OF assms(1)])
qed

lemma commitText_states:
  "js_get (states (dirtyTracker (commitText E key d c S))) k =
     (if k = key then map_option (\<lambda>e. e\<lparr>dirty := (Some (docText d) \<noteq> baseline e)\<rparr>) (js_get (states (dirtyTracker S)) key)
      else js_get (states (dirtyTracker S)) k)"
  by (simp add: commitText_def refreshDirty_states)

lemma commitText_ok:
  assumes "store_ok E S" and "js_get (synced S) key = Some d" and "docId d' = docId d" "docUri d' = docUri d"
    and "docVersion d < docVersion d'"
  shows "store_ok E (commitText E key d' c S)"
proof (rule store_okI [OF assms(1), of _ key])
  show "base_ok (commitText E key d' c S)"
    using assms by (intro commitText_base docs_ok_update) (auto dest: store_okD base_okD)
  show "view (commitText E key d' c S) k = view S k" if "k \<noteq> key" for k
    using that by (intro view_eqI) (simp_all add: js_get_set commitText_states)
  show "view_ok E key (view (commitText E key d' c S) key)"
    using store_okD(2) [OF assms(1), of key] assms(2-5)
    by (auto simp: view_ok_def js_get_set commitText_states split: option.splits)
qed

text \<open>A change keeps the identity; the version steps exactly when the text changed.\<close>

lemma commitChange_cases:
  assumes "env_ok E" and "commitChange E key d changes c S = ((d', chg), S')"
  obtains (step) "chg" "docText d' = update_text (textLib E) (docText d) changes" "docText d' \<noteq> docText d"
      "docVersion d' = docVersion d + 1" "docId d' = docId d" "docUri d' = docUri d" "S' = commitText E key d' c S"
  | (same) "\<not> chg" "update_text (textLib E) (docText d) changes = docText d" "d' = d"
      "S' = S\<lparr>synced := js_set key d (synced S)\<rparr>"
proof (cases "update_text (textLib E) (docText d) changes = docText d")
  case True
  moreover have "update_text (textLib E) (docText d) [] = docText d" using assms(1) by (simp add: env_ok_def text_lib_ok_def)
  ultimately have "\<not> chg \<and> d' = d \<and> S' = S\<lparr>synced := js_set key d (synced S)\<rparr>"
    using assms(2) by (auto simp: commitChange_def update_doc_def Let_def)
  with True same show ?thesis by blast
next
  case False
  let ?d = "d\<lparr>docText := update_text (textLib E) (docText d) changes, docVersion := docVersion d + 1\<rparr>"
  from False have "chg" and d': "d' = ?d" and S': "S' = commitText E key ?d c S"
    using assms(2) by (auto simp: commitChange_def update_doc_def Let_def)
  with False show ?thesis by (intro step) simp_all
qed

lemma js_set_same_get: "js_get m k = Some v \<Longrightarrow> js_get (js_set k v m) = js_get m"
  by (auto simp: js_get_set)

lemma reset_synced_ok:
  assumes "store_ok E S" and "js_get (synced S) key = Some d"
  shows "store_ok E (S\<lparr>synced := js_set key d (synced S)\<rparr>)"
proof (rule store_okI [OF assms(1), of _ key])
  show "base_ok (S\<lparr>synced := js_set key d (synced S)\<rparr>)"
    using assms by (auto simp: base_ok_def store_ok_def intro: docs_ok_update)
  have view: "view (S\<lparr>synced := js_set key d (synced S)\<rparr>) k = view S k" for k
    using assms(2) by (simp add: view_def js_set_same_get)
  show "view (S\<lparr>synced := js_set key d (synced S)\<rparr>) k = view S k" for k by (rule view)
  show "view_ok E key (view (S\<lparr>synced := js_set key d (synced S)\<rparr>) key)"
    using store_okD(2) [OF assms(1)] by (simp add: view)
qed

lemma commitChange_ok:
  assumes "env_ok E" and "store_ok E S" and "js_get (synced S) key = Some d"
    and "commitChange E key d changes c S = (r, S')"
  shows "store_ok E S'"
proof -
  obtain d' changed where r: "r = (d', changed)" by (cases r)
  show ?thesis
  proof (rule commitChange_cases [OF assms(1) assms(4) [unfolded r]], goal_cases)
    case 1
    then show ?case using commitText_ok [OF assms(2,3)] by simp
  next
    case 2
    then show ?case using reset_synced_ok [OF assms(2,3)] by simp
  qed
qed

subsection \<open>Releases\<close>

lemma releaseDocument_None: "js_get (synced S) key = None \<Longrightarrow> releaseDocument key S = S"
  by (simp add: releaseDocument_def)

lemma releaseDocument_simps:
  assumes "js_get (synced S) key = Some d"
  shows "synced (releaseDocument key S) = js_delete key (synced S)"
    "openedVersions (releaseDocument key S) = js_delete key (openedVersions S)"
    "sessionReg (releaseDocument key S) = forgetClientVersions key (sessionReg S)"
    "releases (releaseDocument key S) = clearLosses key (releases S)"
    "langShadow (releaseDocument key S) = langShadow S"
    "dirtyTracker (releaseDocument key S) = snd (release key (dirtyTracker S))"
    "ledger (releaseDocument key S) = clearAuthors key (record_release key d (ledger S))"
    "nextDocId (releaseDocument key S) = nextDocId S"
    "pendingContent (releaseDocument key S) = js_delete key (pendingContent S)"
  using assms by (simp_all add: releaseDocument_def case_prod_beta Let_def)

lemma js_get_states_release: "js_get (states (snd (release key T))) k = (if k = key then None else js_get (states T) k)"
  by (simp add: release_def js_get_delete Let_def)

lemma docs_ok_record_release:
  "docs_ok D n L \<Longrightarrow> js_get D key = Some d \<Longrightarrow> docs_ok D n (record_release k d L)"
  using docs_ok_hashOf [of D n L key d] by (simp add: record_release_def case_prod_beta Let_def)

lemma releaseDocument_base:
  assumes "base_ok S"
  shows "base_ok (releaseDocument key S)"
proof (cases "js_get (synced S) key")
  case None
  with assms show ?thesis by (simp add: releaseDocument_None)
next
  case (Some d)
  from docs_ok_record_release [OF base_okD(6) [OF assms] Some]
  have "docs_ok (js_delete key (synced S)) (nextDocId S) (record_release key d (ledger S))"
    by (rule docs_ok_delete)
  with assms show ?thesis
    by (auto simp: base_ok_def releaseDocument_simps [OF Some] intro: release_ok losses_ok_clearLosses)
qed

lemma view_releaseDocument:
  "k \<noteq> key \<Longrightarrow> view (releaseDocument key S) k = view S k"
  by (cases "js_get (synced S) key")
     (simp_all add: releaseDocument_None view_def releaseDocument_simps js_get_delete js_get_states_release)

lemma releaseDocument_except: "ok_except E key S \<Longrightarrow> ok_except E key (releaseDocument key S)"
  by (simp add: ok_except_def releaseDocument_base view_releaseDocument)

text \<open>A release is safe once no client holds the document, its grace is over and the editor has no buffer of it.\<close>

lemma releaseDocument_ok:
  assumes "ok_except E key S" and "js_get (synced S) key = Some d" and "\<not> isDeferred key (releases S)"
    and "\<And>c. \<not> isOpenIn key c (sessionReg S)" and "\<And>u. open_state_of key u (langShadow S) = None"
  shows "store_ok E (releaseDocument key S)"
  unfolding store_ok_except [of _ _ key]
  using releaseDocument_except [OF assms(1)] assms(2-)
  by (simp add: view_ok_def releaseDocument_simps js_get_delete js_get_states_release)

lemma view_releases [simp]:
  "isDeferred k R = isDeferred k (releases S) \<Longrightarrow> view (S\<lparr>releases := R\<rparr>) k = view S k"
  by (simp add: view_def)

lemma base_ok_releases: "base_ok S \<Longrightarrow> losses_ok R \<Longrightarrow> base_ok (S\<lparr>releases := R\<rparr>)"
  by (simp add: base_ok_def)

lemma ok_except_releases:
  "ok_except E key S \<Longrightarrow> losses_ok R \<Longrightarrow> (\<And>k. k \<noteq> key \<Longrightarrow> isDeferred k R = isDeferred k (releases S)) \<Longrightarrow>
   ok_except E key (S\<lparr>releases := R\<rparr>)"
  by (rule ok_except_step) (auto dest: ok_exceptD intro: base_ok_releases)

lemma deferred_view:
  assumes "store_ok E S" and "isDeferred key (releases S)"
  obtains d where "js_get (synced S) key = Some d" "\<forall>c. \<not> isOpenIn key c (sessionReg S)"
    "\<forall>u. open_state_of key u (langShadow S) = None"
  using store_okD(2) [OF assms(1), of key] assms(2) that by (auto simp: view_ok_def split: option.splits)

text \<open>The document's deferral is dropped and the document released: what timers, opens and deletes do.\<close>

lemma release_deferred_ok:
  assumes "store_ok E S" and "isDeferred key (releases S)" and "losses_ok R" and "\<not> isDeferred key R"
    and "\<And>k. k \<noteq> key \<Longrightarrow> isDeferred k R = isDeferred k (releases S)"
  shows "store_ok E (releaseDocument key (S\<lparr>releases := R\<rparr>))"
proof -
  obtain d where d: "js_get (synced S) key = Some d" "\<forall>c. \<not> isOpenIn key c (sessionReg S)"
    "\<forall>u. open_state_of key u (langShadow S) = None" by (rule deferred_view [OF assms(1,2)])
  show ?thesis
    by (rule releaseDocument_ok [of _ _ _ d])
       (use assms d in \<open>auto simp: store_ok_except [of _ _ key] intro: ok_except_releases\<close>)
qed

lemma releaseIfDeferred_ok:
  assumes "store_ok E S"
  shows "store_ok E (releaseIfDeferred key S)"
proof (cases "isDeferred key (releases S)")
  case True
  have "store_ok E (releaseDocument key (S\<lparr>releases := cancel key (releases S)\<rparr>))"
    by (rule release_deferred_ok [OF assms True]) (use assms in \<open>auto dest: store_okD base_okD\<close>)
  with True show ?thesis by (simp add: releaseIfDeferred_def)
qed (use assms in \<open>simp add: releaseIfDeferred_def\<close>)

lemma losses_ok_timerFires: "timerFires key now S = Some S' \<Longrightarrow> losses_ok S' = losses_ok S"
  by (auto simp: timerFires_def split: option.splits if_splits)

lemma releaseTimer_ok:
  assumes "store_ok E S" and "releaseTimer now key S = Some S'"
  shows "store_ok E S'"
proof -
  obtain R where R: "timerFires key now (releases S) = Some R" and S': "S' = release_unless_open key (S\<lparr>releases := R\<rparr>)"
    using assms(2) by (auto simp: releaseTimer_def split: option.splits)
  have def: "isDeferred key (releases S)" "\<And>k. isDeferred k R \<longleftrightarrow> k \<noteq> key \<and> isDeferred k (releases S)"
    using timerFires_deferred [OF R] by auto
  obtain d where "\<forall>c. \<not> isOpenIn key c (sessionReg S)" by (rule deferred_view [OF assms(1) def(1)])
  then have "\<not> isOpen key (sessionReg S)"
    using isOpen_isOpenIn base_okD(1) [OF store_okD(1) [OF assms(1)]] by blast
  then have "S' = releaseDocument key (S\<lparr>releases := R\<rparr>)" by (simp add: S' release_unless_open_def)
  then show ?thesis
    using release_deferred_ok [OF assms(1) def(1), of R] def(2) losses_ok_timerFires [OF R]
      base_okD(5) [OF store_okD(1) [OF assms(1)]] by simp
qed

text \<open>Resolving the deferral for an open either releases the document or, for a returning client, keeps it.\<close>

lemma resolveDeferredRelease_simps:
  assumes "losses_ok (releases S)"
  shows "resolveDeferredRelease now key c S =
     (let R = snd (resolveOpen key c now (releases S))
      in if isDeferred key (releases S) \<and> \<not> has_claim key c now (releases S)
         then releaseDocument key (S\<lparr>releases := R\<rparr>) else S\<lparr>releases := R\<rparr>)"
  using fst_resolveOpen [OF assms] by (auto simp: resolveDeferredRelease_def case_prod_beta Let_def)

lemma resolveDeferredRelease_ok:
  assumes "store_ok E S"
  shows "ok_except E key (resolveDeferredRelease now key c S)"
    "\<not> isDeferred key (releases (resolveDeferredRelease now key c S))"
    "\<not> isDeferred key (releases S) \<Longrightarrow> store_ok E (resolveDeferredRelease now key c S)"
    "js_get (synced (resolveDeferredRelease now key c S)) key = None \<Longrightarrow> store_ok E (resolveDeferredRelease now key c S)"
proof -
  note lo = base_okD(5) [OF store_okD(1) [OF assms]]
  let ?R = "snd (resolveOpen key c now (releases S))"
  have R: "losses_ok ?R" "\<And>k. isDeferred k ?R \<longleftrightarrow> k \<noteq> key \<and> isDeferred k (releases S)"
    using lo by (simp_all add: losses_ok_resolveOpen isDeferred_resolveOpen)
  have kept: "ok_except E key (S\<lparr>releases := ?R\<rparr>)"
    using assms R by (intro ok_except_releases) (auto simp: store_ok_except [of _ _ key])
  have rel: "store_ok E (releaseDocument key (S\<lparr>releases := ?R\<rparr>))" if "isDeferred key (releases S)"
    using release_deferred_ok [OF assms that] R by simp
  show "ok_except E key (resolveDeferredRelease now key c S)"
    using kept rel by (auto simp: resolveDeferredRelease_simps [OF lo] Let_def store_ok_except [of _ _ key])
  show "\<not> isDeferred key (releases (resolveDeferredRelease now key c S))"
    using R by (cases "js_get (synced S) key")
      (auto simp: resolveDeferredRelease_simps [OF lo] Let_def releaseDocument_None releaseDocument_simps)
  have same: "store_ok E (S\<lparr>releases := ?R\<rparr>)" if "\<not> isDeferred key (releases S)"
    unfolding store_ok_except [of _ _ key]
    using kept R that store_okD(2) [OF assms, of key] by simp
  then show "store_ok E (resolveDeferredRelease now key c S)" if "\<not> isDeferred key (releases S)"
    using that by (simp add: resolveDeferredRelease_simps [OF lo] Let_def)
  show "store_ok E (resolveDeferredRelease now key c S)" if none: "js_get (synced (resolveDeferredRelease now key c S)) key = None"
  proof (cases "isDeferred key (releases S)")
    case True
    then obtain d where "js_get (synced S) key = Some d" by (rule deferred_view [OF assms])
    with none True have "\<not> has_claim key c now (releases S)"
      by (auto simp: resolveDeferredRelease_simps [OF lo] Let_def split: if_splits)
    with True rel show ?thesis by (simp add: resolveDeferredRelease_simps [OF lo] Let_def)
  qed (use same in \<open>simp add: resolveDeferredRelease_simps [OF lo] Let_def\<close>)
qed

subsection \<open>Opens\<close>

text \<open>What holds of a held document's key whatever its deferral.\<close>

definition view_held :: "env \<Rightarrow> uri \<Rightarrow> key_view \<Rightarrow> bool" where
  "view_held E k V \<longleftrightarrow>
     (case viewDoc V of
        None \<Rightarrow> False
      | Some d \<Rightarrow>
          canonical E k = k \<and> docUri d = k \<and>
          (case viewEntry V of None \<Rightarrow> False | Some e \<Rightarrow> dirty e = (Some (docText d) \<noteq> baseline e)) \<and>
          (case viewOpened V of None \<Rightarrow> False | Some v \<Rightarrow> v \<le> docVersion d) \<and>
          (\<forall>u. viewUris V u \<longrightarrow> viewClients V LANGUAGE_CLIENT_ID \<and> canonical E u = k))"

lemma view_held_ok:
  "view_held E k V \<Longrightarrow> view_ok E k V \<longleftrightarrow> (viewDeferred V \<longleftrightarrow> (\<forall>c. \<not> viewClients V c))"
  by (auto simp: view_held_def view_ok_def split: option.splits)

lemma view_ok_held: "view_ok E k V \<Longrightarrow> viewDoc V = Some d \<Longrightarrow> view_held E k V"
  by (auto simp: view_held_def view_ok_def split: option.splits)

lemma view_held_release:
  "view_held E k V \<Longrightarrow> view_held E k (V\<lparr>viewDeferred := b\<rparr>)"
  by (auto simp: view_held_def split: option.splits)

lemma resolved_held:
  assumes "store_ok E S" and "js_get (synced (resolveDeferredRelease now key c S)) key = Some d"
  shows "view_held E key (view (resolveDeferredRelease now key c S) key)"
proof -
  note lo = base_okD(5) [OF store_okD(1) [OF assms(1)]]
  let ?R = "snd (resolveOpen key c now (releases S))"
  have not_released: "resolveDeferredRelease now key c S = S\<lparr>releases := ?R\<rparr>"
  proof (rule ccontr)
    assume "\<not> ?thesis"
    then have rel: "resolveDeferredRelease now key c S = releaseDocument key (S\<lparr>releases := ?R\<rparr>)"
      by (auto simp: resolveDeferredRelease_simps [OF lo] Let_def split: if_splits)
    have "js_get (synced (releaseDocument key (S\<lparr>releases := ?R\<rparr>))) key = None"
      by (cases "js_get (synced S) key") (simp_all add: releaseDocument_None releaseDocument_simps js_get_delete)
    with rel assms(2) show False by simp
  qed
  with assms(2) have "js_get (synced S) key = Some d" by simp
  with view_ok_held [OF store_okD(2) [OF assms(1)], of key d]
  have "view_held E key (view S key)" by simp
  moreover have "view (S\<lparr>releases := ?R\<rparr>) key = (view S key)\<lparr>viewDeferred := isDeferred key ?R\<rparr>"
    by (simp add: view_def)
  ultimately show ?thesis unfolding not_released by (metis view_held_release)
qed

lemma base_ok_shadow: "base_ok S \<Longrightarrow> shadow_ok W \<Longrightarrow> opens_ok W \<Longrightarrow> base_ok (S\<lparr>langShadow := W\<rparr>)"
  by (simp add: base_ok_def)

lemma base_ok_registry: "base_ok S \<Longrightarrow> registry_ok R \<Longrightarrow> base_ok (S\<lparr>sessionReg := R\<rparr>)"
  by (simp add: base_ok_def)

lemma view_shadow:
  "(\<And>u. (open_state_of k u W = None) = (open_state_of k u (langShadow S) = None)) \<Longrightarrow> view (S\<lparr>langShadow := W\<rparr>) k = view S k"
  by (rule view_eqI) auto

lemma shadow_only_ok:
  assumes "store_ok E S" and "shadow_ok W" "opens_ok W"
    and "\<And>k u. (open_state_of k u W = None) = (open_state_of k u (langShadow S) = None)"
  shows "store_ok E (S\<lparr>langShadow := W\<rparr>)"
  using assms by (simp add: store_ok_def base_ok_shadow view_shadow)

lemma docs_ok_Suc: "docs_ok D n L \<Longrightarrow> docs_ok D (Suc n) L"
  by (simp add: docs_ok_def less_Suc_eq)

text \<open>The fields of the document a first open makes, for the state \<open>S\<close> before it.\<close>

definition opened_doc ::
  "env \<Rightarrow> (model_root \<times> text_body) option \<Rightarrow> model_ledger \<Rightarrow> uri \<Rightarrow> string \<Rightarrow> int \<Rightarrow> text_body \<Rightarrow> store \<Rightarrow> text_document" where
  "opened_doc E built M u languageId declared txt S =
     (let content = (case js_get (pendingContent S) (documentKey E (documentKey E u)) of Some p \<Rightarrow> p | None \<Rightarrow> txt)
      in \<lparr>docId = nextDocId S, docUri = documentKey E u, docLanguage = languageId,
          docVersion = first_version built M (documentKey E u) content declared (ledger S), docText = content\<rparr>)"

lemma firstOpen_simps:
  assumes "d = opened_doc E built M u lang declared txt S"
  shows "synced (firstOpen E built M u lang declared txt c S) = js_set (documentKey E u) d (synced S)"
    "openedVersions (firstOpen E built M u lang declared txt c S) =
       js_set (documentKey E u) (docVersion d) (openedVersions S)"
    "sessionReg (firstOpen E built M u lang declared txt c S) = sessionReg S"
    "releases (firstOpen E built M u lang declared txt c S) = releases S"
    "langShadow (firstOpen E built M u lang declared txt c S) =
       (if c = LANGUAGE_CLIENT_ID \<and> docText d = txt
        then setLanguageClientText (toLanguageClientUri E u) txt (Some (docVersion d)) (langShadow S) else langShadow S)"
    "records (ledger (firstOpen E built M u lang declared txt c S)) = records (ledger S)"
  by (simp_all add: assms firstOpen_def opened_doc_def consumePendingContent_def Let_def track_def)

lemma opened_doc_simps [simp]:
  "docId (opened_doc E built M u lang declared txt S) = nextDocId S"
  "docUri (opened_doc E built M u lang declared txt S) = documentKey E u"
  by (simp_all add: opened_doc_def Let_def)

lemma firstOpen_tracked:
  assumes "js_get (states (dirtyTracker S)) (documentKey E u) = None"
  shows "js_get (states (dirtyTracker (firstOpen E built M u lang declared txt c S))) k =
     (if k = documentKey E u
      then Some \<lparr>baseline = Some txt, dirty = (docText (opened_doc E built M u lang declared txt S) \<noteq> txt), created = False\<rparr>
      else js_get (states (dirtyTracker S)) k)"
  using assms
  by (simp add: firstOpen_def opened_doc_def consumePendingContent_def Let_def track_def refreshDirty_states js_get_set
      commitText_states)

lemma firstOpen_base:
  assumes "base_ok S" and "\<not> js_has (states (dirtyTracker S)) (documentKey E u)"
  shows "base_ok (firstOpen E built M u lang declared txt c S)"
proof -
  let ?key = "documentKey E u"
  let ?d = "opened_doc E built M u lang declared txt S"
  let ?W = "if c = LANGUAGE_CLIENT_ID \<and> docText ?d = txt
     then setLanguageClientText (toLanguageClientUri E u) txt (Some (docVersion ?d)) (langShadow S) else langShadow S"
  let ?S1 = "S\<lparr>pendingContent := js_delete (documentKey E ?key) (pendingContent S), langShadow := ?W, nextDocId := Suc (nextDocId S)\<rparr>"
  let ?S2 = "commitText E ?key ?d c ?S1"
  let ?S3 = "?S2\<lparr>openedVersions := js_set ?key (docVersion ?d) (openedVersions ?S2)\<rparr>"
  have eq: "firstOpen E built M u lang declared txt c S =
      fire (EvContent ?key (docVersion ?d) (docText ?d) c) (fire (EvOpen ?key (docVersion ?d) (docText ?d) c)
        (with_tracker (track ?key ?d (Some txt)) ?S3))"
    by (simp add: firstOpen_def opened_doc_def consumePendingContent_def Let_def)
  have b1: "base_ok ?S1"
    using assms(1) by (simp add: base_ok_def docs_ok_Suc setText_ok opens_ok_same)
  have docs: "docs_ok (js_set ?key ?d (synced S)) (Suc (nextDocId S)) (ledger S)"
    using assms(1) by (intro docs_ok_create) (simp_all add: base_ok_def)
  have b2: "base_ok ?S2" by (rule commitText_base [OF b1]) (use docs in simp)
  have b3: "base_ok ?S3" using b2 by (simp add: base_ok_def)
  have "\<not> js_has (states (dirtyTracker ?S3)) ?key"
    using assms(2) by (simp add: js_has_get commitText_states)
  moreover have "js_get (synced ?S3) ?key = Some ?d" by (simp add: js_get_set)
  ultimately have "base_ok (with_tracker (track ?key ?d (Some txt)) ?S3)"
    using b3 base_okD(4) [OF b3] base_okD(6) [OF b3]
    by (intro base_ok_with_tracker track_ok docs_ok_tracker(3)) auto
  then show ?thesis by (simp add: eq)
qed

lemma refreshContent_ok [simp]: "store_ok E (refreshContent E u c S) = store_ok E S"
  by (simp add: refreshContent_def split: option.splits)

lemma refreshContent_fields [simp]:
  "view (refreshContent E u c S) = view S" "synced (refreshContent E u c S) = synced S"
  "ledger (refreshContent E u c S) = ledger S" "langShadow (refreshContent E u c S) = langShadow S"
  "ok_except E key (refreshContent E u c S) = ok_except E key S"
  by (simp_all add: refreshContent_def split: option.splits)

text \<open>The shadow and the registry during an open: only the opened key can change.\<close>

definition opening_shadow ::
  "env \<Rightarrow> uri \<Rightarrow> int \<Rightarrow> text_body \<Rightarrow> client_id \<Rightarrow> text_document option \<Rightarrow> shadow \<Rightarrow> shadow" where
  "opening_shadow E u declared txt c document W =
     (if c = LANGUAGE_CLIENT_ID
      then shadow_addOpen (documentKey E u) (toLanguageClientUri E u) declared txt (document = None)
             (case document of Some d \<Rightarrow> if docText d = txt then Some (docVersion d) else None | None \<Rightarrow> None) W
      else W)"

lemma opening_shadow_ok: "shadow_ok W \<Longrightarrow> shadow_ok (opening_shadow E u declared txt c d W)"
  "opens_ok W \<Longrightarrow> opens_ok (opening_shadow E u declared txt c d W)"
  by (simp_all add: opening_shadow_def shadow_addOpen_ok opens_ok_steps)

lemma opening_shadow_state:
  "open_state_of k w (opening_shadow E u declared txt c d W) \<noteq> None \<longleftrightarrow>
     open_state_of k w W \<noteq> None \<or> (c = LANGUAGE_CLIENT_ID \<and> k = documentKey E u \<and> w = toLanguageClientUri E u)"
  by (auto simp: opening_shadow_def open_state_of_addOpen)

lemma with_shadow_id [simp]: "S\<lparr>langShadow := langShadow S\<rparr> = S"
  by simp

lemma notifyDidOpen_cases:
  assumes "notifyDidOpenTextDocument E now built M u lang declared txt c S = Inr S'"
  defines "key \<equiv> documentKey E u"
  defines "S1 \<equiv> resolveDeferredRelease now key c S"
  defines "S2 \<equiv> S1\<lparr>langShadow := opening_shadow E u declared txt c (js_get (synced S1) key) (langShadow S1)\<rparr>"
  obtains (again) "isOpenInClient E key c S2" "S' = S2"
  | (new) b R where "\<not> isOpenInClient E key c S2" "addOpen key c (sessionReg S1) = Inr (b, R)"
      "S' = (if js_get (synced S1) key = None
             then firstOpen E built M u lang declared txt c (S2\<lparr>sessionReg := setClientVersion key c declared R\<rparr>)
             else refreshContent E key c (S2\<lparr>sessionReg := setClientVersion key c declared R\<rparr>))"
proof -
  have S2: "S2 = (if c = LANGUAGE_CLIENT_ID
      then with_shadow (shadow_addOpen key (toLanguageClientUri E u) declared txt (js_get (synced S1) key = None)
             (case js_get (synced S1) key of
                Some d \<Rightarrow> if docText d = txt then Some (docVersion d) else None | None \<Rightarrow> None)) S1
      else S1)"
    by (simp add: S2_def opening_shadow_def key_def)
  have "sessionReg S2 = sessionReg S1" by (simp add: S2_def)
  then show ?thesis using assms(1) again new
    unfolding notifyDidOpenTextDocument_def key_def [symmetric] S1_def [symmetric] Let_def S2 [symmetric]
    by (auto split: option.splits sum.splits if_splits)
qed

lemma ok_except_opening:
  assumes "ok_except E (documentKey E u) S1"
  shows "ok_except E (documentKey E u) (S1\<lparr>langShadow := opening_shadow E u declared txt c d (langShadow S1)\<rparr>)"
  by (rule ok_except_step [OF assms])
     (use ok_exceptD [OF assms] opening_shadow_state in
      \<open>auto intro!: base_ok_shadow opening_shadow_ok view_shadow dest: base_okD\<close>)

lemma ok_except_registry:
  assumes "ok_except E key S" and "registry_ok R" and "\<And>k d. k \<noteq> key \<Longrightarrow> isOpenIn k d R = isOpenIn k d (sessionReg S)"
  shows "ok_except E key (S\<lparr>sessionReg := R\<rparr>)"
  by (rule ok_except_step [OF assms(1)])
     (use assms in \<open>auto intro!: base_ok_registry view_eqI dest: ok_exceptD\<close>)

lemma firstOpen_ok:
  assumes "env_ok E" and "ok_except E (documentKey E u) S"
    and "js_get (states (dirtyTracker S)) (documentKey E u) = None" "\<not> isDeferred (documentKey E u) (releases S)"
    and "isOpenIn (documentKey E u) c (sessionReg S)"
    and "\<And>w. open_state_of (documentKey E u) w (langShadow S) \<noteq> None \<Longrightarrow>
           isOpenIn (documentKey E u) LANGUAGE_CLIENT_ID (sessionReg S) \<and> canonical E w = documentKey E u"
  shows "store_ok E (firstOpen E built M u lang declared txt c S)"
  unfolding store_ok_except [of _ _ "documentKey E u"]
proof (rule conjI)
  note simps = firstOpen_simps [OF refl] firstOpen_tracked [OF assms(3)]
  show "ok_except E (documentKey E u) (firstOpen E built M u lang declared txt c S)"
    by (rule ok_except_step [OF assms(2)])
       (use assms(2,3) in \<open>auto simp: simps js_get_set js_has_get dest: ok_exceptD intro!: firstOpen_base view_eqI\<close>)
  show "view_ok E (documentKey E u) (view (firstOpen E built M u lang declared txt c S) (documentKey E u))"
    using assms(1,4-6) by (auto simp: view_ok_def simps js_get_set env_ok_def documentKey_def)
qed

lemma isOpenInClient_key: "env_ok E \<Longrightarrow> isOpenInClient E (documentKey E u) c S = isOpenIn (documentKey E u) c (sessionReg S)"
  by (simp add: isOpenInClient_def documentKey_def env_ok_def)

lemma notifyDidOpen_ok:
  assumes "env_ok E" and "store_ok E S"
    and "notifyDidOpenTextDocument E now built M u lang declared txt c S = Inr S'"
  shows "store_ok E S'"
proof -
  let ?key = "documentKey E u"
  let ?S1 = "resolveDeferredRelease now ?key c S"
  let ?W = "opening_shadow E u declared txt c (js_get (synced ?S1) ?key) (langShadow ?S1)"
  let ?S2 = "?S1\<lparr>langShadow := ?W\<rparr>"
  have ex2: "ok_except E ?key ?S2" by (rule ok_except_opening) (rule resolveDeferredRelease_ok(1) [OF assms(2)])
  note nd = resolveDeferredRelease_ok(2) [OF assms(2), of ?key now c]
  have canon: "canonical E (toLanguageClientUri E u) = ?key"
    using assms(1) by (simp add: env_ok_def toLanguageClientUri_def documentKey_def)
  have held: "store_ok E (?S2\<lparr>sessionReg := R\<rparr>)"
    if "registry_ok R" "isOpenIn ?key c R" "js_get (synced ?S1) ?key = Some d"
      "\<And>k d. isOpenIn k d R \<longleftrightarrow> (k = ?key \<and> d = c) \<or> isOpenIn k d (sessionReg ?S1)" for R d
    unfolding store_ok_except [of _ _ ?key]
  proof (rule conjI)
    show "ok_except E ?key (?S2\<lparr>sessionReg := R\<rparr>)"
      by (rule ok_except_registry [OF ex2 that(1)]) (use that(4) in simp)
    have "view_held E ?key (view ?S1 ?key)" by (rule resolved_held [OF assms(2) that(3)])
    then have "view_held E ?key (view (?S2\<lparr>sessionReg := R\<rparr>) ?key)"
      using that(3,4) canon opening_shadow_state by (auto simp: view_held_def)
    then show "view_ok E ?key (view (?S2\<lparr>sessionReg := R\<rparr>) ?key)"
      using nd that(2) by (auto simp: view_held_ok)
  qed
  have reg1: "registry_ok (sessionReg ?S1)"
    using base_okD(1) [OF ok_exceptD [OF ex2]] by simp
  show ?thesis
  proof (rule notifyDidOpen_cases [OF assms(3)], goal_cases)
    case again: 1
    then have c: "isOpenIn ?key c (sessionReg ?S1)" by (simp add: isOpenInClient_key [OF assms(1)])
    then obtain d where "js_get (synced ?S1) ?key = Some d"
      using resolveDeferredRelease_ok(4) [OF assms(2), of now ?key c] store_okD(2) [of E ?S1 ?key]
      by (cases "js_get (synced ?S1) ?key") (auto simp: view_ok_def)
    from held [OF reg1 c this] c again show ?case by auto
  next
    case new: (2 b R)
    let ?R = "setClientVersion ?key c declared R"
    have R: "registry_ok ?R" "\<And>k d. isOpenIn k d ?R \<longleftrightarrow> (k = ?key \<and> d = c) \<or> isOpenIn k d (sessionReg ?S1)"
      using new(2) reg1 by (auto intro: addOpen_ok simp: isOpenIn_addOpen)
    show ?case
    proof (cases "js_get (synced ?S1) ?key")
      case (Some d)
      with held [OF R(1) _ Some R(2)] R(2) new show ?thesis by simp
    next
      case None
      have v1: "view_ok E ?key (view ?S1 ?key)"
        using resolveDeferredRelease_ok(4) [OF assms(2) None] by (rule store_okD)
      have "ok_except E ?key (?S2\<lparr>sessionReg := ?R\<rparr>)"
        by (rule ok_except_registry [OF ex2 R(1)]) (use R(2) in simp)
      moreover have "\<And>w. open_state_of ?key w ?W \<noteq> None \<Longrightarrow> isOpenIn ?key LANGUAGE_CLIENT_ID ?R \<and> canonical E w = ?key"
        using v1 None R(2) canon opening_shadow_state by (auto simp: view_ok_def)
      ultimately have "store_ok E (firstOpen E built M u lang declared txt c (?S2\<lparr>sessionReg := ?R\<rparr>))"
        using v1 None nd R(2) by (intro firstOpen_ok [OF assms(1)]) (auto simp: view_ok_def)
      with None new show ?thesis by simp
    qed
  qed
qed

lemma attachClient_ok:
  assumes "env_ok E" and "store_ok E S" and "attachClient E now u c S = Inr (b, S')"
  shows "store_ok E S'"
proof -
  let ?key = "documentKey E u"
  let ?S1 = "resolveDeferredRelease now ?key c S"
  consider "S' = S" | "js_get (synced ?S1) ?key = None" "S' = ?S1"
    | d b R where "js_get (synced ?S1) ?key = Some d" "addOpen ?key c (sessionReg ?S1) = Inr (b, R)"
        "S' = ?S1\<lparr>sessionReg := setClientVersion ?key c (docVersion d) R\<rparr>"
  proof (cases "js_get (synced ?S1) ?key")
    case None
    then show thesis using that(1,2) assms(3) unfolding attachClient_def Let_def
      by (simp split: option.splits if_splits)
  next
    case (Some d)
    then have "S' = S \<or> (\<exists>b R. addOpen ?key c (sessionReg ?S1) = Inr (b, R) \<and>
        S' = ?S1\<lparr>sessionReg := setClientVersion ?key c (docVersion d) R\<rparr>)"
      using assms(3) unfolding attachClient_def Let_def
      by (auto split: option.splits sum.splits prod.splits if_splits)
    with Some that(1,3) show thesis by blast
  qed
  then show ?thesis
  proof cases
    case 1
    with assms(2) show ?thesis by simp
  next
    case 2
    with resolveDeferredRelease_ok(4) [OF assms(2)] show ?thesis by simp
  next
    case (3 d b R)
    let ?R = "setClientVersion ?key c (docVersion d) R"
    have ex: "ok_except E ?key ?S1" by (rule resolveDeferredRelease_ok(1) [OF assms(2)])
    have R: "registry_ok ?R" "\<And>k d. isOpenIn k d ?R \<longleftrightarrow> (k = ?key \<and> d = c) \<or> isOpenIn k d (sessionReg ?S1)"
      using 3(2) base_okD(1) [OF ok_exceptD [OF ex]] by (auto intro: addOpen_ok simp: isOpenIn_addOpen)
    have "view_held E ?key (view ?S1 ?key)" by (rule resolved_held [OF assms(2) 3(1)])
    then have "view_held E ?key (view S' ?key)"
      using R(2) 3(1) by (auto simp: view_held_def 3(3))
    then have "view_ok E ?key (view S' ?key)"
      using R(2) resolveDeferredRelease_ok(2) [OF assms(2)] by (auto simp: view_held_ok 3(3))
    moreover have "ok_except E ?key S'"
      unfolding 3(3) by (rule ok_except_registry [OF ex R(1)]) (use R(2) in simp)
    ultimately show ?thesis by (simp add: store_ok_except [of _ _ ?key])
  qed
qed

subsection \<open>Changes and repairs\<close>

lemma registry_only_ok:
  assumes "store_ok E S" and "registry_ok R" and "\<And>k d. isOpenIn k d R = isOpenIn k d (sessionReg S)"
  shows "store_ok E (S\<lparr>sessionReg := R\<rparr>)"
proof -
  have view: "view (S\<lparr>sessionReg := R\<rparr>) k = view S k" for k using assms(3) by (simp add: view_def)
  show ?thesis using assms(1,2) by (simp add: store_ok_def base_ok_registry view)
qed

lemma setText_store_ok:
  "store_ok E S \<Longrightarrow> store_ok E (S\<lparr>langShadow := setLanguageClientText w t h (langShadow S)\<rparr>)"
  by (rule shadow_only_ok)
     (simp_all add: setText_ok opens_ok_same base_okD(2,3) [OF store_okD(1)])

lemma notifyDidChange_ok:
  assumes "env_ok E" and "store_ok E S" and "notifyDidChangeTextDocument E u declared changes c S = Inr S'"
  shows "store_ok E S'"
proof (cases "S' = S")
  case True
  with assms(2) show ?thesis by simp
next
  case False
  let ?key = "documentKey E u" and ?cu = "toLanguageClientUri E u"
  from False assms(3) obtain v d where v: "declared = Some v" and d: "js_get (synced S) ?key = Some d"
    and fresh: "\<not> v \<le> lastSeen E u c d S" "changes \<noteq> []"
    by (auto simp: notifyDidChangeTextDocument_def Let_def split: option.splits if_splits)
  let ?S1 = "with_registry (setClientVersion ?key c v) S"
  let ?r = "if c = LANGUAGE_CLIENT_ID then acceptChange (textLib E) ?key ?cu v d changes (langShadow ?S1) else (Direct, langShadow ?S1)"
  let ?S2 = "?S1\<lparr>langShadow := snd ?r\<rparr>"
  let ?cs = "case fst ?r of Divergent t \<Rightarrow> [FullText t] | _ \<Rightarrow> changes"
  have ok1: "store_ok E ?S1"
    by (rule registry_only_ok [OF assms(2)]) (use base_okD(1) [OF store_okD(1) [OF assms(2)]] in simp_all)
  have ok2: "store_ok E ?S2"
    using base_okD(2,3) [OF store_okD(1) [OF ok1]]
    by (intro shadow_only_ok [OF ok1]) (auto simp: acceptChange_ok opens_ok_acceptChange open_state_of_acceptChange)
  obtain d' chg S3 where cc: "commitChange E ?key d ?cs c ?S2 = ((d', chg), S3)" by (metis surj_pair)
  have ok3: "store_ok E S3" by (rule commitChange_ok [OF assms(1) ok2 _ cc]) (use d in simp)
  show ?thesis
    using assms(3) ok2 ok3 setText_store_ok [OF ok3] v d cc fresh
    unfolding notifyDidChangeTextDocument_def Let_def
    by (auto simp: case_prod_beta split: if_splits)
qed

lemma applyContentChange_ok:
  assumes "env_ok E" and "store_ok E S" and "applyContentChange E u txt c S = Inr (v, S')"
  shows "store_ok E S'"
proof -
  obtain d where d: "js_get (synced S) (documentKey E u) = Some d"
    using assms(3) by (auto simp: applyContentChange_def Let_def split: option.splits)
  obtain d' chg S1 where cc: "commitChange E (documentKey E u) d [FullText txt] c S = ((d', chg), S1)" by (metis surj_pair)
  have "store_ok E S1" by (rule commitChange_ok [OF assms(1,2) d cc])
  with assms d cc show ?thesis
    by (auto simp: applyContentChange_def Let_def split: if_splits)
qed

lemma commitRepair_ok:
  assumes "env_ok E" and "store_ok E S"
  shows "store_ok E (snd (commitRepair E u parsedFrom repaired S))"
proof (cases "js_get (synced S) (documentKey E u)")
  case (Some d)
  obtain d' chg S1 where cc: "commitChange E (documentKey E u) d [FullText repaired] INTEGRITY_CLIENT_ID S = ((d', chg), S1)"
    by (metis surj_pair)
  have "store_ok E S1" by (rule commitChange_ok [OF assms Some cc])
  with assms Some cc show ?thesis by (simp add: commitRepair_def Let_def)
qed (use assms in \<open>simp add: commitRepair_def Let_def\<close>)

lemma ledger_only_ok:
  assumes "store_ok E S" and "docs_ok (synced S) (nextDocId S) L"
  shows "store_ok E (S\<lparr>ledger := L\<rparr>)"
proof -
  have view: "view (S\<lparr>ledger := L\<rparr>) k = view S k" for k by (simp add: view_def)
  show ?thesis using assms by (simp add: store_ok_def base_ok_def view)
qed

lemma reconcileExternalContent_ok: "store_ok E S \<Longrightarrow> store_ok E (snd (reconcileExternalContent E u txt S))"
  using base_okD(6) [OF store_okD(1)]
  by (auto simp: reconcileExternalContent_def Let_def case_prod_beta split: option.splits intro!: ledger_only_ok)

lemma store_get_key:
  assumes "env_ok E" and "store_ok E S"
  shows "store_get E u S = js_get (synced S) (documentKey E u)"
proof (cases "js_get (synced S) (normalize E u)")
  case (Some d)
  then have "canonical E (normalize E u) = normalize E u"
    using store_okD(2) [OF assms(2), of "normalize E u"] by (simp add: view_ok_def)
  with assms(1) have "normalize E u = documentKey E u" by (simp add: env_ok_def documentKey_def)
  with Some show ?thesis by (simp add: store_get_def)
qed (simp add: store_get_def)

lemma textState_ok:
  assumes "env_ok E" and "store_ok E S"
  shows "store_ok E (snd (textState E u S))"
proof (cases "js_get (synced S) (documentKey E u)")
  case (Some d)
  with docs_ok_hashOf [OF base_okD(6) [OF store_okD(1) [OF assms(2)]] Some]
  show ?thesis
    using assms by (simp add: textState_def store_get_key case_prod_beta Let_def ledger_only_ok)
qed (use assms in \<open>simp add: textState_def store_get_key\<close>)

subsection \<open>Dirty state\<close>

lemma tracker_only_ok:
  assumes "store_ok E S" and "js_get (synced S) key = Some d"
    and "tracker_ok (fst (f (dirtyTracker S, ledger S)))" and "docs_ok (synced S) (nextDocId S) (snd (f (dirtyTracker S, ledger S)))"
    and "\<And>k. k \<noteq> key \<Longrightarrow> js_get (states (fst (f (dirtyTracker S, ledger S)))) k = js_get (states (dirtyTracker S)) k"
    and "\<And>e. js_get (states (dirtyTracker S)) key = Some e \<Longrightarrow>
           \<exists>e'. js_get (states (fst (f (dirtyTracker S, ledger S)))) key = Some e' \<and> dirty e' = (Some (docText d) \<noteq> baseline e')"
  shows "store_ok E (with_tracker f S)"
proof (rule store_okI [OF assms(1), of _ key])
  show "base_ok (with_tracker f S)" using assms(1,3,4) by (intro base_ok_with_tracker) (auto dest: store_okD)
  show "view (with_tracker f S) k = view S k" if "k \<noteq> key" for k using assms(5) that by (intro view_eqI) simp_all
  show "view_ok E key (view (with_tracker f S) key)"
    using store_okD(2) [OF assms(1), of key] assms(2,6) by (auto simp: view_ok_def split: option.splits)
qed

lemma store_setDiskBaseline_ok:
  assumes "store_ok E S"
  shows "store_ok E (store_setDiskBaseline E u txt S)"
proof (cases "js_get (synced S) (documentKey E u)")
  case (Some d)
  have "store_ok E (with_tracker (setDiskBaseline (documentKey E u) d txt) S)"
    using base_okD(4,6) [OF store_okD(1) [OF assms]]
    by (intro tracker_only_ok [OF assms Some] setDiskBaseline_ok docs_ok_tracker [OF _ Some])
       (auto simp: setDiskBaseline_def refreshDirty_states js_get_set split: option.splits)
  with Some show ?thesis by (simp add: store_setDiskBaseline_def)
qed (use assms in \<open>simp add: store_setDiskBaseline_def\<close>)

lemma store_markCreated_ok:
  assumes "store_ok E S"
  shows "store_ok E (store_markCreated E u S)"
proof (cases "js_get (synced S) (documentKey E u)")
  case (Some d)
  have "store_ok E (with_tracker (markCreated (documentKey E u) d) S)"
    using base_okD(4,6) [OF store_okD(1) [OF assms]]
    by (intro tracker_only_ok [OF assms Some] markCreated_ok docs_ok_tracker [OF _ Some])
       (auto simp: markCreated_def refreshDirty_states js_get_set split: option.splits)
  with Some show ?thesis by (simp add: store_markCreated_def)
qed (use assms in \<open>simp add: store_markCreated_def\<close>)

subsection \<open>Closes\<close>

lemma close_in_shadow_fields [simp]:
  "sessionReg (close_in_shadow E u S) = sessionReg S" "synced (close_in_shadow E u S) = synced S"
  "releases (close_in_shadow E u S) = releases S" "ledger (close_in_shadow E u S) = ledger S"
  by (simp_all add: close_in_shadow_def Let_def)

lemma close_in_shadow_opens:
  "open_state_of k w (langShadow (close_in_shadow E u S)) \<noteq> None \<Longrightarrow> open_state_of k w (langShadow S) \<noteq> None"
  by (auto simp: close_in_shadow_def open_state_of_removeOpen open_state_of_removeAllOpens Let_def split: if_splits)

text \<open>Fewer opens in the shadow never break the invariant.\<close>

lemma fewer_opens_ok:
  assumes "store_ok E S" and "shadow_ok W" "opens_ok W"
    and "\<And>k u. open_state_of k u W \<noteq> None \<Longrightarrow> open_state_of k u (langShadow S) \<noteq> None"
  shows "store_ok E (S\<lparr>langShadow := W\<rparr>)"
  unfolding store_ok_def
proof (intro conjI allI)
  show "base_ok (S\<lparr>langShadow := W\<rparr>)" using assms by (auto intro: base_ok_shadow dest: store_okD)
  fix k
  have "\<And>u. open_state_of k u (langShadow S) = None \<Longrightarrow> open_state_of k u W = None" using assms(4) by blast
  then show "view_ok E k (view (S\<lparr>langShadow := W\<rparr>) k)"
    using store_okD(2) [OF assms(1), of k] assms(4) by (auto simp: view_ok_def split: option.splits)
qed

lemma removeAllOpens_store_ok: "store_ok E S \<Longrightarrow> store_ok E (with_shadow (removeAllOpens key) S)"
  by (rule fewer_opens_ok)
     (auto simp: removeAllOpens_ok opens_ok_removeAllOpens base_okD(2,3) [OF store_okD(1)]
       open_state_of_removeAllOpens split: if_splits)

lemma close_in_shadow_ok:
  assumes "store_ok E S"
  shows "store_ok E (close_in_shadow E u S)"
proof -
  note W = base_okD(2,3) [OF store_okD(1) [OF assms]]
  have "store_ok E (S\<lparr>langShadow := langShadow (close_in_shadow E u S)\<rparr>)"
    by (rule fewer_opens_ok [OF assms])
       (use W close_in_shadow_opens in \<open>auto simp: close_in_shadow_def Let_def removeOpen_shadow_ok opens_ok_removeOpen
          removeAllOpens_ok opens_ok_removeAllOpens\<close>)
  moreover have "S\<lparr>langShadow := langShadow (close_in_shadow E u S)\<rparr> = close_in_shadow E u S"
    by (simp add: close_in_shadow_def Let_def)
  ultimately show ?thesis by simp
qed

text \<open>
  A client's open is removed: the document stays for the other clients, or is deferred after a lost
  connection, or released.
\<close>

lemma deferRelease_ok:
  assumes "ok_except E key S" and "view_held E key (view S key)"
    and "\<And>c. \<not> isOpenIn key c (sessionReg S)" and "\<And>u. open_state_of key u (langShadow S) = None"
  shows "store_ok E (deferRelease now key S)"
proof -
  let ?R = "snd (defer_release key now (releases S))"
  have ex: "ok_except E key (S\<lparr>releases := ?R\<rparr>)"
    using assms(1) base_okD(5) [OF ok_exceptD [OF assms(1)]]
    by (intro ok_except_releases) (auto simp: isDeferred_defer_release)
  obtain d where d: "js_get (synced S) key = Some d"
    using assms(2) by (auto simp: view_held_def split: option.splits)
  have "\<not> isOpen key (sessionReg S)"
    using isOpen_isOpenIn [OF base_okD(1) [OF ok_exceptD [OF assms(1)]]] assms(3) by blast
  show ?thesis
  proof (cases "0 < graceMs (releases S)")
    case True
    have "view (S\<lparr>releases := ?R\<rparr>) key = (view S key)\<lparr>viewDeferred := True\<rparr>"
      using True by (simp add: view_def isDeferred_defer_release)
    then have "view_held E key (view (S\<lparr>releases := ?R\<rparr>) key)" using view_held_release [OF assms(2), of True] by argo
    then have "store_ok E (S\<lparr>releases := ?R\<rparr>)"
      unfolding store_ok_except [of _ _ key] using ex True assms(3)
      by (simp add: view_held_ok isDeferred_defer_release)
    with True show ?thesis by (simp add: deferRelease_def case_prod_beta fst_defer_release Let_def)
  next
    case False
    have "store_ok E (releaseDocument key (S\<lparr>releases := ?R\<rparr>))"
      by (rule releaseDocument_ok [OF ex]) (use d False assms(3,4) in \<open>simp_all add: isDeferred_defer_release\<close>)
    with False \<open>\<not> isOpen key (sessionReg S)\<close> show ?thesis
      by (simp add: deferRelease_def release_unless_open_def case_prod_beta fst_defer_release Let_def)
  qed
qed

lemma close_open_ok:
  assumes "store_ok E S" and "isOpenIn key c (sessionReg S)"
    and "c = LANGUAGE_CLIENT_ID \<Longrightarrow> \<forall>u. open_state_of key u (langShadow S) = None"
    and R: "R = snd (removeOpen key c (sessionReg S))" and "losses_ok Q" "\<And>k. isDeferred k Q = isDeferred k (releases S)"
  defines "S3 \<equiv> S\<lparr>sessionReg := R, releases := Q\<rparr>"
  shows "isOpen key R \<Longrightarrow> store_ok E S3" "\<not> isOpen key R \<Longrightarrow> store_ok E (deferRelease now key S3)"
    "\<not> isOpen key R \<Longrightarrow> store_ok E (releaseDocument key S3)"
proof -
  note reg = base_okD(1) [OF store_okD(1) [OF assms(1)]]
  have rok: "registry_ok R" using removeOpen_ok [OF reg] R by simp
  have open_R: "isOpenIn k d R \<longleftrightarrow> isOpenIn k d (sessionReg S) \<and> \<not> (k = key \<and> d = c)" for k d
    using isOpenIn_removeOpen [OF reg] R by simp
  have "view_ok E key (view S key)" by (rule store_okD(2) [OF assms(1)])
  then obtain d where d: "js_get (synced S) key = Some d" and nd: "\<not> isDeferred key (releases S)"
    and held: "view_held E key (view S key)"
    using assms(2) by (auto simp: view_ok_def view_held_def split: option.splits)
  have ex: "ok_except E key S3"
    using assms(1,5,6) rok open_R unfolding S3_def store_ok_except [of E S key]
    by (intro ok_except_releases ok_except_registry) auto
  have held3: "view_held E key (view S3 key)"
    using held assms(3) open_R by (auto simp: view_held_def S3_def split: option.splits)
  show "store_ok E S3" if "isOpen key R"
    unfolding store_ok_except [of _ _ key]
    using ex held3 that nd assms(6) isOpen_isOpenIn [OF rok, of key]
    by (simp add: view_held_ok S3_def)
  assume closed: "\<not> isOpen key R"
  then have none: "\<not> isOpenIn key e R" for e using isOpen_isOpenIn [OF rok, of key] by blast
  have shadow: "open_state_of key u (langShadow S3) = None" for u
    using held3 none by (auto simp: view_held_def S3_def split: option.splits)
  show "store_ok E (deferRelease now key S3)"
    by (rule deferRelease_ok [OF ex held3]) (use none shadow in \<open>simp_all add: S3_def\<close>)
  show "store_ok E (releaseDocument key S3)"
    by (rule releaseDocument_ok [OF ex]) (use none shadow d nd assms(6) in \<open>simp_all add: S3_def\<close>)
qed

lemma notifyDidClose_ok:
  assumes "store_ok E S"
  shows "store_ok E (notifyDidCloseTextDocument E now u c cause S)"
proof -
  let ?key = "documentKey E u"
  let ?S1 = "if c = LANGUAGE_CLIENT_ID then close_in_shadow E u S else S"
  have ok1: "store_ok E ?S1" using assms by (simp add: close_in_shadow_ok)
  note reg1 = base_okD(1) [OF store_okD(1) [OF ok1]]
  let ?R = "snd (removeOpen ?key c (sessionReg ?S1))"
  let ?Q = "if cause = Lost then recordLoss ?key c now (releases ?S1) else releases ?S1"
  let ?S3 = "?S1\<lparr>sessionReg := ?R, releases := ?Q\<rparr>"
  show ?thesis
  proof (cases "(c = LANGUAGE_CLIENT_ID \<and> shadow_isOpen ?key (langShadow ?S1)) \<or> \<not> isOpenIn ?key c (sessionReg ?S1)")
    case True
    then consider "notifyDidCloseTextDocument E now u c cause S = ?S1"
      | "notifyDidCloseTextDocument E now u c cause S = ?S1\<lparr>sessionReg := sessionReg ?S1\<rparr>"
      using fst_removeOpen [OF reg1, of ?key c]
      by (auto simp: notifyDidCloseTextDocument_def removeOpen_def Let_def split: if_splits)
    then show ?thesis using ok1 by cases simp_all
  next
    case False
    then have opened: "isOpenIn ?key c (sessionReg ?S1)" and fstR: "fst (removeOpen ?key c (sessionReg ?S1))"
      using fst_removeOpen [OF reg1] by simp_all
    have shadow: "c = LANGUAGE_CLIENT_ID \<Longrightarrow> \<forall>w. open_state_of ?key w (langShadow ?S1) = None"
      using False opens_ok_isOpen [OF base_okD(3) [OF store_okD(1) [OF ok1]], of ?key] by simp
    obtain d where d: "js_get (synced ?S1) ?key = Some d"
      using store_okD(2) [OF ok1, of ?key] opened by (auto simp: view_ok_def split: option.splits)
    let ?ev = "EvClose (docUri d) (docVersion d) c"
    have Q: "losses_ok ?Q" "\<And>k. isDeferred k ?Q = isDeferred k (releases ?S1)"
      using base_okD(5) [OF store_okD(1) [OF ok1]] by (auto intro: losses_ok_recordLoss)
    have fire3: "fire ?ev ?S3 = (fire ?ev ?S1)\<lparr>sessionReg := ?R, releases := ?Q\<rparr>" by (simp add: fire_def)
    have close: "notifyDidCloseTextDocument E now u c cause S =
       (if isOpen ?key ?R then fire ?ev ?S3
        else if cause = Lost then deferRelease now ?key (fire ?ev ?S3) else releaseDocument ?key (fire ?ev ?S3))"
      using False fstR d by (auto simp: notifyDidCloseTextDocument_def Let_def case_prod_beta)
    have okf: "store_ok E (fire ?ev ?S1)" "sessionReg (fire ?ev ?S1) = sessionReg ?S1" using ok1 by simp_all
    from close_open_ok [OF okf(1), of ?key c ?R ?Q] opened shadow Q
    show ?thesis unfolding close fire3 by auto
  qed
qed

lemma fold_close_ok:
  assumes "store_ok E S" and "\<And>x S. store_ok E S \<Longrightarrow> store_ok E (f x S)"
  shows "store_ok E (fold f xs S)"
  using assms by (induction xs arbitrary: S) simp_all

lemma closeSession_ok:
  assumes "store_ok E S"
  shows "store_ok E (closeSession E now c cause S)"
proof -
  note reg = base_okD(1) [OF store_okD(1) [OF assms]]
  let ?S1 = "fold (\<lambda>u. notifyDidCloseTextDocument E now u c cause) (fst (beginClose c (sessionReg S)))
     (S\<lparr>sessionReg := snd (beginClose c (sessionReg S))\<rparr>)"
  have "store_ok E (S\<lparr>sessionReg := snd (beginClose c (sessionReg S))\<rparr>)"
    by (rule registry_only_ok [OF assms beginClose_ok [OF reg]]) simp
  then have "store_ok E ?S1" by (rule fold_close_ok) (rule notifyDidClose_ok)
  then have "store_ok E (with_registry (unregister c cause) ?S1)"
    by (rule registry_only_ok) (simp_all add: unregister_ok base_okD(1) [OF store_okD(1) [OF \<open>store_ok E ?S1\<close>]])
  with assms show ?thesis by (simp add: closeSession_def Let_def case_prod_beta)
qed

lemma registerSession_ok:
  assumes "store_ok E S" and "registerSession c S = Inr S'"
  shows "store_ok E S'"
proof -
  obtain R where R: "register c (sessionReg S) = Inr R" "S' = S\<lparr>sessionReg := R\<rparr>"
    using assms(2) by (auto simp: registerSession_def split: sum.splits)
  show ?thesis unfolding R(2)
    by (rule registry_only_ok [OF assms(1)])
       (use R(1) base_okD(1) [OF store_okD(1) [OF assms(1)]] in \<open>auto intro: register_ok simp: isOpenIn_register\<close>)
qed

lemma closeLanguageClientDocuments_ok: "store_ok E S \<Longrightarrow> store_ok E (closeLanguageClientDocuments E now S)"
  unfolding closeLanguageClientDocuments_def by (rule fold_close_ok) (auto intro: notifyDidClose_ok removeAllOpens_store_ok)

lemma notifyDocumentDeleted_ok: "store_ok E S \<Longrightarrow> store_ok E (notifyDocumentDeleted E now u S)"
  unfolding notifyDocumentDeleted_def Let_def
  by (rule releaseIfDeferred_ok, rule fold_close_ok) (auto intro: notifyDidClose_ok)

text \<open>
  A delete ends with the removal of the base class, which finds nothing left to remove: every client's
  open was closed, and a document of no client is deferred.
\<close>

lemma removeOpen_version_frame [simp]: "isOpenIn k d (forgetClientVersions u R) = isOpenIn k d R"
  by simp

lemma releaseDocument_registry [simp]: "isOpenIn k d (sessionReg (releaseDocument key S)) = isOpenIn k d (sessionReg S)"
  by (cases "js_get (synced S) key") (simp_all add: releaseDocument_None releaseDocument_simps)

lemma deferRelease_registry [simp]: "isOpenIn k d (sessionReg (deferRelease now key S)) = isOpenIn k d (sessionReg S)"
  by (simp add: deferRelease_def release_unless_open_def case_prod_beta Let_def)

text \<open>What a close changes in the open table: the closing client's open, unless another of its URIs keeps it.\<close>

lemma isOpenIn_notifyDidClose:
  assumes "store_ok E S"
  shows "isOpenIn k d (sessionReg (notifyDidCloseTextDocument E now u c cause S)) \<longleftrightarrow>
     isOpenIn k d (sessionReg S) \<and>
     (k \<noteq> documentKey E u \<or> d \<noteq> c \<or> (c = LANGUAGE_CLIENT_ID \<and> shadow_isOpen (documentKey E u) (langShadow (close_in_shadow E u S))))"
proof -
  note reg = base_okD(1) [OF store_okD(1) [OF assms]]
  show ?thesis
    using isOpenIn_removeOpen [OF reg, of k d "documentKey E u" c] fst_removeOpen [OF reg, of "documentKey E u" c]
    by (auto simp: notifyDidCloseTextDocument_def Let_def case_prod_beta split: option.splits)
qed

lemma shadow_closed_after:
  "shadow_isOpen key (langShadow (close_in_shadow E u S)) \<Longrightarrow> shadow_isOpen key (langShadow S)"
  by (auto simp: shadow_isOpen_def close_in_shadow_def shadow_removeOpen_def removeAllOpens_def js_get_set js_get_delete js_has_get
      forget_text_def invalidateText_def Let_def split: option.splits if_splits)

lemma langShadow_release [simp]:
  "langShadow (releaseDocument key S) = langShadow S" "langShadow (deferRelease now key S) = langShadow S"
proof -
  show *: "langShadow (releaseDocument key S) = langShadow S" for S
    by (cases "js_get (synced S) key") (simp_all add: releaseDocument_None releaseDocument_simps)
  show "langShadow (deferRelease now key S) = langShadow S"
    by (simp add: deferRelease_def release_unless_open_def case_prod_beta Let_def *)
qed

lemma langShadow_notifyDidClose:
  "langShadow (notifyDidCloseTextDocument E now u c cause S) =
     langShadow (if c = LANGUAGE_CLIENT_ID then close_in_shadow E u S else S)"
  by (simp add: notifyDidCloseTextDocument_def Let_def case_prod_beta split: option.splits)

lemma fold_close_key:
  assumes "store_ok E S" and "documentKey E key = key" and "\<not> shadow_isOpen key (langShadow S)"
    and "S' = fold (\<lambda>c. notifyDidCloseTextDocument E now key c cause) cs S"
  shows "store_ok E S' \<and> \<not> shadow_isOpen key (langShadow S') \<and>
     (\<forall>c. isOpenIn key c (sessionReg S') \<longleftrightarrow> isOpenIn key c (sessionReg S) \<and> c \<notin> set cs)"
  using assms(1,3) unfolding assms(4)
proof (induction cs arbitrary: S)
  case (Cons c cs)
  let ?S1 = "notifyDidCloseTextDocument E now key c cause S"
  have "store_ok E ?S1" by (rule notifyDidClose_ok [OF Cons.prems(1)])
  moreover have "\<not> shadow_isOpen key (langShadow ?S1)"
    using Cons.prems(2) shadow_closed_after [of key E key S] by (auto simp: langShadow_notifyDidClose)
  moreover have "isOpenIn key d (sessionReg ?S1) \<longleftrightarrow> isOpenIn key d (sessionReg S) \<and> d \<noteq> c" for d
    using isOpenIn_notifyDidClose [OF Cons.prems(1), of key d now key c cause] Cons.prems(2) assms(2)
      shadow_closed_after [of key E key S] by auto
  ultimately show ?case using Cons.IH [of ?S1] by auto
qed simp

lemma delete_absent_ok:
  assumes "store_ok E S" and "js_get (synced S) k0 = None"
  shows "store_ok E (S\<lparr>synced := js_delete k0 (synced S)\<rparr>)"
proof -
  have same: "js_get (js_delete k0 (synced S)) k = js_get (synced S) k" for k
    using assms(2) by (auto simp: js_get_delete)
  have view: "view (S\<lparr>synced := js_delete k0 (synced S)\<rparr>) k = view S k" for k by (simp add: view_def same)
  show ?thesis using assms(1) by (simp add: store_ok_def view) (simp add: base_ok_def docs_ok_delete)
qed

text \<open>The state in which a delete calls the base class.\<close>

abbreviation before_base_delete :: "env \<Rightarrow> time \<Rightarrow> uri \<Rightarrow> store \<Rightarrow> store" where
  "before_base_delete E now key S \<equiv>
     releaseIfDeferred key (fold (\<lambda>c. notifyDidCloseTextDocument E now key c Closed) (clientsOf key (sessionReg S))
       (with_shadow (removeAllOpens key) S))"

lemma before_base_delete_ok:
  assumes "env_ok E" and "store_ok E S"
  shows "store_ok E (before_base_delete E now (documentKey E u) S)"
    "js_get (synced (before_base_delete E now (documentKey E u) S)) (documentKey E u) = None"
proof -
  let ?key = "documentKey E u"
  let ?S0 = "with_shadow (removeAllOpens ?key) S"
  let ?S1 = "fold (\<lambda>c. notifyDidCloseTextDocument E now ?key c Closed) (clientsOf ?key (sessionReg S)) ?S0"
  have key: "documentKey E ?key = ?key" using assms(1) by (simp add: env_ok_def documentKey_def)
  have ok0: "store_ok E ?S0" by (rule removeAllOpens_store_ok [OF assms(2)])
  have "\<not> shadow_isOpen ?key (langShadow ?S0)"
    by (simp add: shadow_isOpen_def removeAllOpens_def js_has_delete Let_def)
  from fold_close_key [OF ok0 key this refl, of now Closed "clientsOf ?key (sessionReg S)"]
  have ok1: "store_ok E ?S1" and none: "\<forall>c. \<not> isOpenIn ?key c (sessionReg ?S1)"
    by (auto simp: clientsOf_isOpenIn)
  show "store_ok E (releaseIfDeferred ?key ?S1)" by (rule releaseIfDeferred_ok [OF ok1])
  show "js_get (synced (releaseIfDeferred ?key ?S1)) ?key = None"
  proof (cases "js_get (synced ?S1) ?key")
    case (Some d)
    with none store_okD(2) [OF ok1, of ?key] have "isDeferred ?key (releases ?S1)" by (simp add: view_ok_def)
    with Some show ?thesis by (simp add: releaseIfDeferred_def releaseDocument_simps js_get_delete)
  qed (simp add: releaseIfDeferred_def releaseDocument_None)
qed

lemma delete_finds_nothing:
  assumes "env_ok E" and "store_ok E S"
  shows "js_get (synced (before_base_delete E now (documentKey E u) S)) (normalize E (documentKey E u)) = None"
proof (rule ccontr)
  let ?key = "documentKey E u"
  assume *: "\<not> ?thesis"
  then have "canonical E (normalize E ?key) = normalize E ?key"
    using store_okD(2) [OF before_base_delete_ok(1) [OF assms, of u now], of "normalize E ?key"]
    by (auto simp: view_ok_def split: option.splits)
  with assms(1) have "normalize E ?key = ?key" by (simp add: env_ok_def documentKey_def)
  with * before_base_delete_ok(2) [OF assms, of u now] show False by simp
qed

lemma store_delete_eq:
  "store_delete E now u S =
     (before_base_delete E now (documentKey E u) S)
       \<lparr>synced := js_delete (normalize E (documentKey E u)) (synced (before_base_delete E now (documentKey E u) S))\<rparr>"
  by (simp add: store_delete_def Let_def)

lemma store_delete_ok:
  assumes "env_ok E" and "store_ok E S"
  shows "store_ok E (store_delete E now u S)" "js_get (synced (store_delete E now u S)) (documentKey E u) = None"
proof -
  show "store_ok E (store_delete E now u S)"
    unfolding store_delete_eq by (rule delete_absent_ok [OF before_base_delete_ok(1) [OF assms] delete_finds_nothing [OF assms]])
  show "js_get (synced (store_delete E now u S)) (documentKey E u) = None"
    using before_base_delete_ok(2) [OF assms, of u now] unfolding store_delete_eq by (simp add: js_get_delete)
qed

subsection \<open>Saves, pushes and settled releases\<close>

lemma save_ok:
  assumes "store_ok E S"
  shows "store_ok E (notifyWillSaveTextDocument E u reason S)" "store_ok E (notifyDidSaveTextDocument E u t c S)"
    "store_ok E (snd (languageClientSaveBegins E u S))" "store_ok E (languageClientSaveRead E before onDisk S)"
    "store_ok E (reloadDiskBaseline E u r1 ex r2 S)"
  using assms
  by (auto simp: notifyWillSaveTextDocument_def notifyDidSaveTextDocument_def announceSave_def languageClientSaveBegins_def
      languageClientSaveRead_def reloadDiskBaseline_def Let_def intro: store_setDiskBaseline_ok split: option.splits)

lemma textState_tracker [simp]: "dirtyTracker (snd (textState E u S)) = dirtyTracker S"
  by (simp add: textState_def case_prod_beta Let_def split: option.splits)

lemma announce_store_ok:
  assumes "store_ok E S" and "case ts of None \<Rightarrow> True | Some x \<Rightarrow> \<not> tsDirty x"
  shows "store_ok E (S\<lparr>dirtyTracker := announce key t ts (dirtyTracker S)\<rparr>)"
proof -
  have view: "view (S\<lparr>dirtyTracker := announce key t ts (dirtyTracker S)\<rparr>) k = view S k" for k
    by (simp add: view_def announce_def)
  show ?thesis
    using assms store_okD(1) [OF assms(1)] announce_ok [OF base_okD(4) assms(2)]
    by (auto simp: store_ok_def view base_ok_def)
qed

lemma releaseSettled_ok:
  assumes "env_ok E" and "store_ok E S" and "documentKey E key = key"
  shows "store_ok E (releaseSettled E key token built inBuild S)"
proof (cases "\<exists>t. token = Some t \<and> isOwed key t (dirtyTracker S)")
  case True
  then obtain t where t: "token = Some t" "isOwed key t (dirtyTracker S)" by blast
  let ?r = "if built \<and> inBuild then textState E key S else (None, S)"
  have ok1: "store_ok E (snd ?r)" using assms by (simp add: textState_ok)
  have "js_get (states (dirtyTracker S)) key = None"
    using t(2) tracker_ok_agree [OF base_okD(4) [OF store_okD(1) [OF assms(2)]], of key]
    by (auto simp: agree_def isOwed_def Let_def split: option.splits)
  then have "case fst ?r of None \<Rightarrow> True | Some ts \<Rightarrow> \<not> tsDirty ts"
    by (auto simp: textState_def store_isDirty_def isDirty_def assms(3) case_prod_beta Let_def split: option.splits)
  from announce_store_ok [OF ok1 this, of key t] t show ?thesis
    by (simp add: releaseSettled_def case_prod_beta Let_def)
qed (use assms in \<open>auto simp: releaseSettled_def split: option.splits\<close>)

end
