(* ===== verification/StoreRuns.thy ===== *)
theory StoreRuns
  imports StoreInvariant
begin

section \<open>Runs of the text document store\<close>

text \<open>
  Every operation of the store as a step, the invariant over all runs, and what runs keep: the shared
  version sequence of each document moves forward and tells texts apart.
\<close>

datatype store_op =
    StOpen time "(model_root \<times> text_body) option" model_ledger uri string int text_body client_id
  | StAttach time uri client_id
  | StChange uri "int option" "change list" client_id
  | StApply uri text_body client_id
  | StRepair uri text_body text_body
  | StReconcile uri text_body
  | StClose time uri client_id end_cause
  | StTimer time uri
  | StRegister client_id
  | StCloseSession time client_id end_cause
  | StCloseEditor time
  | StDeleted time uri
  | StDelete time uri
  | StStage uri text_body
  | StRefresh uri client_id
  | StSetText uri text_body
  | StInvalidate uri
  | StPreparePush uri uri text_body
  | StPushOutcome prepared_push push_outcome
  | StBaseline uri "text_body option"
  | StReload uri "text_body option" bool "text_body option"
  | StCreated uri
  | StWillSave uri int
  | StDidSave uri "text_body option" client_id
  | StEditorSave uri
  | StEditorSaveRead text_document "text_body option"
  | StSettled uri "nat option" bool bool
  | StTextState uri

text \<open>
  A step is \<open>None\<close> where the operation throws. A settled release names the canonical URI the document
  was released under.
\<close>

fun store_step :: "env \<Rightarrow> store_op \<Rightarrow> store \<Rightarrow> store option" where
  "store_step E (StOpen now built M u lang v txt c) S =
     (case notifyDidOpenTextDocument E now built M u lang v txt c S of Inl _ \<Rightarrow> None | Inr S' \<Rightarrow> Some S')"
| "store_step E (StAttach now u c) S =
     (case attachClient E now u c S of Inl _ \<Rightarrow> None | Inr (_, S') \<Rightarrow> Some S')"
| "store_step E (StChange u v changes c) S =
     (case notifyDidChangeTextDocument E u v changes c S of Inl _ \<Rightarrow> None | Inr S' \<Rightarrow> Some S')"
| "store_step E (StApply u txt c) S =
     (case applyContentChange E u txt c S of Inl _ \<Rightarrow> None | Inr (_, S') \<Rightarrow> Some S')"
| "store_step E (StRepair u from repaired) S = Some (snd (commitRepair E u from repaired S))"
| "store_step E (StReconcile u txt) S = Some (snd (reconcileExternalContent E u txt S))"
| "store_step E (StClose now u c cause) S = Some (notifyDidCloseTextDocument E now u c cause S)"
| "store_step E (StTimer now key) S = releaseTimer now key S"
| "store_step E (StRegister c) S = (case registerSession c S of Inl _ \<Rightarrow> None | Inr S' \<Rightarrow> Some S')"
| "store_step E (StCloseSession now c cause) S = Some (closeSession E now c cause S)"
| "store_step E (StCloseEditor now) S = Some (closeLanguageClientDocuments E now S)"
| "store_step E (StDeleted now u) S = Some (notifyDocumentDeleted E now u S)"
| "store_step E (StDelete now u) S = Some (store_delete E now u S)"
| "store_step E (StStage u txt) S = Some (stagePendingContent E u txt S)"
| "store_step E (StRefresh u c) S = Some (refreshContent E u c S)"
| "store_step E (StSetText u txt) S = Some (store_setLanguageClientText E u txt S)"
| "store_step E (StInvalidate u) S = Some (store_invalidateLanguageClientText E u S)"
| "store_step E (StPreparePush key w txt) S =
     Some (with_shadow (\<lambda>W. snd (preparePush (textLib E) key w txt W)) S)"
| "store_step E (StPushOutcome p out) S = Some (with_shadow (notifyOutcome p out) S)"
| "store_step E (StBaseline u txt) S = Some (store_setDiskBaseline E u txt S)"
| "store_step E (StReload u r1 ex r2) S = Some (reloadDiskBaseline E u r1 ex r2 S)"
| "store_step E (StCreated u) S = Some (store_markCreated E u S)"
| "store_step E (StWillSave u reason) S = Some (notifyWillSaveTextDocument E u reason S)"
| "store_step E (StDidSave u txt c) S = Some (notifyDidSaveTextDocument E u txt c S)"
| "store_step E (StEditorSave u) S = Some (snd (languageClientSaveBegins E u S))"
| "store_step E (StEditorSaveRead d onDisk) S = Some (languageClientSaveRead E d onDisk S)"
| "store_step E (StSettled key token built inBuild) S =
     (if documentKey E key = key then Some (releaseSettled E key token built inBuild S) else None)"
| "store_step E (StTextState u) S = Some (snd (textState E u S))"

lemma stage_ok: "store_ok E (S\<lparr>pendingContent := p\<rparr>) = store_ok E S"
proof -
  have view: "view (S\<lparr>pendingContent := p\<rparr>) k = view S k" for k by (simp add: view_def)
  show ?thesis by (simp add: store_ok_def base_ok_def view)
qed

lemma shadow_steps_ok:
  assumes "store_ok E S"
  shows "store_ok E (store_setLanguageClientText E u txt S)" "store_ok E (store_invalidateLanguageClientText E u S)"
    "store_ok E (with_shadow (\<lambda>W. snd (preparePush lib key w txt W)) S)" "store_ok E (with_shadow (notifyOutcome p out) S)"
  using assms base_okD(2,3) [OF store_okD(1) [OF assms]]
  by (auto simp: store_setLanguageClientText_def store_invalidateLanguageClientText_def setText_store_ok
      intro!: shadow_only_ok simp: invalidate_ok opens_ok_same preparePush_ok notifyOutcome_ok
      opens_ok_notifyOutcome open_notifyOutcome)

lemma store_step_ok:
  assumes "env_ok E" and "store_ok E S" and "store_step E op S = Some S'"
  shows "store_ok E S'"
  using assms
  by (cases op)
     (auto split: sum.splits if_splits
       intro: notifyDidOpen_ok attachClient_ok notifyDidChange_ok applyContentChange_ok registerSession_ok releaseTimer_ok
       simp: commitRepair_ok reconcileExternalContent_ok notifyDidClose_ok closeSession_ok closeLanguageClientDocuments_ok
         notifyDocumentDeleted_ok store_delete_ok stagePendingContent_def stage_ok shadow_steps_ok
         store_setDiskBaseline_ok store_markCreated_ok save_ok releaseSettled_ok textState_ok)

subsection \<open>Where a document's version sequence stands\<close>

text \<open>The version and digest the store answers for a key: of the held text, or where its sequence left off.\<close>

definition standing :: "store \<Rightarrow> uri \<Rightarrow> (version \<times> string) option" where
  "standing S k =
     (case js_get (synced S) k of
        Some d \<Rightarrow> Some (docVersion d, textHash (docText d))
      | None \<Rightarrow> standing_of k (ledger S))"

definition moved_on :: "(version \<times> string) option \<Rightarrow> (version \<times> string) option \<Rightarrow> bool" where
  "moved_on before after \<longleftrightarrow>
     (case before of
        None \<Rightarrow> True
      | Some (v, h) \<Rightarrow> (case after of None \<Rightarrow> False | Some (v', h') \<Rightarrow> v < v' \<or> (v = v' \<and> h = h')))"

definition sequences_progress :: "store \<Rightarrow> store \<Rightarrow> bool" where
  "sequences_progress S S' \<longleftrightarrow> (\<forall>k. moved_on (standing S k) (standing S' k))"

lemma moved_on_refl [simp]: "moved_on x x"
  by (simp add: moved_on_def split: option.splits)

lemma moved_on_trans: "moved_on x y \<Longrightarrow> moved_on y z \<Longrightarrow> moved_on x z"
  by (auto simp: moved_on_def split: option.splits)

lemma progress_refl [simp]: "sequences_progress S S"
  by (simp add: sequences_progress_def)

lemma progress_trans: "sequences_progress S T \<Longrightarrow> sequences_progress T U \<Longrightarrow> sequences_progress S U"
  unfolding sequences_progress_def by (blast intro: moved_on_trans)

lemma standing_of_records: "records L = records L' \<Longrightarrow> standing_of k L = standing_of k L'"
  by (simp add: standing_of_def recordOf_def)

lemma standing_cong:
  assumes "js_get (synced S') k = js_get (synced S) k" and "records (ledger S') = records (ledger S)"
  shows "standing S' k = standing S k"
  using standing_of_records [OF assms(2)] by (simp add: standing_def assms(1) split: option.splits)

lemma progress_same: "(\<And>k. standing S' k = standing S k) \<Longrightarrow> sequences_progress S S'"
  by (simp add: sequences_progress_def)

lemma progress_fields:
  "synced S' = synced S \<Longrightarrow> records (ledger S') = records (ledger S) \<Longrightarrow> sequences_progress S S'"
  by (rule progress_same, rule standing_cong) simp_all

lemma progress_into:
  "sequences_progress S S1 \<Longrightarrow> synced S' = synced S1 \<Longrightarrow> records (ledger S') = records (ledger S1) \<Longrightarrow> sequences_progress S S'"
  by (rule progress_trans [OF _ progress_fields])

subsection \<open>Every operation moves the sequences on\<close>

lemma standing_release:
  assumes "base_ok S"
  shows "standing (releaseDocument key S) k = standing S k"
proof (cases "js_get (synced S) key")
  case (Some d)
  have "cache_ok d (ledger S)" by (rule docs_okD(2) [OF base_okD(6) [OF assms] Some])
  then show ?thesis
    by (simp add: standing_def releaseDocument_simps [OF Some] Some js_get_delete standing_of_def
        recordOf_record_release split: option.splits)
qed (simp add: releaseDocument_None)

lemma progress_commitText:
  assumes "js_get (synced S) key = Some d" and "docVersion d < docVersion d'"
  shows "sequences_progress S (commitText E key d' c S)"
  unfolding sequences_progress_def
proof (rule allI)
  show "moved_on (standing S k) (standing (commitText E key d' c S) k)" for k
  proof (cases "k = key")
    case True
    with assms show ?thesis by (simp add: standing_def moved_on_def js_get_set)
  next
    case False
    then have "standing (commitText E key d' c S) k = standing S k"
      by (intro standing_cong) (simp_all add: js_get_set)
    then show ?thesis by simp
  qed
qed

lemma progress_commitChange:
  assumes "env_ok E" and "js_get (synced S) key = Some d" and "commitChange E key d changes c S = ((d', chg), S')"
  shows "sequences_progress S S'"
proof (rule commitChange_cases [OF assms(1,3)], goal_cases)
  case 1
  then show ?case using progress_commitText [OF assms(2)] by simp
next
  case 2
  then show ?case using assms(2) by (intro progress_same standing_cong) (simp_all add: js_set_same_get)
qed

lemma records_tracker [simp]:
  "records (snd (setDiskBaseline key d txt (T, L))) = records L" "records (snd (markCreated key d (T, L))) = records L"
  "records (snd (track key d disk (T, L))) = records L"
  by (simp_all add: setDiskBaseline_def markCreated_def track_def split: option.splits)

lemma progress_release:
  assumes "base_ok S"
  shows "sequences_progress S (releaseDocument key S)"
  by (rule progress_same) (rule standing_release [OF assms])

lemma progress_release_deferred:
  "base_ok S \<Longrightarrow> losses_ok R \<Longrightarrow> sequences_progress S (releaseDocument key (S\<lparr>releases := R\<rparr>))"
  by (rule progress_trans [of _ "S\<lparr>releases := R\<rparr>"]) (simp_all add: progress_fields progress_release base_ok_releases)

lemma progress_resolve:
  assumes "store_ok E S"
  shows "sequences_progress S (resolveDeferredRelease now key c S)"
proof -
  note b = store_okD(1) [OF assms]
  show ?thesis
    using progress_release_deferred [OF b losses_ok_resolveOpen [OF base_okD(5) [OF b]]]
    by (simp add: resolveDeferredRelease_simps [OF base_okD(5) [OF b]] Let_def progress_fields)
qed

lemma progress_deferRelease:
  assumes "base_ok S"
  shows "sequences_progress S (deferRelease now key S)"
  using progress_release_deferred [OF assms, of "snd (defer_release key now (releases S))" key] base_okD(5) [OF assms]
  by (simp add: deferRelease_def release_unless_open_def case_prod_beta Let_def progress_fields)

lemma progress_timer:
  assumes "store_ok E S" and "releaseTimer now key S = Some S'"
  shows "sequences_progress S S'"
proof -
  obtain R where R: "timerFires key now (releases S) = Some R" and S': "S' = release_unless_open key (S\<lparr>releases := R\<rparr>)"
    using assms(2) by (auto simp: releaseTimer_def split: option.splits)
  note b = store_okD(1) [OF assms(1)]
  have "losses_ok R" using losses_ok_timerFires [OF R] base_okD(5) [OF b] by simp
  from progress_release_deferred [OF b this] show ?thesis
    by (simp add: S' release_unless_open_def progress_fields)
qed

lemma progress_releaseIfDeferred: "store_ok E S \<Longrightarrow> sequences_progress S (releaseIfDeferred key S)"
  using progress_release_deferred [of S "cancel key (releases S)" key] base_okD(5) store_okD(1)
  by (simp add: releaseIfDeferred_def)

lemma progress_close:
  assumes "store_ok E S"
  shows "sequences_progress S (notifyDidCloseTextDocument E now u c cause S)"
proof -
  let ?key = "documentKey E u"
  let ?S1 = "if c = LANGUAGE_CLIENT_ID then close_in_shadow E u S else S"
  have ok1: "store_ok E ?S1" using assms by (simp add: close_in_shadow_ok)
  let ?S2 = "?S1\<lparr>sessionReg := snd (removeOpen ?key c (sessionReg ?S1))\<rparr>"
  let ?S3 = "if cause = Lost then ?S2\<lparr>releases := recordLoss ?key c now (releases ?S2)\<rparr> else ?S2"
  have b: "base_ok (fire ev ?S3)" for ev
    using store_okD(1) [OF ok1] by (simp add: base_ok_def removeOpen_ok losses_ok_recordLoss)
  have same: "sequences_progress S (fire ev ?S3)" for ev
    by (rule progress_fields) simp_all
  show ?thesis
    using progress_trans [OF same progress_release [OF b]] progress_trans [OF same progress_deferRelease [OF b]]
    by (auto simp: notifyDidCloseTextDocument_def Let_def case_prod_beta intro: progress_fields split: option.splits)
qed

lemma progress_fold:
  assumes "store_ok E S" and "\<And>x S. store_ok E S \<Longrightarrow> store_ok E (f x S) \<and> sequences_progress S (f x S)"
  shows "sequences_progress S (fold f xs S)"
  using assms
proof (induction xs arbitrary: S)
  case (Cons x xs)
  from Cons.prems(2) [OF Cons.prems(1), of x] Cons.IH [OF _ Cons.prems(2), of "f x S"]
  show ?case by (auto intro: progress_trans)
qed simp

lemma progress_closeSession:
  assumes "store_ok E S"
  shows "sequences_progress S (closeSession E now c cause S)"
proof -
  let ?S0 = "S\<lparr>sessionReg := snd (beginClose c (sessionReg S))\<rparr>"
  have "store_ok E ?S0"
    by (rule registry_only_ok [OF assms beginClose_ok [OF base_okD(1) [OF store_okD(1) [OF assms]]]]) simp
  then have "sequences_progress ?S0 (fold (\<lambda>u. notifyDidCloseTextDocument E now u c cause) us ?S0)" for us
    by (rule progress_fold) (simp add: notifyDidClose_ok progress_close)
  moreover have "sequences_progress S ?S0" by (rule progress_fields) simp_all
  ultimately have "sequences_progress S (fold (\<lambda>u. notifyDidCloseTextDocument E now u c cause) us ?S0)" for us
    by (blast intro: progress_trans)
  then have "sequences_progress S (with_registry (unregister c cause)
      (fold (\<lambda>u. notifyDidCloseTextDocument E now u c cause) us ?S0))" for us
    by (rule progress_into) simp_all
  then show ?thesis by (simp add: closeSession_def Let_def case_prod_beta)
qed

lemma progress_closeEditor: "store_ok E S \<Longrightarrow> sequences_progress S (closeLanguageClientDocuments E now S)"
  unfolding closeLanguageClientDocuments_def
proof (rule progress_fold, assumption)
  fix u S
  assume ok: "store_ok E S"
  have "sequences_progress S (with_shadow (removeAllOpens u) S)" by (rule progress_fields) simp_all
  with removeAllOpens_store_ok [OF ok]
  show "store_ok E (notifyDidCloseTextDocument E now u LANGUAGE_CLIENT_ID Closed (with_shadow (removeAllOpens u) S)) \<and>
      sequences_progress S (notifyDidCloseTextDocument E now u LANGUAGE_CLIENT_ID Closed (with_shadow (removeAllOpens u) S))"
    by (blast intro: notifyDidClose_ok progress_close progress_trans)
qed

lemma progress_deleted:
  assumes "store_ok E S"
  shows "sequences_progress S (notifyDocumentDeleted E now u S)"
proof -
  let ?f = "\<lambda>c S. if c \<noteq> LANGUAGE_CLIENT_ID then notifyDidCloseTextDocument E now (documentKey E u) c Closed S else S"
  have step: "store_ok E S \<Longrightarrow> store_ok E (?f c S) \<and> sequences_progress S (?f c S)" for c S
    by (simp add: notifyDidClose_ok progress_close)
  show ?thesis unfolding notifyDocumentDeleted_def Let_def
    by (rule progress_trans [OF progress_fold [OF assms step] progress_releaseIfDeferred [OF fold_close_ok [OF assms]]])
       (auto simp: notifyDidClose_ok)
qed

lemma progress_delete:
  assumes "env_ok E" and "store_ok E S"
  shows "sequences_progress S (store_delete E now u S)"
proof -
  let ?key = "documentKey E u"
  let ?S0 = "with_shadow (removeAllOpens ?key) S"
  let ?S1 = "fold (\<lambda>c. notifyDidCloseTextDocument E now ?key c Closed) (clientsOf ?key (sessionReg S)) ?S0"
  have ok0: "store_ok E ?S0" by (rule removeAllOpens_store_ok [OF assms(2)])
  have ok1: "store_ok E ?S1" by (rule fold_close_ok [OF ok0]) (rule notifyDidClose_ok)
  have "sequences_progress S ?S0" by (rule progress_fields) simp_all
  moreover have "sequences_progress ?S0 ?S1" by (rule progress_fold [OF ok0]) (simp add: notifyDidClose_ok progress_close)
  moreover have "sequences_progress ?S1 (releaseIfDeferred ?key ?S1)" by (rule progress_releaseIfDeferred [OF ok1])
  moreover have "sequences_progress (releaseIfDeferred ?key ?S1) (store_delete E now u S)"
    unfolding store_delete_eq using delete_finds_nothing [OF assms, of u now]
    by (intro progress_same standing_cong) (auto simp: js_get_delete)
  ultimately show ?thesis by (blast intro: progress_trans)
qed

text \<open>A first open continues the sequence the ledger recorded.\<close>

lemma progress_firstOpen:
  assumes "js_get (synced S) (documentKey E u) = None"
  shows "sequences_progress S (firstOpen E built M u lang declared txt c S)"
  unfolding sequences_progress_def
proof (rule allI)
  fix k
  let ?S' = "firstOpen E built M u lang declared txt c S" and ?key = "documentKey E u"
  let ?d = "opened_doc E built M u lang declared txt S"
  show "moved_on (standing S k) (standing ?S' k)"
  proof (cases "k = ?key")
    case True
    have "moved_on (standing_of ?key (ledger S)) (Some (docVersion ?d, textHash (docText ?d)))"
      by (auto simp: moved_on_def opened_doc_def first_version_def seq.opening_standing Let_def split: option.splits)
    then show ?thesis using assms True by (simp add: standing_def firstOpen_simps [OF refl] js_get_set)
  next
    case False
    then have "standing ?S' k = standing S k"
      by (intro standing_cong) (simp_all add: firstOpen_simps [OF refl] js_get_set)
    then show ?thesis by simp
  qed
qed

lemma progress_open:
  assumes "store_ok E S" and "notifyDidOpenTextDocument E now built M u lang declared txt c S = Inr S'"
  shows "sequences_progress S S'"
proof (rule notifyDidOpen_cases [OF assms(2)], goal_cases)
  case 1
  show ?case by (rule progress_into [OF progress_resolve [OF assms(1), of now "documentKey E u" c]]) (simp_all add: 1(2))
next
  case (2 b R)
  let ?S1 = "resolveDeferredRelease now (documentKey E u) c S"
  let ?S3 = "?S1\<lparr>langShadow := opening_shadow E u declared txt c (js_get (synced ?S1) (documentKey E u)) (langShadow ?S1),
                  sessionReg := setClientVersion (documentKey E u) c declared R\<rparr>"
  have "sequences_progress S ?S3" by (rule progress_into [OF progress_resolve [OF assms(1), of now "documentKey E u" c]]) simp_all
  moreover have "sequences_progress ?S3 S'"
    unfolding 2(3) by (auto intro: progress_firstOpen progress_fields)
  ultimately show ?case by (rule progress_trans)
qed

lemma progress_attach:
  assumes "store_ok E S" and "attachClient E now u c S = Inr (b, S')"
  shows "sequences_progress S S'"
proof -
  have "sequences_progress S (resolveDeferredRelease now (documentKey E u) c S)" by (rule progress_resolve [OF assms(1)])
  with assms(2) show ?thesis unfolding attachClient_def Let_def
    by (auto intro: progress_into split: if_splits option.splits sum.splits prod.splits)
qed

lemma progress_change:
  assumes "env_ok E" and "notifyDidChangeTextDocument E u declared changes c S = Inr S'"
  shows "sequences_progress S S'"
proof (cases "S' = S")
  case False
  let ?key = "documentKey E u" and ?cu = "toLanguageClientUri E u"
  from False assms(2) obtain v d where v: "declared = Some v" and d: "js_get (synced S) ?key = Some d"
    and fresh: "\<not> v \<le> lastSeen E u c d S" "changes \<noteq> []"
    by (auto simp: notifyDidChangeTextDocument_def Let_def split: option.splits if_splits)
  let ?S1 = "with_registry (setClientVersion ?key c v) S"
  let ?r = "if c = LANGUAGE_CLIENT_ID then acceptChange (textLib E) ?key ?cu v d changes (langShadow ?S1) else (Direct, langShadow ?S1)"
  let ?S2 = "?S1\<lparr>langShadow := snd ?r\<rparr>"
  let ?cs = "case fst ?r of Divergent t \<Rightarrow> [FullText t] | _ \<Rightarrow> changes"
  obtain d' chg S3 where cc: "commitChange E ?key d ?cs c ?S2 = ((d', chg), S3)" by (metis surj_pair)
  have p2: "sequences_progress S ?S2" by (rule progress_fields) simp_all
  have p3: "sequences_progress S S3"
    by (rule progress_trans [OF p2 progress_commitChange [OF assms(1) _ cc]]) (use d in simp)
  show ?thesis
    using assms(2) p2 p3 progress_into [OF p3] v d cc fresh
    unfolding notifyDidChangeTextDocument_def Let_def
    by (auto simp: case_prod_beta split: if_splits)
qed simp

lemma progress_reconcile: "sequences_progress S (snd (reconcileExternalContent E u txt S))"
proof (cases "js_get (synced S) (documentKey E u)")
  case None
  have "moved_on (standing_of k (ledger S)) (standing_of k (snd (reconcile (documentKey E u) txt (ledger S))))" for k
    by (auto simp: moved_on_def seq.external_standing seq.external_version seq.opening_standing split: option.splits)
  then show ?thesis using None
    by (auto simp: sequences_progress_def standing_def reconcileExternalContent_def case_prod_beta Let_def split: option.splits)
qed (simp add: reconcileExternalContent_def)

lemma progress_apply:
  assumes "env_ok E" and "applyContentChange E u txt c S = Inr (v, S')"
  shows "sequences_progress S S'"
proof -
  obtain d where d: "js_get (synced S) (documentKey E u) = Some d"
    using assms(2) by (auto simp: applyContentChange_def Let_def split: option.splits)
  obtain d' chg S1 where cc: "commitChange E (documentKey E u) d [FullText txt] c S = ((d', chg), S1)" by (metis surj_pair)
  have p: "sequences_progress S S1" by (rule progress_commitChange [OF assms(1) d cc])
  show ?thesis
    using assms(2) d cc progress_into [OF p]
    by (auto simp: applyContentChange_def Let_def intro: progress_fields split: if_splits)
qed

lemma progress_repair:
  assumes "env_ok E"
  shows "sequences_progress S (snd (commitRepair E u parsedFrom repaired S))"
proof (cases "js_get (synced S) (documentKey E u)")
  case (Some d)
  obtain d' chg S1 where cc: "commitChange E (documentKey E u) d [FullText repaired] INTEGRITY_CLIENT_ID S = ((d', chg), S1)"
    by (metis surj_pair)
  from progress_commitChange [OF assms Some cc] Some cc show ?thesis by (simp add: commitRepair_def Let_def)
qed (simp add: commitRepair_def)

lemma records_textState [simp]:
  "synced (snd (textState E u S)) = synced S" "records (ledger (snd (textState E u S))) = records (ledger S)"
  by (simp_all add: textState_def case_prod_beta Let_def split: option.splits)

lemma baseline_fields [simp]:
  "synced (store_setDiskBaseline E u txt S) = synced S"
  "records (ledger (store_setDiskBaseline E u txt S)) = records (ledger S)"
  "synced (store_markCreated E u S) = synced S" "records (ledger (store_markCreated E u S)) = records (ledger S)"
  "langShadow (store_setDiskBaseline E u txt S) = langShadow S" "langShadow (store_markCreated E u S) = langShadow S"
  by (simp_all add: store_setDiskBaseline_def store_markCreated_def Let_def split: option.splits)

lemma save_fields [simp]:
  "synced (notifyWillSaveTextDocument E u reason S) = synced S"
  "records (ledger (notifyWillSaveTextDocument E u reason S)) = records (ledger S)"
  "synced (notifyDidSaveTextDocument E u t c S) = synced S"
  "records (ledger (notifyDidSaveTextDocument E u t c S)) = records (ledger S)"
  "synced (snd (languageClientSaveBegins E u S)) = synced S"
  "records (ledger (snd (languageClientSaveBegins E u S))) = records (ledger S)"
  "synced (languageClientSaveRead E before onDisk S) = synced S"
  "records (ledger (languageClientSaveRead E before onDisk S)) = records (ledger S)"
  "synced (reloadDiskBaseline E u r1 ex r2 S) = synced S"
  "records (ledger (reloadDiskBaseline E u r1 ex r2 S)) = records (ledger S)"
  by (simp_all add: notifyWillSaveTextDocument_def notifyDidSaveTextDocument_def announceSave_def
      languageClientSaveBegins_def languageClientSaveRead_def reloadDiskBaseline_def Let_def split: option.splits)

lemma settled_fields [simp]:
  "synced (releaseSettled E key token built inBuild S) = synced S"
  "records (ledger (releaseSettled E key token built inBuild S)) = records (ledger S)"
  by (simp_all add: releaseSettled_def case_prod_beta Let_def split: option.splits)

lemmas step_fields = stagePendingContent_def store_setLanguageClientText_def store_invalidateLanguageClientText_def

lemma store_step_progress:
  assumes "env_ok E" and "store_ok E S" and "store_step E op S = Some S'"
  shows "sequences_progress S S'"
  using assms
  by (cases op)
     (auto split: sum.splits if_splits
       intro: progress_open [OF assms(2)] progress_attach [OF assms(2)] progress_change [OF assms(1)]
         progress_apply [OF assms(1)] progress_timer [OF assms(2)] progress_fields
       simp: progress_repair progress_reconcile progress_close progress_closeSession progress_closeEditor progress_deleted
         progress_delete step_fields registerSession_def)

interpretation store: progress_component "store_step E" "\<lambda>S. env_ok E \<and> store_ok E S" sequences_progress for E
proof unfold_locales
  show "env_ok E \<and> store_ok E S'" if "env_ok E \<and> store_ok E S" "store_step E op S = Some S'" for S op S'
    using that store_step_ok by blast
  show "sequences_progress S S'" if "env_ok E \<and> store_ok E S" "store_step E op S = Some S'" for S op S'
    using that store_step_progress by blast
  show "sequences_progress S U" if "sequences_progress S T" "sequences_progress T U" for S T U
    using that by (rule progress_trans)
qed simp

lemma store_run_ok: "env_ok E \<Longrightarrow> store_ok E (store.run E ops (new_store grace))"
  using store.run_inv [of E "new_store grace" ops] by simp

end
