(* ===== verification/StoreProperties.thy ===== *)
theory StoreProperties
  imports StoreRuns
begin

section \<open>What the text document store promises\<close>

text \<open>
  The properties of the store, over every run of its operations from the empty store or for one operation
  in any state a run reaches. \<open>env_ok\<close> is the documented behaviour of the URI policy and of the text
  library; \<open>witness_env\<close> is a policy and a library that have it.
\<close>

definition witness_env :: env where
  "witness_env = \<lparr>canonical = (\<lambda>u. u), normalize = (\<lambda>u. u), textLib = witness_lib\<rparr>"

lemma witness_env_ok [simp]: "env_ok witness_env"
  by (simp add: env_ok_def witness_env_def witness_lib_ok)

lemma witness_env_simps [simp]:
  "documentKey witness_env u = u" "toLanguageClientUri witness_env u = u" "canonical witness_env u = u"
  "normalize witness_env u = u"
  by (simp_all add: documentKey_def toLanguageClientUri_def witness_env_def)

subsection \<open>Open, held, deferred, dirty\<close>

text \<open>
  C1: whatever clients open, change, lose, close, delete or save, in any order: a document is held exactly
  while some client has it open or its release waits out the grace, and never both; it is dirty exactly
  when it is held with a text other than its disk baseline; the editor has a buffer of it only while the
  open table says so; and it has an opening version exactly while it is held. So a document that is not held
  is not dirty, has no opening version and no buffer of the editor; its place in the version sequence, a clean
  announcement it owes and content staged for its next open are kept by design.
\<close>

theorem store_consistent:
  fixes ops u
  assumes "env_ok E" and "S = store.run E ops (new_store grace)"
  shows "(store_isOpen E u S \<longleftrightarrow> isOpenInAnyClient E u S \<or> isReleaseDeferred E u S) \<and>
    \<not> (isOpenInAnyClient E u S \<and> isReleaseDeferred E u S) \<and>
    (store_isDirty E u S \<longleftrightarrow>
       (\<exists>d e. store_get E u S = Some d \<and> js_get (states (dirtyTracker S)) (documentKey E u) = Some e \<and>
          baseline e \<noteq> Some (docText d))) \<and>
    (shadow_isOpen (documentKey E u) (langShadow S) \<longrightarrow> isOpenInLanguageClient E u S) \<and>
    (store_isOpen E u S \<longleftrightarrow> openedVersion E u S \<noteq> None)"
proof -
  have ok: "store_ok E S" unfolding assms(2) by (rule store_run_ok [OF assms(1)])
  note b = store_okD(1) [OF ok]
  have opens: "isOpen (documentKey E u) (sessionReg S) \<longleftrightarrow> (\<exists>c. isOpenIn (documentKey E u) c (sessionReg S))"
    "shadow_isOpen (documentKey E u) (langShadow S) \<longleftrightarrow> (\<exists>w. open_state_of (documentKey E u) w (langShadow S) \<noteq> None)"
    by (simp_all add: isOpen_isOpenIn [OF base_okD(1) [OF b]] opens_ok_isOpen [OF base_okD(3) [OF b]])
  have key: "documentKey E (documentKey E u) = documentKey E u" using assms(1) by (simp add: env_ok_def documentKey_def)
  note defs = store_isOpen_def isOpenInAnyClient_def isReleaseDeferred_def store_isDirty_def openedVersion_def
    isOpenInLanguageClient_def isOpenInClient_def isDirty_def js_has_get store_get_key [OF assms(1) ok] opens
  show ?thesis
    using store_okD(2) [OF ok, of "documentKey E u"]
    by (cases "js_get (synced S) (documentKey E u)") (auto simp: defs view_ok_def split: option.splits)
qed

theorem store_consistent_witness:
  "store_isOpen witness_env ''a'' (store.run witness_env
     [StOpen 0 None new_model_ledger ''a'' ''x'' 1 [7] ''form'', StClose 5 ''a'' ''form'' Lost] (new_store 10)) \<longleftrightarrow>
   isOpenInAnyClient witness_env ''a'' (store.run witness_env
     [StOpen 0 None new_model_ledger ''a'' ''x'' 1 [7] ''form'', StClose 5 ''a'' ''form'' Lost] (new_store 10)) \<or>
   isReleaseDeferred witness_env ''a'' (store.run witness_env
     [StOpen 0 None new_model_ledger ''a'' ''x'' 1 [7] ''form'', StClose 5 ''a'' ''form'' Lost] (new_store 10))"
  using store_consistent [OF witness_env_ok refl] by blast

subsection \<open>Versions\<close>

text \<open>
  C2: the shared version sequence of a document never restarts and never runs backwards, across edits,
  repairs, closes, reopens, deletes and content from outside, and it is a sound token for optimistic
  concurrency: whenever the store answers the same version again, the text has the same digest as then.
\<close>

theorem version_identifies_text:
  assumes "env_ok E" and "standing (store.run E ops (new_store grace)) k = Some (v, h)"
  shows "\<exists>v' h'. standing (store.run E (ops @ later) (new_store grace)) k = Some (v', h') \<and>
           v \<le> v' \<and> (v' = v \<longrightarrow> h' = h)"
proof -
  have "sequences_progress (store.run E ops (new_store grace)) (store.run E (ops @ later) (new_store grace))"
    by (rule store.run_between) (simp add: assms(1))
  then have "moved_on (standing (store.run E ops (new_store grace)) k) (standing (store.run E (ops @ later) (new_store grace)) k)"
    by (simp add: sequences_progress_def)
  with assms(2) show ?thesis by (auto simp: moved_on_def split: option.splits)
qed

theorem version_identifies_text_witness:
  "\<exists>v' h'. standing (store.run witness_env ([StReconcile ''a'' [7]] @ [StReconcile ''a'' [8]]) (new_store 10)) ''a'' = Some (v', h') \<and>
     0 \<le> v' \<and> (v' = 0 \<longrightarrow> h' = textHash [7])"
proof (rule version_identifies_text [OF witness_env_ok])
  show "standing (store.run witness_env [StReconcile ''a'' [7]] (new_store 10)) ''a'' = Some (0, textHash [7])"
    by (simp add: standing_def reconcileExternalContent_def new_store_def reconcile_def new_ledger_def standing_of_def recordOf_def)
qed

text \<open>
  the version the store answers for a URI is the version of that sequence, and 0 for a URI it has
  never seen; the direct lookup of the normalized URI never finds another document than the canonical key.
\<close>

theorem get_is_canonical_lookup:
  assumes "env_ok E" and "S = store.run E ops (new_store grace)"
  shows "store_get E u S = js_get (synced S) (documentKey E u) \<and>
         store_version E u S = (case standing S (documentKey E u) of Some (v, _) \<Rightarrow> v | None \<Rightarrow> 0)"
proof -
  have "store_ok E S" unfolding assms(2) by (rule store_run_ok [OF assms(1)])
  then show ?thesis
    by (simp add: store_get_key [OF assms(1)] store_version_def standing_def standing_of_def split: option.splits)
qed

theorem get_is_canonical_lookup_witness:
  "store_version witness_env ''a'' (store.run witness_env [StReconcile ''a'' [7], StReconcile ''a'' [7]] (new_store 10)) =
     (case standing (store.run witness_env [StReconcile ''a'' [7], StReconcile ''a'' [7]] (new_store 10)) (documentKey witness_env ''a'') of
        Some (v, _) \<Rightarrow> v | None \<Rightarrow> 0)"
  using get_is_canonical_lookup [OF witness_env_ok refl] by blast

subsection \<open>Writes\<close>

lemma commitChange_synced:
  assumes "env_ok E" and "js_get (synced S) key = Some d" and "commitChange E key d changes c S = ((d', chg), S')"
  shows "js_get (synced S') key = Some d'" "docText d' = update_text (textLib E) (docText d) changes"
    "docVersion d' = (if docText d' = docText d then docVersion d else docVersion d + 1)"
    "chg \<longleftrightarrow> docText d' \<noteq> docText d" "storeLog S' = storeLog S" "langShadow S' = langShadow S"
    "k \<noteq> key \<Longrightarrow> js_get (synced S') k = js_get (synced S) k"
  by (rule commitChange_cases [OF assms(1,3)]; simp add: js_get_set assms(2))+

lemma find_index_None: "find_index P xs = None \<longleftrightarrow> (\<forall>x \<in> set xs. \<not> P x)"
  by (induction xs) simp_all

lemma classify_echo:
  "fst (classify lib w d changes W) = Echo \<longleftrightarrow>
     textHash (update_text lib (heardOr w (docText d) W) changes) \<in> set (pending_of w W)"
  using find_index_None [of "\<lambda>h. h = textHash (update_text lib (heardOr w (docText d) W) changes)" "pending_of w W"]
  by (auto simp: classify_def Let_def split: option.splits)

text \<open>
  C24: a change the editor reports makes the store hold exactly the editor's new buffer, rebuilt from what
  the editor was last heard to hold and not from the synced text, and the shadow then knows the editor
  to hold that version; or the change is the echo of a text pushed to the editor, and the store's text,
  version and events stay as they were.
\<close>

theorem editor_change_takes_buffer:
  assumes "env_ok E" and "js_get (synced S) (documentKey E u) = Some d" and "changes \<noteq> []"
    and "lastSeen E u LANGUAGE_CLIENT_ID d S < v"
    and "buffer = update_text (textLib E) (heardOr (toLanguageClientUri E u) (docText d) (langShadow S)) changes"
  shows "\<exists>S' d'. notifyDidChangeTextDocument E u (Some v) changes LANGUAGE_CLIENT_ID S = Inr S' \<and>
    js_get (synced S') (documentKey E u) = Some d' \<and> heard (langShadow S') (toLanguageClientUri E u) = Some buffer \<and>
    (if textHash buffer \<in> set (pending_of (toLanguageClientUri E u) (langShadow S))
     then docText d' = docText d \<and> docVersion d' = docVersion d \<and> storeLog S' = storeLog S
     else docText d' = buffer \<and> docVersion d' = (if buffer = docText d then docVersion d else docVersion d + 1) \<and>
          held (langShadow S') (toLanguageClientUri E u) = Some (docVersion d'))"
proof -
  let ?key = "documentKey E u" and ?cu = "toLanguageClientUri E u"
  let ?S1 = "with_registry (setClientVersion ?key LANGUAGE_CLIENT_ID v) S"
  let ?r = "acceptChange (textLib E) ?key ?cu v d changes (langShadow S)"
  let ?S2 = "?S1\<lparr>langShadow := snd ?r\<rparr>"
  let ?cs = "case fst ?r of Divergent t \<Rightarrow> [FullText t] | _ \<Rightarrow> changes"
  have echo: "fst ?r = Echo \<longleftrightarrow> textHash buffer \<in> set (pending_of ?cu (langShadow S))"
    by (simp add: fst_acceptChange classify_echo assms(5))
  obtain d' chg S3 where cc: "commitChange E ?key d ?cs LANGUAGE_CLIENT_ID ?S2 = ((d', chg), S3)" by (metis surj_pair)
  have "js_get (synced ?S2) ?key = Some d" using assms(2) by simp
  note c = commitChange_synced [OF assms(1) this cc]
  have run: "notifyDidChangeTextDocument E u (Some v) changes LANGUAGE_CLIENT_ID S =
     (if fst ?r = Echo then Inr ?S2
      else let S4 = S3\<lparr>langShadow := setLanguageClientText ?cu (docText d') (Some (docVersion d')) (langShadow S3)\<rparr>
           in Inr (if chg then fire (EvContent (docUri d') (docVersion d') (docText d') LANGUAGE_CLIENT_ID) S4 else S4))"
    using assms(2-4) cc by (simp add: notifyDidChangeTextDocument_def Let_def case_prod_beta)
  show ?thesis
  proof (cases "fst ?r = Echo")
    case True
    then have "pending_of ?cu (langShadow S) \<noteq> []" using echo by auto
    then have "heard (snd ?r) ?cu = Some buffer" by (simp add: heard_acceptChange assms(5))
    with True echo run assms(2) show ?thesis by simp
  next
    case False
    have "docText d' = buffer"
    proof (cases "fst ?r")
      case (Divergent t)
      then have "t = buffer" using classify_verdict(1) assms(5) by (simp add: fst_acceptChange)
      with Divergent c(2) assms(1) show ?thesis by (simp add: env_ok_def text_lib_ok_def)
    next
      case Direct
      then have "heardOr ?cu (docText d) (langShadow S) = docText d" using classify_verdict(2) by (simp add: fst_acceptChange)
      with Direct c(2) assms(5) show ?thesis by simp
    qed (use False in simp)
    with False echo run c(1,3) show ?thesis by (auto simp: Let_def heard_held_setText)
  qed
qed

theorem editor_change_takes_buffer_witness:
  "\<exists>S' d'. notifyDidChangeTextDocument witness_env ''a'' (Some 2) [FullText [8]] LANGUAGE_CLIENT_ID
       ((new_store 10)\<lparr>synced := [(''a'', \<lparr>docId = 0, docUri = ''a'', docLanguage = ''x'', docVersion = 1, docText = [7]\<rparr>)]\<rparr>) = Inr S' \<and>
     js_get (synced S') ''a'' = Some d' \<and> docText d' = [8]"
proof -
  let ?d = "\<lparr>docId = 0, docUri = ''a'', docLanguage = ''x'', docVersion = 1, docText = [7]\<rparr> :: text_document"
  let ?S = "(new_store 10)\<lparr>synced := [(''a'', ?d)]\<rparr>"
  have "js_get (synced ?S) (documentKey witness_env ''a'') = Some ?d" by simp
  moreover have "lastSeen witness_env ''a'' LANGUAGE_CLIENT_ID ?d ?S < 2"
    by (simp add: lastSeen_def new_store_def new_shadow_def shadow_declaredVersion_def open_state_of_def clientVersionOf_def
        new_registry_def)
  moreover have "[8] = update_text (textLib witness_env) (heardOr (toLanguageClientUri witness_env ''a'') (docText ?d) (langShadow ?S)) [FullText [8]]"
    by (simp add: witness_env_def witness_lib_def)
  ultimately have "\<exists>S' d'. notifyDidChangeTextDocument witness_env ''a'' (Some 2) [FullText [8]] LANGUAGE_CLIENT_ID ?S = Inr S' \<and>
      js_get (synced S') ''a'' = Some d' \<and>
      (if textHash [8] \<in> set (pending_of ''a'' (langShadow ?S)) then docText d' = [7] else docText d' = [8])"
    using editor_change_takes_buffer [OF witness_env_ok, of ?S "''a''" ?d "[FullText [8]]" 2 "[8]"]
    by (auto split: if_splits)
  moreover have "pending_of ''a'' (langShadow ?S) = []" by (simp add: pending_of_def new_store_def new_shadow_def)
  ultimately show ?thesis by simp
qed

text \<open>
  a server-authored write of a document that is held makes the store hold exactly the given text, at a
  version one on when the text changed and at the same version when it did not, answers that version and
  announces it; a write of a document that is not held is refused and changes nothing.
\<close>

theorem authored_write:
  assumes "env_ok E"
  shows "case js_get (synced S) (documentKey E u) of
      None \<Rightarrow> applyContentChange E u txt c S = Inl (NotOpenForChangesError u)
    | Some d \<Rightarrow> \<exists>S' d'. applyContentChange E u txt c S = Inr (docVersion d', S') \<and>
        js_get (synced S') (documentKey E u) = Some d' \<and> docText d' = txt \<and>
        docVersion d' = (if txt = docText d then docVersion d else docVersion d + 1) \<and>
        storeLog S' = storeLog S @ [EvContent (docUri d') (docVersion d') txt c] \<and>
        (\<forall>k. k \<noteq> documentKey E u \<longrightarrow> js_get (synced S') k = js_get (synced S) k)"
proof (cases "js_get (synced S) (documentKey E u)")
  case (Some d)
  obtain d' chg S1 where cc: "commitChange E (documentKey E u) d [FullText txt] c S = ((d', chg), S1)" by (metis surj_pair)
  note c = commitChange_synced [OF assms Some cc]
  have eq: "docText d' = txt" using c(2) assms by (simp add: env_ok_def text_lib_ok_def)
  show ?thesis
  proof (cases "docText d = txt")
    case True
    then show ?thesis using Some by (auto simp: applyContentChange_def)
  next
    case False
    then show ?thesis using Some c(1,3,5,7) cc eq by (auto simp: applyContentChange_def)
  qed
qed (simp add: applyContentChange_def)

theorem authored_write_witness:
  "applyContentChange witness_env ''a'' [8] ''form'' (new_store 10) = Inl (NotOpenForChangesError ''a'')"
  using authored_write [OF witness_env_ok, where S = "new_store 10" and u = "''a''"] by (simp add: new_store_def)

text \<open>
  an integrity repair never overwrites a newer edit: it is committed only while the document still
  holds the text the repaired model was parsed from, and then as a new version of the integrity client
  without a change event; otherwise, and for a document that is not held, it changes nothing.
\<close>

theorem repair_commit:
  assumes "env_ok E" and "commitRepair E u parsedFrom repaired S = (result, S')"
  shows "case js_get (synced S) (documentKey E u) of
      None \<Rightarrow> result = RepairNotOpen \<and> S' = S
    | Some d \<Rightarrow>
        if docText d \<noteq> parsedFrom then result = RepairStale \<and> S' = S
        else \<exists>d'. result = RepairCommitted d' \<and> js_get (synced S') (documentKey E u) = Some d' \<and> docText d' = repaired \<and>
               docVersion d' = (if repaired = parsedFrom then docVersion d else docVersion d + 1) \<and>
               storeLog S' = storeLog S"
proof (cases "js_get (synced S) (documentKey E u)")
  case (Some d)
  obtain d' chg S1 where cc: "commitChange E (documentKey E u) d [FullText repaired] INTEGRITY_CLIENT_ID S = ((d', chg), S1)"
    by (metis surj_pair)
  note c = commitChange_synced [OF assms(1) Some cc]
  have eq: "docText d' = repaired" using c(2) assms(1) by (simp add: env_ok_def text_lib_ok_def)
  show ?thesis
    using Some c(1,3,5) cc eq assms(2) by (auto simp: commitRepair_def Let_def split: if_splits)
qed (use assms(2) in \<open>simp add: commitRepair_def\<close>)

theorem repair_commit_witness:
  "commitRepair witness_env ''a'' [1] [2]
     ((new_store 10)\<lparr>synced := [(''a'', \<lparr>docId = 0, docUri = ''a'', docLanguage = ''x'', docVersion = 1, docText = [7]\<rparr>)]\<rparr>) =
   (RepairStale, (new_store 10)\<lparr>synced := [(''a'', \<lparr>docId = 0, docUri = ''a'', docLanguage = ''x'', docVersion = 1, docText = [7]\<rparr>)]\<rparr>)"
  using repair_commit [of witness_env "''a''" "[1]" "[2]"
     "(new_store 10)\<lparr>synced := [(''a'', \<lparr>docId = 0, docUri = ''a'', docLanguage = ''x'', docVersion = 1, docText = [7]\<rparr>)]\<rparr>", OF _ surjective_pairing]
  by (simp add: prod_eq_iff)

subsection \<open>Lost clients and ended sessions\<close>

text \<open>The state after the only client of a held document lost its connection.\<close>

lemma close_lost:
  assumes "store_ok E S" and "clientsOf (documentKey E u) (sessionReg S) = [c]" and "c \<noteq> LANGUAGE_CLIENT_ID"
    and "0 < graceMs (releases S)" and S1: "S1 = notifyDidCloseTextDocument E t u c Lost S"
  shows "synced S1 = synced S" "ledger S1 = ledger S" "langShadow S1 = langShadow S" "pendingContent S1 = pendingContent S"
    "sessionReg S1 = snd (removeOpen (documentKey E u) c (sessionReg S))"
    "releases S1 = snd (defer_release (documentKey E u) t (recordLoss (documentKey E u) c t (releases S)))"
proof -
  let ?key = "documentKey E u"
  note reg = base_okD(1) [OF store_okD(1) [OF assms(1)]]
  have only: "isOpenIn ?key e (sessionReg S) \<longleftrightarrow> e = c" for e
    using assms(2) clientsOf_isOpenIn [of e ?key "sessionReg S"] by auto
  then obtain d where d: "js_get (synced S) ?key = Some d"
    using store_okD(2) [OF assms(1), of ?key] by (auto simp: view_ok_def split: option.splits)
  have "fst (removeOpen ?key c (sessionReg S))" using only by (simp add: fst_removeOpen [OF reg])
  moreover have "\<not> isOpen ?key (snd (removeOpen ?key c (sessionReg S)))"
    using only by (simp add: isOpen_isOpenIn [OF removeOpen_ok [OF reg]] isOpenIn_removeOpen [OF reg])
  moreover have "\<not> fst (defer_release ?key t (recordLoss ?key c t (releases S)))"
    using assms(4) by (simp add: fst_defer_release)
  ultimately have "S1 = (let S4 = fire (EvClose (docUri d) (docVersion d) c)
      (S\<lparr>sessionReg := snd (removeOpen ?key c (sessionReg S)), releases := recordLoss ?key c t (releases S)\<rparr>)
    in S4\<lparr>releases := snd (defer_release ?key t (releases S4))\<rparr>)"
    unfolding S1 using assms(3) d by (simp add: notifyDidCloseTextDocument_def deferRelease_def Let_def case_prod_beta)
  then show "synced S1 = synced S" "ledger S1 = ledger S" "langShadow S1 = langShadow S" "pendingContent S1 = pendingContent S"
    "sessionReg S1 = snd (removeOpen ?key c (sessionReg S))"
    "releases S1 = snd (defer_release ?key t (recordLoss ?key c t (releases S)))"
    by (simp_all add: Let_def)
qed

lemma assertCanOpen_sessions: "sessions R = sessions R' \<Longrightarrow> assertCanOpen c R = assertCanOpen c R'"
  by (simp add: assertCanOpen_def)

lemma sessions_resolve [simp]: "sessions (sessionReg (resolveDeferredRelease now key c S)) = sessions (sessionReg S)"
  by (cases "js_get (synced S) key")
     (simp_all add: resolveDeferredRelease_def case_prod_beta Let_def releaseDocument_None releaseDocument_simps)

lemma isOpenIn_resolve [simp]:
  "isOpenIn k e (sessionReg (resolveDeferredRelease now key c S)) = isOpenIn k e (sessionReg S)"
  by (simp add: resolveDeferredRelease_def case_prod_beta Let_def)

text \<open>An open by a client that may open and does not have the document yet goes through.\<close>

lemma notifyDidOpen_new:
  assumes "env_ok E" and "assertCanOpen c (sessionReg S) = None" and "\<not> isOpenIn (documentKey E u) c (sessionReg S)"
    and S1: "S1 = resolveDeferredRelease now (documentKey E u) c S"
  obtains R where "notifyDidOpenTextDocument E now built M u lang v txt c S =
     Inr (let S3 = S1\<lparr>langShadow := opening_shadow E u v txt c (js_get (synced S1) (documentKey E u)) (langShadow S1), sessionReg := R\<rparr>
          in if js_get (synced S1) (documentKey E u) = None then firstOpen E built M u lang v txt c S3
             else refreshContent E (documentKey E u) c S3)"
proof -
  have can: "assertCanOpen c (sessionReg S1) = None"
    using assms(2) assertCanOpen_sessions [of "sessionReg S1" "sessionReg S"] by (simp add: S1)
  obtain b R where "addOpen (documentKey E u) c (sessionReg S1) = Inr (b, R)"
    using can by (cases "addOpen (documentKey E u) c (sessionReg S1)") (auto simp: addOpen_def split: if_splits)
  moreover have "\<not> isOpenIn (documentKey E u) c (sessionReg S1)" using assms(3) by (simp add: S1)
  ultimately have "notifyDidOpenTextDocument E now built M u lang v txt c S =
     Inr (let S3 = S1\<lparr>langShadow := opening_shadow E u v txt c (js_get (synced S1) (documentKey E u)) (langShadow S1),
                        sessionReg := setClientVersion (documentKey E u) c v R\<rparr>
          in if js_get (synced S1) (documentKey E u) = None then firstOpen E built M u lang v txt c S3
             else refreshContent E (documentKey E u) c S3)"
    using assms(2,3) can unfolding notifyDidOpenTextDocument_def Let_def S1 [symmetric]
    by (cases "c = LANGUAGE_CLIENT_ID"; simp add: isOpenInClient_key [OF assms(1)] opening_shadow_def)
  then show ?thesis by (rule that)
qed

lemma lossOf_defer [simp]: "lossOf k c (snd (defer_release key t R)) = lossOf k c R"
  by (simp add: lossOf_def defer_release_def cancel_def Let_def)

text \<open>An open of a deferred document: by a client with a claim it attaches, by any other it starts anew.\<close>

lemma open_with_claim:
  assumes "env_ok E" and "store_ok E S" and "isDeferred (documentKey E u) (releases S)"
    and "has_claim (documentKey E u) c t (releases S)" and "assertCanOpen c (sessionReg S) = None"
  shows "\<exists>S2. notifyDidOpenTextDocument E t built M u lang v txt c S = Inr S2 \<and> store_get E u S2 = store_get E u S"
proof -
  let ?key = "documentKey E u"
  let ?S' = "resolveDeferredRelease t ?key c S"
  obtain d where d: "js_get (synced S) ?key = Some d" and closed: "\<forall>e. \<not> isOpenIn ?key e (sessionReg S)"
    by (rule deferred_view [OF assms(2,3)])
  have S': "synced ?S' = synced S"
    using assms(4) by (simp add: resolveDeferredRelease_simps [OF base_okD(5) [OF store_okD(1) [OF assms(2)]]] Let_def)
  obtain R where "notifyDidOpenTextDocument E t built M u lang v txt c S =
     Inr (let S3 = ?S'\<lparr>langShadow := opening_shadow E u v txt c (js_get (synced ?S') ?key) (langShadow ?S'), sessionReg := R\<rparr>
          in if js_get (synced ?S') ?key = None then firstOpen E built M u lang v txt c S3 else refreshContent E ?key c S3)"
    by (rule notifyDidOpen_new [OF assms(1,5) closed [rule_format] refl])
  then obtain S2 where S2: "notifyDidOpenTextDocument E t built M u lang v txt c S = Inr S2" "synced S2 = synced S"
    using S' d by (simp add: Let_def)
  from notifyDidOpen_ok [OF assms(1,2) S2(1)] S2 assms(2) show ?thesis by (auto simp: store_get_key [OF assms(1)])
qed

lemma open_without_claim:
  assumes "env_ok E" and "store_ok E S" and "isDeferred (documentKey E u) (releases S)" and "store_get E u S = Some d"
    and "\<not> has_claim (documentKey E u) c t (releases S)" and "assertCanOpen c (sessionReg S) = None"
  shows "\<exists>S2 d'. notifyDidOpenTextDocument E t built M u lang v txt c S = Inr S2 \<and> store_get E u S2 = Some d' \<and>
    docText d' = txt \<and> docVersion d' = (if textHash txt = textHash (docText d) then docVersion d else docVersion d + 1)"
proof -
  let ?key = "documentKey E u"
  let ?S' = "resolveDeferredRelease t ?key c S"
  have key: "documentKey E ?key = ?key" using assms(1) by (simp add: env_ok_def documentKey_def)
  have d: "js_get (synced (S\<lparr>releases := Q\<rparr>)) ?key = Some d" for Q
    using assms(4) by (simp add: store_get_key [OF assms(1,2)])
  obtain e where closed: "\<forall>e. \<not> isOpenIn ?key e (sessionReg S)" by (rule deferred_view [OF assms(2,3)])
  have "?S' = releaseDocument ?key (S\<lparr>releases := snd (resolveOpen ?key c t (releases S))\<rparr>)"
    using assms(3,5) by (simp add: resolveDeferredRelease_simps [OF base_okD(5) [OF store_okD(1) [OF assms(2)]]] Let_def)
  then have none: "js_get (synced ?S') ?key = None" "js_get (pendingContent ?S') ?key = None"
    "ledger ?S' = clearAuthors ?key (record_release ?key d (ledger S))"
    by (simp_all add: releaseDocument_simps [OF d] js_get_delete)
  obtain R where "notifyDidOpenTextDocument E t built M u lang v txt c S =
     Inr (let S3 = ?S'\<lparr>langShadow := opening_shadow E u v txt c (js_get (synced ?S') ?key) (langShadow ?S'), sessionReg := R\<rparr>
          in if js_get (synced ?S') ?key = None then firstOpen E built M u lang v txt c S3 else refreshContent E ?key c S3)"
    by (rule notifyDidOpen_new [OF assms(1,6) closed [rule_format] refl])
  then have open_eq: "notifyDidOpenTextDocument E t built M u lang v txt c S =
     Inr (firstOpen E built M u lang v txt c (?S'\<lparr>langShadow := opening_shadow E u v txt c None (langShadow ?S'), sessionReg := R\<rparr>))"
    using none by (simp add: Let_def)
  let ?S3 = "?S'\<lparr>langShadow := opening_shadow E u v txt c None (langShadow ?S'), sessionReg := R\<rparr>"
  have "cache_ok d (ledger S)"
    by (rule docs_okD(2) [OF base_okD(6) [OF store_okD(1) [OF assms(2)]]]) (use d in simp)
  from recordOf_record_release [OF this] have "standing_of ?key (ledger ?S3) = Some (docVersion d, textHash (docText d))"
    by (simp add: standing_of_def none)
  then have "docText (opened_doc E built M u lang v txt ?S3) = txt"
    "docVersion (opened_doc E built M u lang v txt ?S3) = (if textHash txt = textHash (docText d) then docVersion d else docVersion d + 1)"
    by (simp_all add: opened_doc_def Let_def key none first_version_def seq.opening_standing)
  with notifyDidOpen_ok [OF assms(1,2) open_eq] open_eq show ?thesis
    by (auto simp: store_get_key [OF assms(1)] firstOpen_simps [OF refl] js_get_set)
qed

lemmas store_eval = notifyDidOpenTextDocument_def resolveDeferredRelease_def resolveOpen_def firstOpen_def
  consumePendingContent_def commitText_def store_setAuthor_def with_tracker_def refreshDirty_def track_def hashOf_def fire_def
  new_store_def new_registry_def new_ledger_def new_shadow_def new_tracker_def new_scheduler_def assertCanOpen_def
  isOpenIn_def isOpenInClient_def addOpen_def setClientVersion_def setAuthor_def multi_get_def multi_add_def set_add_def
  first_version_def openingVersion_def builtRootOpeningVersion_def js_has_def store_get_def clientsOf_def LANGUAGE_CLIENT_ID_def

lemma close_frame:
  "sessions (sessionReg (notifyDidCloseTextDocument E now u c cause S)) = sessions (sessionReg S)"
  "graceMs (releases (notifyDidCloseTextDocument E now u c cause S)) = graceMs (releases S)"
  "isDeferred k (releases (notifyDidCloseTextDocument E now u c Closed S)) = isDeferred k (releases S)"
  "0 < graceMs (releases S) \<Longrightarrow> synced (notifyDidCloseTextDocument E now u c Lost S) = synced S"
proof -
  have rel: "sessions (sessionReg (releaseDocument key S)) = sessions (sessionReg S)"
    "graceMs (releases (releaseDocument key S)) = graceMs (releases S)"
    "isDeferred k (releases (releaseDocument key S)) = isDeferred k (releases S)" for key S
    by (cases "js_get (synced S) key"; simp add: releaseDocument_None releaseDocument_simps)+
  show "sessions (sessionReg (notifyDidCloseTextDocument E now u c cause S)) = sessions (sessionReg S)"
    "graceMs (releases (notifyDidCloseTextDocument E now u c cause S)) = graceMs (releases S)"
    "isDeferred k (releases (notifyDidCloseTextDocument E now u c Closed S)) = isDeferred k (releases S)"
    by (simp_all add: notifyDidCloseTextDocument_def deferRelease_def release_unless_open_def Let_def case_prod_beta rel
        split: option.splits)
  show "synced (notifyDidCloseTextDocument E now u c Lost S) = synced S" if "0 < graceMs (releases S)"
    using that by (simp add: notifyDidCloseTextDocument_def deferRelease_def fst_defer_release Let_def case_prod_beta
        split: option.splits)
qed

lemma fold_close_frame:
  assumes "store_ok E S" and "c \<noteq> LANGUAGE_CLIENT_ID"
    and "S' = fold (\<lambda>u. notifyDidCloseTextDocument E now u c cause) us S"
  shows "store_ok E S' \<and> sessions (sessionReg S') = sessions (sessionReg S) \<and>
    (\<forall>k e. isOpenIn k e (sessionReg S') \<longleftrightarrow> isOpenIn k e (sessionReg S) \<and> \<not> (e = c \<and> k \<in> documentKey E ` set us)) \<and>
    (cause = Closed \<longrightarrow> (\<forall>k. isDeferred k (releases S') = isDeferred k (releases S))) \<and>
    (cause = Lost \<and> 0 < graceMs (releases S) \<longrightarrow> synced S' = synced S)"
  using assms(1) unfolding assms(3)
proof (induction us arbitrary: S)
  case (Cons u us)
  let ?S1 = "notifyDidCloseTextDocument E now u c cause S"
  from Cons.IH [OF notifyDidClose_ok [OF Cons.prems], of now u c cause] isOpenIn_notifyDidClose [OF Cons.prems, of _ _ now u c cause]
  show ?case using assms(2) by (cases cause) (auto simp: close_frame)
qed simp

lemma closeSession_table:
  assumes ok: "store_ok E S" and reg: "isRegistered c (sessionReg S)"
  defines "S0 \<equiv> S\<lparr>sessionReg := snd (beginClose c (sessionReg S))\<rparr>"
  defines "us \<equiv> fst (beginClose c (sessionReg S))"
  shows "store_ok E S0" "c \<noteq> LANGUAGE_CLIENT_ID"
    "closeSession E now c cause S = with_registry (unregister c cause) (fold (\<lambda>u. notifyDidCloseTextDocument E now u c cause) us S0)"
    "isOpenIn k e (sessionReg (closeSession E now c cause S)) \<longleftrightarrow> isOpenIn k e (sessionReg S) \<and> e \<noteq> c"
    "js_has (sessions (sessionReg (closeSession E now c cause S))) e \<longleftrightarrow> js_has (sessions (sessionReg S)) e \<and> e \<noteq> c"
proof -
  note rok = base_okD(1) [OF store_okD(1) [OF ok]]
  show c: "c \<noteq> LANGUAGE_CLIENT_ID"
    using reg registry_okD(5) [OF rok, of c] by (auto simp: isRegistered_def RESERVED_CLIENT_IDS_def FRAMEWORK_CLIENT_IDS_def)
  show S': "closeSession E now c cause S = with_registry (unregister c cause) (fold (\<lambda>u. notifyDidCloseTextDocument E now u c cause) us S0)"
    for now using reg by (simp add: closeSession_def S0_def us_def Let_def case_prod_beta)
  show ok0: "store_ok E S0" unfolding S0_def by (rule registry_only_ok [OF ok beginClose_ok [OF rok]]) simp
  have canon: "isOpenIn x c (sessionReg S) \<Longrightarrow> documentKey E x = x" for x
    using store_okD(2) [OF ok, of x] by (auto simp: view_ok_def documentKey_def split: option.splits)
  have us: "x \<in> set us \<longleftrightarrow> isOpenIn x c (sessionReg S)" for x
    using opensOf_isOpenIn [OF rok] by (simp add: us_def beginClose_def opensOf_def Let_def)
  have keys: "k \<in> documentKey E ` set us \<longleftrightarrow> isOpenIn k c (sessionReg S)" for k
    using canon by (auto simp: us image_iff intro: rev_bexI)
  note fr = fold_close_frame [OF ok0 c refl, of now cause us]
  show "isOpenIn k e (sessionReg (closeSession E now c cause S)) \<longleftrightarrow> isOpenIn k e (sessionReg S) \<and> e \<noteq> c"
    using fr keys by (auto simp: S' S0_def)
  show "js_has (sessions (sessionReg (closeSession E now c cause S))) e \<longleftrightarrow> js_has (sessions (sessionReg S)) e \<and> e \<noteq> c"
    using fr reg by (auto simp: S' S0_def isRegistered_def unregister_def beginClose_def js_has_delete js_has_set Let_def)
qed

text \<open>
  C39: the end of a session frees its id and takes exactly its own opens out of the open table. When the
  session was closed, a document stays held exactly when another client has it open or its release was
  deferred before; when its connection was lost, with a grace, no document's text is dropped.
\<close>

theorem session_end_releases:
  assumes "env_ok E" and "S = store.run E ops (new_store grace)" and "isRegistered c (sessionReg S)"
    and "S' = closeSession E now c cause S"
  shows "\<not> isRegistered c (sessionReg S') \<and>
    (\<forall>u e. isOpenInClient E u e S' \<longleftrightarrow> isOpenInClient E u e S \<and> e \<noteq> c) \<and>
    (cause = Closed \<longrightarrow> (\<forall>u. store_isOpen E u S' \<longleftrightarrow> (\<exists>e. e \<noteq> c \<and> isOpenInClient E u e S) \<or> isReleaseDeferred E u S)) \<and>
    (cause = Lost \<and> 0 < graceMs (releases S) \<longrightarrow> (\<forall>u. store_get E u S' = store_get E u S))"
proof -
  have ok: "store_ok E S" unfolding assms(2) by (rule store_run_ok [OF assms(1)])
  note table = closeSession_table [OF ok assms(3)]
  have ok': "store_ok E S'" unfolding assms(4) by (rule closeSession_ok [OF ok])
  note fr = fold_close_frame [OF table(1,2) refl, of now cause "fst (beginClose c (sessionReg S))"]
  have "store_isOpen E u S' \<longleftrightarrow> (\<exists>e. isOpenIn (documentKey E u) e (sessionReg S')) \<or> isDeferred (documentKey E u) (releases S')" for u
    using store_okD(2) [OF ok', of "documentKey E u"]
    by (auto simp: store_isOpen_def js_has_get view_ok_def split: option.splits)
  moreover have "cause = Closed \<Longrightarrow> isDeferred k (releases S') = isDeferred k (releases S)" for k using fr by (simp add: assms(4) table(3))
  moreover have "cause = Lost \<Longrightarrow> 0 < graceMs (releases S) \<Longrightarrow> synced S' = synced S" using fr by (simp add: assms(4) table(3))
  ultimately show ?thesis
    using table(4,5) store_get_key [OF assms(1) ok] store_get_key [OF assms(1) ok']
    by (auto simp: assms(4) isRegistered_def isOpenInClient_def isReleaseDeferred_def)
qed

theorem session_end_releases_witness:
  "\<not> isRegistered ''s'' (sessionReg (closeSession witness_env 3 ''s'' Lost (store.run witness_env [StRegister ''s''] (new_store 10))))"
  using session_end_releases [OF witness_env_ok refl _ refl, where ops = "[StRegister ''s'']" and grace = 10 and c = "''s''"]
  by (simp add: registerSession_def register_def new_store_def new_registry_def js_has_def RESERVED_CLIENT_IDS_def
      FRAMEWORK_CLIENT_IDS_def LANGUAGE_CLIENT_ID_def UNKNOWN_CLIENT_ID_def DOCUMENT_RELEASE_CLIENT_ID_def
      INTEGRITY_CLIENT_ID_def isRegistered_def)

text \<open>
  C40: whoever had a document open, the editor included, after its delete it is not
  held, not open in any client, waits for no release, is not dirty, and the editor has no buffer of it.
\<close>

theorem delete_leaves_nothing:
  assumes "env_ok E" and "S = store.run E ops (new_store grace)" and "S' = store_delete E now u S"
  shows "\<not> store_isOpen E u S' \<and> (\<forall>c. \<not> isOpenInClient E u c S') \<and> \<not> isReleaseDeferred E u S' \<and>
    \<not> store_isDirty E u S' \<and> pushTargets (documentKey E u) (langShadow S') = []"
proof -
  have ok: "store_ok E S" unfolding assms(2) by (rule store_run_ok [OF assms(1)])
  note del = store_delete_ok [OF assms(1) ok, of now u, folded assms(3)]
  have view: "view_ok E (documentKey E u) (view S' (documentKey E u))" by (rule store_okD(2) [OF del(1)])
  have "w \<notin> set (pushTargets (documentKey E u) (langShadow S'))" for w
    using view del(2) by (simp add: view_ok_def pushTargets_isOpenAt shadow_isOpenAt_def)
  then have "pushTargets (documentKey E u) (langShadow S') = []" by (metis list.set_intros(1) neq_Nil_conv)
  with view del(2) show ?thesis
    by (simp add: view_ok_def store_isOpen_def isOpenInClient_def isReleaseDeferred_def store_isDirty_def isDirty_def js_has_get)
qed

theorem delete_leaves_nothing_witness:
  "\<not> store_isOpen witness_env ''a'' (store_delete witness_env 3 ''a''
     (store.run witness_env [StOpen 0 None new_model_ledger ''a'' ''x'' 1 [7] ''form''] (new_store 10)))"
  using delete_leaves_nothing [OF witness_env_ok refl refl] by blast

end
