(* ===== verification/ReleaseWaits.thy ===== *)
theory ReleaseWaits
  imports StoreProperties
begin

section \<open>A document that waits out its grace\<close>

text \<open>
  What keeps the text of a document whose last client was lost until a client returns: no operation but an open,
  an attach, a change, a delete or the timer of the document itself reaches the document, its timer and its claims.
\<close>

subsection \<open>What is kept for the returning client\<close>

text \<open>The document held under a key, when its release is due, who was lost from it when, and the grace.\<close>

definition waiting_of :: "uri \<Rightarrow> store \<Rightarrow> text_document option \<times> time option \<times> (client_id \<Rightarrow> time option) \<times> int" where
  "waiting_of k S = (js_get (synced S) k, js_get (deferred (releases S)) k, \<lambda>e. lossOf k e (releases S), graceMs (releases S))"

lemma waiting_fields: "synced S' = synced S \<Longrightarrow> releases S' = releases S \<Longrightarrow> waiting_of k S' = waiting_of k S"
  by (simp add: waiting_of_def)

lemma deferred_simps [simp]:
  "js_get (deferred (cancel key R)) k = (if k = key then None else js_get (deferred R) k)"
  "deferred (recordLoss key c now R) = deferred R" "deferred (clearLosses key R) = deferred R"
  "js_get (deferred (snd (defer_release key now R))) k =
     (if k = key then (if graceMs R \<le> 0 then None else Some (now + graceMs R)) else js_get (deferred R) k)"
  "k \<noteq> key \<Longrightarrow> js_get (deferred (snd (resolveOpen key c now R))) k = js_get (deferred R) k"
  by (auto simp: cancel_def recordLoss_def clearLosses_def defer_release_def resolveOpen_def Let_def js_get_set js_get_delete
      split: option.splits)

lemma waiting_release [simp]: "k \<noteq> key \<Longrightarrow> waiting_of k (releaseDocument key S) = waiting_of k S"
  by (cases "js_get (synced S) key")
     (simp_all add: waiting_of_def releaseDocument_None releaseDocument_simps js_get_delete lossOf_clearLosses)

lemma waiting_fire [simp]: "waiting_of k (fire ev S) = waiting_of k S"
  by (simp add: waiting_of_def)

lemma waiting_releases:
  "js_get (deferred R) k = js_get (deferred (releases S)) k \<Longrightarrow> (\<And>e. lossOf k e R = lossOf k e (releases S)) \<Longrightarrow>
   graceMs R = graceMs (releases S) \<Longrightarrow> waiting_of k (S\<lparr>releases := R\<rparr>) = waiting_of k S"
  by (simp add: waiting_of_def)

lemma waiting_frame [simp]:
  "waiting_of k (S\<lparr>sessionReg := R\<rparr>) = waiting_of k S" "waiting_of k (S\<lparr>langShadow := W\<rparr>) = waiting_of k S"
  "waiting_of k (close_in_shadow E u S) = waiting_of k S" "waiting_of k (refreshContent E u c S) = waiting_of k S"
  by (auto intro!: waiting_fields simp: refreshContent_def split: option.splits)

lemma waiting_resolve [simp]:
  assumes "store_ok E S" and "k \<noteq> key"
  shows "waiting_of k (resolveDeferredRelease now key c S) = waiting_of k S"
proof -
  note lo = base_okD(5) [OF store_okD(1) [OF assms(1)]]
  have "waiting_of k (S\<lparr>releases := snd (resolveOpen key c now (releases S))\<rparr>) = waiting_of k S"
    by (rule waiting_releases) (simp_all add: assms(2) lossOf_resolveOpen [OF lo])
  then show ?thesis using assms(2) by (simp add: resolveDeferredRelease_simps [OF lo] Let_def)
qed

subsection \<open>What reaches it\<close>

text \<open>A close reaches no document but its own, and not even that one when the client does not have it open.\<close>

lemma waiting_close:
  assumes "store_ok E S" and "isDeferred k (releases S) \<or> k \<noteq> documentKey E u"
  shows "waiting_of k (notifyDidCloseTextDocument E now u c cause S) = waiting_of k S"
proof (cases "k = documentKey E u")
  case True
  then obtain d where "\<forall>c. \<not> isOpenIn k c (sessionReg S)" using deferred_view [OF assms(1), of k] assms(2) by metis
  then have "\<not> fst (removeOpen k e (sessionReg S))" for e
    by (simp add: fst_removeOpen [OF base_okD(1) [OF store_okD(1) [OF assms(1)]]])
  then show ?thesis using True by (simp add: notifyDidCloseTextDocument_def Let_def case_prod_beta)
next
  case False
  have rel: "waiting_of k (deferRelease now (documentKey E u) T) = waiting_of k T" for T
  proof -
    have "waiting_of k (T\<lparr>releases := snd (defer_release (documentKey E u) now (releases T))\<rparr>) = waiting_of k T"
      by (rule waiting_releases) (simp_all add: False)
    then show ?thesis using False by (simp add: deferRelease_def release_unless_open_def Let_def case_prod_beta)
  qed
  have loss: "releases T = R \<Longrightarrow> waiting_of k (T\<lparr>releases := recordLoss (documentKey E u) e now R\<rparr>) = waiting_of k T" for T R e
    by (auto simp: waiting_of_def False lossOf_recordLoss)
  show ?thesis using False
    by (simp add: notifyDidCloseTextDocument_def Let_def case_prod_beta rel loss split: option.splits)
qed

text \<open>The operations that do not reach the document of a key before its release is due.\<close>

definition leaves_waiting :: "env \<Rightarrow> uri \<Rightarrow> time \<Rightarrow> store_op \<Rightarrow> bool" where
  "leaves_waiting E key due op =
     (case op of
        StOpen _ _ _ u _ _ _ _ \<Rightarrow> documentKey E u \<noteq> key
      | StAttach _ u _ \<Rightarrow> documentKey E u \<noteq> key
      | StChange u _ _ _ \<Rightarrow> documentKey E u \<noteq> key
      | StApply u _ _ \<Rightarrow> documentKey E u \<noteq> key
      | StRepair u _ _ \<Rightarrow> documentKey E u \<noteq> key
      | StDeleted _ u \<Rightarrow> documentKey E u \<noteq> key
      | StDelete _ u \<Rightarrow> documentKey E u \<noteq> key
      | StTimer now k \<Rightarrow> k \<noteq> key \<or> now < due
      | _ \<Rightarrow> True)"

lemma waiting_fold_close:
  assumes "store_ok E S" and "isDeferred k (releases S)"
  shows "waiting_of k (fold (\<lambda>u. notifyDidCloseTextDocument E now u c cause) us S) = waiting_of k S"
  using assms
proof (induction us arbitrary: S)
  case (Cons u us)
  let ?S1 = "notifyDidCloseTextDocument E now u c cause S"
  have same: "waiting_of k ?S1 = waiting_of k S" by (rule waiting_close) (use Cons.prems in simp_all)
  then have "isDeferred k (releases ?S1)" using Cons.prems(2) by (simp add: waiting_of_def isDeferred_def js_has_get)
  with Cons.IH [of ?S1] same show ?case by (simp add: notifyDidClose_ok [OF Cons.prems(1)])
qed simp

lemma waiting_fold_close_key:
  assumes "store_ok E S" and "k \<noteq> documentKey E u"
  shows "waiting_of k (fold (\<lambda>c. notifyDidCloseTextDocument E now u c cause) cs S) = waiting_of k S"
    "waiting_of k (fold (\<lambda>c S. if c \<noteq> LANGUAGE_CLIENT_ID then notifyDidCloseTextDocument E now u c cause S else S) cs S) = waiting_of k S"
  using assms
  by (induction cs arbitrary: S) (auto simp: waiting_close notifyDidClose_ok)

lemma waiting_releaseIfDeferred: "k \<noteq> key \<Longrightarrow> waiting_of k (releaseIfDeferred key S) = waiting_of k S"
  using waiting_releases [of "cancel key (releases S)" k S] by (simp add: releaseIfDeferred_def)

lemma waiting_delete:
  assumes "env_ok E" and "store_ok E S" and "k \<noteq> documentKey E u"
  shows "waiting_of k (notifyDocumentDeleted E now u S) = waiting_of k S" "waiting_of k (store_delete E now u S) = waiting_of k S"
proof -
  let ?key = "documentKey E u"
  have key: "documentKey E ?key = ?key" using assms(1) by (simp add: env_ok_def documentKey_def)
  show "waiting_of k (notifyDocumentDeleted E now u S) = waiting_of k S"
    using waiting_fold_close_key(2) [OF assms(2), of k ?key] assms(3) key
    by (simp add: notifyDocumentDeleted_def Let_def waiting_releaseIfDeferred)
  let ?B = "before_base_delete E now ?key S"
  have "waiting_of k ?B = waiting_of k S"
    using waiting_fold_close_key(1) [OF removeAllOpens_store_ok [OF assms(2)], of k ?key] assms(3) key
    by (simp add: waiting_releaseIfDeferred)
  moreover have "js_get (js_delete (normalize E ?key) (synced ?B)) k = js_get (synced ?B) k"
    using delete_finds_nothing [OF assms(1,2), of u now] by (simp add: js_get_delete)
  ultimately show "waiting_of k (store_delete E now u S) = waiting_of k S"
    unfolding store_delete_eq by (simp add: waiting_of_def)
qed

lemma waiting_commit:
  assumes "env_ok E" and "k \<noteq> key" and "commitChange E key d changes c S = (r, S')"
  shows "waiting_of k S' = waiting_of k S"
proof -
  obtain d' chg where r: "commitChange E key d changes c S = ((d', chg), S')" using assms(3) by (metis surj_pair)
  show ?thesis by (rule commitChange_cases [OF assms(1) r]) (use assms(2) in \<open>simp_all add: waiting_of_def js_get_set\<close>)
qed

lemma waiting_open:
  assumes "store_ok E S" and "k \<noteq> documentKey E u" and "notifyDidOpenTextDocument E now built M u lang v txt c S = Inr S'"
  shows "waiting_of k S' = waiting_of k S"
  using assms(3)
proof (cases rule: notifyDidOpen_cases)
  case again
  then show ?thesis using assms(1,2) by simp
next
  case (new b R)
  have "waiting_of k (firstOpen E built M u lang v txt c T) = waiting_of k T" for T
    using assms(2) by (simp add: waiting_of_def firstOpen_simps [OF refl] js_get_set)
  with new show ?thesis using assms(1,2) by simp
qed

lemma waiting_attach:
  assumes "store_ok E S" and "k \<noteq> documentKey E u" and "attachClient E now u c S = Inr (b, S')"
  shows "waiting_of k S' = waiting_of k S"
  using assms by (auto simp: attachClient_def Let_def split: if_splits option.splits sum.splits)

lemma waiting_change:
  assumes "env_ok E" and "k \<noteq> documentKey E u" and "notifyDidChangeTextDocument E u v changes c S = Inr S'"
  shows "waiting_of k S' = waiting_of k S"
  using assms(3) waiting_commit [OF assms(1,2) surjective_pairing]
  by (auto simp: notifyDidChangeTextDocument_def Let_def case_prod_beta split: if_splits option.splits)

lemma waiting_texts:
  assumes "env_ok E" and "k \<noteq> documentKey E u"
  shows "applyContentChange E u txt c S = Inr (w, S') \<Longrightarrow> waiting_of k S' = waiting_of k S"
    "waiting_of k (snd (commitRepair E u from repaired S)) = waiting_of k S"
  using waiting_commit [OF assms, OF surjective_pairing]
  by (auto simp: applyContentChange_def commitRepair_def Let_def case_prod_beta split: if_splits option.splits)

lemma waiting_timer:
  assumes "releaseTimer now key S = Some S'" and "k \<noteq> key"
  shows "waiting_of k S' = waiting_of k S"
proof -
  obtain R where R: "timerFires key now (releases S) = Some R" "S' = release_unless_open key (S\<lparr>releases := R\<rparr>)"
    using assms(1) by (auto simp: releaseTimer_def split: option.splits)
  have "waiting_of k (S\<lparr>releases := R\<rparr>) = waiting_of k S"
    by (rule waiting_releases) (use R(1) assms(2) in \<open>auto simp: timerFires_def lossOf_def js_get_delete split: option.splits if_splits\<close>)
  then show ?thesis using assms(2) by (simp add: R(2) release_unless_open_def)
qed

lemma waiting_session:
  assumes "store_ok E S" and "isDeferred k (releases S)"
  shows "waiting_of k (closeSession E now c cause S) = waiting_of k S" "waiting_of k (closeLanguageClientDocuments E now S) = waiting_of k S"
    "registerSession c S = Inr S' \<Longrightarrow> waiting_of k S' = waiting_of k S"
proof -
  show "waiting_of k (closeSession E now c cause S) = waiting_of k S"
  proof (cases "isRegistered c (sessionReg S)")
    case True
    from waiting_fold_close [OF closeSession_table(1) [OF assms(1) True], of k now c cause] assms(2)
    show ?thesis by (simp add: closeSession_table(3) [OF assms(1) True])
  qed (simp add: closeSession_def)
  have "waiting_of k (fold (\<lambda>u S. notifyDidCloseTextDocument E now u LANGUAGE_CLIENT_ID Closed (with_shadow (removeAllOpens u) S)) us T) = waiting_of k T"
    if "store_ok E T" "isDeferred k (releases T)" for us T
    using that
  proof (induction us arbitrary: T)
    case (Cons u us)
    let ?T0 = "with_shadow (removeAllOpens u) T"
    have ok: "store_ok E ?T0" by (rule removeAllOpens_store_ok [OF Cons.prems(1)])
    let ?T1 = "notifyDidCloseTextDocument E now u LANGUAGE_CLIENT_ID Closed ?T0"
    have same: "waiting_of k ?T1 = waiting_of k T" using waiting_close [OF ok, of k u] Cons.prems(2) by simp
    then have "isDeferred k (releases ?T1)" using Cons.prems(2) by (simp add: waiting_of_def isDeferred_def js_has_get)
    with Cons.IH [of ?T1] same show ?case by (simp add: notifyDidClose_ok [OF ok])
  qed simp
  then show "waiting_of k (closeLanguageClientDocuments E now S) = waiting_of k S"
    using assms by (simp add: closeLanguageClientDocuments_def)
  show "registerSession c S = Inr S' \<Longrightarrow> waiting_of k S' = waiting_of k S"
    by (auto simp: registerSession_def split: sum.splits)
qed

lemma waiting_reconcile [simp]: "waiting_of k (snd (reconcileExternalContent E u txt S)) = waiting_of k S"
  by (auto simp: reconcileExternalContent_def case_prod_beta Let_def intro: waiting_fields split: option.splits)

lemma releases_textState [simp]: "releases (snd (textState E u S)) = releases S"
  by (simp add: textState_def case_prod_beta Let_def split: option.splits)

lemma releases_baseline [simp]:
  "releases (store_setDiskBaseline E u txt S) = releases S" "releases (store_markCreated E u S) = releases S"
  by (simp_all add: store_setDiskBaseline_def store_markCreated_def Let_def split: option.splits)

lemma releases_save [simp]:
  "releases (notifyWillSaveTextDocument E u reason S) = releases S" "releases (notifyDidSaveTextDocument E u t c S) = releases S"
  "releases (snd (languageClientSaveBegins E u S)) = releases S" "releases (languageClientSaveRead E before onDisk S) = releases S"
  "releases (reloadDiskBaseline E u r1 ex r2 S) = releases S" "releases (releaseSettled E key token built inBuild S) = releases S"
  by (simp_all add: notifyWillSaveTextDocument_def notifyDidSaveTextDocument_def announceSave_def languageClientSaveBegins_def
      languageClientSaveRead_def reloadDiskBaseline_def releaseSettled_def case_prod_beta Let_def split: option.splits)

lemma step_keeps_waiting:
  assumes "env_ok E" and "store_ok E S" and "js_get (deferred (releases S)) k = Some due" and "leaves_waiting E k due op"
    and "store_step E op S = Some S'"
  shows "waiting_of k S' = waiting_of k S"
proof -
  have def: "isDeferred k (releases S)" using assms(3) by (simp add: isDeferred_def js_has_get)
  have early: "releaseTimer now k S = None" if "now < due" for now
    using that assms(3) by (simp add: releaseTimer_def timerFires_def)
  show ?thesis
    using assms(4,5) waiting_session [OF assms(2) def]
    by (cases op)
       (auto simp: leaves_waiting_def early waiting_close [OF assms(2)] def waiting_delete [OF assms(1,2)] waiting_texts(2) [OF assms(1)]
         step_fields split: sum.splits if_splits
         intro: waiting_open [OF assms(2) not_sym] waiting_attach [OF assms(2) not_sym] waiting_change [OF assms(1) not_sym]
           waiting_texts(1) [OF assms(1) not_sym] waiting_timer waiting_fields)
qed

lemma run_keeps_waiting:
  assumes "env_ok E" and "store_ok E S" and "js_get (deferred (releases S)) k = Some due" and "list_all (leaves_waiting E k due) later"
  shows "waiting_of k (store.run E later S) = waiting_of k S"
  using assms(2-4)
proof (induction later arbitrary: S)
  case (Cons op later)
  let ?S1 = "case store_step E op S of None \<Rightarrow> S | Some S' \<Rightarrow> S'"
  have same: "waiting_of k ?S1 = waiting_of k S"
    using step_keeps_waiting [OF assms(1) Cons.prems(1,2), of op] Cons.prems(3) by (simp split: option.splits)
  have ok: "store_ok E ?S1" using store_step_ok [OF assms(1) Cons.prems(1)] Cons.prems(1) by (auto split: option.splits)
  from same have "js_get (deferred (releases ?S1)) k = Some due" using Cons.prems(2) by (simp add: waiting_of_def)
  with Cons.IH [OF ok] Cons.prems(3) same show ?case by simp
qed simp

subsection \<open>Properties\<close>

text \<open>
  C25: The last client that holds a document, not the editor, loses its connection at time \<open>t\<close>, and then anything happens but
  an open, an attach, a change, a repair or a delete of the document itself, or its timer once the grace is over. The
  document still waits for its release, and whoever opens it at time \<open>t'\<close>, the lost client or any other, the open succeeds
  if the client may open at all. A client with a loss of this document less than the grace ago, which is the lost client
  within the grace and any other client that had been lost from it before, finds the unsaved text, the same document and
  the same version. Any other client, and the lost one after the grace, gets the text it brought, at the released version or,
  when that text differs, one on.
\<close>

theorem lost_client_finds_text:
  assumes "env_ok E" and "S = store.run E ops (new_store grace)" and "store_get E u S = Some d"
    and "clientsOf (documentKey E u) (sessionReg S) = [c]" and "c \<noteq> LANGUAGE_CLIENT_ID" and "0 < graceMs (releases S)"
    and "list_all (leaves_waiting E (documentKey E u) (t + graceMs (releases S))) later"
    and "S2 = store.run E later (notifyDidCloseTextDocument E t u c Lost S)" and "assertCanOpen e (sessionReg S2) = None"
  shows "isReleaseDeferred E u S2 \<and>
    (\<exists>S3 d'. notifyDidOpenTextDocument E t' built M u lang v content e S2 = Inr S3 \<and> store_get E u S3 = Some d' \<and>
       (if (case (if e = c then Some t else lossOf (documentKey E u) e (releases S)) of
              Some since \<Rightarrow> t' - since < graceMs (releases S) | None \<Rightarrow> False)
        then d' = d
        else docText d' = content \<and>
             docVersion d' = (if textHash content = textHash (docText d) then docVersion d else docVersion d + 1)))"
proof -
  let ?key = "documentKey E u" and ?S1 = "notifyDidCloseTextDocument E t u c Lost S"
  have ok: "store_ok E S" unfolding assms(2) by (rule store_run_ok [OF assms(1)])
  have ok1: "store_ok E ?S1" by (rule notifyDidClose_ok [OF ok])
  have ok2: "store_ok E S2"
    using store_run_ok [OF assms(1), of "ops @ StClose t u c Lost # later" grace] by (simp add: assms(2,8) store.run_append)
  note s1 = close_lost [OF ok assms(4,5) assms(6) refl, of t]
  have "waiting_of ?key ?S1 = (Some d, Some (t + graceMs (releases S)), \<lambda>e. if e = c then Some t else lossOf ?key e (releases S), graceMs (releases S))"
    using assms(3,6) by (auto simp: waiting_of_def s1 lossOf_recordLoss store_get_key [OF assms(1) ok])
  then have "waiting_of ?key S2 = (Some d, Some (t + graceMs (releases S)), \<lambda>e. if e = c then Some t else lossOf ?key e (releases S), graceMs (releases S))"
    using run_keeps_waiting [OF assms(1) ok1 _ assms(7)] by (simp add: assms(8) waiting_of_def)
  then have s2: "store_get E u S2 = Some d" "isDeferred ?key (releases S2)"
    "has_claim ?key e t' (releases S2) \<longleftrightarrow>
      (case (if e = c then Some t else lossOf ?key e (releases S)) of Some since \<Rightarrow> t' - since < graceMs (releases S) | None \<Rightarrow> False)"
    by (auto simp: waiting_of_def store_get_key [OF assms(1) ok2] isDeferred_def js_has_get has_claim_def fun_eq_iff split: option.splits)
  show ?thesis
    using open_with_claim [OF assms(1) ok2 s2(2) _ assms(9), of t'] open_without_claim [OF assms(1) ok2 s2(2,1) _ assms(9), of t']
    by (cases "has_claim ?key e t' (releases S2)") (simp_all add: isReleaseDeferred_def s2)
qed

text \<open>A client is lost, its timer looks before the grace is over, another file changes, and it returns within the grace.\<close>

theorem lost_client_finds_text_witness:
  "\<exists>S3 d'. notifyDidOpenTextDocument witness_env 9 None new_model_ledger ''a'' ''x'' 1 [8] ''form''
      (store.run witness_env [StReconcile ''b'' [5], StTimer 8 ''a'']
        (notifyDidCloseTextDocument witness_env 5 ''a'' ''form'' Lost
          (store.run witness_env [StOpen 0 None new_model_ledger ''a'' ''x'' 1 [7] ''form''] (new_store 10)))) = Inr S3 \<and>
    store_get witness_env ''a'' S3 = Some d' \<and> docText d' = [7]"
proof -
  define S where "S = store.run witness_env [StOpen 0 None new_model_ledger ''a'' ''x'' 1 [7] ''form''] (new_store 10)"
  define S1 where "S1 = notifyDidCloseTextDocument witness_env 5 ''a'' ''form'' Lost S"
  define T where "T = snd (reconcileExternalContent witness_env ''b'' [5] S1)"
  let ?d = "\<lparr>docId = 0, docUri = ''a'', docLanguage = ''x'', docVersion = 1, docText = [7]\<rparr> :: text_document"
  let ?later = "[StReconcile ''b'' [5], StTimer 8 ''a'']"
  have S: "store_get witness_env ''a'' S = Some ?d" "clientsOf (documentKey witness_env ''a'') (sessionReg S) = [''form'']"
    "graceMs (releases S) = 10" "sessions (sessionReg S) = []"
    by (simp_all add: S_def store_eval Let_def)
  have ok: "store_ok witness_env S" unfolding S_def by (rule store_run_ok [OF witness_env_ok])
  have later: "list_all (leaves_waiting witness_env (documentKey witness_env ''a'') (5 + graceMs (releases S))) ?later"
    by (simp add: S(3) leaves_waiting_def witness_env_def documentKey_def)
  have T: "sessionReg T = sessionReg S1" "releases T = releases S1"
    by (simp_all add: T_def reconcileExternalContent_def case_prod_beta Let_def split: option.splits)
  have "js_get (deferred (releases S1)) ''a'' = Some 15"
    using close_lost(6) [OF ok S(2) _ _ S1_def] S(3) by (simp add: LANGUAGE_CLIENT_ID_def witness_env_def documentKey_def)
  then have "releaseTimer 8 ''a'' T = None" by (simp add: releaseTimer_def timerFires_def T)
  then have run: "store.run witness_env ?later S1 = T" by (simp add: T_def)
  have can: "assertCanOpen ''form'' (sessionReg T) = None"
    by (simp add: assertCanOpen_def T S1_def close_frame S(4))
  show ?thesis
    using lost_client_finds_text [OF witness_env_ok S_def S(1,2) _ _ later _ can, of 9 None new_model_ledger "''x''" 1 "[8]"]
    unfolding S_def [symmetric] S1_def [symmetric] run by (auto simp: LANGUAGE_CLIENT_ID_def S(3))
qed

end
