(* ===== verification/WriteBuffer.thy ===== *)
theory WriteBuffer
  imports Prelude
begin

section \<open>The framed socket write buffer and the inbound message sequence\<close>

text \<open>
  \<open>FramedSocketWriteBuffer\<close> and \<open>InboundMessageSequence\<close> of \<open>client-theia/src/common\<close>: the two ends of a
  connection that survives dropped sockets. A message is its bytes. A socket is the function \<open>accepts\<close>:
  \<open>False\<close> says that its \<open>send\<close> throws. An operation answers whether it threw, what it handed to the
  socket, in order, and the new state; log lines are not modelled. A \<open>send\<close> that queues further messages
  on the same buffer before it returns is not modelled.
\<close>

type_synonym message = "8 word list"
type_synonym frame = "int \<times> message"

definition DEFAULT_MAX_BYTES :: int where "DEFAULT_MAX_BYTES = 100 * 1024"

definition DEFAULT_MAX_UNACKNOWLEDGED_BYTES :: int where "DEFAULT_MAX_UNACKNOWLEDGED_BYTES = 1024 * 1024"

record overflow =
  ovMessages :: int
  ovBytes :: int
  ovMaxBytes :: int

record write_buffer =
  maxBytes :: int
  maxUnacknowledgedBytes :: int
  queued :: "message list"
  queuedBytes :: int
  overflowReported :: bool
  nextSequence :: int
  unacknowledged :: "frame list"
  unacknowledgedBytes :: int
  unacknowledgedOverflowReported :: bool
  peerDeduplicates :: bool
  overflows :: "overflow list"

definition byteLength :: "message \<Rightarrow> int" where
  "byteLength m = int (length m)"

definition new_buffer :: "int \<Rightarrow> int \<Rightarrow> write_buffer" where
  "new_buffer maxB maxU =
     \<lparr>maxBytes = maxB, maxUnacknowledgedBytes = maxU, queued = [], queuedBytes = 0, overflowReported = False,
      nextSequence = 1, unacknowledged = [], unacknowledgedBytes = 0, unacknowledgedOverflowReported = False,
      peerDeduplicates = False, overflows = []\<rparr>"

definition isPositive :: "int option \<Rightarrow> bool" where
  "isPositive v = (case v of None \<Rightarrow> False | Some n \<Rightarrow> 0 < n)"

definition createFramedSocketWriteBuffer :: "int option \<Rightarrow> int option \<Rightarrow> write_buffer" where
  "createFramedSocketWriteBuffer bufferBytes unackBytes =
     (let B = new_buffer DEFAULT_MAX_BYTES DEFAULT_MAX_UNACKNOWLEDGED_BYTES;
          B1 = (if isPositive bufferBytes then B\<lparr>maxBytes := the bufferBytes\<rparr> else B)
      in if isPositive unackBytes then B1\<lparr>maxUnacknowledgedBytes := the unackBytes\<rparr> else B1)"

definition hasBacklog :: "write_buffer \<Rightarrow> bool" where
  "hasBacklog B \<longleftrightarrow> queued B \<noteq> []"

definition reportOverflow :: "write_buffer \<Rightarrow> write_buffer" where
  "reportOverflow B =
     (if overflowReported B then B
      else B\<lparr>overflowReported := True,
             overflows := overflows B @ [\<lparr>ovMessages = int (length (queued B)), ovBytes = queuedBytes B, ovMaxBytes = maxBytes B\<rparr>]\<rparr>)"

text \<open>The first component is \<open>False\<close> where the code throws.\<close>

definition buffer :: "message \<Rightarrow> write_buffer \<Rightarrow> bool \<times> write_buffer" where
  "buffer m B =
     (if maxBytes B < queuedBytes B + byteLength m then (False, reportOverflow B)
      else (True, B\<lparr>queued := queued B @ [m], queuedBytes := queuedBytes B + byteLength m\<rparr>))"

definition keep :: "int \<Rightarrow> message \<Rightarrow> write_buffer \<Rightarrow> write_buffer" where
  "keep sequence m B =
     (if maxUnacknowledgedBytes B < unacknowledgedBytes B + byteLength m
      then B\<lparr>unacknowledgedOverflowReported := unacknowledgedOverflowReported B \<or> peerDeduplicates B,
             unacknowledged := [], unacknowledgedBytes := 0\<rparr>
      else B\<lparr>unacknowledged := unacknowledged B @ [(sequence, m)],
             unacknowledgedBytes := unacknowledgedBytes B + byteLength m\<rparr>)"

definition send :: "(frame \<Rightarrow> bool) \<Rightarrow> message \<Rightarrow> write_buffer \<Rightarrow> bool \<times> frame list \<times> write_buffer" where
  "send accepts m B =
     (let sequence = nextSequence B; B1 = B\<lparr>nextSequence := nextSequence B + 1\<rparr>
      in if accepts (sequence, m) then (True, [(sequence, m)], keep sequence m B1) else (False, [], B1))"

definition sendOrQueue :: "(frame \<Rightarrow> bool) option \<Rightarrow> message \<Rightarrow> write_buffer \<Rightarrow> bool \<times> frame list \<times> write_buffer" where
  "sendOrQueue socket m B =
     (case socket of
        Some accepts \<Rightarrow> if \<not> hasBacklog B then send accepts m B else (let (ok, B1) = buffer m B in (ok, [], B1))
      | None \<Rightarrow> (let (ok, B1) = buffer m B in (ok, [], B1)))"

definition markPeerDeduplicates :: "write_buffer \<Rightarrow> write_buffer" where
  "markPeerDeduplicates B = B\<lparr>peerDeduplicates := True\<rparr>"

text \<open>The loop of \<open>acknowledge\<close>: the frames up to \<open>sequence\<close> at the front go.\<close>

definition acknowledge :: "int \<Rightarrow> write_buffer \<Rightarrow> write_buffer" where
  "acknowledge sequence B =
     (let released = takeWhile (\<lambda>f. fst f \<le> sequence) (unacknowledged B)
      in B\<lparr>peerDeduplicates := True, unacknowledged := dropWhile (\<lambda>f. fst f \<le> sequence) (unacknowledged B),
           unacknowledgedBytes := unacknowledgedBytes B - sum_list (map (byteLength \<circ> snd) released)\<rparr>)"

text \<open>The resend loop of \<open>flush\<close>, which ends at the first send that throws.\<close>

fun resend :: "(frame \<Rightarrow> bool) \<Rightarrow> frame list \<Rightarrow> bool \<times> frame list" where
  "resend accepts [] = (True, [])"
| "resend accepts (f # fs) = (if accepts f then (let (ok, sent) = resend accepts fs in (ok, f # sent)) else (False, []))"

text \<open>
  The drain loop of \<open>flush\<close>: the messages not sent yet stay queued, the bytes of those sent are taken off
  as each goes out.
\<close>

fun drain_queue :: "(frame \<Rightarrow> bool) \<Rightarrow> message list \<Rightarrow> write_buffer \<Rightarrow> bool \<times> frame list \<times> write_buffer" where
  "drain_queue accepts [] B = (True, [], B\<lparr>queued := []\<rparr>)"
| "drain_queue accepts (m # ms) B =
     (case send accepts m B of
        (True, sent, B1) \<Rightarrow>
          (let (ok, more_sent, B2) = drain_queue accepts ms (B1\<lparr>queuedBytes := queuedBytes B1 - byteLength m\<rparr>)
           in (ok, sent @ more_sent, B2))
      | (False, sent, B1) \<Rightarrow> (False, sent, B1\<lparr>queued := m # ms\<rparr>))"

definition flush :: "(frame \<Rightarrow> bool) \<Rightarrow> write_buffer \<Rightarrow> bool \<times> frame list \<times> write_buffer" where
  "flush accepts B =
     (let (ok, resent) = (if peerDeduplicates B then resend accepts (unacknowledged B) else (True, []));
          B1 = (if peerDeduplicates B then B else B\<lparr>unacknowledged := [], unacknowledgedBytes := 0\<rparr>)
      in if \<not> ok then (False, resent, B1)
         else if queued B1 = [] then (True, resent, B1)
         else (let (ok2, sent, B2) = drain_queue accepts (queued B1) B1
               in (ok2, resent @ sent, if ok2 then B2\<lparr>overflowReported := False\<rparr> else B2)))"

definition reset :: "write_buffer \<Rightarrow> write_buffer" where
  "reset B =
     B\<lparr>queued := [], queuedBytes := 0, overflowReported := False, nextSequence := 1, unacknowledged := [],
       unacknowledgedBytes := 0, unacknowledgedOverflowReported := False, peerDeduplicates := False\<rparr>"

definition drain :: "write_buffer \<Rightarrow> write_buffer" where
  "drain B = reset B"

subsection \<open>The receiving end\<close>

definition ACKNOWLEDGE_AFTER_MESSAGES :: int where "ACKNOWLEDGE_AFTER_MESSAGES = 64"

definition ACKNOWLEDGE_AFTER_BYTES :: int where "ACKNOWLEDGE_AFTER_BYTES = 32 * 1024"

record inbound =
  lastAccepted :: int
  messagesSinceAcknowledgement :: int
  bytesSinceAcknowledgement :: int
  acknowledgementTimer :: bool

definition new_inbound :: inbound where
  "new_inbound = \<lparr>lastAccepted = 0, messagesSinceAcknowledgement = 0, bytesSinceAcknowledgement = 0, acknowledgementTimer = False\<rparr>"

text \<open>\<open>sendAcknowledgement\<close> is the list of numbers acknowledged by the call.\<close>

definition inbound_acknowledge :: "inbound \<Rightarrow> int list \<times> inbound" where
  "inbound_acknowledge I =
     ([lastAccepted I],
      I\<lparr>acknowledgementTimer := False, messagesSinceAcknowledgement := 0, bytesSinceAcknowledgement := 0\<rparr>)"

definition accept :: "int option \<Rightarrow> int \<Rightarrow> inbound \<Rightarrow> bool \<times> int list \<times> inbound" where
  "accept sequence bytes I =
     (case sequence of
        None \<Rightarrow> (True, [], I)
      | Some n \<Rightarrow>
          (let isFirst = (lastAccepted I = 0); isNew = (lastAccepted I < n);
               I1 = (if isNew then I\<lparr>lastAccepted := n\<rparr> else I);
               I2 = I1\<lparr>messagesSinceAcknowledgement := messagesSinceAcknowledgement I1 + 1,
                       bytesSinceAcknowledgement := bytesSinceAcknowledgement I1 + bytes\<rparr>
           in if isFirst \<or> ACKNOWLEDGE_AFTER_MESSAGES \<le> messagesSinceAcknowledgement I2 \<or>
                 ACKNOWLEDGE_AFTER_BYTES \<le> bytesSinceAcknowledgement I2
              then (let (acks, I3) = inbound_acknowledge I2 in (isNew, acks, I3))
              else (isNew, [], I2\<lparr>acknowledgementTimer := True\<rparr>)))"

text \<open>The timer of \<open>accept\<close>, once it is due.\<close>

definition ackTimerFires :: "inbound \<Rightarrow> (int list \<times> inbound) option" where
  "ackTimerFires I = (if acknowledgementTimer I then Some (inbound_acknowledge I) else None)"

definition inbound_dispose :: "inbound \<Rightarrow> inbound" where
  "inbound_dispose I = I\<lparr>acknowledgementTimer := False\<rparr>"

subsection \<open>Byte accounts\<close>

text \<open>The two byte counts are what is held, and stay within their limits, whatever sends throw.\<close>

definition bytes_of :: "message list \<Rightarrow> int" where
  "bytes_of ms = sum_list (map byteLength ms)"

definition bytes_ok :: "write_buffer \<Rightarrow> bool" where
  "bytes_ok B \<longleftrightarrow> queuedBytes B = bytes_of (queued B) \<and> queuedBytes B \<le> maxBytes B \<and>
     unacknowledgedBytes B = bytes_of (map snd (unacknowledged B)) \<and> unacknowledgedBytes B \<le> maxUnacknowledgedBytes B \<and>
     0 \<le> maxUnacknowledgedBytes B \<and> 0 \<le> maxBytes B"

lemma bytes_of_simps [simp]: "bytes_of [] = 0" "bytes_of (m # ms) = byteLength m + bytes_of ms"
  "bytes_of (xs @ ys) = bytes_of xs + bytes_of ys"
  by (simp_all add: bytes_of_def)

lemma byteLength_nonneg: "0 \<le> byteLength m"
  by (simp add: byteLength_def)

lemma bytes_of_nonneg: "0 \<le> bytes_of ms"
  by (induction ms) (simp_all add: byteLength_nonneg add_nonneg_nonneg)

lemma keep_frame [simp]:
  "queued (keep s m B) = queued B" "queuedBytes (keep s m B) = queuedBytes B" "maxBytes (keep s m B) = maxBytes B"
  "maxUnacknowledgedBytes (keep s m B) = maxUnacknowledgedBytes B"
  by (simp_all add: keep_def)

lemma keep_bytes: "bytes_ok B \<Longrightarrow> bytes_ok (keep s m B)"
  by (simp add: bytes_ok_def keep_def)

lemma send_bytes:
  assumes "bytes_ok B" and "send accepts m B = (ok, sent, B')"
  shows "bytes_ok B' \<and> queued B' = queued B \<and> queuedBytes B' = queuedBytes B \<and> maxBytes B' = maxBytes B"
proof -
  have "bytes_ok (B\<lparr>nextSequence := n\<rparr>)" for n using assms(1) by (simp add: bytes_ok_def)
  with assms(2) keep_bytes show ?thesis by (auto simp: send_def Let_def split: if_splits)
qed

lemma buffer_bytes: "bytes_ok B \<Longrightarrow> bytes_ok (snd (buffer m B))"
  by (simp add: buffer_def bytes_ok_def reportOverflow_def)

lemma acknowledge_bytes: "bytes_ok B \<Longrightarrow> bytes_ok (acknowledge s B)"
proof -
  assume ok: "bytes_ok B"
  let ?P = "\<lambda>f :: frame. fst f \<le> s"
  have "bytes_of (map snd (unacknowledged B)) =
      bytes_of (map snd (takeWhile ?P (unacknowledged B))) + bytes_of (map snd (dropWhile ?P (unacknowledged B)))"
    by (metis bytes_of_simps(3) map_append takeWhile_dropWhile_id)
  moreover have "sum_list (map (byteLength \<circ> snd) fs) = bytes_of (map snd fs)" for fs :: "frame list"
    by (simp add: bytes_of_def)
  ultimately show ?thesis using ok bytes_of_nonneg [of "map snd (takeWhile ?P (unacknowledged B))"]
    by (simp add: bytes_ok_def acknowledge_def Let_def)
qed

lemma drain_bytes:
  assumes "bytes_ok (B\<lparr>queued := ms\<rparr>)" and "drain_queue accepts ms B = (ok, sent, B')"
  shows "bytes_ok B'"
  using assms
proof (induction ms arbitrary: B ok sent B')
  case (Cons m ms)
  obtain ok1 sent1 B1 where s: "send accepts m B = (ok1, sent1, B1)" by (cases "send accepts m B")
  have "send accepts m (B\<lparr>queued := m # ms\<rparr>) = (ok1, sent1, B1\<lparr>queued := m # ms\<rparr>)"
    using s by (auto simp: send_def keep_def Let_def split: if_splits)
  from send_bytes [OF Cons.prems(1) this]
  have b1: "bytes_ok (B1\<lparr>queued := m # ms\<rparr>)" by simp
  show ?case
  proof (cases ok1)
    case True
    have "bytes_ok (B1\<lparr>queuedBytes := queuedBytes B1 - byteLength m, queued := ms\<rparr>)"
      using b1 byteLength_nonneg [of m] by (auto simp: bytes_ok_def)
    then show ?thesis using Cons.IH [of "B1\<lparr>queuedBytes := queuedBytes B1 - byteLength m\<rparr>"] Cons.prems(2) s True
      by (auto simp: Let_def split: prod.splits)
  qed (use b1 Cons.prems(2) s in auto)
qed simp

lemma flush_bytes:
  assumes "bytes_ok B" and "flush accepts B = (ok, sent, B')"
  shows "bytes_ok B'"
proof -
  let ?B1 = "if peerDeduplicates B then B else B\<lparr>unacknowledged := [], unacknowledgedBytes := 0\<rparr>"
  have b1: "bytes_ok ?B1" "bytes_ok (?B1\<lparr>queued := queued ?B1\<rparr>)" using assms(1) by (auto simp: bytes_ok_def)
  obtain ok2 sent2 B2 where d: "drain_queue accepts (queued ?B1) ?B1 = (ok2, sent2, B2)" by (cases "drain_queue accepts (queued ?B1) ?B1")
  from drain_bytes [OF b1(2) d] have "bytes_ok B2" "bytes_ok (B2\<lparr>overflowReported := False\<rparr>)" by (simp_all add: bytes_ok_def)
  with b1 assms(2) d show ?thesis by (auto simp: flush_def Let_def case_prod_beta split: if_splits)
qed

datatype buffer_op = BufSend "(frame \<Rightarrow> bool) option" message | BufFlush "frame \<Rightarrow> bool" | BufAcknowledge int | BufMark | BufDrain

fun buffer_step :: "buffer_op \<Rightarrow> write_buffer \<Rightarrow> write_buffer option" where
  "buffer_step (BufSend socket m) B = Some (snd (snd (sendOrQueue socket m B)))"
| "buffer_step (BufFlush accepts) B = Some (snd (snd (flush accepts B)))"
| "buffer_step (BufAcknowledge n) B = Some (acknowledge n B)"
| "buffer_step BufMark B = Some (markPeerDeduplicates B)"
| "buffer_step BufDrain B = Some (drain B)"

lemma sendOrQueue_bytes: "bytes_ok B \<Longrightarrow> bytes_ok (snd (snd (sendOrQueue socket m B)))"
  using send_bytes [of B] buffer_bytes [of B m]
  by (cases "\<exists>accepts. socket = Some accepts \<and> \<not> hasBacklog B")
     (auto simp: sendOrQueue_def case_prod_beta Let_def split: option.splits, metis prod.collapse)

lemma buffer_step_bytes:
  assumes "bytes_ok B" and "buffer_step op B = Some B'"
  shows "bytes_ok B'"
proof (cases op)
  case (BufFlush accepts)
  then show ?thesis using assms flush_bytes by (metis buffer_step.simps(2) option.inject prod.collapse)
next
  case (BufAcknowledge n)
  then show ?thesis using assms acknowledge_bytes by auto
next
  case (BufSend socket m)
  then show ?thesis using assms sendOrQueue_bytes by auto
qed (use assms in \<open>auto simp: markPeerDeduplicates_def drain_def reset_def bytes_ok_def\<close>)

interpretation wbuf: component buffer_step bytes_ok
  by unfold_locales (rule buffer_step_bytes)

subsection \<open>Properties\<close>

text \<open>
  however long the peer is away, however few acknowledgements arrive and whichever sends throw, the
  bytes queued and the bytes kept for resending are exactly counted and never exceed their two limits.
\<close>

theorem buffer_bytes_bounded:
  assumes "B = wbuf.run ops (createFramedSocketWriteBuffer bufferBytes unackBytes)"
  shows "bytes_of (queued B) \<le> maxBytes B \<and> bytes_of (map snd (unacknowledged B)) \<le> maxUnacknowledgedBytes B \<and>
         queuedBytes B = bytes_of (queued B) \<and> unacknowledgedBytes B = bytes_of (map snd (unacknowledged B))"
proof -
  have "bytes_ok (createFramedSocketWriteBuffer bufferBytes unackBytes)"
    by (auto simp: bytes_ok_def createFramedSocketWriteBuffer_def new_buffer_def DEFAULT_MAX_BYTES_def
        DEFAULT_MAX_UNACKNOWLEDGED_BYTES_def isPositive_def Let_def split: option.splits)
  then have "bytes_ok B" unfolding assms by (rule wbuf.run_inv)
  then show ?thesis by (simp add: bytes_ok_def)
qed

theorem buffer_bytes_bounded_witness:
  "bytes_of (queued (wbuf.run [BufSend None [1, 2], BufSend None [3]] (createFramedSocketWriteBuffer (Some 2) None))) \<le> 2"
  using buffer_bytes_bounded [OF refl, of "[BufSend None [1, 2], BufSend None [3]]" "Some 2" None]
  by (simp add: createFramedSocketWriteBuffer_def new_buffer_def isPositive_def sendOrQueue_def buffer_def reportOverflow_def
      byteLength_def Let_def)

end
