(* ===== verification/MessageChannel.thy ===== *)
theory MessageChannel
  imports WriteBuffer "HOL-Library.Sublist"
begin

section \<open>Delivery over dropped sockets\<close>

text \<open>
  One direction of a session: the write buffer at one end, the inbound sequence at the other, and between
  them a socket that delivers in order and may drop at any moment, losing whatever is on its way. A socket
  that is back is \<open>Usable\<close> at once, so that messages may be submitted before the flush of its reconnection
  runs; the flush leaves it \<open>Flushed\<close>, or \<open>Stalled\<close> where one of its sends throws, after which nothing
  flushes until the next reconnection. Any send may throw. \<open>wire\<close> holds the frames on their way, \<open>ackWire\<close>
  the acknowledgements on their way back. \<open>delivered\<close> is what the receiver handed on, \<open>submitted\<close> what the
  sender's buffer took without an error, \<open>numbered\<close> the frames sent for the first time. \<open>discarded\<close> notes
  that a kept copy was given up while the peer had not accepted the message: the buffer's own limit ran
  out, or the peer had not yet shown that it drops duplicates. \<open>overtaken\<close> notes that a new message went
  out ahead of kept copies the flush had not resent: with no backlog, the buffer sends at once.
\<close>

datatype link = Down | Usable | Flushed | Stalled

record channel =
  sender :: write_buffer
  link :: link
  wire :: "frame list"
  ackWire :: "int list"
  receiver :: inbound
  delivered :: "message list"
  submitted :: "message list"
  numbered :: "frame list"
  discarded :: bool
  overtaken :: bool

definition new_channel :: "int \<Rightarrow> int \<Rightarrow> channel" where
  "new_channel maxB maxU =
     \<lparr>sender = new_buffer maxB maxU, link = Down, wire = [], ackWire = [], receiver = new_inbound,
      delivered = [], submitted = [], numbered = [], discarded = False, overtaken = False\<rparr>"

datatype channel_op =
    Submit "frame \<Rightarrow> bool" message
  | Arrive
  | AckArrive
  | AckTimer
  | PeerNumbers
  | Disconnect
  | Reconnect
  | Flush "frame \<Rightarrow> bool"

text \<open>A copy is missing when a frame sent and not accepted is no longer kept.\<close>

definition copies_missing :: "channel \<Rightarrow> bool" where
  "copies_missing C \<longleftrightarrow>
     list_ex (\<lambda>f. lastAccepted (receiver C) < fst f \<and> f \<notin> set (unacknowledged (sender C))) (numbered C)"

definition note_discards :: "channel \<Rightarrow> channel" where
  "note_discards C = C\<lparr>discarded := discarded C \<or> copies_missing C\<rparr>"

fun channel_step :: "channel_op \<Rightarrow> channel \<Rightarrow> channel option" where
  "channel_step (Submit accepts m) C =
     (let (ok, sent, B) = sendOrQueue (if link C = Down then None else Some accepts) m (sender C)
      in Some (note_discards
           (C\<lparr>sender := B, wire := wire C @ sent, numbered := numbered C @ sent,
              submitted := (if ok then submitted C @ [m] else submitted C),
              overtaken := overtaken C \<or> sent \<noteq> [] \<and> link C \<noteq> Flushed \<and> unacknowledged (sender C) \<noteq> []\<rparr>)))"
| "channel_step Arrive C =
     (case wire C of
        [] \<Rightarrow> None
      | (n, m) # rest \<Rightarrow>
          (let (isNew, acks, I) = accept (Some n) (byteLength m) (receiver C)
           in Some (C\<lparr>wire := rest, receiver := I, ackWire := ackWire C @ acks,
                      delivered := (if isNew then delivered C @ [m] else delivered C)\<rparr>)))"
| "channel_step AckArrive C =
     (case ackWire C of
        [] \<Rightarrow> None
      | n # rest \<Rightarrow> Some (C\<lparr>ackWire := rest, sender := acknowledge n (sender C)\<rparr>))"
| "channel_step AckTimer C =
     (case ackTimerFires (receiver C) of
        None \<Rightarrow> None
      | Some (acks, I) \<Rightarrow> Some (C\<lparr>receiver := I, ackWire := (if link C = Down then ackWire C else ackWire C @ acks)\<rparr>))"
| "channel_step PeerNumbers C = Some (C\<lparr>sender := markPeerDeduplicates (sender C)\<rparr>)"
| "channel_step Disconnect C = Some (C\<lparr>link := Down, wire := [], ackWire := []\<rparr>)"
| "channel_step Reconnect C = (if link C = Down then Some (C\<lparr>link := Usable\<rparr>) else None)"
| "channel_step (Flush accepts) C =
     (if link C \<noteq> Usable then None
      else (let (ok, sent, B) = flush accepts (sender C)
            in Some (note_discards
                 (C\<lparr>sender := B, link := (if ok then Flushed else Stalled), wire := wire C @ sent,
                    numbered := numbered C @ filter (\<lambda>f. nextSequence (sender C) \<le> fst f) sent\<rparr>))))"

subsection \<open>Numbered frames\<close>

definition numbers_ok :: "frame list \<Rightarrow> bool" where
  "numbers_ok fs \<longleftrightarrow> sorted_wrt (\<lambda>f g. fst f < fst g) fs"

lemma numbers_ok_append:
  "numbers_ok (xs @ ys) \<longleftrightarrow> numbers_ok xs \<and> numbers_ok ys \<and> (\<forall>f \<in> set xs. \<forall>g \<in> set ys. fst f < fst g)"
  by (simp add: numbers_ok_def sorted_wrt_append)

lemma numbers_ok_subseq:
  assumes "numbers_ok xs" and "numbers_ok ys" and "set xs \<subseteq> set ys"
  shows "subseq xs ys"
  using assms
proof (induction ys arbitrary: xs)
  case (Cons y ys)
  show ?case
  proof (cases xs)
    case (Cons x xs')
    show ?thesis
    proof (cases "x = y")
      case True
      have "set xs' \<subseteq> set ys" using Cons.prems \<open>xs = x # xs'\<close> True by (auto simp: numbers_ok_def)
      then show ?thesis using Cons.IH [of xs'] Cons.prems \<open>xs = x # xs'\<close> True by (simp add: numbers_ok_def)
    next
      case False
      then have "fst y < fst x" using Cons.prems \<open>xs = x # xs'\<close> by (auto simp: numbers_ok_def)
      then have "y \<notin> set xs" using Cons.prems(1) \<open>xs = x # xs'\<close> by (auto simp: numbers_ok_def)
      then have "set xs \<subseteq> set ys" using Cons.prems(3) by auto
      then show ?thesis using Cons.IH [of xs] Cons.prems by (simp add: numbers_ok_def list_emb_Cons)
    qed
  qed simp
qed simp

text \<open>The frames a receiver that accepted \<open>l\<close> accepts of those that arrive.\<close>

fun accepted :: "int \<Rightarrow> frame list \<Rightarrow> frame list" where
  "accepted l [] = []"
| "accepted l (f # fs) = (if l < fst f then f # accepted (fst f) fs else accepted l fs)"

abbreviation after_number :: "int \<Rightarrow> frame list \<Rightarrow> frame list" where
  "after_number l fs \<equiv> filter (\<lambda>f. l < fst f) fs"

lemma accepted_above: "f \<in> set (accepted l fs) \<Longrightarrow> l < fst f \<and> f \<in> set fs"
  by (induction l fs rule: accepted.induct) (auto split: if_splits)

lemma accepted_sorted: "numbers_ok fs \<Longrightarrow> accepted l fs = after_number l fs"
proof (induction l fs rule: accepted.induct)
  case (2 l f fs)
  then have "after_number (fst f) fs = after_number l fs" if "l < fst f"
    using that by (intro filter_cong) (auto simp: numbers_ok_def)
  then show ?case using 2 by (simp add: numbers_ok_def)
qed simp

lemma accepted_append:
  "accepted l (xs @ ys) = accepted l xs @ accepted (if accepted l xs = [] then l else fst (last (accepted l xs))) ys"
proof (induction l xs rule: accepted.induct)
  case (2 l f fs)
  then show ?case by (cases "accepted (fst f) fs = []") auto
qed simp

text \<open>Accepting a prefix of what comes after \<open>l\<close>, then being sent all of it in order, accepts all of it.\<close>

lemma accepted_resent:
  assumes "numbers_ok N" and "prefix (accepted l xs) (after_number l N)" and "prefix ys zs" and "suffix zs N"
    and "after_number l zs = after_number l N"
  shows "prefix (accepted l (xs @ ys)) (after_number l N)" "ys = zs \<Longrightarrow> accepted l (xs @ ys) = after_number l N"
proof -
  define k where "k = (if accepted l xs = [] then l else fst (last (accepted l xs)))"
  obtain rest where rest: "after_number l N = accepted l xs @ rest" using assms(2) by (auto simp: prefix_def)
  have num: "numbers_ok (accepted l xs @ rest)"
    using assms(1) unfolding rest [symmetric] numbers_ok_def by (rule sorted_wrt_filter)
  have k: "l \<le> k" using accepted_above [of "last (accepted l xs)" l xs] by (auto simp: k_def dest: last_in_set)
  have zs: "numbers_ok zs" using assms(1,4) by (auto simp: suffix_def numbers_ok_append)
  obtain ws where ws: "zs = ys @ ws" using assms(3) by (auto simp: prefix_def)
  have upto: "fst f \<le> k" if "f \<in> set (accepted l xs)" for f
  proof -
    have "accepted l xs \<noteq> []" using that by auto
    then obtain us x where us: "accepted l xs = us @ [x]" by (metis append_butlast_last_id)
    then show ?thesis using that num by (auto simp: numbers_ok_append k_def)
  qed
  have above: "k < fst f" if f: "f \<in> set rest" for f
  proof (cases "accepted l xs = []")
    case True
    have "f \<in> set (after_number l N)" using f by (simp add: rest)
    then show ?thesis using True by (simp add: k_def)
  next
    case False
    then show ?thesis using f num last_in_set [OF False] by (auto simp: numbers_ok_append k_def)
  qed
  have "after_number k (accepted l xs) = []" using upto by (fastforce simp: filter_empty_conv)
  moreover have "after_number k rest = rest" using above by (simp add: filter_id_conv)
  ultimately have "after_number k (after_number l N) = rest" by (simp add: rest)
  moreover have "after_number k (after_number l zs) = after_number k zs"
    using k unfolding filter_filter by (intro filter_cong) auto
  ultimately have "after_number k zs = rest" using assms(5) by simp
  then have r: "rest = accepted k ys @ after_number k ws"
    using ws zs accepted_sorted [of ys k] by (simp add: numbers_ok_append)
  have all: "accepted l (xs @ ys) = accepted l xs @ accepted k ys" by (simp add: accepted_append k_def)
  show "prefix (accepted l (xs @ ys)) (after_number l N)" by (simp add: all rest r)
  show "accepted l (xs @ ys) = after_number l N" if "ys = zs" using that ws by (simp add: all rest r)
qed

subsection \<open>What the buffer sends\<close>

definition numbers_from :: "write_buffer \<Rightarrow> frame list \<Rightarrow> write_buffer \<Rightarrow> bool" where
  "numbers_from B fs B' \<longleftrightarrow>
     nextSequence B \<le> nextSequence B' \<and> numbers_ok fs \<and> (\<forall>f \<in> set fs. nextSequence B \<le> fst f \<and> fst f < nextSequence B')"

lemma send_numbers:
  assumes "send accepts m B = (ok, sent, B')"
  shows "numbers_from B sent B' \<and> queued B' = queued B \<and> map snd sent = (if ok then [m] else []) \<and>
         suffix (unacknowledged B') (unacknowledged B @ sent)"
  using assms by (auto simp: send_def keep_def numbers_from_def numbers_ok_def Let_def split: if_splits)

lemma drain_numbers:
  assumes "drain_queue accepts qs B = (ok, sent, B')"
  shows "numbers_from B sent B' \<and> qs = map snd sent @ queued B' \<and> (ok \<longrightarrow> queued B' = []) \<and>
         suffix (unacknowledged B') (unacknowledged B @ sent)"
  using assms
proof (induction qs arbitrary: B ok sent B')
  case Nil
  then show ?case by (auto simp: numbers_from_def numbers_ok_def)
next
  case (Cons q qs)
  obtain ok1 sent1 B1 where s: "send accepts q B = (ok1, sent1, B1)" by (cases "send accepts q B")
  note one = send_numbers [OF s]
  show ?case
  proof (cases ok1)
    case False
    then show ?thesis using Cons.prems s one by (auto simp: numbers_from_def)
  next
    case True
    let ?B1 = "B1\<lparr>queuedBytes := queuedBytes B1 - byteLength q\<rparr>"
    obtain ok2 sent2 B2 where d: "drain_queue accepts qs ?B1 = (ok2, sent2, B2)" by (cases "drain_queue accepts qs ?B1")
    note rest = Cons.IH [OF d]
    have r: "ok = ok2" "sent = sent1 @ sent2" "B' = B2" using Cons.prems s d True by simp_all
    have "suffix (unacknowledged B1 @ sent2) ((unacknowledged B @ sent1) @ sent2)"
      using one by (auto simp: suffix_def)
    then have "suffix (unacknowledged B2) (unacknowledged B @ sent)"
      using rest r by (auto intro: suffix_order.order_trans)
    moreover have "numbers_from B sent B2"
      using one rest by (fastforce simp: numbers_from_def numbers_ok_append r)
    ultimately show ?thesis using one rest True r by simp
  qed
qed

lemma resend_prefix: "resend accepts fs = (ok, sent) \<Longrightarrow> prefix sent fs \<and> (ok \<longrightarrow> sent = fs)"
  by (induction fs arbitrary: ok sent) (auto split: if_splits prod.splits)

definition copies :: "write_buffer \<Rightarrow> frame list" where
  "copies B = (if peerDeduplicates B then unacknowledged B else [])"

lemma flush_numbers:
  assumes "flush accepts B = (ok, sent, B')"
  obtains resent new where "sent = resent @ new" "prefix resent (copies B)" "ok \<or> new \<noteq> [] \<longrightarrow> resent = copies B"
    "numbers_from B new B'" "queued B = map snd new @ queued B'" "ok \<longrightarrow> queued B' = []"
    "suffix (unacknowledged B') (copies B @ new)"
proof -
  define B1 where "B1 = (if peerDeduplicates B then B else B\<lparr>unacknowledged := [], unacknowledgedBytes := 0\<rparr>)"
  have b1: "queued B1 = queued B" "nextSequence B1 = nextSequence B" "unacknowledged B1 = copies B"
    by (simp_all add: B1_def copies_def)
  obtain ok1 resent where r: "(if peerDeduplicates B then resend accepts (unacknowledged B) else (True, [])) = (ok1, resent)"
    by (cases "if peerDeduplicates B then resend accepts (unacknowledged B) else (True, [])")
  then have pre: "prefix resent (copies B)" "ok1 \<Longrightarrow> resent = copies B"
    using resend_prefix [of accepts "unacknowledged B" ok1 resent] by (auto simp: copies_def split: if_splits)
  have same: "numbers_from B [] B1" by (simp add: numbers_from_def numbers_ok_def b1)
  obtain ok2 sent2 B2 where d: "drain_queue accepts (queued B1) B1 = (ok2, sent2, B2)" by (cases "drain_queue accepts (queued B1) B1")
  note dr = drain_numbers [OF d]
  consider (thrown) "\<not> ok1" "ok = False" "sent = resent" "B' = B1"
    | (empty) ok1 "queued B = []" "ok = True" "sent = resent" "B' = B1"
    | (drained) ok1 "ok = ok2" "sent = resent @ sent2" "B' = (if ok2 then B2\<lparr>overflowReported := False\<rparr> else B2)"
    using assms r d unfolding flush_def B1_def [symmetric]
    by (cases ok1; cases "queued B1 = []") (auto simp: b1 Let_def)
  then show thesis
  proof cases
    case thrown
    show thesis by (rule that [of resent "[]"]) (use thrown pre same b1 in auto)
  next
    case empty
    show thesis by (rule that [of resent "[]"]) (use empty pre same b1 in auto)
  next
    case drained
    have "queued B' = queued B2" "nextSequence B' = nextSequence B2" "unacknowledged B' = unacknowledged B2"
      by (simp_all add: drained(4))
    then show thesis
      by (intro that [of resent sent2]) (use drained pre dr b1 in \<open>auto simp: numbers_from_def\<close>)
  qed
qed

subsection \<open>The invariant of the channel\<close>

text \<open>
  The messages numbered, then those queued, are what was submitted. What the sender keeps is the end of
  what was numbered; everything on the wire and everything delivered was numbered, and was delivered in
  the order of the numbers.
\<close>

definition channel_order :: "channel \<Rightarrow> bool" where
  "channel_order C \<longleftrightarrow>
     numbers_ok (numbered C) \<and> (\<forall>f \<in> set (numbered C). 1 \<le> fst f \<and> fst f < nextSequence (sender C)) \<and>
     1 \<le> nextSequence (sender C) \<and>
     submitted C = map snd (numbered C) @ queued (sender C) \<and> (link C = Flushed \<longrightarrow> queued (sender C) = []) \<and>
     suffix (unacknowledged (sender C)) (numbered C) \<and> set (wire C) \<subseteq> set (numbered C) \<and>
     (link C = Down \<longrightarrow> wire C = [] \<and> ackWire C = []) \<and>
     0 \<le> lastAccepted (receiver C) \<and> lastAccepted (receiver C) < nextSequence (sender C) \<and>
     (\<forall>n \<in> set (ackWire C). n \<le> lastAccepted (receiver C)) \<and>
     (\<exists>D. delivered C = map snd D \<and> numbers_ok D \<and> set D \<subseteq> set (numbered C) \<and>
          (\<forall>f \<in> set D. fst f \<le> lastAccepted (receiver C)))"

text \<open>
  Unless copies were given up or overtaken: what was delivered are the messages up to the last number
  accepted, the later ones are all kept, and what is on the wire will be accepted without a gap, up to
  the last one where the flush of this socket is through.
\<close>

definition channel_whole :: "channel \<Rightarrow> bool" where
  "channel_whole C \<longleftrightarrow>
     (let l = lastAccepted (receiver C)
      in delivered C = map snd (filter (\<lambda>f. fst f \<le> l) (numbered C)) \<and>
         set (after_number l (numbered C)) \<subseteq> set (unacknowledged (sender C)) \<and>
         prefix (accepted l (wire C)) (after_number l (numbered C)) \<and>
         (link C = Flushed \<longrightarrow> accepted l (wire C) = after_number l (numbered C)))"

definition channel_ok :: "channel \<Rightarrow> bool" where
  "channel_ok C \<longleftrightarrow> channel_order C \<and> (\<not> discarded C \<longrightarrow> \<not> overtaken C \<longrightarrow> channel_whole C)"

lemma channel_okI:
  "channel_order C \<Longrightarrow> (\<not> discarded C \<Longrightarrow> \<not> overtaken C \<Longrightarrow> channel_whole C) \<Longrightarrow> channel_ok C"
  by (simp add: channel_ok_def)

lemma new_channel_ok: "channel_ok (new_channel maxB maxU)"
  by (simp add: channel_ok_def channel_order_def channel_whole_def new_channel_def new_buffer_def new_inbound_def numbers_ok_def)

lemma copies_kept:
  "\<not> copies_missing C \<longleftrightarrow> set (after_number (lastAccepted (receiver C)) (numbered C)) \<subseteq> set (unacknowledged (sender C))"
  by (auto simp: copies_missing_def list_ex_iff)

lemma note_discards_ok:
  assumes "channel_order C" and "\<not> discarded C \<Longrightarrow> \<not> overtaken C \<Longrightarrow> \<not> copies_missing C \<Longrightarrow> channel_whole C"
  shows "channel_ok (note_discards C)"
  using assms by (auto simp: channel_ok_def note_discards_def channel_order_def channel_whole_def)

lemma buffer_result: "fst (buffer m B) \<Longrightarrow> queued (snd (buffer m B)) = queued B @ [m]"
  "\<not> fst (buffer m B) \<Longrightarrow> queued (snd (buffer m B)) = queued B"
  "nextSequence (snd (buffer m B)) = nextSequence B" "unacknowledged (snd (buffer m B)) = unacknowledged B"
  by (auto simp: buffer_def reportOverflow_def split: if_splits)

text \<open>More frames numbered and sent, after \<open>resent\<close> copies.\<close>

lemma numbered_more:
  assumes "channel_order C" and "numbers_from (sender C) new B'" and "set resent \<subseteq> set (numbered C)"
    and "submitted C' = map snd (numbered C @ new) @ queued B'" and "suffix (unacknowledged B') (numbered C @ new)"
    and "sender C' = B'" and "link C' \<noteq> Down \<or> link C = Down \<and> resent @ new = []" and "link C' = Flushed \<Longrightarrow> queued B' = []"
    and "wire C' = wire C @ resent @ new" and "ackWire C' = ackWire C" and "numbered C' = numbered C @ new"
    and "receiver C' = receiver C" and "delivered C' = delivered C"
  shows "channel_order C'"
proof -
  obtain D where D: "delivered C = map snd D" "numbers_ok D" "set D \<subseteq> set (numbered C)"
    "\<forall>f \<in> set D. fst f \<le> lastAccepted (receiver C)" using assms(1) by (auto simp: channel_order_def)
  have "\<exists>D. delivered C' = map snd D \<and> numbers_ok D \<and> set D \<subseteq> set (numbered C') \<and>
      (\<forall>f \<in> set D. fst f \<le> lastAccepted (receiver C'))"
    using D assms(11-13) by (intro exI [of _ D]) auto
  moreover have "numbers_ok (numbered C')"
    using assms(1,2,11) by (fastforce simp: channel_order_def numbers_from_def numbers_ok_append)
  moreover have "1 \<le> fst f \<and> fst f < nextSequence (sender C')" if "f \<in> set (numbered C')" for f
    using assms(1,2,6,11) that by (fastforce simp: channel_order_def numbers_from_def)
  ultimately show ?thesis using assms unfolding channel_order_def numbers_from_def by auto
qed

text \<open>A new frame sent last is accepted last.\<close>

lemma accepted_snoc_new:
  assumes "numbers_ok new" and "\<forall>f \<in> set new. l < fst f" and "\<forall>f \<in> set xs. \<forall>g \<in> set new. fst f < fst g"
  shows "accepted l (xs @ new) = accepted l xs @ new"
proof -
  let ?k = "if accepted l xs = [] then l else fst (last (accepted l xs))"
  have "?k < fst g" if "g \<in> set new" for g
    using that assms(2,3) accepted_above [OF last_in_set, of l xs] by auto
  then have "after_number ?k new = new" by (auto simp: filter_id_conv)
  then show ?thesis by (simp only: accepted_append accepted_sorted [OF assms(1)])
qed

lemma order_bounds:
  assumes "channel_order C"
  shows "lastAccepted (receiver C) < nextSequence (sender C)"
    and "\<And>f. f \<in> set (numbered C) \<or> f \<in> set (wire C) \<Longrightarrow> 1 \<le> fst f \<and> fst f < nextSequence (sender C)"
  using assms by (auto simp: channel_order_def)

lemma submit_ok:
  assumes "channel_ok C" and "channel_step (Submit accepts m) C = Some C'"
  shows "channel_ok C'"
proof -
  have ord: "channel_order C" using assms(1) by (simp add: channel_ok_def)
  let ?socket = "if link C = Down then None else Some accepts"
  obtain taken sent B where s: "sendOrQueue ?socket m (sender C) = (taken, sent, B)" by (cases "sendOrQueue ?socket m (sender C)")
  define C1 where "C1 = C\<lparr>sender := B, wire := wire C @ sent, numbered := numbered C @ sent,
      submitted := (if taken then submitted C @ [m] else submitted C),
      overtaken := overtaken C \<or> sent \<noteq> [] \<and> link C \<noteq> Flushed \<and> unacknowledged (sender C) \<noteq> []\<rparr>"
  have C': "C' = note_discards C1" using assms(2) s by (simp add: C1_def)
  let ?l = "lastAccepted (receiver C)"
  show ?thesis
  proof (cases "link C \<noteq> Down \<and> queued (sender C) = []")
    case False
    then have b: "taken = fst (buffer m (sender C))" "sent = []" "B = snd (buffer m (sender C))"
      using s by (auto simp: sendOrQueue_def hasBacklog_def case_prod_beta Let_def split: if_splits)
    have fl: "link C \<noteq> Flushed" using False ord by (auto simp: channel_order_def)
    have "channel_order C1"
      using numbered_more [OF ord, of "[]" B "[]" C1] ord b fl
      by (auto simp: C1_def channel_order_def numbers_from_def numbers_ok_def buffer_result)
    moreover have "channel_whole C1" if "\<not> discarded C1" "\<not> overtaken C1"
      using that assms(1) b by (auto simp: C1_def channel_ok_def channel_whole_def buffer_result)
    ultimately show ?thesis unfolding C' by (rule note_discards_ok)
  next
    case True
    then have "send accepts m (sender C) = (taken, sent, B)"
      using s by (simp add: sendOrQueue_def hasBacklog_def)
    note new = send_numbers [OF this]
    have suf: "suffix (unacknowledged B) (numbered C @ sent)"
      using new ord by (auto simp: channel_order_def suffix_def)
    have "channel_order C1"
      using numbered_more [OF ord, of sent B "[]" C1] ord new suf True by (simp add: C1_def channel_order_def)
    moreover have "channel_whole C1" if "\<not> discarded C1" "\<not> overtaken C1" "\<not> copies_missing C1"
    proof -
      have w: "channel_whole C" and up: "sent = [] \<or> link C = Flushed \<or> unacknowledged (sender C) = []"
        using that(1,2) assms(1) by (auto simp: C1_def channel_ok_def)
      have above: "\<forall>f \<in> set sent. ?l < fst f" "\<forall>f \<in> set (wire C). \<forall>g \<in> set sent. fst f < fst g"
        using new order_bounds [OF ord] by (fastforce simp: numbers_from_def)+
      have acc: "accepted ?l (wire C @ sent) = accepted ?l (wire C) @ sent"
        using new above by (intro accepted_snoc_new) (simp_all add: numbers_from_def)
      have old: "filter (\<lambda>f. fst f \<le> ?l) sent = []" "after_number ?l sent = sent"
        using above(1) by (fastforce simp: filter_empty_conv filter_id_conv)+
      have "after_number ?l (numbered C) = []" if "unacknowledged (sender C) = []"
        using w that unfolding channel_whole_def Let_def by (metis set_empty2 subset_empty set_empty)
      then have "sent = [] \<or> accepted ?l (wire C) = after_number ?l (numbered C)"
        using w up by (auto simp: channel_whole_def Let_def)
      then show ?thesis
        using w that(3) acc old copies_kept [of C1] by (auto simp: channel_whole_def C1_def Let_def)
    qed
    ultimately show ?thesis unfolding C' by (rule note_discards_ok)
  qed
qed

lemma after_suffix:
  assumes "numbers_ok N" and "suffix us N" and "set (after_number l N) \<subseteq> set us"
  shows "after_number l us = after_number l N"
proof -
  obtain vs where N: "N = vs @ us" using assms(2) by (auto simp: suffix_def)
  have "f \<notin> set us" if "f \<in> set vs" for f using assms(1) that by (auto simp: N numbers_ok_append)
  then have "after_number l vs = []" using assms(3) by (auto simp: N filter_empty_conv)
  then show ?thesis by (simp add: N)
qed

lemma flush_ok:
  assumes "channel_ok C" and "channel_step (Flush accepts) C = Some C'"
  shows "channel_ok C'"
proof -
  have ord: "channel_order C" and usable: "link C = Usable"
    using assms by (auto simp: channel_ok_def split: if_splits)
  obtain through sent B where fl: "flush accepts (sender C) = (through, sent, B)" by (cases "flush accepts (sender C)")
  obtain resent new where sent: "sent = resent @ new" and pre: "prefix resent (copies (sender C))"
    and whole: "through \<or> new \<noteq> [] \<longrightarrow> resent = copies (sender C)" and num: "numbers_from (sender C) new B"
    and q: "queued (sender C) = map snd new @ queued B" "through \<longrightarrow> queued B = []"
    and suf: "suffix (unacknowledged B) (copies (sender C) @ new)"
    using flush_numbers [OF fl] by blast
  have cs: "suffix (copies (sender C)) (numbered C)" using ord by (simp add: copies_def channel_order_def)
  then have resent: "set resent \<subseteq> set (numbered C)"
    using set_mono_suffix [OF cs] set_mono_prefix [OF pre] by blast
  let ?n = "nextSequence (sender C)" and ?l = "lastAccepted (receiver C)"
  have below: "fst f < ?n" if "f \<in> set resent" for f using that resent order_bounds(2) [OF ord] by blast
  have "filter (\<lambda>f. ?n \<le> fst f) resent = []" using below by (fastforce simp: filter_empty_conv)
  moreover have "filter (\<lambda>f. ?n \<le> fst f) new = new" using num by (simp add: numbers_from_def filter_id_conv)
  ultimately have split: "filter (\<lambda>f. ?n \<le> fst f) sent = new" by (simp add: sent)
  define C1 where "C1 = C\<lparr>sender := B, link := (if through then Flushed else Stalled), wire := wire C @ sent,
      numbered := numbered C @ new\<rparr>"
  have C': "C' = note_discards C1" using assms(2) usable fl split by (simp add: C1_def)
  have suf': "suffix (unacknowledged B) (numbered C @ new)"
    using suf cs by (auto simp: suffix_def intro: append_assoc)
  have "channel_order C1"
    by (rule numbered_more [OF ord num resent]) (use ord q suf' in \<open>auto simp: C1_def sent channel_order_def\<close>)
  moreover have "channel_whole C1" if "\<not> discarded C1" "\<not> overtaken C1" "\<not> copies_missing C1"
  proof -
    have w: "channel_whole C" using that(1,2) assms(1) by (simp add: C1_def channel_ok_def)
    have N: "numbers_ok (numbered C)" using ord by (simp add: channel_order_def)
    have kept: "set (after_number ?l (numbered C @ new)) \<subseteq> set (unacknowledged B)"
      using that(3) copies_kept [of C1] by (simp add: C1_def)
    have above: "\<forall>f \<in> set new. ?l < fst f" "\<forall>f \<in> set (wire C @ resent). \<forall>g \<in> set new. fst f < fst g"
      using num order_bounds [OF ord] below by (fastforce simp: numbers_from_def)+
    have "set (after_number ?l (numbered C)) \<subseteq> set (copies (sender C))"
    proof
      fix f assume f: "f \<in> set (after_number ?l (numbered C))"
      then have "f \<in> set (copies (sender C) @ new)" using kept set_mono_suffix [OF suf] by auto
      moreover have "f \<notin> set new" using f num order_bounds(2) [OF ord, of f] by (auto simp: numbers_from_def)
      ultimately show "f \<in> set (copies (sender C))" by simp
    qed
    then have cp: "after_number ?l (copies (sender C)) = after_number ?l (numbered C)"
      by (rule after_suffix [OF N cs])
    have "prefix (accepted ?l (wire C)) (after_number ?l (numbered C))" using w by (simp add: channel_whole_def Let_def)
    note re = accepted_resent [OF N this pre cs cp]
    have acc: "accepted ?l (wire C @ sent) = accepted ?l (wire C @ resent) @ new"
      using accepted_snoc_new [of new ?l "wire C @ resent"] num above by (simp add: sent numbers_from_def)
    have old: "filter (\<lambda>f. fst f \<le> ?l) new = []" "after_number ?l new = new"
      using above(1) by (fastforce simp: filter_empty_conv filter_id_conv)+
    have "prefix (accepted ?l (wire C @ sent)) (after_number ?l (numbered C @ new))"
      using acc re whole old by (cases "new = []") auto
    moreover have "accepted ?l (wire C @ sent) = after_number ?l (numbered C @ new)" if through
      using acc re whole old that by simp
    moreover have "delivered C = map snd (filter (\<lambda>f. fst f \<le> ?l) (numbered C @ new))"
      using w old by (simp add: channel_whole_def Let_def)
    ultimately show ?thesis using kept unfolding channel_whole_def Let_def by (simp add: C1_def)
  qed
  ultimately show ?thesis unfolding C' by (rule note_discards_ok)
qed

lemma accept_result:
  assumes "accept (Some n) bytes I = (isNew, acks, I')"
  shows "isNew \<longleftrightarrow> lastAccepted I < n" "lastAccepted I' = (if lastAccepted I < n then n else lastAccepted I)"
    "set acks \<subseteq> {lastAccepted I'}"
  using assms by (auto simp: accept_def inbound_acknowledge_def Let_def split: if_splits)

lemma next_number:
  assumes "numbers_ok N" and "after_number l N = f # fs"
  shows "after_number (fst f) N = fs \<and> filter (\<lambda>g. fst g \<le> fst f) N = filter (\<lambda>g. fst g \<le> l) N @ [f]"
  using assms
proof (induction N)
  case (Cons g N)
  show ?case
  proof (cases "l < fst g")
    case True
    then have "g = f" "after_number l N = fs" using Cons.prems(2) by simp_all
    moreover have "\<forall>h \<in> set N. fst g < fst h \<and> l < fst h" using Cons.prems(1) True by (auto simp: numbers_ok_def)
    ultimately show ?thesis using True by (auto simp: filter_id_conv filter_empty_conv not_le)
  next
    case False
    then have t: "after_number l N = f # fs" "numbers_ok N" using Cons.prems by (simp_all add: numbers_ok_def)
    then have "f \<in> set N" "l < fst f" by (auto simp: filter_eq_Cons_iff)
    then show ?thesis using Cons.IH t False by simp
  qed
qed simp

lemma arrive_ok:
  assumes "channel_ok C" and "channel_step Arrive C = Some C'"
  shows "channel_ok C'"
proof -
  have ord: "channel_order C" using assms(1) by (simp add: channel_ok_def)
  let ?l = "lastAccepted (receiver C)"
  obtain n m rest where w: "wire C = (n, m) # rest" using assms(2) by (auto split: list.splits)
  obtain isNew acks I where ac: "accept (Some n) (byteLength m) (receiver C) = (isNew, acks, I)"
    by (cases "accept (Some n) (byteLength m) (receiver C)")
  note r = accept_result [OF ac]
  have C': "C' = C\<lparr>wire := rest, receiver := I, ackWire := ackWire C @ acks,
      delivered := (if isNew then delivered C @ [m] else delivered C)\<rparr>"
    using assms(2) w ac by simp
  have b: "n < nextSequence (sender C)" "1 \<le> n" "(n, m) \<in> set (numbered C)" "link C \<noteq> Down"
    using ord w by (auto simp: channel_order_def)
  obtain D where D: "delivered C = map snd D" "numbers_ok D" "set D \<subseteq> set (numbered C)" "\<forall>f \<in> set D. fst f \<le> ?l"
    using ord by (auto simp: channel_order_def)
  let ?D = "if isNew then D @ [(n, m)] else D"
  have "numbers_ok ?D" using D b r by (auto simp: numbers_ok_append) (simp_all add: numbers_ok_def)
  moreover have "delivered C' = map snd ?D" "set ?D \<subseteq> set (numbered C)" "\<forall>f \<in> set ?D. fst f \<le> lastAccepted I"
    using D b r by (auto simp: C')
  ultimately have "\<exists>D. delivered C' = map snd D \<and> numbers_ok D \<and> set D \<subseteq> set (numbered C') \<and>
      (\<forall>f \<in> set D. fst f \<le> lastAccepted (receiver C'))"
    by (intro exI [of _ ?D]) (simp add: C')
  then have "channel_order C'"
    using ord w b r unfolding channel_order_def by (auto simp: C')
  moreover have "channel_whole C'" if "\<not> discarded C'" "\<not> overtaken C'"
  proof -
    have wh: "channel_whole C" using assms(1) that by (simp add: C' channel_ok_def)
    show ?thesis
    proof (cases "?l < n")
      case False
      then show ?thesis using wh w r by (simp add: channel_whole_def C' Let_def)
    next
      case True
      then have pre: "prefix ((n, m) # accepted n rest) (after_number ?l (numbered C))"
        using wh w by (simp add: channel_whole_def Let_def)
      then obtain fs where fs: "after_number ?l (numbered C) = (n, m) # fs" "prefix (accepted n rest) fs"
        by (auto simp: prefix_def)
      have nx: "after_number n (numbered C) = fs"
        "filter (\<lambda>g. fst g \<le> n) (numbered C) = filter (\<lambda>g. fst g \<le> ?l) (numbered C) @ [(n, m)]"
        using next_number [of "numbered C" ?l "(n, m)" fs] ord fs(1) by (auto simp: channel_order_def)
      have "set fs \<subseteq> set (unacknowledged (sender C))" "link C = Flushed \<longrightarrow> accepted n rest = fs"
        "delivered C = map snd (filter (\<lambda>g. fst g \<le> ?l) (numbered C))"
        using wh w True unfolding channel_whole_def Let_def by (auto simp: fs(1))
      then show ?thesis using True r nx fs(2) unfolding channel_whole_def Let_def by (simp add: C')
    qed
  qed
  ultimately show ?thesis by (rule channel_okI)
qed

lemma acknowledge_suffix:
  "suffix (unacknowledged (acknowledge s B)) (unacknowledged B) \<and> queued (acknowledge s B) = queued B \<and>
   nextSequence (acknowledge s B) = nextSequence B"
  by (auto simp: acknowledge_def Let_def suffix_dropWhile)

lemma acknowledge_later:
  assumes "f \<in> set (unacknowledged B)" and "s < fst f"
  shows "f \<in> set (unacknowledged (acknowledge s B))"
proof -
  have "f \<in> set (dropWhile (\<lambda>g. fst g \<le> s) fs)" if "f \<in> set fs" for fs using that assms(2) by (induction fs) auto
  then show ?thesis using assms(1) by (simp add: acknowledge_def Let_def)
qed

lemma ack_steps_ok:
  assumes "channel_ok C" and "channel_step op C = Some C'" and "op \<in> {AckArrive, AckTimer, PeerNumbers, Disconnect, Reconnect}"
  shows "channel_ok C'"
proof -
  have ord: "channel_order C" using assms(1) by (simp add: channel_ok_def)
  consider (ack) n rest where "ackWire C = n # rest" "C' = C\<lparr>ackWire := rest, sender := acknowledge n (sender C)\<rparr>"
    | (timer) "C' = C\<lparr>receiver := snd (inbound_acknowledge (receiver C)),
        ackWire := (if link C = Down then ackWire C else ackWire C @ [lastAccepted (receiver C)])\<rparr>"
    | (peer) "C' = C\<lparr>sender := markPeerDeduplicates (sender C)\<rparr>"
    | (off) "C' = C\<lparr>link := Down, wire := [], ackWire := []\<rparr>"
    | (on) "link C = Down" "C' = C\<lparr>link := Usable\<rparr>"
    using assms(2,3) by (auto simp: ackTimerFires_def inbound_acknowledge_def split: list.splits if_splits)
  then show ?thesis
  proof cases
    case ack
    have n: "n \<le> lastAccepted (receiver C)" using ord ack(1) by (auto simp: channel_order_def)
    have "channel_order C'"
      using ord ack acknowledge_suffix [of n "sender C"]
      by (auto simp: channel_order_def intro: suffix_order.order_trans)
    moreover have "f \<in> set (unacknowledged (acknowledge n (sender C)))"
      if "f \<in> set (unacknowledged (sender C))" "lastAccepted (receiver C) < fst f" for f
      using acknowledge_later [OF that(1), of n] that(2) n by simp
    ultimately show ?thesis
      using assms(1) ack by (intro channel_okI) (auto simp: channel_ok_def channel_whole_def Let_def)
  next
    case timer
    then show ?thesis using assms(1)
      by (auto simp: channel_ok_def channel_order_def channel_whole_def inbound_acknowledge_def Let_def)
  next
    case peer
    then show ?thesis using assms(1)
      by (auto simp: channel_ok_def channel_order_def channel_whole_def markPeerDeduplicates_def Let_def)
  next
    case off
    then show ?thesis using assms(1) by (auto simp: channel_ok_def channel_order_def channel_whole_def Let_def)
  next
    case on
    then show ?thesis using assms(1) by (auto simp: channel_ok_def channel_order_def channel_whole_def Let_def)
  qed
qed

lemma channel_step_ok:
  assumes "channel_ok C" and "channel_step op C = Some C'"
  shows "channel_ok C'"
  using assms submit_ok arrive_ok flush_ok ack_steps_ok [of C op C'] by (cases op) blast+

interpretation channel: component channel_step channel_ok
  by unfold_locales (rule channel_step_ok)

lemma channel_run_ok: "channel_ok (channel.run ops (new_channel maxB maxU))"
  by (rule channel.run_inv) (rule new_channel_ok)

subsection \<open>Properties\<close>

text \<open>
  C9: whatever sockets drop, come back and lose, whichever sends throw, in the middle of a flush too,
  whatever is submitted before the flush of a reconnection runs or after it failed, and whatever copies
  the sender gives up: no message is delivered twice, none is delivered ahead of one submitted before it,
  and nothing is delivered that was not submitted. What was delivered is a subsequence of what was submitted.
\<close>

theorem delivered_once_in_order:
  "subseq (delivered (channel.run ops (new_channel maxB maxU))) (submitted (channel.run ops (new_channel maxB maxU)))"
proof -
  let ?C = "channel.run ops (new_channel maxB maxU)"
  have ord: "channel_order ?C" using channel_run_ok [of ops maxB maxU] by (simp add: channel_ok_def)
  then obtain D where D: "delivered ?C = map snd D" "numbers_ok D" "set D \<subseteq> set (numbered ?C)"
    by (auto simp: channel_order_def)
  have "subseq D (numbered ?C)" using ord D by (intro numbers_ok_subseq) (simp_all add: channel_order_def)
  then have "subseq (map snd D) (map snd (numbered ?C))" by (rule subseq_map)
  then have "subseq (map snd D) (map snd (numbered ?C) @ queued (sender ?C))" by (rule subseq_rev_drop_many)
  moreover have "submitted ?C = map snd (numbered ?C) @ queued (sender ?C)" using ord unfolding channel_order_def by blast
  ultimately show ?thesis by (simp only: D(1))
qed

text \<open>Arrivals empty the wire and change nothing the sender did.\<close>

lemma arrivals:
  assumes "length (wire C) \<le> k"
  shows "wire (channel.run (replicate k Arrive) C) = [] \<and> link (channel.run (replicate k Arrive) C) = link C \<and>
    submitted (channel.run (replicate k Arrive) C) = submitted C \<and> discarded (channel.run (replicate k Arrive) C) = discarded C \<and>
    overtaken (channel.run (replicate k Arrive) C) = overtaken C"
  using assms
proof (induction k arbitrary: C)
  case (Suc k)
  show ?case
  proof (cases "wire C")
    case Nil
    then show ?thesis using Suc by simp
  next
    case (Cons f rest)
    then obtain C' where "channel_step Arrive C = Some C'" "wire C' = rest" "link C' = link C"
      "submitted C' = submitted C" "discarded C' = discarded C" "overtaken C' = overtaken C"
      by (cases f) (auto simp: case_prod_beta)
    then show ?thesis using Suc Cons by simp
  qed
qed simp

text \<open>
  C10: nothing is lost once a flush of the current socket is through, as long as no copy was given up and
  none was overtaken: after any run of drops, reconnections, throwing sends and failed flushes that leaves
  the socket up and its flush through, letting the frames on the wire arrive delivers exactly the
  submitted messages, in order.
\<close>

theorem delivery_complete:
  assumes "C = channel.run ops (new_channel maxB maxU)" and "link C = Flushed" and "\<not> discarded C" and "\<not> overtaken C"
  shows "delivered (channel.run (replicate (length (wire C)) Arrive) C) = submitted C"
proof -
  let ?D = "channel.run (replicate (length (wire C)) Arrive) C"
  have "channel_ok C" unfolding assms(1) by (rule channel_run_ok)
  then have ok: "channel_ok ?D" by (rule channel.run_inv)
  note arr = arrivals [of C "length (wire C)", OF order_refl]
  have w: "channel_whole ?D" and ord: "channel_order ?D" using ok arr assms(3,4) by (simp_all add: channel_ok_def)
  let ?l = "lastAccepted (receiver ?D)"
  have "after_number ?l (numbered ?D) = []" using w arr assms(2) by (simp add: channel_whole_def Let_def)
  then have "filter (\<lambda>f. fst f \<le> ?l) (numbered ?D) = numbered ?D" by (simp add: filter_empty_conv filter_id_conv not_less)
  then have "delivered ?D = map snd (numbered ?D)" using w by (simp add: channel_whole_def Let_def)
  moreover have "submitted ?D = map snd (numbered ?D)" using ord arr assms(2) by (simp add: channel_order_def)
  ultimately show ?thesis using arr by simp
qed

text \<open>A flush that fails, a drop and a second flush, with a message submitted before the second flush runs.\<close>

definition rough_run :: "channel_op list" where
  "rough_run =
     [Reconnect, Flush (\<lambda>_. True), Submit (\<lambda>_. True) [1], Arrive, AckArrive, Submit (\<lambda>_. True) [2], Disconnect,
      Submit (\<lambda>_. True) [3], Submit (\<lambda>_. True) [4], Reconnect, Flush (\<lambda>f. snd f \<noteq> [4]), Submit (\<lambda>_. True) [5], Disconnect,
      Reconnect, Submit (\<lambda>_. True) [6], Flush (\<lambda>_. True)]"

theorem delivery_complete_witness:
  "delivered (channel.run (replicate 5 Arrive) (channel.run rough_run (new_channel 10 10))) = [[1], [2], [3], [4], [5], [6]]"
proof -
  let ?C = "channel.run rough_run (new_channel 10 10)"
  have "link ?C = Flushed" "\<not> discarded ?C" "\<not> overtaken ?C" "length (wire ?C) = 5"
    "submitted ?C = [[1], [2], [3], [4], [5], [6]]"
    by (simp_all add: rough_run_def new_channel_def new_buffer_def new_inbound_def flush_def sendOrQueue_def hasBacklog_def
        send_def keep_def byteLength_def note_discards_def copies_missing_def accept_def inbound_acknowledge_def
        acknowledge_def buffer_def Let_def)
  with delivery_complete [OF refl, of rough_run 10 10] show ?thesis by metis
qed

end
