(* ===== verification/PatchMerge.thy ===== *)
theory PatchMerge
  imports Prelude "HOL-Library.Char_ord" "HOL-Library.List_Lexorder" "HOL-Library.Multiset" "HOL-Library.Sublist"
begin

section \<open>Three-way merge by patch replay\<close>

text \<open>
  \<open>protocol/src/patch-merge.ts\<close>: a write that met a conflict is reconciled by replaying the user's patch
  on the state the server holds now.

  A value of the source is a \<open>js\<close>; numbers are a type parameter. An object is the list of its own
  properties in enumeration order. The functions of the package \<open>fast-json-patch\<close> are the fields of a
  record \<open>patch_lib\<close>, which the definitions take; \<open>None\<close> is a throw. What \<open>JSON.stringify\<close> makes of a value
  is modelled by the value it stands for, since only equality of the texts is used. The caches of the
  source (\<open>arrayAgrees\<close>, \<open>tallies\<close>, \<open>moved\<close>) are explicit.
\<close>

datatype 'n js =
    Undefined
  | Null
  | Boolean bool
  | Number 'n
  | String string
  | Arr "'n js list"
  | Obj "(string \<times> 'n js) list"

datatype op_kind = OpAdd | OpRemove | OpReplace | OpTest | OpMove | OpCopy

record 'n patch_op =
  op_of :: op_kind
  path :: string
  op_value :: "'n js"

record 'n patch_lib =
  compare :: "'n js \<Rightarrow> 'n js \<Rightarrow> 'n patch_op list"
  applyPatch :: "'n js \<Rightarrow> 'n patch_op list \<Rightarrow> 'n js option"
  getValueByPointer :: "'n js \<Rightarrow> string \<Rightarrow> 'n js option"
  areEquals :: "'n js \<Rightarrow> 'n js \<Rightarrow> bool"
  deepClone :: "'n js \<Rightarrow> 'n js"
  escapePathComponent :: "string \<Rightarrow> string"
  unescapePathComponent :: "string \<Rightarrow> string"

subsection \<open>Strings, objects and arrays\<close>

text \<open>\<open>split('/')\<close>, \<open>join('/')\<close>, and the two halves of a path around its last separator.\<close>

fun split_path :: "string \<Rightarrow> string list" where
  "split_path [] = [[]]"
| "split_path (c # cs) =
     (if c = CHR ''/'' then [] # split_path cs
      else (case split_path cs of [] \<Rightarrow> [[c]] | w # ws \<Rightarrow> (c # w) # ws))"

fun join_path :: "string list \<Rightarrow> string" where
  "join_path [] = []"
| "join_path [w] = w"
| "join_path (w # ws) = w @ CHR ''/'' # join_path ws"

definition parent_path :: "string \<Rightarrow> string" where
  "parent_path p =
     (if CHR ''/'' \<in> set p then rev (tl (dropWhile (\<lambda>c. c \<noteq> CHR ''/'') (rev p))) else butlast p)"

definition last_step :: "string \<Rightarrow> string" where
  "last_step p = rev (takeWhile (\<lambda>c. c \<noteq> CHR ''/'') (rev p))"

text \<open>\<open>Number\<close> of a path step, \<open>None\<close> for \<open>NaN\<close>: a step into an array is a decimal index.\<close>

definition Number_of_step :: "string \<Rightarrow> nat option" where
  "Number_of_step s =
     (if list_all (\<lambda>c. CHR ''0'' \<le> c \<and> c \<le> CHR ''9'') s
      then Some (foldl (\<lambda>n c. 10 * n + (of_char c - of_char (CHR ''0''))) 0 s)
      else None)"

definition element_at :: "'n js list \<Rightarrow> nat option \<Rightarrow> 'n js" where
  "element_at xs i = (case i of None \<Rightarrow> Undefined | Some n \<Rightarrow> if n < length xs then xs ! n else Undefined)"

fun isArray :: "'n js \<Rightarrow> bool" where
  "isArray (Arr xs) = True"
| "isArray _ = False"

fun isObject :: "'n js \<Rightarrow> bool" where
  "isObject (Obj kvs) = True"
| "isObject _ = False"

fun elements :: "'n js \<Rightarrow> 'n js list" where
  "elements (Arr xs) = xs"
| "elements _ = []"

fun entries :: "'n js \<Rightarrow> (string \<times> 'n js) list" where
  "entries (Obj kvs) = kvs"
| "entries _ = []"

function decimal :: "nat \<Rightarrow> string" where
  "decimal n = (if n < 10 then [''0123456789'' ! n] else decimal (n div 10) @ [''0123456789'' ! (n mod 10)])"
  by auto
termination
  by (relation "measure id") auto

declare decimal.simps [simp del]

text \<open>\<open>Object.hasOwn\<close>, with the test that its argument is an object; an array owns its indices and its length.\<close>

fun hasOwn :: "'n js \<Rightarrow> string \<Rightarrow> bool" where
  "hasOwn (Obj kvs) k = js_has kvs k"
| "hasOwn (Arr xs) k = (k = ''length'' \<or> k \<in> set (map decimal [0..<length xs]))"
| "hasOwn _ k = False"

definition child :: "(string, 'n js) js_map \<Rightarrow> string \<Rightarrow> 'n js" where
  "child m k = (case js_get m k of None \<Rightarrow> Undefined | Some v \<Rightarrow> v)"

lemma size_list_elem: "x \<in> set xs \<Longrightarrow> size x < Suc (size_list size xs)"
  by (induction xs) auto

lemma size_entry: "(k, v) \<in> set kvs \<Longrightarrow> size v < Suc (size_list (size_prod (\<lambda>x. 0) size) kvs)"
  by (induction kvs) auto

text \<open>\<open>JSON.parse(JSON.stringify(value))\<close>: undefined properties go, undefined elements become \<open>null\<close>.\<close>

function toJson :: "'n js \<Rightarrow> 'n js" where
  "toJson (Arr xs) = Arr (map (\<lambda>x. if x = Undefined then Null else toJson x) xs)"
| "toJson (Obj kvs) = Obj (map (\<lambda>p. (fst p, toJson (snd p))) (filter (\<lambda>p. snd p \<noteq> Undefined) kvs))"
| "toJson Undefined = Undefined"
| "toJson Null = Null"
| "toJson (Boolean b) = Boolean b"
| "toJson (Number n) = Number n"
| "toJson (String s) = String s"
  by pat_completeness auto
termination
  by (relation "measure size") (auto dest: size_list_elem size_entry)

text \<open>The key \<open>canonicalJson\<close> gives a value: its JSON with the properties of every object sorted by name.\<close>

function canonicalJson :: "'n js \<Rightarrow> 'n js" where
  "canonicalJson (Arr xs) = Arr (map (\<lambda>x. if x = Undefined then Null else canonicalJson x) xs)"
| "canonicalJson (Obj kvs) =
     Obj (sort_key fst (map (\<lambda>p. (fst p, canonicalJson (snd p))) (filter (\<lambda>p. snd p \<noteq> Undefined) kvs)))"
| "canonicalJson Undefined = Undefined"
| "canonicalJson Null = Null"
| "canonicalJson (Boolean b) = Boolean b"
| "canonicalJson (Number n) = Number n"
| "canonicalJson (String s) = String s"
  by pat_completeness auto
termination
  by (relation "measure size") (auto dest: size_list_elem size_entry)

definition valueAt :: "'n patch_lib \<Rightarrow> 'n js \<Rightarrow> string \<Rightarrow> 'n js" where
  "valueAt P doc pointer = (case getValueByPointer P doc pointer of None \<Rightarrow> Undefined | Some v \<Rightarrow> v)"

subsection \<open>Guarding a patch\<close>

fun augmentWithTestOps :: "'n patch_lib \<Rightarrow> 'n js \<Rightarrow> 'n patch_op list \<Rightarrow> 'n patch_op list option" where
  "augmentWithTestOps P base [] = Some []"
| "augmentWithTestOps P base (op # ops) =
     (if op_of op = OpReplace \<or> op_of op = OpRemove
      then (case getValueByPointer P base (path op) of
              None \<Rightarrow> None
            | Some v \<Rightarrow> map_option (\<lambda>rest. \<lparr>op_of = OpTest, path = path op, op_value = v\<rparr> # op # rest)
                         (augmentWithTestOps P base ops))
      else map_option (\<lambda>rest. op # rest) (augmentWithTestOps P base ops))"

definition outermostArrayOn :: "'n patch_lib \<Rightarrow> 'n js \<Rightarrow> string \<Rightarrow> string option" where
  "outermostArrayOn P doc pointer =
     (let steps = split_path pointer
      in List.find (\<lambda>prefix. isArray (valueAt P doc prefix))
           (map (\<lambda>i. join_path (take i steps)) [1..<length steps]))"

text \<open>The filter of \<open>withoutAgreed\<close>: whether an op stays, with the cache \<open>arrayAgrees\<close>.\<close>

definition array_agrees ::
  "'n patch_lib \<Rightarrow> string option list \<Rightarrow> 'n js \<Rightarrow> 'n js \<Rightarrow> string \<Rightarrow> bool" where
  "array_agrees P insertedArrays jsonOurs theirs array \<longleftrightarrow>
     Some array \<notin> set insertedArrays \<and> areEquals P (valueAt P theirs array) (valueAt P jsonOurs array)"

definition object_op_stays :: "'n patch_lib \<Rightarrow> 'n js \<Rightarrow> 'n patch_op \<Rightarrow> bool" where
  "object_op_stays P theirs op =
     (let parent = valueAt P theirs (parent_path (path op));
          key = unescapePathComponent P (last_step (path op))
      in if \<not> isObject parent then True
         else if op_of op = OpRemove then js_has (entries parent) key
         else if op_of op \<noteq> OpReplace \<and> op_of op \<noteq> OpAdd then True
         else \<not> js_has (entries parent) key \<or> \<not> areEquals P (child (entries parent) key) (op_value op))"

fun filter_agreed ::
  "'n patch_lib \<Rightarrow> string option list \<Rightarrow> 'n js \<Rightarrow> 'n js \<Rightarrow> (string, bool) js_map \<Rightarrow> 'n patch_op list \<Rightarrow> 'n patch_op list" where
  "filter_agreed P ins jsonOurs theirs cache [] = []"
| "filter_agreed P ins jsonOurs theirs cache (op # ops) =
     (case outermostArrayOn P jsonOurs (path op) of
        Some array \<Rightarrow>
          (let agrees = (case js_get cache array of Some b \<Rightarrow> b | None \<Rightarrow> array_agrees P ins jsonOurs theirs array);
               rest = filter_agreed P ins jsonOurs theirs (js_set array agrees cache) ops
           in if agrees then rest else op # rest)
      | None \<Rightarrow>
          (let rest = filter_agreed P ins jsonOurs theirs cache ops
           in if object_op_stays P theirs op then op # rest else rest))"

definition insertedArrays :: "'n patch_lib \<Rightarrow> 'n js \<Rightarrow> 'n js \<Rightarrow> 'n patch_op list \<Rightarrow> string option list" where
  "insertedArrays P base jsonOurs userPatch =
     map (\<lambda>op. outermostArrayOn P jsonOurs (path op))
       (filter (\<lambda>op. op_of op = OpAdd \<and> isArray (valueAt P base (parent_path (path op)))) userPatch)"

definition withoutAgreed :: "'n patch_lib \<Rightarrow> 'n js \<Rightarrow> 'n js \<Rightarrow> 'n js \<Rightarrow> 'n patch_op list \<Rightarrow> 'n patch_op list" where
  "withoutAgreed P base ours theirs userPatch =
     (let jsonOurs = toJson ours
      in filter_agreed P (insertedArrays P base jsonOurs userPatch) jsonOurs theirs [] userPatch)"

subsection \<open>Collisions with the foreign writer\<close>

type_synonym 'n tally = "('n js, nat) js_map"

definition tally_get :: "'n tally \<Rightarrow> 'n js \<Rightarrow> nat" where
  "tally_get t k = (case js_get t k of None \<Rightarrow> 0 | Some n \<Rightarrow> n)"

definition tallyElements :: "'n js list \<Rightarrow> 'n tally" where
  "tallyElements array = foldl (\<lambda>t e. js_set (canonicalJson e) (tally_get t (canonicalJson e) + 1) t) [] array"

type_synonym 'n tallies = "(string, 'n tally \<times> 'n tally) js_map"

definition tally_at :: "'n js \<Rightarrow> 'n js \<Rightarrow> string \<Rightarrow> 'n tallies \<Rightarrow> 'n tally \<times> 'n tally" where
  "tally_at before now pointer tallies =
     (case js_get tallies pointer of
        Some t \<Rightarrow> t
      | None \<Rightarrow> (tallyElements (elements before), tallyElements (elements now)))"

fun addsCollide_from :: "'n patch_lib \<Rightarrow> 'n js \<Rightarrow> 'n js \<Rightarrow> 'n tallies \<Rightarrow> 'n patch_op list \<Rightarrow> bool" where
  "addsCollide_from P base theirs tallies [] = False"
| "addsCollide_from P base theirs tallies (op # ops) =
     (if op_of op \<noteq> OpAdd then addsCollide_from P base theirs tallies ops
      else (let parent = parent_path (path op); before = valueAt P base parent; now = valueAt P theirs parent
            in if isArray before
               then (if \<not> isArray now then addsCollide_from P base theirs tallies ops
                     else (let tally = tally_at before now parent tallies; key = canonicalJson (op_value op)
                           in if tally_get (fst tally) key < tally_get (snd tally) key then True
                              else addsCollide_from P base theirs (js_set parent tally tallies) ops))
               else if hasOwn now (unescapePathComponent P (last_step (path op))) then True
               else addsCollide_from P base theirs tallies ops))"

definition addsCollide :: "'n patch_lib \<Rightarrow> 'n js \<Rightarrow> 'n js \<Rightarrow> 'n patch_op list \<Rightarrow> bool" where
  "addsCollide P base theirs userPatch = addsCollide_from P base theirs [] userPatch"

definition elementMoved ::
  "'n patch_lib \<Rightarrow> 'n js \<Rightarrow> 'n js \<Rightarrow> string \<Rightarrow> nat option \<Rightarrow> 'n tallies \<Rightarrow> bool \<times> 'n tallies" where
  "elementMoved P base theirs pointer index tallies =
     (let before = valueAt P base pointer; now = valueAt P theirs pointer
      in if \<not> isArray before then (False, tallies)
         else if \<not> isArray now then (True, tallies)
         else (let was = canonicalJson (element_at (elements before) index);
                   is_now = canonicalJson (element_at (elements now) index)
               in if was = is_now then (False, tallies)
                  else (let tally = tally_at before now pointer tallies;
                            movedIn = (max (tally_get (snd tally) is_now) 1 \<le> tally_get (fst tally) is_now);
                            movedOut = (tally_get (fst tally) was \<le> tally_get (snd tally) was)
                        in (movedIn \<or> movedOut, js_set pointer tally tallies))))"

text \<open>
  The loop over the steps of one path, with the caches \<open>moved\<close> and \<open>tallies\<close>: \<open>i\<close> runs from 1 to the step
  before the last.
\<close>

type_synonym 'n move_cache = "(string, bool) js_map \<times> 'n tallies"

fun path_moved ::
  "'n patch_lib \<Rightarrow> 'n js \<Rightarrow> 'n js \<Rightarrow> string list \<Rightarrow> nat list \<Rightarrow> 'n move_cache \<Rightarrow> bool \<times> 'n move_cache" where
  "path_moved P base theirs steps [] cache = (False, cache)"
| "path_moved P base theirs steps (i # is) (moved, tallies) =
     (let element = join_path (take (i + 1) steps);
          (found, cache) =
            (case js_get moved element of
               Some b \<Rightarrow> (b, (moved, tallies))
             | None \<Rightarrow>
                 (let (b, tallies1) = elementMoved P base theirs (join_path (take i steps)) (Number_of_step (steps ! i)) tallies
                  in (b, (js_set element b moved, tallies1))))
      in if found then (True, cache) else path_moved P base theirs steps is cache)"

fun editsMovedElement_from :: "'n patch_lib \<Rightarrow> 'n js \<Rightarrow> 'n js \<Rightarrow> 'n move_cache \<Rightarrow> 'n patch_op list \<Rightarrow> bool" where
  "editsMovedElement_from P base theirs cache [] = False"
| "editsMovedElement_from P base theirs cache (op # ops) =
     (let steps = split_path (path op);
          (found, cache1) = path_moved P base theirs steps [1..<length steps - 1] cache
      in if found then True else editsMovedElement_from P base theirs cache1 ops)"

definition editsMovedElement :: "'n patch_lib \<Rightarrow> 'n js \<Rightarrow> 'n js \<Rightarrow> 'n patch_op list \<Rightarrow> bool" where
  "editsMovedElement P base theirs userPatch = editsMovedElement_from P base theirs ([], []) userPatch"

subsection \<open>Replay by index\<close>

datatype 'n reconcile_outcome =
    Merged "'n js"
  | NoOp
  | AlreadyApplied "'n js"
  | Conflict "'n js"
  | Unavailable

definition replay :: "'n patch_lib \<Rightarrow> 'n js \<Rightarrow> 'n js \<Rightarrow> 'n js \<Rightarrow> 'n patch_op list \<Rightarrow> 'n reconcile_outcome" where
  "replay P base ours theirs userPatch =
     (let comparable = toJson theirs; pending = withoutAgreed P base ours comparable userPatch
      in if pending = [] then AlreadyApplied theirs
         else if addsCollide P base comparable pending \<or> editsMovedElement P base comparable pending then Conflict theirs
         else (case Option.bind (augmentWithTestOps P base pending) (applyPatch P (deepClone P theirs)) of
                 Some merged \<Rightarrow> Merged merged
               | None \<Rightarrow> Conflict theirs))"

subsection \<open>Arrays matched by key\<close>

definition ITEM_KEY_PREFIX :: string where "ITEM_KEY_PREFIX = ''#''"

type_synonym 'n item_key = "'n js \<Rightarrow> string option"
type_synonym key_lists = "string list option list"

fun itemsByKey_from :: "'n item_key \<Rightarrow> (string, 'n js) js_map \<Rightarrow> 'n js list \<Rightarrow> (string, 'n js) js_map option" where
  "itemsByKey_from itemKey items [] = Some items"
| "itemsByKey_from itemKey items (x # xs) =
     (case itemKey x of
        None \<Rightarrow> None
      | Some k \<Rightarrow> if js_has items (ITEM_KEY_PREFIX @ k) then None
                  else itemsByKey_from itemKey (js_set (ITEM_KEY_PREFIX @ k) x items) xs)"

definition itemsByKey :: "'n item_key \<Rightarrow> 'n js list \<Rightarrow> (string, 'n js) js_map option" where
  "itemsByKey itemKey array = itemsByKey_from itemKey [] array"

text \<open>
  The properties or keyed items of each root that has them, and whether they are items; \<open>None\<close> where
  \<open>withArraysByKey\<close> returns the roots as they are.
\<close>

definition children_of :: "'n item_key \<Rightarrow> 'n js list \<Rightarrow> (bool \<times> (string, 'n js) js_map option list) option" where
  "children_of itemKey roots =
     (let present = filter (\<lambda>r. r \<noteq> Undefined) roots
      in if present \<noteq> [] \<and> list_all isArray present
         then (let children = map (\<lambda>r. if isArray r then itemsByKey itemKey (elements r) else None) roots
               in if list_ex (\<lambda>(r, c). r \<noteq> Undefined \<and> c = None) (zip roots children) then None
                  else Some (True, children))
         else if present \<noteq> [] \<and> list_all isObject present
         then Some (False, map (\<lambda>r. if isObject r then Some (entries r) else None) roots)
         else None)"

definition child_names :: "(string, 'n js) js_map option list \<Rightarrow> string list" where
  "child_names children = foldl (\<lambda>s k. set_add k s) [] (concat (map (\<lambda>c. case c of None \<Rightarrow> [] | Some m \<Rightarrow> js_keys m) children))"

definition child_roots :: "(string, 'n js) js_map option list \<Rightarrow> string \<Rightarrow> 'n js list" where
  "child_roots children name = map (\<lambda>c. case c of None \<Rightarrow> Undefined | Some m \<Rightarrow> child m name) children"

lemma js_set_new: "\<not> js_has m k \<Longrightarrow> js_set k v m = m @ [(k, v)]"
  by (induction m) (auto simp: js_has_def)

lemma itemsByKey_from_sub:
  "itemsByKey_from itemKey items xs = Some m \<Longrightarrow> snd ` set m \<subseteq> snd ` set items \<union> set xs"
proof (induction xs arbitrary: items)
  case (Cons x xs)
  then obtain k where k: "itemKey x = Some k" and n: "\<not> js_has items (ITEM_KEY_PREFIX @ k)"
    and m: "itemsByKey_from itemKey (js_set (ITEM_KEY_PREFIX @ k) x items) xs = Some m"
    by (auto split: option.splits if_splits)
  have "js_set (ITEM_KEY_PREFIX @ k) x items = items @ [(ITEM_KEY_PREFIX @ k, x)]"
    using n by (rule js_set_new)
  with Cons.IH [OF m] show ?case by auto
qed simp

lemma set_foldl_set_add: "set (foldl (\<lambda>s k. set_add k s) acc ks) = set acc \<union> set ks"
  by (induction ks arbitrary: acc) auto

lemma set_child_names: "set (child_names cs) = {k. \<exists>m. Some m \<in> set cs \<and> js_has m k}"
  by (auto simp: child_names_def set_foldl_set_add js_has_def image_iff split: option.splits)

text \<open>Every child is smaller than its root, and a name comes from a root that has it.\<close>

lemma children_of_cases:
  assumes "children_of itemKey roots = Some (b, cs)"
  obtains f where "cs = map f roots"
    and "\<And>r m v. r \<in> set roots \<Longrightarrow> f r = Some m \<Longrightarrow> v \<in> snd ` set m \<Longrightarrow> size v < size r"
proof -
  let ?items = "\<lambda>r. if isArray r then itemsByKey itemKey (elements r) else None"
  let ?props = "\<lambda>r :: 'a js. if isObject r then Some (entries r) else None"
  have i: "size v < size r" if "?items r = Some m" "v \<in> snd ` set m" for r m v
    using that itemsByKey_from_sub [of itemKey "[]" "elements r" m] size_list_elem [of v "elements r"]
    by (cases r) (auto simp: itemsByKey_def split: if_splits)
  have p: "size v < size r" if "?props r = Some m" "v \<in> snd ` set m" for r m v
    using that size_entry [of _ v "entries r"] by (cases r) (auto split: if_splits)
  have "cs = map ?items roots \<or> cs = map ?props roots"
    using assms by (auto simp: children_of_def Let_def split: if_splits)
  with that [of ?items] that [of ?props] i p show ?thesis by blast
qed

lemma sum_list_strict:
  fixes f g :: "'a \<Rightarrow> nat"
  assumes "\<And>x. x \<in> set xs \<Longrightarrow> f x \<le> g x" and "x \<in> set xs" and "f x < g x"
  shows "sum_list (map f xs) < sum_list (map g xs)"
  using assms
proof (induction xs)
  case (Cons y ys)
  have "sum_list (map f ys) \<le> sum_list (map g ys)" using Cons.prems(1) by (intro sum_list_mono) simp
  with Cons show ?case by (cases "x = y") (auto simp: add_less_le_mono add_le_less_mono)
qed simp

lemma size_js_pos: "0 < size (v :: 'n js)"
  by (cases v) auto

lemma children_smaller:
  assumes "children_of itemKey roots = Some (b, cs)" and "name \<in> set (child_names cs)"
  shows "sum_list (map size (child_roots cs name)) < sum_list (map size roots)"
proof -
  obtain f where cs: "cs = map f roots"
    and f: "\<And>r m v. r \<in> set roots \<Longrightarrow> f r = Some m \<Longrightarrow> v \<in> snd ` set m \<Longrightarrow> size v < size r"
    using children_of_cases [OF assms(1)] by metis
  let ?g = "\<lambda>r. case f r of None \<Rightarrow> Undefined | Some m \<Rightarrow> child m name"
  have less: "size (?g r) < size r" if "r \<in> set roots" "f r = Some m" "js_get m name = Some v" for r m v
    using f [OF that(1,2), of v] that(2,3) by (force simp: child_def dest: map_of_SomeD)
  have le: "size (?g r) \<le> size r" if "r \<in> set roots" for r
    using less [OF that] size_js_pos [of r] by (fastforce simp: child_def less_imp_le split: option.splits)
  obtain r m v where "r \<in> set roots" "f r = Some m" "js_get m name = Some v"
    using assms(2) by (auto simp: set_child_names cs js_has_get) (metis)
  with sum_list_strict [OF le, of roots] less show ?thesis
    by (simp add: cs child_roots_def comp_def)
qed

text \<open>
  \<open>withArraysByKey\<close> with \<open>keyed\<close> as the sequence of its \<open>set\<close> calls; \<open>keyed_of\<close> is the map they leave.
\<close>

function withArraysByKey ::
  "(string \<Rightarrow> string) \<Rightarrow> 'n item_key \<Rightarrow> string \<Rightarrow> 'n js list \<Rightarrow> 'n js list \<times> (string \<times> key_lists) list" where
  "withArraysByKey esc itemKey pointer roots =
     (case children_of itemKey roots of
        None \<Rightarrow> (roots, [])
      | Some (keyedHere, children) \<Rightarrow>
          (let names = child_names children;
               results = map (\<lambda>name. withArraysByKey esc itemKey (pointer @ ''/'' @ esc name) (child_roots children name)) names;
               rewritten = zip names (map fst results)
           in (map (\<lambda>(i, items). case items of
                       None \<Rightarrow> Undefined
                     | Some m \<Rightarrow> Obj (map (\<lambda>name. (name, case js_get rewritten name of None \<Rightarrow> Undefined | Some vs \<Rightarrow> vs ! i)) (js_keys m)))
                 (zip [0..<length children] children),
               (if keyedHere then [(pointer, map (map_option js_keys) children)] else []) @ concat (map snd results))))"
  by pat_completeness auto
termination
  by (relation "measure (\<lambda>(esc, itemKey, pointer, roots). sum_list (map size roots))") (auto intro: children_smaller)

declare withArraysByKey.simps [simp del]

definition keyed_of :: "(string \<times> key_lists) list \<Rightarrow> (string, key_lists) js_map" where
  "keyed_of sets = foldl (\<lambda>m (pointer, ls). js_set pointer ls m) [] sets"

definition same_order :: "string list \<Rightarrow> string list option \<Rightarrow> string list option" where
  "same_order shared list = map_option (filter (\<lambda>k. k \<in> set shared)) list"

definition keptOrder :: "key_lists \<Rightarrow> string list option" where
  "keptOrder ls =
     (let base = ls ! 0; ours = ls ! 1; theirs = ls ! 2
      in case base of
           None \<Rightarrow> Some (case theirs of Some t \<Rightarrow> t | None \<Rightarrow> (case ours of Some u \<Rightarrow> u | None \<Rightarrow> []))
         | Some b \<Rightarrow>
             if ours = None \<and> theirs = None then Some []
             else (let held = [l \<leftarrow> [ours, theirs]. l \<noteq> None];
                       shared = [k \<leftarrow> b. list_all (\<lambda>l. k \<in> set (the l)) held];
                       was = same_order shared base; user = same_order shared ours; foreign = same_order shared theirs
                   in case (ours, theirs) of
                        (Some u, Some t) \<Rightarrow> if user = was \<or> user = foreign then Some t
                                           else if foreign = was then Some u else None
                      | (Some u, None) \<Rightarrow> if user = was then Some u else None
                      | (None, Some t) \<Rightarrow> if foreign = was then Some t else None
                      | (None, None) \<Rightarrow> None))"

record keyed_array =
  keyLists :: key_lists
  kept :: "string list"

text \<open>The items each kept item is followed by in a list, from the start for \<open>None\<close>.\<close>

fun follow :: "string list \<Rightarrow> string option \<Rightarrow> string list \<Rightarrow> (string option, string list) js_map \<Rightarrow> (string option, string list) js_map" where
  "follow inKept anchor [] following = following"
| "follow inKept anchor (key # keys) following =
     (if key \<in> set inKept then follow inKept (Some key) keys following
      else follow inKept anchor keys (js_set anchor (multi_get following anchor @ [key]) following))"

definition arranged_order :: "keyed_array \<Rightarrow> string list" where
  "arranged_order A =
     (let list_or_empty = (\<lambda>l. case l of None \<Rightarrow> [] | Some ks \<Rightarrow> ks);
          following = follow (kept A) None (list_or_empty (keyLists A ! 2))
                        (follow (kept A) None (list_or_empty (keyLists A ! 1)) []);
          add_all = foldl (\<lambda>s k. set_add k s)
      in foldl (\<lambda>order key. add_all (set_add key order) (multi_get following (Some key)))
           (add_all [] (multi_get following None)) (kept A))"

definition arranged :: "(string, 'n js) js_map \<Rightarrow> keyed_array \<Rightarrow> 'n js list" where
  "arranged items A = map (child items) (filter (js_has items) (arranged_order A))"

function withArraysRestored :: "(string \<Rightarrow> string) \<Rightarrow> (string, keyed_array) js_map \<Rightarrow> string \<Rightarrow> 'n js \<Rightarrow> 'n js" where
  "withArraysRestored esc arrays pointer (Obj kvs) =
     (let entries = map (\<lambda>p. (fst p, withArraysRestored esc arrays (pointer @ ''/'' @ esc (fst p)) (snd p))) kvs
      in case js_get arrays pointer of
           Some array \<Rightarrow> Arr (arranged entries array)
         | None \<Rightarrow> Obj entries)"
| "withArraysRestored esc arrays pointer (Arr xs) = Arr xs"
| "withArraysRestored esc arrays pointer Undefined = Undefined"
| "withArraysRestored esc arrays pointer Null = Null"
| "withArraysRestored esc arrays pointer (Boolean b) = Boolean b"
| "withArraysRestored esc arrays pointer (Number n) = Number n"
| "withArraysRestored esc arrays pointer (String s) = String s"
  by pat_completeness auto
termination
  by (relation "measure (\<lambda>(esc, arrays, pointer, v). size v)") (auto dest: size_entry)

text \<open>The orders all keyed arrays keep; \<open>None\<close> where one of them collides.\<close>

fun keyed_arrays :: "(string, key_lists) js_map \<Rightarrow> (string, keyed_array) js_map option" where
  "keyed_arrays [] = Some []"
| "keyed_arrays ((pointer, ls) # rest) =
     (case keptOrder ls of
        None \<Rightarrow> None
      | Some k \<Rightarrow> map_option (\<lambda>arrays. (pointer, \<lparr>keyLists = ls, kept = k\<rparr>) # arrays) (keyed_arrays rest))"

definition replayByKey :: "'n patch_lib \<Rightarrow> 'n item_key \<Rightarrow> 'n js \<Rightarrow> 'n js \<Rightarrow> 'n js \<Rightarrow> 'n reconcile_outcome" where
  "replayByKey P itemKey base ours theirs =
     (let comparable = toJson theirs;
          (forms, sets) = withArraysByKey (escapePathComponent P) itemKey [] [base, ours, comparable];
          keyedBase = forms ! 0; keyedOurs = forms ! 1; keyedTheirs = forms ! 2
      in case keyed_arrays (keyed_of sets) of
           None \<Rightarrow> Conflict theirs
         | Some arrays \<Rightarrow>
             (case replay P keyedBase keyedOurs keyedTheirs (compare P keyedBase keyedOurs) of
                Conflict _ \<Rightarrow> Conflict theirs
              | Merged m \<Rightarrow> Merged (withArraysRestored (escapePathComponent P) arrays [] m)
              | _ \<Rightarrow> (let reordered = withArraysRestored (escapePathComponent P) arrays [] keyedTheirs
                      in if areEquals P reordered comparable then AlreadyApplied theirs else Merged reordered)))"

subsection \<open>The entry points\<close>

text \<open>
  A promise is a function of the state its callers and callees share: it rejects with \<open>Inl\<close> and resolves
  with \<open>Inr\<close>.
\<close>

type_synonym ('e, 's, 'a) promise = "'s \<Rightarrow> ('e + 'a) \<times> 's"

definition replay_options :: "'n patch_lib \<Rightarrow> 'n item_key option \<Rightarrow> 'n js \<Rightarrow> 'n js \<Rightarrow> 'n js \<Rightarrow> 'n reconcile_outcome" where
  "replay_options P itemKey base ours theirs =
     (case itemKey of
        Some key \<Rightarrow> replayByKey P key base ours theirs
      | None \<Rightarrow> replay P base ours theirs (compare P base ours))"

definition reconcileByPatchReplay ::
  "'n patch_lib \<Rightarrow> 'n item_key option \<Rightarrow> 'n js \<Rightarrow> 'n js \<Rightarrow> ('e, 's, 'n js option) promise \<Rightarrow> ('e, 's, 'n reconcile_outcome) promise" where
  "reconcileByPatchReplay P itemKey base ours refetch s =
     (if compare P base ours = [] then (Inr NoOp, s)
      else (case refetch s of
              (Inl e, s1) \<Rightarrow> (Inl e, s1)
            | (Inr None, s1) \<Rightarrow> (Inr Unavailable, s1)
            | (Inr (Some theirs), s1) \<Rightarrow> (Inr (replay_options P itemKey base ours theirs), s1)))"

definition editRoot :: "'n patch_lib \<Rightarrow> 'n item_key option \<Rightarrow> 'n js \<Rightarrow> 'n js \<Rightarrow> 'n js \<Rightarrow> 'n js" where
  "editRoot P itemKey before after root =
     (if areEquals P before after then root
      else (case replay_options P itemKey before after root of Merged merged \<Rightarrow> merged | _ \<Rightarrow> root))"

definition reorders :: "string list option \<Rightarrow> string list option \<Rightarrow> bool" where
  "reorders before after =
     (case (before, after) of
        (Some b, Some a) \<Rightarrow> filter (\<lambda>k. k \<in> set a) b \<noteq> filter (\<lambda>k. k \<in> set b) a
      | _ \<Rightarrow> False)"

definition changedPaths :: "'n patch_lib \<Rightarrow> 'n item_key option \<Rightarrow> 'n js list \<Rightarrow> string list list" where
  "changedPaths P itemKey roots =
     (let (forms, sets) = (case itemKey of Some key \<Rightarrow> withArraysByKey (escapePathComponent P) key [] roots | None \<Rightarrow> (roots, []));
          keyed = keyed_of sets
      in map (\<lambda>i. map path (compare P (forms ! i) (forms ! (i + 1))) @
                  map fst (filter (\<lambda>(pointer, ls). reorders (ls ! i) (ls ! (i + 1))) keyed))
           [0..<length forms - 1])"

definition ReconcilingConflictResolver_resolve ::
  "'n patch_lib \<Rightarrow> 'n item_key option \<Rightarrow> 'n js \<Rightarrow> 'n js \<Rightarrow> ('e, 's, 'n js option) promise \<Rightarrow> ('e, 's, 'n reconcile_outcome) promise" where
  "ReconcilingConflictResolver_resolve P itemKey base ours refetch = reconcileByPatchReplay P itemKey base ours refetch"

definition ForceConflictResolver_resolve ::
  "'n js \<Rightarrow> 'n js \<Rightarrow> ('e, 's, 'n js option) promise \<Rightarrow> ('e, 's, 'n reconcile_outcome) promise" where
  "ForceConflictResolver_resolve base ours refetch s = (Inr (Merged ours), s)"

subsection \<open>The caches answer as a fresh check would\<close>

lemma foldl_tally:
  "tally_get (foldl (\<lambda>t e. js_set (canonicalJson e) (tally_get t (canonicalJson e) + 1) t) t0 xs) k =
     tally_get t0 k + count_list (map canonicalJson xs) k"
  by (induction xs arbitrary: t0) (auto simp: tally_get_def js_get_set)

lemma tallyElements_count: "tally_get (tallyElements xs) k = count_list (map canonicalJson xs) k"
  using foldl_tally [of "[]" xs k] by (simp add: tallyElements_def tally_get_def [of "[]"])

definition tallies_ok :: "'n patch_lib \<Rightarrow> 'n js \<Rightarrow> 'n js \<Rightarrow> 'n tallies \<Rightarrow> bool" where
  "tallies_ok P base theirs tallies \<longleftrightarrow>
     (\<forall>p t. js_get tallies p = Some t \<longrightarrow>
        t = (tallyElements (elements (valueAt P base p)), tallyElements (elements (valueAt P theirs p))))"

lemma tallies_ok_Nil: "tallies_ok P base theirs []"
  by (simp add: tallies_ok_def)

lemma tally_at_ok:
  assumes "tallies_ok P base theirs tallies"
  shows "tally_at (valueAt P base p) (valueAt P theirs p) p tallies =
           (tallyElements (elements (valueAt P base p)), tallyElements (elements (valueAt P theirs p)))"
    and "tallies_ok P base theirs (js_set p (tally_at (valueAt P base p) (valueAt P theirs p) p tallies) tallies)"
  using assms by (auto simp: tally_at_def tallies_ok_def js_get_set split: option.splits)

text \<open>The checks without caches.\<close>

definition elements_of :: "'n js \<Rightarrow> 'n js \<Rightarrow> nat" where
  "elements_of array key = count_list (map canonicalJson (elements array)) key"

definition op_stays :: "'n patch_lib \<Rightarrow> 'n js \<Rightarrow> 'n js \<Rightarrow> 'n js \<Rightarrow> 'n patch_op list \<Rightarrow> 'n patch_op \<Rightarrow> bool" where
  "op_stays P base ours theirs userPatch op =
     (case outermostArrayOn P (toJson ours) (path op) of
        Some array \<Rightarrow> \<not> array_agrees P (insertedArrays P base (toJson ours) userPatch) (toJson ours) theirs array
      | None \<Rightarrow> object_op_stays P theirs op)"

definition add_collides :: "'n patch_lib \<Rightarrow> 'n js \<Rightarrow> 'n js \<Rightarrow> 'n patch_op \<Rightarrow> bool" where
  "add_collides P base theirs op =
     (let before = valueAt P base (parent_path (path op)); now = valueAt P theirs (parent_path (path op))
      in op_of op = OpAdd \<and>
         (if isArray before then isArray now \<and> elements_of before (canonicalJson (op_value op)) < elements_of now (canonicalJson (op_value op))
          else hasOwn now (unescapePathComponent P (last_step (path op)))))"

definition element_moved :: "'n patch_lib \<Rightarrow> 'n js \<Rightarrow> 'n js \<Rightarrow> string \<Rightarrow> nat option \<Rightarrow> bool" where
  "element_moved P base theirs pointer index =
     (let before = valueAt P base pointer; now = valueAt P theirs pointer;
          was = canonicalJson (element_at (elements before) index); is_now = canonicalJson (element_at (elements now) index)
      in isArray before \<and> (\<not> isArray now \<or>
           was \<noteq> is_now \<and> (max (elements_of now is_now) 1 \<le> elements_of before is_now \<or> elements_of before was \<le> elements_of now was)))"

definition step_moved :: "'n patch_lib \<Rightarrow> 'n js \<Rightarrow> 'n js \<Rightarrow> string list \<Rightarrow> nat \<Rightarrow> bool" where
  "step_moved P base theirs steps i =
     element_moved P base theirs (join_path (take i steps)) (Number_of_step (steps ! i))"

lemma filter_agreed_uncached:
  assumes "\<And>a b. js_get cache a = Some b \<Longrightarrow> b = array_agrees P ins jsonOurs theirs a"
  shows "filter_agreed P ins jsonOurs theirs cache ops =
    filter (\<lambda>op. case outermostArrayOn P jsonOurs (path op) of
                   Some array \<Rightarrow> \<not> array_agrees P ins jsonOurs theirs array
                 | None \<Rightarrow> object_op_stays P theirs op) ops"
  using assms
proof (induction ops arbitrary: cache)
  case (Cons op ops)
  show ?case
  proof (cases "outermostArrayOn P jsonOurs (path op)")
    case None
    then show ?thesis using Cons by (simp add: Let_def)
  next
    case (Some a)
    let ?agrees = "case js_get cache a of Some b \<Rightarrow> b | None \<Rightarrow> array_agrees P ins jsonOurs theirs a"
    have eq: "?agrees = array_agrees P ins jsonOurs theirs a" using Cons.prems by (auto split: option.splits)
    moreover have "filter_agreed P ins jsonOurs theirs (js_set a ?agrees cache) ops = filter
      (\<lambda>op. case outermostArrayOn P jsonOurs (path op) of Some array \<Rightarrow> \<not> array_agrees P ins jsonOurs theirs array
            | None \<Rightarrow> object_op_stays P theirs op) ops"
      using Cons.prems calculation by (intro Cons.IH) (auto simp: js_get_set split: if_splits)
    ultimately show ?thesis using Some by (simp only: filter_agreed.simps option.case Let_def filter.simps not_not) auto
  qed
qed simp

lemma addsCollide_uncached:
  "tallies_ok P base theirs tallies \<Longrightarrow> addsCollide_from P base theirs tallies ops \<longleftrightarrow> list_ex (add_collides P base theirs) ops"
proof (induction ops arbitrary: tallies)
  case (Cons op ops)
  note t = tally_at_ok [OF Cons.prems, of "parent_path (path op)"]
  show ?case using Cons.IH [OF Cons.prems] Cons.IH [OF t(2)] t(1)
    by (auto simp: add_collides_def Let_def elements_of_def tallyElements_count)
qed simp

lemma elementMoved_uncached:
  assumes "tallies_ok P base theirs tallies"
  shows "fst (elementMoved P base theirs pointer index tallies) = element_moved P base theirs pointer index"
    and "tallies_ok P base theirs (snd (elementMoved P base theirs pointer index tallies))"
  using tally_at_ok [OF assms, of pointer] assms
  by (auto simp: elementMoved_def element_moved_def Let_def elements_of_def tallyElements_count)

definition moved_ok :: "'n patch_lib \<Rightarrow> 'n js \<Rightarrow> 'n js \<Rightarrow> (string, bool) js_map \<Rightarrow> bool" where
  "moved_ok P base theirs moved \<longleftrightarrow>
     (\<forall>steps i b. 0 < i \<longrightarrow> i < length steps \<longrightarrow> (\<forall>s \<in> set steps. CHR ''/'' \<notin> set s) \<longrightarrow>
        js_get moved (join_path (take (i + 1) steps)) = Some b \<longrightarrow> b = step_moved P base theirs steps i)"

lemma split_path_append:
  "CHR ''/'' \<notin> set w \<Longrightarrow> split_path r = x # xs \<Longrightarrow> split_path (w @ r) = (w @ x) # xs"
  by (induction w) auto

lemma split_join:
  "ws \<noteq> [] \<Longrightarrow> (\<And>w. w \<in> set ws \<Longrightarrow> CHR ''/'' \<notin> set w) \<Longrightarrow> split_path (join_path ws) = ws"
proof (induction ws rule: join_path.induct)
  case (2 w)
  then show ?case using split_path_append [of w "[]" "[]" "[]"] by simp
next
  case (3 w v vs)
  then show ?case using split_path_append [of w "CHR ''/'' # join_path (v # vs)" "[]" "v # vs"] by simp
qed simp

lemma split_path_steps: "w \<in> set (split_path p) \<Longrightarrow> CHR ''/'' \<notin> set w"
  by (induction p arbitrary: w) (auto split: if_splits list.splits)

lemma split_path_not_Nil [simp]: "split_path p \<noteq> []"
  by (induction p) (auto split: list.splits)

lemma split_join_take:
  assumes "steps \<noteq> []" and "\<forall>s \<in> set steps. CHR ''/'' \<notin> set s"
  shows "split_path (join_path (take (i + 1) steps)) = take (i + 1) steps"
proof (rule split_join)
  show "take (i + 1) steps \<noteq> []" using assms(1) by simp
qed (use assms(2) in \<open>meson in_set_takeD\<close>)

lemma step_moved_take:
  assumes "join_path (take (i + 1) steps) = join_path (take (j + 1) steps')"
    and "i < length steps" "j < length steps'"
    and "\<forall>s \<in> set steps. CHR ''/'' \<notin> set s" "\<forall>s \<in> set steps'. CHR ''/'' \<notin> set s"
  shows "step_moved P base theirs steps i = step_moved P base theirs steps' j"
proof -
  have ne: "steps \<noteq> []" "steps' \<noteq> []" using assms(2,3) less_nat_zero_code by fastforce+
  have "split_path (join_path (take (i + 1) steps)) = take (i + 1) steps" by (rule split_join_take [OF ne(1) assms(4)])
  moreover have "split_path (join_path (take (j + 1) steps')) = take (j + 1) steps'" by (rule split_join_take [OF ne(2) assms(5)])
  ultimately have eq: "take (i + 1) steps = take (j + 1) steps'" using assms(1) by metis
  moreover from arg_cong [OF eq, of length] have "i = j" using assms(2,3) by simp
  moreover have "take i steps = take i (take (i + 1) steps)" "take j steps' = take j (take (j + 1) steps')"
    "steps ! i = take (i + 1) steps ! i" "steps' ! j = take (j + 1) steps' ! j"
    by simp_all
  ultimately show ?thesis unfolding step_moved_def by metis
qed

lemma path_moved_uncached:
  assumes "moved_ok P base theirs moved" and "tallies_ok P base theirs tallies"
    and "\<forall>s \<in> set steps. CHR ''/'' \<notin> set s" and "\<forall>i \<in> set is. 0 < i \<and> i < length steps"
    and "path_moved P base theirs steps is (moved, tallies) = (found, (moved', tallies'))"
  shows "found = list_ex (step_moved P base theirs steps) is \<and> moved_ok P base theirs moved' \<and> tallies_ok P base theirs tallies'"
  using assms
proof (induction "is" arbitrary: moved tallies)
  case (Cons i "is")
  note steps = Cons.prems(3)
  have i: "0 < i" "i < length steps" using Cons.prems(4) by simp_all
  let ?e = "join_path (take (i + 1) steps)"
  show ?case
  proof (cases "js_get moved ?e")
    case (Some b)
    then have "b = step_moved P base theirs steps i" using Cons.prems(1) i steps unfolding moved_ok_def by blast
    then show ?thesis using Cons Some by (cases b) (simp_all add: Let_def)
  next
    case None
    obtain b t1 where e: "elementMoved P base theirs (join_path (take i steps)) (Number_of_step (steps ! i)) tallies = (b, t1)"
      by (metis surj_pair)
    then have b: "b = step_moved P base theirs steps i" and t1: "tallies_ok P base theirs t1"
      using elementMoved_uncached [OF Cons.prems(2), of "join_path (take i steps)" "Number_of_step (steps ! i)"]
      by (simp_all add: step_moved_def)
    have m1: "moved_ok P base theirs (js_set ?e b moved)"
      unfolding moved_ok_def
    proof (intro allI impI)
      fix steps' j c
      assume j: "0 < j" "j < length steps'" "\<forall>s \<in> set steps'. CHR ''/'' \<notin> set s"
        and get: "js_get (js_set ?e b moved) (join_path (take (j + 1) steps')) = Some c"
      show "c = step_moved P base theirs steps' j"
      proof (cases "join_path (take (j + 1) steps') = ?e")
        case True
        then show ?thesis using get b step_moved_take [OF True j(2) i(2) j(3) steps, of P base theirs] by (simp add: js_get_set)
      next
        case False
        then show ?thesis using get Cons.prems(1) j unfolding moved_ok_def by (simp add: js_get_set)
      qed
    qed
    show ?thesis
    proof (cases b)
      case True
      then show ?thesis using Cons.prems(5) None e b m1 t1 by (simp add: Let_def)
    next
      case False
      then have "path_moved P base theirs steps is (js_set ?e b moved, t1) = (found, moved', tallies')"
        using Cons.prems(5) None e by (simp add: Let_def)
      from Cons.IH [OF m1 t1 steps _ this] show ?thesis using Cons.prems(4) False b by simp
    qed
  qed
qed simp

lemma editsMovedElement_uncached:
  assumes "moved_ok P base theirs moved" and "tallies_ok P base theirs tallies"
  shows "editsMovedElement_from P base theirs (moved, tallies) ops \<longleftrightarrow>
    list_ex (\<lambda>op. list_ex (step_moved P base theirs (split_path (path op))) [1..<length (split_path (path op)) - 1]) ops"
  using assms
proof (induction ops arbitrary: moved tallies)
  case (Cons op ops)
  let ?steps = "split_path (path op)"
  obtain found m1 t1 where r: "path_moved P base theirs ?steps [1..<length ?steps - 1] (moved, tallies) = (found, (m1, t1))"
    by (metis surj_pair)
  have "found = list_ex (step_moved P base theirs ?steps) [1..<length ?steps - 1] \<and> moved_ok P base theirs m1 \<and> tallies_ok P base theirs t1"
    by (rule path_moved_uncached [OF Cons.prems _ _ r]) (auto simp: split_path_steps)
  then show ?case using r Cons.IH [of m1 t1] by (simp add: Let_def)
qed simp

end
