(* ===== verification/MergeOrder.thy ===== *)
theory MergeOrder
  imports PatchMerge
begin

section \<open>The order of a merged array\<close>

text \<open>
  \<open>keptOrder\<close> and \<open>arranged\<close>: how the items of an array matched by key are put in order after a merge. The
  order is the list without repetitions of the kept items, each followed by the items that followed it
  in the user's and in the server's list.
\<close>

subsection \<open>Lists without repetitions\<close>

definition nub :: "'a list \<Rightarrow> 'a list" where
  "nub xs = foldl (\<lambda>s k. set_add k s) [] xs"

lemma foldl_set_add: "foldl (\<lambda>s k. set_add k s) acc xs = acc @ nub (filter (\<lambda>x. x \<notin> set acc) xs)"
proof (induction xs arbitrary: acc rule: length_induct)
  case (1 xs)
  show ?case
  proof (cases xs)
    case (Cons x ys)
    have flat: "nub (x # zs) = x # nub (filter (\<lambda>z. z \<noteq> x) zs)" if "length zs \<le> length ys" for zs
      using 1 [rule_format, of zs "[x]"] that Cons by (auto simp: nub_def set_add_def)
    show ?thesis
    proof (cases "x \<in> set acc")
      case True
      then show ?thesis using 1 [rule_format, of ys acc] Cons by (simp add: set_add_def)
    next
      case False
      have "filter (\<lambda>z. z \<notin> set (acc @ [x])) ys = filter (\<lambda>z. z \<noteq> x) (filter (\<lambda>z. z \<notin> set acc) ys)"
        by (auto intro: filter_cong)
      then show ?thesis using 1 [rule_format, of ys "acc @ [x]"] Cons False flat [of "filter (\<lambda>z. z \<notin> set acc) ys"]
        by (simp add: set_add_def)
    qed
  qed (simp add: nub_def)
qed

lemma nub_simps [simp]: "nub [] = []" "nub (x # xs) = x # nub (filter (\<lambda>z. z \<noteq> x) xs)"
  using foldl_set_add [of "[x]" xs] by (simp_all add: nub_def set_add_def)

lemma set_nub [simp]: "set (nub xs) = set xs"
  by (induction xs rule: length_induct) (auto simp: nub_def set_foldl_set_add)

lemma distinct_nub [simp]: "distinct (nub xs)"
proof (induction xs rule: length_induct)
  case (1 xs)
  then show ?case by (cases xs) (auto simp: le_imp_less_Suc)
qed

lemma filter_nub: "filter p (nub xs) = nub (filter p xs)"
proof (induction xs rule: length_induct)
  case (1 xs)
  have comm: "filter p (filter (\<lambda>z. z \<noteq> x) ys) = filter (\<lambda>z. z \<noteq> x) (filter p ys)" for x ys
    by (simp add: conj_commute)
  show ?case
  proof (cases xs)
    case (Cons x ys)
    have ih: "filter p (nub (filter (\<lambda>z. z \<noteq> x) ys)) = nub (filter (\<lambda>z. z \<noteq> x) (filter p ys))"
      using 1 Cons comm by (metis length_Cons length_filter_le le_imp_less_Suc)
    have "\<not> p x \<Longrightarrow> filter (\<lambda>z. z \<noteq> x) (filter p ys) = filter p ys" by (induction ys) auto
    then show ?thesis using Cons ih by auto
  qed simp
qed

lemma nub_distinct: "distinct xs \<Longrightarrow> nub xs = xs"
proof (induction xs)
  case (Cons x xs)
  then have "filter (\<lambda>z. z \<noteq> x) xs = xs" by (intro filter_True) auto
  then show ?case using Cons by simp
qed simp

subsection \<open>What follows a kept item\<close>

fun seg :: "string list \<Rightarrow> string option \<Rightarrow> string list \<Rightarrow> string option \<Rightarrow> string list" where
  "seg K a [] x = []"
| "seg K a (k # ks) x =
     (if k \<in> set K then seg K (Some k) ks x else (if a = x then [k] else []) @ seg K a ks x)"

lemma follow_seg: "multi_get (follow K a ks F) x = multi_get F x @ seg K a ks x"
  by (induction K a ks F arbitrary: x rule: follow.induct) (auto simp: multi_get_def js_get_set split: if_splits)

lemma seg_empty: "x \<noteq> a \<Longrightarrow> x \<notin> Some ` (set ks \<inter> set K) \<Longrightarrow> seg K a ks x = []"
  by (induction K a ks x rule: seg.induct) auto

lemma set_seg: "set (seg K a ks x) \<subseteq> set ks - set K"
  by (induction K a ks x rule: seg.induct) auto

lemma seg_covers: "k \<in> set ks \<Longrightarrow> k \<notin> set K \<Longrightarrow> \<exists>x. (x = a \<or> x \<in> Some ` set K) \<and> k \<in> set (seg K a ks x)"
proof (induction ks arbitrary: a)
  case (Cons j ks)
  show ?case
  proof (cases "j \<in> set K")
    case True
    then have "k \<in> set ks" using Cons.prems by auto
    from Cons.IH [OF this Cons.prems(2), of "Some j"] True show ?thesis by auto
  next
    case False
    then show ?thesis using Cons.IH [of a] Cons.prems by (cases "k = j") auto
  qed
qed simp

lemma seg_concat:
  "distinct l \<Longrightarrow> a \<notin> Some ` set l \<Longrightarrow>
   seg K a l a @ concat (map (\<lambda>k. k # seg K a l (Some k)) (filter (\<lambda>k. k \<in> set K) l)) = l"
proof (induction l arbitrary: a)
  case (Cons k l)
  show ?case
  proof (cases "k \<in> set K")
    case True
    have "seg K (Some k) l a = []" using Cons.prems by (intro seg_empty) auto
    moreover have "seg K (Some k) l (Some k) @ concat (map (\<lambda>j. j # seg K (Some k) l (Some j)) (filter (\<lambda>j. j \<in> set K) l)) = l"
      using Cons.prems by (intro Cons.IH) auto
    ultimately show ?thesis using True by simp
  next
    case False
    then have "map (\<lambda>j. j # seg K a (k # l) (Some j)) (filter (\<lambda>j. j \<in> set K) l) =
        map (\<lambda>j. j # seg K a l (Some j)) (filter (\<lambda>j. j \<in> set K) l)"
      using Cons.prems by (intro map_cong) auto
    then have "seg K a (k # l) a @ concat (map (\<lambda>j. j # seg K a (k # l) (Some j)) (filter (\<lambda>j. j \<in> set K) (k # l))) =
        k # seg K a l a @ concat (map (\<lambda>j. j # seg K a l (Some j)) (filter (\<lambda>j. j \<in> set K) l))"
      using False by (simp only: filter.simps if_False) simp
    then show ?thesis using Cons.IH [of a] Cons.prems by simp
  qed
qed simp

definition side :: "keyed_array \<Rightarrow> nat \<Rightarrow> string list" where
  "side A i = (case keyLists A ! i of None \<Rightarrow> [] | Some ks \<Rightarrow> ks)"

abbreviation after_item :: "keyed_array \<Rightarrow> string option \<Rightarrow> string list" where
  "after_item A x \<equiv> seg (kept A) None (side A 1) x @ seg (kept A) None (side A 2) x"

lemma arranged_order_nub:
  "arranged_order A = nub (after_item A None @ concat (map (\<lambda>k. k # after_item A (Some k)) (kept A)))"
proof -
  let ?F = "follow (kept A) None (side A 2) (follow (kept A) None (side A 1) [])"
  have F: "multi_get ?F x = after_item A x" for x by (simp add: follow_seg multi_get_def [of "[]"])
  have fold: "foldl (\<lambda>order key. foldl (\<lambda>s k. set_add k s) (set_add key order) (multi_get ?F (Some key))) acc ks =
      foldl (\<lambda>s k. set_add k s) acc (concat (map (\<lambda>k. k # multi_get ?F (Some k)) ks))" for acc ks
    by (induction ks arbitrary: acc) simp_all
  have "arranged_order A =
      foldl (\<lambda>s k. set_add k s) (foldl (\<lambda>s k. set_add k s) [] (multi_get ?F None)) (concat (map (\<lambda>k. k # multi_get ?F (Some k)) (kept A)))"
    unfolding arranged_order_def Let_def side_def [symmetric] fold ..
  then show ?thesis unfolding F by (simp only: nub_def foldl_append)
qed

subsection \<open>The arranged order\<close>

lemma set_arranged_order: "set (arranged_order A) = set (kept A) \<union> set (side A 1) \<union> set (side A 2)"
proof
  show "set (arranged_order A) \<subseteq> set (kept A) \<union> set (side A 1) \<union> set (side A 2)"
    using set_seg [of "kept A" None] by (fastforce simp: arranged_order_nub)
  have "k \<in> set (arranged_order A)" if k: "k \<in> set (side A i)" "k \<notin> set (kept A)" and i: "i = 1 \<or> i = 2" for k i
    using seg_covers [OF k, of None] i by (auto simp: arranged_order_nub)
  moreover have "set (kept A) \<subseteq> set (arranged_order A)" by (auto simp: arranged_order_nub)
  ultimately show "set (kept A) \<union> set (side A 1) \<union> set (side A 2) \<subseteq> set (arranged_order A)" by blast
qed

lemma distinct_arranged_order: "distinct (arranged_order A)"
  by (simp add: arranged_order_nub)

lemma filter_seg_out: "(\<And>k. k \<in> set ks - set K \<Longrightarrow> \<not> p k) \<Longrightarrow> filter p (seg K a ks x) = []"
  using set_seg [of K a ks x] by (auto intro!: filter_False)

lemma filter_seg_in: "(\<And>k. k \<in> set ks - set K \<Longrightarrow> p k) \<Longrightarrow> filter p (seg K a ks x) = seg K a ks x"
  using set_seg [of K a ks x] by (auto intro!: filter_True)

lemma arranged_keeps_kept:
  assumes "distinct (kept A)"
  shows "filter (\<lambda>k. k \<in> set (kept A)) (arranged_order A) = kept A"
proof -
  have out: "filter (\<lambda>k. k \<in> set (kept A)) (seg (kept A) None ks x) = []" for ks x by (rule filter_seg_out) simp
  have "filter (\<lambda>k. k \<in> set (kept A)) (concat (map (\<lambda>k. k # after_item A (Some k)) ks)) = ks"
    if "set ks \<subseteq> set (kept A)" for ks
    using that by (induction ks) (simp_all add: out)
  then show ?thesis using assms by (simp add: arranged_order_nub filter_nub out nub_distinct)
qed

lemma filter_concat_followers:
  assumes "\<And>k. filter p (g k) = h k" and "\<And>k. \<not> p k \<Longrightarrow> h k = []"
  shows "filter p (concat (map (\<lambda>k. k # g k) ks)) = concat (map (\<lambda>k. k # h k) (filter p ks))"
  by (induction ks) (simp_all add: assms)

text \<open>A side whose kept items stand in the kept order, and whose other items are its own, keeps its whole order.\<close>

lemma arranged_keeps_side:
  assumes "distinct (side A i)" and i: "i = 1 \<and> j = 2 \<or> i = 2 \<and> j = 1"
    and "filter (\<lambda>k. k \<in> set (kept A)) (side A i) = filter (\<lambda>k. k \<in> set (side A i)) (kept A)"
    and "set (side A i) \<inter> set (side A j) \<subseteq> set (kept A)"
  shows "filter (\<lambda>k. k \<in> set (side A i)) (arranged_order A) = side A i"
proof -
  let ?p = "\<lambda>k. k \<in> set (side A i)" and ?seg = "seg (kept A) None (side A i)"
  have own: "filter ?p (after_item A x) = ?seg x" for x
  proof -
    have "filter ?p (seg (kept A) None (side A i) x) = ?seg x" by (rule filter_seg_in) simp
    moreover have "filter ?p (seg (kept A) None (side A j) x) = []" using assms(4) by (intro filter_seg_out) auto
    ultimately show ?thesis using i by auto
  qed
  have none: "?seg (Some k) = []" if "\<not> ?p k" for k using that by (intro seg_empty) auto
  have "filter ?p (concat (map (\<lambda>k. k # after_item A (Some k)) ks)) = concat (map (\<lambda>k. k # ?seg (Some k)) (filter ?p ks))" for ks
    by (rule filter_concat_followers) (rule own, rule none)
  then have "filter ?p (after_item A None @ concat (map (\<lambda>k. k # after_item A (Some k)) (kept A))) = side A i"
    using seg_concat [OF assms(1), of None "kept A"] by (simp only: filter_append [of ?p "after_item A None"] own assms(3)) auto
  then show ?thesis using assms(1) by (simp only: arranged_order_nub filter_nub nub_distinct)
qed

lemma arranged_items:
  assumes "distinct (js_keys items)" and "set (js_keys items) \<subseteq> set (side A 1) \<union> set (side A 2)"
  shows "mset (arranged items A) = mset (map snd items)"
proof -
  have "set (filter (js_has items) (arranged_order A)) = set (js_keys items)"
    using assms(2) by (auto simp: set_arranged_order js_has_def)
  then have "mset (filter (js_has items) (arranged_order A)) = mset (js_keys items)"
    using assms(1) distinct_arranged_order by (subst set_eq_iff_mset_eq_distinct [symmetric]) auto
  then have "mset (arranged items A) = image_mset (child items) (mset (js_keys items))"
    by (simp add: arranged_def)
  also have "\<dots> = mset (map (\<lambda>p. child items (fst p)) items)" by (simp add: multiset.map_comp comp_def)
  also have "map (\<lambda>p. child items (fst p)) items = map snd items"
    using assms(1) by (auto simp: child_def)
  finally show ?thesis .
qed

subsection \<open>Properties\<close>

text \<open>
  an array matched by key loses and doubles nothing in a merge: whatever the two sides' lists and the
  kept order are, the arranged array holds each merged item exactly once.
\<close>

theorem arranged_holds_each_item:
  assumes "distinct (js_keys items)" and "set (js_keys items) \<subseteq> set u \<union> set t"
  shows "mset (arranged items \<lparr>keyLists = [b, Some u, Some t], kept = k\<rparr>) = mset (map snd items)"
  using arranged_items [OF assms(1), of "\<lparr>keyLists = [b, Some u, Some t], kept = k\<rparr>"] assms(2) by (simp add: side_def)

theorem arranged_holds_each_item_witness:
  "mset (arranged [(''#a'', Number 1), (''#b'', Number (2 :: int))] \<lparr>keyLists = [None, Some [''#b''], Some [''#a'']], kept = [''#a'']\<rparr>)
     = {#Number 1, Number 2#}"
  using arranged_holds_each_item [of "[(''#a'', Number 1), (''#b'', Number (2 :: int))]" "[''#b'']" "[''#a'']" None "[''#a'']"] by simp

text \<open>
  the order of an array matched by key merges as one value. With the items all three roots share, the
  merge conflicts exactly when user and server both reordered them and differently; otherwise the merged
  order has every item of both sides once, the shared ones in the user's order when the user reordered
  them and in the server's otherwise, and the side whose order is kept has all its items in that order.
\<close>

theorem merged_array_order:
  fixes b u t :: "string list"
  defines "shared \<equiv> filter (\<lambda>k. k \<in> set b \<and> k \<in> set u \<and> k \<in> set t)"
  assumes "distinct u" and "distinct t"
  shows "case keptOrder [Some b, Some u, Some t] of
      None \<Rightarrow> shared u \<noteq> shared b \<and> shared t \<noteq> shared b \<and> shared u \<noteq> shared t
    | Some k \<Rightarrow>
        (let order = arranged_order \<lparr>keyLists = [Some b, Some u, Some t], kept = k\<rparr>
         in distinct order \<and> set order = set u \<union> set t \<and> (k = u \<or> k = t) \<and> filter (\<lambda>x. x \<in> set k) order = k \<and>
            shared order = (if shared u \<noteq> shared b then shared u else shared t) \<and>
            (shared u = shared b \<or> shared t = shared b \<or> shared u = shared t))"
proof -
  have eq: "filter (\<lambda>x. x \<in> set (filter (\<lambda>x. x \<in> set u \<and> x \<in> set t) b)) l = shared l" for l
    by (auto simp: shared_def intro: filter_cong)
  have kept: "keptOrder [Some b, Some u, Some t] =
      (if shared u = shared b \<or> shared u = shared t then Some t else if shared t = shared b then Some u else None)"
    by (simp add: keptOrder_def same_order_def Let_def eq [simplified])
  have order: "shared (arranged_order A) = shared (kept A)" if "kept A = u \<or> kept A = t" for A
  proof -
    have "shared (arranged_order A) = shared (filter (\<lambda>x. x \<in> set (kept A)) (arranged_order A))"
      using that by (auto simp: shared_def intro: filter_cong)
    then show ?thesis using that assms(2,3) by (auto simp: arranged_keeps_kept)
  qed
  show ?thesis
    using assms(2,3) order [of "\<lparr>keyLists = [Some b, Some u, Some t], kept = u\<rparr>"] order [of "\<lparr>keyLists = [Some b, Some u, Some t], kept = t\<rparr>"]
      arranged_keeps_kept [of "\<lparr>keyLists = [Some b, Some u, Some t], kept = u\<rparr>"] arranged_keeps_kept [of "\<lparr>keyLists = [Some b, Some u, Some t], kept = t\<rparr>"]
    by (auto simp: kept Let_def distinct_arranged_order set_arranged_order side_def)
qed

theorem merged_array_order_witness:
  "keptOrder [Some [''a'', ''b''], Some [''b'', ''a''], Some [''a'', ''b'', ''c'']] = Some [''b'', ''a''] \<and>
   filter (\<lambda>x. x \<in> set [''b'', ''a'']) (arranged_order \<lparr>keyLists = [Some [''a'', ''b''], Some [''b'', ''a''], Some [''a'', ''b'', ''c'']], kept = [''b'', ''a'']\<rparr>)
     = [''b'', ''a'']"
proof -
  have k: "keptOrder [Some [''a'', ''b''], Some [''b'', ''a''], Some [''a'', ''b'', ''c'']] = Some [''b'', ''a'']"
    by (simp add: keptOrder_def same_order_def Let_def)
  then show ?thesis
    using merged_array_order [of "[''b'', ''a'']" "[''a'', ''b'', ''c'']" "[''a'', ''b'']"] unfolding k Let_def option.case by simp
qed

end
