(* ===== verification/MergeRoundtrip.thy ===== *)
theory MergeRoundtrip
  imports MergeOrder
begin

section \<open>Rewriting arrays by key and back\<close>

text \<open>
  \<open>withArraysByKey\<close> rewrites the arrays matched by key into objects, \<open>withArraysRestored\<close> makes arrays of
  them again. The rewriting loses nothing of any root, and each array has a pointer of its own.
\<close>

text \<open>An object has each property once.\<close>

function js_ok :: "'n js \<Rightarrow> bool" where
  "js_ok (Arr xs) = (\<forall>x \<in> set xs. js_ok x)"
| "js_ok (Obj kvs) = (distinct (js_keys kvs) \<and> (\<forall>p \<in> set kvs. js_ok (snd p)))"
| "js_ok Undefined = True"
| "js_ok Null = True"
| "js_ok (Boolean b) = True"
| "js_ok (Number n) = True"
| "js_ok (String s) = True"
  by pat_completeness auto
termination
  by (relation "measure size") (auto dest: size_list_elem size_entry)

text \<open>What \<open>escapePathComponent\<close> is documented to do: no two names give one step, and no step has a separator.\<close>

definition escape_ok :: "(string \<Rightarrow> string) \<Rightarrow> bool" where
  "escape_ok esc \<longleftrightarrow> inj esc \<and> (\<forall>k. CHR ''/'' \<notin> set (esc k))"

definition under :: "string \<Rightarrow> string \<Rightarrow> bool" where
  "under p q \<longleftrightarrow> q = p \<or> (\<exists>r. q = p @ ''/'' @ r)"

lemma under_refl [simp]: "under p p"
  by (simp add: under_def)

lemma under_child: "under (p @ ''/'' @ r) q \<Longrightarrow> under p q"
  by (auto simp: under_def)

lemma under_child_neq: "under (p @ ''/'' @ r) q \<Longrightarrow> q \<noteq> p"
  by (auto simp: under_def)

lemma slash_split:
  "CHR ''/'' \<notin> set a \<Longrightarrow> CHR ''/'' \<notin> set b \<Longrightarrow> x = [] \<or> hd x = CHR ''/'' \<Longrightarrow> y = [] \<or> hd y = CHR ''/'' \<Longrightarrow>
   a @ x = b @ y \<Longrightarrow> a = b"
proof (induction a arbitrary: b)
  case Nil
  then show ?case by (cases b) auto
next
  case (Cons c a)
  show ?case
  proof (cases b)
    case Nil
    then show ?thesis using Cons.prems by auto
  next
    case (Cons d b')
    then show ?thesis using Cons.IH [of b'] Cons.prems by auto
  qed
qed

lemma under_siblings:
  assumes "escape_ok esc" and "under (p @ ''/'' @ esc a) q" and "under (p @ ''/'' @ esc b) q"
  shows "a = b"
proof -
  have rest: "\<exists>x. q = r @ x \<and> (x = [] \<or> hd x = CHR ''/'')" if "under r q" for r using that by (auto simp: under_def)
  obtain x where x: "q = (p @ ''/'' @ esc a) @ x" "x = [] \<or> hd x = CHR ''/''" using rest [OF assms(2)] by blast
  obtain y where y: "q = (p @ ''/'' @ esc b) @ y" "y = [] \<or> hd y = CHR ''/''" using rest [OF assms(3)] by blast
  have "esc a @ x = esc b @ y" using x(1) y(1) by simp
  with x(2) y(2) have "esc a = esc b"
    using assms(1) slash_split [of "esc a" "esc b" x y] by (auto simp: escape_ok_def)
  then show ?thesis using assms(1) by (auto simp: escape_ok_def dest: injD)
qed

subsection \<open>Items by key\<close>

lemma itemsByKey_from_items:
  assumes "itemsByKey_from itemKey items xs = Some m" and "distinct (js_keys items)"
  shows "map snd m = map snd items @ xs \<and> distinct (js_keys m)"
  using assms
proof (induction xs arbitrary: items)
  case (Cons x xs)
  then obtain k where n: "\<not> js_has items (ITEM_KEY_PREFIX @ k)"
    and m: "itemsByKey_from itemKey (js_set (ITEM_KEY_PREFIX @ k) x items) xs = Some m"
    by (auto split: option.splits if_splits)
  have "distinct (js_keys (js_set (ITEM_KEY_PREFIX @ k) x items))" using Cons.prems(2) by (rule distinct_update)
  from Cons.IH [OF m this] show ?case by (simp add: js_set_new [OF n])
qed simp

lemma itemsByKey_items: "itemsByKey itemKey xs = Some m \<Longrightarrow> map snd m = xs \<and> distinct (js_keys m)"
  using itemsByKey_from_items [of itemKey "[]" xs m] by (simp add: itemsByKey_def)

text \<open>What \<open>children_of\<close> gives of each root.\<close>

lemma children_of_root:
  assumes "children_of itemKey roots = Some (b, cs)" and "\<forall>r \<in> set roots. js_ok r"
  shows "length cs = length roots" and "i < length roots \<Longrightarrow> cs ! i = None \<Longrightarrow> roots ! i = Undefined"
    and "i < length roots \<Longrightarrow> cs ! i = Some m \<Longrightarrow> distinct (js_keys m) \<and> (\<forall>v \<in> snd ` set m. js_ok v) \<and>
           roots ! i = (if b then Arr (map snd m) else Obj m)"
proof -
  let ?items = "\<lambda>r. if isArray r then itemsByKey itemKey (elements r) else None"
  let ?props = "\<lambda>r :: 'a js. if isObject r then Some (entries r) else None"
  have cs: "cs = map (if b then ?items else ?props) roots"
    using assms(1) by (auto simp: children_of_def Let_def split: if_splits)
  have none: "r = Undefined" if "r \<in> set roots" "(if b then ?items else ?props) r = None" for r
    using assms(1) that by (auto simp: children_of_def Let_def list_ex_iff list_all_iff zip_map2 zip_same_conv_map split: if_splits)
  show "length cs = length roots" by (simp add: cs)
  show "roots ! i = Undefined" if "i < length roots" "cs ! i = None"
    using none [of "roots ! i"] that by (simp add: cs)
  have arr: "distinct (js_keys m) \<and> (\<forall>v \<in> snd ` set m. js_ok v) \<and> r = Arr (map snd m)"
    if "?items r = Some m" "r \<in> set roots" for r
    using that bspec [OF assms(2) that(2)] itemsByKey_items [of itemKey "elements r" m]
    by (cases r) (auto simp flip: set_map split: if_splits)
  have obj: "distinct (js_keys m) \<and> (\<forall>v \<in> snd ` set m. js_ok v) \<and> r = Obj m"
    if "?props r = Some m" "r \<in> set roots" for r
    using that bspec [OF assms(2) that(2)] by (cases r) (auto split: if_splits)
  show "distinct (js_keys m) \<and> (\<forall>v \<in> snd ` set m. js_ok v) \<and> roots ! i = (if b then Arr (map snd m) else Obj m)"
    if "i < length roots" "cs ! i = Some m"
    using that arr [of "roots ! i"] obj [of "roots ! i"] by (cases b) (simp_all add: cs)
qed

subsection \<open>One level of the rewriting\<close>

abbreviation forms :: "(string \<Rightarrow> string) \<Rightarrow> 'n item_key \<Rightarrow> string \<Rightarrow> 'n js list \<Rightarrow> 'n js list" where
  "forms esc itemKey pointer roots \<equiv> fst (withArraysByKey esc itemKey pointer roots)"

abbreviation keyed_sets :: "(string \<Rightarrow> string) \<Rightarrow> 'n item_key \<Rightarrow> string \<Rightarrow> 'n js list \<Rightarrow> (string \<times> key_lists) list" where
  "keyed_sets esc itemKey pointer roots \<equiv> snd (withArraysByKey esc itemKey pointer roots)"

abbreviation sub_pointer :: "(string \<Rightarrow> string) \<Rightarrow> string \<Rightarrow> string \<Rightarrow> string" where
  "sub_pointer esc pointer name \<equiv> pointer @ ''/'' @ esc name"

lemma withArraysByKey_None:
  "children_of itemKey roots = None \<Longrightarrow> withArraysByKey esc itemKey pointer roots = (roots, [])"
  by (simp add: withArraysByKey.simps [of esc itemKey pointer roots])

lemma keyed_sets_Some:
  "children_of itemKey roots = Some (b, cs) \<Longrightarrow> keyed_sets esc itemKey pointer roots =
     (if b then [(pointer, map (map_option js_keys) cs)] else []) @
     concat (map (\<lambda>name. keyed_sets esc itemKey (sub_pointer esc pointer name) (child_roots cs name)) (child_names cs))"
  by (simp add: withArraysByKey.simps [of esc itemKey pointer roots] Let_def comp_def)

lemma distinct_child_names: "distinct (child_names cs)"
  unfolding child_names_def nub_def [symmetric] by simp

lemma forms_Some:
  assumes "children_of itemKey roots = Some (b, cs)" and "i < length cs"
  shows "forms esc itemKey pointer roots ! i =
     (case cs ! i of None \<Rightarrow> Undefined
      | Some m \<Rightarrow> Obj (map (\<lambda>name. (name, forms esc itemKey (sub_pointer esc pointer name) (child_roots cs name) ! i)) (js_keys m)))"
proof -
  let ?form = "\<lambda>name. forms esc itemKey (sub_pointer esc pointer name) (child_roots cs name)"
  have get: "js_get (zip (child_names cs) (map ?form (child_names cs))) name = Some (?form name)"
    if "m \<in> set cs" "m = Some ks" "name \<in> set (js_keys ks)" for m ks name
  proof -
    have "name \<in> set (child_names cs)" using that by (auto simp: set_child_names js_has_def)
    then show ?thesis using map_of_zip_map [of "child_names cs" ?form] by simp
  qed
  have "cs ! i \<in> set cs" using assms(2) by simp
  with get [OF this] assms show ?thesis
    by (auto simp: withArraysByKey.simps [of esc itemKey pointer roots] Let_def comp_def split: option.splits)
qed

lemma length_forms: "length (forms esc itemKey pointer roots) = length roots"
proof (cases "children_of itemKey roots")
  case (Some bc)
  then obtain b cs where c: "children_of itemKey roots = Some (b, cs)" by (cases bc) auto
  then have "length cs = length roots" by (auto simp: children_of_def Let_def split: if_splits)
  then show ?thesis using c by (simp add: withArraysByKey.simps [of esc itemKey pointer roots] Let_def)
qed (simp add: withArraysByKey_None)

lemma keyed_under: "(q, ls) \<in> set (keyed_sets esc itemKey pointer roots) \<Longrightarrow> under pointer q"
proof (induction esc itemKey pointer roots arbitrary: q ls rule: withArraysByKey.induct)
  case (1 esc itemKey pointer roots)
  show ?case
  proof (cases "children_of itemKey roots")
    case (Some bc)
    then obtain b cs where c: "children_of itemKey roots = Some (b, cs)" by (cases bc) auto
    from 1(2) consider "q = pointer"
      | name where "name \<in> set (child_names cs)" "(q, ls) \<in> set (keyed_sets esc itemKey (sub_pointer esc pointer name) (child_roots cs name))"
      unfolding keyed_sets_Some [OF c] by (auto split: if_splits)
    then show ?thesis
    proof cases
      case 2
      from "1.IH" [OF c refl refl 2] show ?thesis using under_child by simp
    qed simp
  qed (use 1 in \<open>simp add: withArraysByKey_None\<close>)
qed

lemma keyed_sets_child:
  assumes "children_of itemKey roots = Some (b, cs)" and "name \<in> set (child_names cs)"
  shows "set (keyed_sets esc itemKey (sub_pointer esc pointer name) (child_roots cs name)) \<subseteq> set (keyed_sets esc itemKey pointer roots)"
  using assms(2) unfolding keyed_sets_Some [OF assms(1)] by auto

text \<open>Each array has one pointer, so the map holds what the calls set.\<close>

lemma distinct_concat_map:
  assumes "distinct ns" and "\<And>n. n \<in> set ns \<Longrightarrow> distinct (f n)" and "\<And>n m. n \<in> set ns \<Longrightarrow> m \<in> set ns \<Longrightarrow> n \<noteq> m \<Longrightarrow> set (f n) \<inter> set (f m) = {}"
  shows "distinct (concat (map f ns))"
  using assms
proof (induction ns)
  case (Cons n ns)
  have "set (f n) \<inter> set (f m) = {}" if "m \<in> set ns" for m using Cons.prems(1) Cons.prems(3) [of n m] that by auto
  then show ?case using Cons by auto
qed simp

lemma keyed_pointers_distinct:
  "escape_ok esc \<Longrightarrow> distinct (map fst (keyed_sets esc itemKey pointer roots))"
proof (induction esc itemKey pointer roots rule: withArraysByKey.induct)
  case (1 esc itemKey pointer roots)
  show ?case
  proof (cases "children_of itemKey roots")
    case (Some bc)
    then obtain b cs where c: "children_of itemKey roots = Some (b, cs)" by (cases bc) auto
    let ?ps = "\<lambda>name. map fst (keyed_sets esc itemKey (sub_pointer esc pointer name) (child_roots cs name))"
    have sub: "under (sub_pointer esc pointer name) q" if "q \<in> set (?ps name)" for name q
      using that keyed_under by fastforce
    have "distinct (concat (map ?ps (child_names cs)))"
    proof (rule distinct_concat_map [OF distinct_child_names])
      show "distinct (?ps name)" if "name \<in> set (child_names cs)" for name
        using "1.IH" [OF c refl refl that "1.prems"] .
      show "set (?ps n) \<inter> set (?ps m) = {}" if "n \<noteq> m" for n m
        using that sub under_siblings [OF "1.prems"] by blast
    qed
    moreover have "pointer \<notin> set (concat (map ?ps (child_names cs)))" using sub under_child_neq by fastforce
    ultimately show ?thesis unfolding keyed_sets_Some [OF c] by (simp add: map_concat comp_def)
  qed (simp add: withArraysByKey_None)
qed

lemma foldl_js_set_distinct:
  "distinct (map fst ps) \<Longrightarrow> set (map fst ps) \<inter> set (js_keys m) = {} \<Longrightarrow> foldl (\<lambda>m (p, ls). js_set p ls m) m ps = m @ ps"
proof (induction ps arbitrary: m)
  case (Cons p ps)
  then have "\<not> js_has m (fst p)" by (auto simp: js_has_def)
  then show ?case using Cons.IH [of "m @ [p]"] Cons.prems by (auto simp: js_set_new case_prod_beta)
qed simp

lemma keyed_of_sets: "escape_ok esc \<Longrightarrow> keyed_of (keyed_sets esc itemKey pointer roots) = keyed_sets esc itemKey pointer roots"
  using foldl_js_set_distinct [of "keyed_sets esc itemKey pointer roots" "[]"] keyed_pointers_distinct [of esc itemKey pointer roots]
  by (simp add: keyed_of_def)

subsection \<open>Restoring\<close>

lemma restored_elsewhere:
  "(\<And>q. js_has arrays q \<Longrightarrow> \<not> under pointer q) \<Longrightarrow> withArraysRestored esc arrays pointer v = v"
proof (induction esc arrays pointer v rule: withArraysRestored.induct)
  case (1 esc arrays pointer kvs)
  have "js_get arrays pointer = None" using "1.prems" [of pointer] by (cases "js_get arrays pointer") (simp_all add: js_has_get)
  moreover have "withArraysRestored esc arrays (sub_pointer esc pointer (fst p)) (snd p) = snd p" if "p \<in> set kvs" for p
    using "1.IH" [OF that] "1.prems" under_child by blast
  then have "map (\<lambda>p. (fst p, withArraysRestored esc arrays (sub_pointer esc pointer (fst p)) (snd p))) kvs = kvs"
    by (intro map_idI) simp
  ultimately show ?case by simp
qed simp_all

lemma arranged_own:
  assumes "distinct (js_keys m)" and "filter (\<lambda>k. k \<in> set (js_keys m)) (arranged_order A) = js_keys m"
  shows "arranged m A = map snd m"
proof -
  have "js_has m = (\<lambda>k. k \<in> set (js_keys m))" by (rule ext) (simp add: js_has_def)
  then have "arranged m A = map (child m) (js_keys m)" using assms(2) by (simp only: arranged_def)
  also have "\<dots> = map snd m" using assms(1) by (auto simp: child_def)
  finally show ?thesis .
qed

text \<open>A root comes back where each array it holds was kept in its own order.\<close>

definition keeps_root :: "nat \<Rightarrow> (string, keyed_array) js_map \<Rightarrow> string \<times> key_lists \<Rightarrow> bool" where
  "keeps_root i arrays e \<longleftrightarrow>
     (\<exists>A. js_get arrays (fst e) = Some A \<and>
        (\<forall>ks. snd e ! i = Some ks \<longrightarrow> filter (\<lambda>k. k \<in> set ks) (arranged_order A) = ks))"

lemma child_roots_ok:
  assumes "children_of itemKey roots = Some (b, cs)" and "\<forall>r \<in> set roots. js_ok r" and "r \<in> set (child_roots cs name)"
  shows "js_ok r"
proof -
  obtain i where i: "i < length cs" "r = (case cs ! i of None \<Rightarrow> Undefined | Some m \<Rightarrow> child m name)"
    using assms(3) by (auto simp: child_roots_def in_set_conv_nth)
  note root = children_of_root [OF assms(1,2)]
  show ?thesis
  proof (cases "cs ! i")
    case (Some m)
    then have "\<forall>v \<in> snd ` set m. js_ok v" using root(1) root(3) [of i m] i by simp
    then show ?thesis using i Some by (force simp: child_def dest: map_of_SomeD split: option.splits)
  qed (use i in simp)
qed

lemma restored_forms:
  assumes "escape_ok esc" and "\<forall>r \<in> set roots. js_ok r" and "i < length roots"
    and "\<And>e. e \<in> set (keyed_sets esc itemKey pointer roots) \<Longrightarrow> keeps_root i arrays e"
    and "\<And>q. js_has arrays q \<Longrightarrow> under pointer q \<Longrightarrow> q \<in> fst ` set (keyed_sets esc itemKey pointer roots)"
  shows "withArraysRestored esc arrays pointer (forms esc itemKey pointer roots ! i) = roots ! i"
  using assms
proof (induction esc itemKey pointer roots rule: withArraysByKey.induct)
  case (1 esc itemKey pointer roots)
  note esc = "1.prems"(1) and ok = "1.prems"(2) and i = "1.prems"(3) and keeps = "1.prems"(4) and own = "1.prems"(5)
  show ?case
  proof (cases "children_of itemKey roots")
    case None
    then have "\<not> under pointer q" if "js_has arrays q" for q using own [OF that] by (auto simp: withArraysByKey_None)
    then show ?thesis using None by (simp add: withArraysByKey_None restored_elsewhere)
  next
    case (Some bc)
    then obtain b cs where c: "children_of itemKey roots = Some (b, cs)" by (cases bc) auto
    note root = children_of_root [OF c ok]
    let ?sub = "\<lambda>name. keyed_sets esc itemKey (sub_pointer esc pointer name) (child_roots cs name)"
    have below: "withArraysRestored esc arrays (sub_pointer esc pointer name)
        (forms esc itemKey (sub_pointer esc pointer name) (child_roots cs name) ! i) = child_roots cs name ! i"
      if name: "name \<in> set (child_names cs)" for name
    proof (rule "1.IH" [OF c refl refl name esc])
      show "i < length (child_roots cs name)" using i root(1) by (simp add: child_roots_def)
      show "keeps_root i arrays e" if "e \<in> set (?sub name)" for e using keeps keyed_sets_child [OF c name] that by blast
      fix q assume q: "js_has arrays q" "under (sub_pointer esc pointer name) q"
      then have "q \<in> fst ` set (keyed_sets esc itemKey pointer roots)" using own under_child by blast
      then obtain n where "n \<in> set (child_names cs)" "q \<in> fst ` set (?sub n)"
        using under_child_neq [OF q(2)] unfolding keyed_sets_Some [OF c] by (auto split: if_splits)
      moreover from this have "n = name" using keyed_under under_siblings [OF esc _ q(2)] by fastforce
      ultimately show "q \<in> fst ` set (?sub name)" by simp
    qed (use child_roots_ok [OF c ok] in blast)
    show ?thesis
    proof (cases "cs ! i")
      case None
      then show ?thesis using root(1,2) i by (simp add: forms_Some [OF c])
    next
      case (Some m)
      note m = root(3) [OF i Some]
      let ?form = "\<lambda>name. forms esc itemKey (sub_pointer esc pointer name) (child_roots cs name) ! i"
      have get: "child_roots cs name ! i = child m name" for name using Some i root(1) by (simp add: child_roots_def)
      have names: "name \<in> set (child_names cs)" if "name \<in> set (js_keys m)" for name
        using Some i root(1) that nth_mem [of i cs] by (auto simp: set_child_names js_has_def)
      have "map (\<lambda>p. (fst p, withArraysRestored esc arrays (sub_pointer esc pointer (fst p)) (snd p)))
          (map (\<lambda>name. (name, ?form name)) (js_keys m)) = map (\<lambda>name. (name, child m name)) (js_keys m)"
        using below [OF names] get by simp
      also have "\<dots> = m" using m by (auto simp: child_def intro: map_idI)
      finally have ents: "withArraysRestored esc arrays pointer (Obj (map (\<lambda>name. (name, ?form name)) (js_keys m))) =
          (case js_get arrays pointer of Some A \<Rightarrow> Arr (arranged m A) | None \<Rightarrow> Obj m)"
        by (simp only: withArraysRestored.simps Let_def)
      show ?thesis
      proof (cases b)
        case True
        then have "keeps_root i arrays (pointer, map (map_option js_keys) cs)" by (intro keeps) (simp add: keyed_sets_Some [OF c])
        then obtain A where "js_get arrays pointer = Some A" "filter (\<lambda>k. k \<in> set (js_keys m)) (arranged_order A) = js_keys m"
          using Some i root(1) by (auto simp: keeps_root_def)
        then show ?thesis using ents m True Some i root(1) by (simp add: forms_Some [OF c] arranged_own del: withArraysRestored.simps)
      next
        case False
        have "q \<noteq> pointer" if "q \<in> fst ` set (keyed_sets esc itemKey pointer roots)" for q
          using that keyed_under under_child_neq False unfolding keyed_sets_Some [OF c] by fastforce
        then have "js_get arrays pointer = None" using own [of pointer] by (cases "js_get arrays pointer") (auto simp: js_has_get)
        then show ?thesis using ents m False Some i root(1) by (simp add: forms_Some [OF c] del: withArraysRestored.simps)
      qed
    qed
  qed
qed

subsection \<open>Properties\<close>

lemma keyed_arrays_get:
  "keyed_arrays ls = Some arrays \<Longrightarrow>
   map fst arrays = map fst ls \<and> (\<forall>e \<in> set arrays. (fst e, keyLists (snd e)) \<in> set ls \<and> keptOrder (keyLists (snd e)) = Some (kept (snd e)))"
proof (induction ls arbitrary: arrays rule: keyed_arrays.induct)
  case (2 pointer ls rest)
  then obtain k more_arrays where "keptOrder ls = Some k" "keyed_arrays rest = Some more_arrays"
    "arrays = (pointer, \<lparr>keyLists = ls, kept = k\<rparr>) # more_arrays"
    by (auto split: option.splits)
  with "2.IH" show ?case by auto
qed simp

lemma keyed_lists_distinct:
  assumes "(q, ls) \<in> set (keyed_sets esc itemKey pointer roots)" and "\<forall>r \<in> set roots. js_ok r" and "i < length roots" and "ls ! i = Some ks"
  shows "distinct ks"
  using assms
proof (induction esc itemKey pointer roots rule: withArraysByKey.induct)
  case (1 esc itemKey pointer roots)
  show ?case
  proof (cases "children_of itemKey roots")
    case (Some bc)
    then obtain b cs where c: "children_of itemKey roots = Some (b, cs)" by (cases bc) auto
    note root = children_of_root [OF c "1.prems"(2)]
    from "1.prems"(1) consider "ls = map (map_option js_keys) cs"
      | name where "name \<in> set (child_names cs)" "(q, ls) \<in> set (keyed_sets esc itemKey (sub_pointer esc pointer name) (child_roots cs name))"
      unfolding keyed_sets_Some [OF c] by (auto split: if_splits)
    then show ?thesis
    proof cases
      case 1
      then show ?thesis using root(1) root(3) [of i] "1.prems"(3,4) by auto
    next
      case 2
      have "\<forall>r \<in> set (child_roots cs name). js_ok r" using child_roots_ok [OF c "1.prems"(2)] by blast
      moreover have "i < length (child_roots cs name)" using root(1) "1.prems"(3) by (simp add: child_roots_def)
      ultimately show ?thesis by (rule "1.IH" [OF c refl refl 2 _ _ "1.prems"(4)])
    qed
  qed (use 1 in \<open>simp add: withArraysByKey_None\<close>)
qed

text \<open>
  C14: rewriting the arrays matched by key into objects loses nothing: a root whose arrays all keep that
  root's own order comes back as it was, every array and every property in its place, at any depth.
\<close>

theorem keyed_rewrite_roundtrip:
  assumes "escape_ok esc" and "\<forall>r \<in> set roots. js_ok r" and "i < length roots"
    and "withArraysByKey esc itemKey [] roots = (fs, sets)" and "keyed_arrays (keyed_of sets) = Some arrays"
    and "\<forall>(q, A) \<in> set arrays. keyLists A ! i \<noteq> None \<longrightarrow> keyLists A ! i = Some (kept A)"
  shows "withArraysRestored esc arrays [] (fs ! i) = roots ! i"
proof -
  have fs: "fs = forms esc itemKey [] roots" and sets: "sets = keyed_sets esc itemKey [] roots" by (simp_all add: assms(4))
  have keyed: "keyed_of sets = sets" unfolding sets by (rule keyed_of_sets [OF assms(1)])
  note arrays = keyed_arrays_get [OF assms(5) [unfolded keyed]]
  have dist: "distinct (map fst arrays)" using arrays keyed_pointers_distinct [OF assms(1)] by (simp add: sets)
  show ?thesis unfolding fs
  proof (rule restored_forms [OF assms(1-3)])
    fix e assume e: "e \<in> set (keyed_sets esc itemKey [] roots)"
    then have "fst e \<in> fst ` set arrays" using arrays sets by (metis image_eqI set_map)
    then obtain A where A: "(fst e, A) \<in> set arrays" by auto
    then have "(fst e, keyLists A) \<in> set sets" using arrays by auto
    then have ls: "snd e = keyLists A"
      using e keyed_pointers_distinct [OF assms(1), of itemKey "[]" roots] by (metis eq_key_imp_eq_value prod.collapse sets)
    have "filter (\<lambda>k. k \<in> set ks) (arranged_order A) = ks" if "snd e ! i = Some ks" for ks
    proof -
      have "kept A = ks" using assms(6) A that ls by auto
      moreover have "distinct ks" using keyed_lists_distinct [of "fst e" "snd e"] e assms(2,3) that by simp
      ultimately show ?thesis using arranged_keeps_kept by auto
    qed
    then show "keeps_root i arrays e" using A dist by (auto simp: keeps_root_def)
  next
    show "q \<in> fst ` set (keyed_sets esc itemKey [] roots)" if "js_has arrays q" for q
      using that arrays sets by (metis js_has_def set_map)
  qed
qed

definition witness_escape :: "string \<Rightarrow> string" where
  "witness_escape k = concat (map (\<lambda>c. if c = CHR ''~'' then ''~0'' else if c = CHR ''/'' then ''~1'' else [c]) k)"

fun witness_unescape :: "string \<Rightarrow> string" where
  "witness_unescape (c # d # cs) =
     (if c = CHR ''~'' then (if d = CHR ''0'' then CHR ''~'' else CHR ''/'') # witness_unescape cs else c # witness_unescape (d # cs))"
| "witness_unescape cs = cs"

lemma witness_unescape_Cons: "c \<noteq> CHR ''~'' \<Longrightarrow> witness_unescape (c # cs) = c # witness_unescape cs"
  by (cases cs) simp_all

lemma witness_escape_Cons:
  "witness_escape (c # k) = (if c = CHR ''~'' then ''~0'' else if c = CHR ''/'' then ''~1'' else [c]) @ witness_escape k"
  by (simp add: witness_escape_def)

lemma witness_unescape_escape: "witness_unescape (witness_escape k) = k"
proof (induction k)
  case (Cons c k)
  then show ?case by (simp add: witness_escape_Cons witness_unescape_Cons)
qed (simp add: witness_escape_def)

lemma witness_escape_ok: "escape_ok witness_escape"
proof -
  have "CHR ''/'' \<notin> set (witness_escape k)" for k
    by (induction k) (simp_all add: witness_escape_Cons, simp add: witness_escape_def)
  moreover have "inj witness_escape" by (rule inj_on_inverseI) (rule witness_unescape_escape)
  ultimately show ?thesis by (simp add: escape_ok_def)
qed

fun witness_key :: "int js \<Rightarrow> string option" where
  "witness_key (String s) = Some s"
| "witness_key _ = None"

definition witness_root :: "int js" where
  "witness_root = Obj [(''x'', Arr [String ''p'', String ''q'']), (''y/z'', Number 1)]"

lemma witness_scalar: "withArraysByKey witness_escape witness_key p [String s, String s, String s] = ([String s, String s, String s], [])"
  "withArraysByKey witness_escape witness_key p [Number n, Number n, Number n] = ([Number n, Number n, Number n], [])"
  by (simp_all add: withArraysByKey_None children_of_def)

lemma witness_array:
  "withArraysByKey witness_escape witness_key p [Arr [String ''p'', String ''q''], Arr [String ''p'', String ''q''], Arr [String ''p'', String ''q'']] =
     (replicate 3 (Obj [(''#p'', String ''p''), (''#q'', String ''q'')]), [(p, replicate 3 (Some [''#p'', ''#q'']))])"
  by (subst withArraysByKey.simps)
     (simp add: children_of_def itemsByKey_def ITEM_KEY_PREFIX_def js_has_def child_names_def set_add_def child_roots_def child_def
       witness_scalar numeral_3_eq_3 Let_def)

lemma witness_rewrite:
  "withArraysByKey witness_escape witness_key [] [witness_root, witness_root, witness_root] =
     (replicate 3 (Obj [(''x'', Obj [(''#p'', String ''p''), (''#q'', String ''q'')]), (''y/z'', Number 1)]),
      [(''/x'', replicate 3 (Some [''#p'', ''#q'']))])"
  by (subst withArraysByKey.simps)
     (simp add: witness_root_def children_of_def child_names_def set_add_def child_roots_def child_def witness_escape_def
       witness_scalar witness_array numeral_3_eq_3)

theorem keyed_rewrite_roundtrip_witness:
  "withArraysRestored witness_escape [(''/x'', \<lparr>keyLists = replicate 3 (Some [''#p'', ''#q'']), kept = [''#p'', ''#q'']\<rparr>)] []
     (Obj [(''x'', Obj [(''#p'', String ''p''), (''#q'', String ''q'')]), (''y/z'', Number 1)]) = witness_root"
proof -
  let ?arrays = "[(''/x'', \<lparr>keyLists = replicate 3 (Some [''#p'', ''#q'']), kept = [''#p'', ''#q'']\<rparr>)]"
  have a: "keyed_arrays (keyed_of [(''/x'', replicate 3 (Some [''#p'', ''#q'']))]) = Some ?arrays"
    by (simp add: keyed_of_def keptOrder_def numeral_3_eq_3 Let_def same_order_def)
  have ok: "\<forall>r \<in> set [witness_root, witness_root, witness_root]. js_ok r" by (simp add: witness_root_def)
  show ?thesis
    using keyed_rewrite_roundtrip [OF witness_escape_ok ok _ witness_rewrite a, of 2] by (simp add: numeral_3_eq_3 numeral_2_eq_2)
qed

end
