(* ===== verification/MergeReplay.thy ===== *)
theory MergeReplay
  imports PatchMerge
begin

section \<open>What a replay may overwrite\<close>

text \<open>
  Properties of \<open>replay\<close>, \<open>reconcileByPatchReplay\<close> and \<open>editRoot\<close>. The package \<open>fast-json-patch\<close> enters with
  what RFC 6902 says of applying a patch: the operations run in order, each on the result of the one
  before, and a \<open>test\<close> operation changes nothing and fails where the value differs.
\<close>

definition patch_lib_ok :: "'n patch_lib \<Rightarrow> bool" where
  "patch_lib_ok P \<longleftrightarrow>
     (\<forall>d. applyPatch P d [] = Some d) \<and>
     (\<forall>d op ops. applyPatch P d (op # ops) = Option.bind (applyPatch P d [op]) (\<lambda>d1. applyPatch P d1 ops)) \<and>
     (\<forall>d p v d1. applyPatch P d [\<lparr>op_of = OpTest, path = p, op_value = v\<rparr>] = Some d1 \<longrightarrow> d1 = d \<and> areEquals P (valueAt P d p) v)"

text \<open>
  A run in which each replacement and removal meets the value the user's patch was made against.
\<close>

inductive guarded_run :: "'n patch_lib \<Rightarrow> 'n js \<Rightarrow> 'n js \<Rightarrow> 'n patch_op list \<Rightarrow> 'n js \<Rightarrow> bool" for P base where
  guarded_done: "guarded_run P base d [] d"
| guarded_op: "op_of op \<in> {OpReplace, OpRemove} \<longrightarrow>
      (\<exists>v. getValueByPointer P base (path op) = Some v \<and> areEquals P (valueAt P d (path op)) v) \<Longrightarrow>
    applyPatch P d [op] = Some d1 \<Longrightarrow> guarded_run P base d1 ops d2 \<Longrightarrow> guarded_run P base d (op # ops) d2"

inductive_cases guarded_run_ConsE: "guarded_run P base d (op # ops) d2"

lemma patch_lib_okD:
  assumes "patch_lib_ok P"
  shows "applyPatch P d [] = Some d"
    and "applyPatch P d (op # ops) = Option.bind (applyPatch P d [op]) (\<lambda>d1. applyPatch P d1 ops)"
    and "applyPatch P d [\<lparr>op_of = OpTest, path = p, op_value = v\<rparr>] = Some d1 \<Longrightarrow> d1 = d \<and> areEquals P (valueAt P d p) v"
  using assms unfolding patch_lib_ok_def by blast+

lemma applyPatch_Cons:
  assumes "patch_lib_ok P" and "applyPatch P d (op # ops) = Some d2"
  obtains d1 where "applyPatch P d [op] = Some d1" and "applyPatch P d1 ops = Some d2"
  using assms(2) unfolding patch_lib_okD(2) [OF assms(1), of d op ops] by (auto simp: bind_eq_Some_conv)

lemma augmented_run:
  assumes "patch_lib_ok P" and "augmentWithTestOps P base ops = Some guarded" and "applyPatch P d guarded = Some d2"
  shows "guarded_run P base d ops d2"
  using assms
proof (induction ops arbitrary: guarded d)
  case Nil
  then show ?case using patch_lib_okD(1) [OF assms(1)] by (auto intro: guarded_done)
next
  case (Cons op ops)
  show ?case
  proof (cases "op_of op \<in> {OpReplace, OpRemove}")
    case True
    then obtain v rest where v: "getValueByPointer P base (path op) = Some v" and r: "augmentWithTestOps P base ops = Some rest"
      and g: "guarded = \<lparr>op_of = OpTest, path = path op, op_value = v\<rparr> # op # rest"
      using Cons.prems(2) by (auto split: option.splits)
    obtain d0 d1 where d0: "applyPatch P d [\<lparr>op_of = OpTest, path = path op, op_value = v\<rparr>] = Some d0"
      and d1: "applyPatch P d0 [op] = Some d1" and d2: "applyPatch P d1 rest = Some d2"
      using Cons.prems(3) g applyPatch_Cons [OF Cons.prems(1)] by metis
    have "d0 = d" and "areEquals P (valueAt P d (path op)) v" using patch_lib_okD(3) [OF Cons.prems(1) d0] by simp_all
    with v d1 Cons.IH [OF Cons.prems(1) r d2] show ?thesis by (auto intro: guarded_op)
  next
    case False
    then obtain rest where r: "augmentWithTestOps P base ops = Some rest" and g: "guarded = op # rest"
      using Cons.prems(2) by auto
    then obtain d1 where "applyPatch P d [op] = Some d1" "applyPatch P d1 rest = Some d2"
      using Cons.prems(3) applyPatch_Cons [OF Cons.prems(1)] by metis
    with False Cons.IH [OF Cons.prems(1) r] show ?thesis by (auto intro: guarded_op)
  qed
qed

subsection \<open>The checks without their caches\<close>

lemma withoutAgreed_uncached:
  "withoutAgreed P base ours theirs userPatch = filter (op_stays P base ours theirs userPatch) userPatch"
  unfolding withoutAgreed_def Let_def by (subst filter_agreed_uncached) (simp_all add: op_stays_def [abs_def])

lemma adds_uncached: "addsCollide P base theirs ops \<longleftrightarrow> list_ex (add_collides P base theirs) ops"
  unfolding addsCollide_def by (rule addsCollide_uncached) (rule tallies_ok_Nil)

lemma edits_uncached:
  "editsMovedElement P base theirs ops \<longleftrightarrow>
     list_ex (\<lambda>op. list_ex (step_moved P base theirs (split_path (path op))) [1..<length (split_path (path op)) - 1]) ops"
  unfolding editsMovedElement_def by (rule editsMovedElement_uncached) (simp_all add: tallies_ok_Nil moved_ok_def)

subsection \<open>Properties\<close>

text \<open>
  C16: the caches of the three checks never change an answer: an op is dropped, an add collides and an
  element counts as moved exactly as a fresh look at each op decides it.
\<close>

theorem checks_match_reference:
  "withoutAgreed P base ours theirs userPatch = filter (op_stays P base ours theirs userPatch) userPatch \<and>
   (addsCollide P base theirs ops \<longleftrightarrow> list_ex (add_collides P base theirs) ops) \<and>
   (editsMovedElement P base theirs ops \<longleftrightarrow>
      list_ex (\<lambda>op. list_ex (step_moved P base theirs (split_path (path op))) [1..<length (split_path (path op)) - 1]) ops)"
  by (intro conjI withoutAgreed_uncached adds_uncached edits_uncached)

lemma replay_Merged:
  assumes "replay P base ours theirs userPatch = Merged m"
  obtains guarded where "withoutAgreed P base ours (toJson theirs) userPatch \<noteq> []"
    and "augmentWithTestOps P base (withoutAgreed P base ours (toJson theirs) userPatch) = Some guarded"
    and "applyPatch P (deepClone P theirs) guarded = Some m"
    and "\<not> addsCollide P base (toJson theirs) (withoutAgreed P base ours (toJson theirs) userPatch)"
  using assms by (auto simp: replay_def Let_def split: if_splits option.splits bind_splits)




text \<open>
  C13: a merge never clobbers: it leaves out what the server already agrees with, no insertion of it meets
  one the server made, and each remaining replacement or removal is applied to a document that holds, at
  its path, the value the user's edit started from.
\<close>

theorem merge_never_clobbers:
  assumes "patch_lib_ok P" and "replay P base ours theirs userPatch = Merged m"
  shows "\<exists>pending. pending = filter (op_stays P base ours (toJson theirs) userPatch) userPatch \<and> pending \<noteq> [] \<and>
           guarded_run P base (deepClone P theirs) pending m \<and>
           (\<forall>op \<in> set pending. \<not> add_collides P base (toJson theirs) op)"
proof -
  let ?pending = "withoutAgreed P base ours (toJson theirs) userPatch"
  note p = withoutAgreed_uncached [of P base ours "toJson theirs" userPatch]
  obtain guarded where "?pending \<noteq> []" "augmentWithTestOps P base ?pending = Some guarded"
    "applyPatch P (deepClone P theirs) guarded = Some m" "\<not> addsCollide P base (toJson theirs) ?pending"
    by (rule replay_Merged [OF assms(2)])
  with augmented_run [OF assms(1)] p show ?thesis
    by (auto simp: adds_uncached list_ex_iff)
qed

text \<open>A one-level patch library, with which the hypothesis holds and merges evaluate.\<close>

definition witness_get :: "'n js \<Rightarrow> string \<Rightarrow> 'n js" where
  "witness_get d p = (case p of [] \<Rightarrow> d | _ # k \<Rightarrow> child (entries d) k)"

fun witness_apply :: "'n js \<Rightarrow> 'n patch_op list \<Rightarrow> 'n js option" where
  "witness_apply d [] = Some d"
| "witness_apply d (op # ops) =
     (let k = tl (path op)
      in case op_of op of
           OpTest \<Rightarrow> if witness_get d (path op) = op_value op then witness_apply d ops else None
         | OpReplace \<Rightarrow> witness_apply (Obj (js_set k (op_value op) (entries d))) ops
         | OpAdd \<Rightarrow> witness_apply (Obj (js_set k (op_value op) (entries d))) ops
         | OpRemove \<Rightarrow> witness_apply (Obj (js_delete k (entries d))) ops
         | _ \<Rightarrow> None)"

definition flat_lib :: "int patch_lib" where
  "flat_lib =
     \<lparr>compare = (\<lambda>a b. map (\<lambda>(k, v). \<lparr>op_of = OpReplace, path = CHR ''/'' # k, op_value = v\<rparr>)
                   (filter (\<lambda>(k, v). child (entries a) k \<noteq> v) (entries b))),
      applyPatch = witness_apply,
      getValueByPointer = (\<lambda>d p. Some (witness_get d p)),
      areEquals = (=), deepClone = id, escapePathComponent = id, unescapePathComponent = id\<rparr>"

lemma flat_lib_ok: "patch_lib_ok flat_lib"
proof -
  have seq: "witness_apply d (op # ops) = Option.bind (witness_apply d [op]) (\<lambda>d1. witness_apply d1 ops)" for d :: "int js" and op ops
    by (cases "op_of op") (simp_all add: Let_def)
  show ?thesis unfolding patch_lib_ok_def
  proof (intro conjI allI impI)
    show "applyPatch flat_lib d (op # ops) = Option.bind (applyPatch flat_lib d [op]) (\<lambda>d1. applyPatch flat_lib d1 ops)" for d op ops
      using seq [of d op ops] by (simp only: flat_lib_def patch_lib.simps)
  qed (auto simp: flat_lib_def valueAt_def split: if_splits)
qed

theorem merge_never_clobbers_witness:
  "\<exists>pending. pending \<noteq> [] \<and>
     guarded_run flat_lib (Obj [(''n'', Number 1), (''m'', Number 1)]) (Obj [(''n'', Number 1), (''m'', Number 5)]) pending
       (Obj [(''n'', Number 2), (''m'', Number 5)])"
proof -
  let ?base = "Obj [(''n'', Number 1), (''m'', Number 1)] :: int js" and ?ours = "Obj [(''n'', Number 2), (''m'', Number 1)] :: int js"
  let ?theirs = "Obj [(''n'', Number 1), (''m'', Number 5)] :: int js"
  have "replay flat_lib ?base ?ours ?theirs [\<lparr>op_of = OpReplace, path = ''/n'', op_value = Number 2\<rparr>] = Merged (Obj [(''n'', Number 2), (''m'', Number 5)])"
    by (simp add: replay_def withoutAgreed_def insertedArrays_def outermostArrayOn_def object_op_stays_def parent_path_def last_step_def
        addsCollide_def editsMovedElement_def valueAt_def flat_lib_def witness_get_def child_def js_has_def Let_def)
  from merge_never_clobbers [OF flat_lib_ok this] show ?thesis by (auto simp: flat_lib_def)
qed

subsection \<open>What the outcomes of a reconciliation say\<close>















end
