(* ===== verification/ReconcileWrite.thy ===== *)
theory ReconcileWrite
  imports MergeReplay
begin

section \<open>Writing under optimistic concurrency\<close>

text \<open>
  \<open>reconcileWrite\<close> of \<open>protocol/src/reconcile-write.ts\<close>: a write that conflicts is merged onto the refetched
  model and written again. The hooks are arbitrary functions of a world \<open>'w\<close>, in which other clients act
  while a hook runs. The loop also answers the writes it made, in order: the model, the base version and
  whether \<open>persist\<close> answered. A write it rejects with a conflict was refused; one it rejects otherwise may
  have landed. What \<open>onUnavailable\<close> writes is not one of them.
\<close>

datatype ('c, 'e) thrown = ConflictError 'c | OtherError 'e

datatype base_version = AnyVersion | BaseVersion int

record 'n versioned_model =
  vm_model :: "'n js"
  vm_version :: int

type_synonym ('n, 'w) world = "'w \<times> 'n versioned_model option"

record ('n, 'c, 'e, 'w) hooks =
  persist :: "'n js \<Rightarrow> base_version \<Rightarrow> 'w \<Rightarrow> ('c, 'e) thrown option \<times> 'w"
  refetch :: "(('c, 'e) thrown, 'w, 'n versioned_model option) promise"
  base :: "'n js"
  conflictResolver :: "'n js \<Rightarrow> 'n js \<Rightarrow> (('c, 'e) thrown, ('n, 'w) world, 'n js option) promise \<Rightarrow>
                        (('c, 'e) thrown, ('n, 'w) world, 'n reconcile_outcome) promise"
  maxWrites :: "int option"
  sent :: "('c \<Rightarrow> bool) option"
  onUnavailable :: "('n js \<Rightarrow> 'c \<Rightarrow> 'w \<Rightarrow> ('c, 'e) thrown option \<times> 'w) option"

datatype write_status = MergedWrite | AlreadyAppliedWrite | Unchanged | ConflictWrite | Dropped | UnavailableWrite

datatype 'c write_outcome = Persisted | Settled write_status 'c int

type_synonym 'n write_log = "('n js \<times> base_version \<times> bool) list"

definition DEFAULT_MAX_WRITES :: int where "DEFAULT_MAX_WRITES = 3"

definition max_writes :: "('n, 'c, 'e, 'w) hooks \<Rightarrow> int" where
  "max_writes h = (case maxWrites h of Some n \<Rightarrow> n | None \<Rightarrow> DEFAULT_MAX_WRITES)"

definition persistOrConflict ::
  "('n, 'c, 'e, 'w) hooks \<Rightarrow> 'n js \<Rightarrow> base_version \<Rightarrow> (('c, 'e) thrown, 'w, 'c option) promise" where
  "persistOrConflict h model baseVersion w =
     (case persist h model baseVersion w of
        (None, w1) \<Rightarrow> (Inr None, w1)
      | (Some (ConflictError c), w1) \<Rightarrow> (Inr (Some c), w1)
      | (Some (OtherError e), w1) \<Rightarrow> (Inl (OtherError e), w1))"

text \<open>The refetch callback handed to the resolver, which notes what it fetched in \<open>refetched\<close>.\<close>

definition capture :: "('n, 'c, 'e, 'w) hooks \<Rightarrow> (('c, 'e) thrown, ('n, 'w) world, 'n js option) promise" where
  "capture h = (\<lambda>(w, refetched).
     (case refetch h w of
        (Inl e, w1) \<Rightarrow> (Inl e, (w1, refetched))
      | (Inr found, w1) \<Rightarrow> (Inr (map_option vm_model found), (w1, found))))"

definition refusedUnsent :: "('n, 'c, 'e, 'w) hooks \<Rightarrow> int \<Rightarrow> 'c option \<Rightarrow> bool" where
  "refusedUnsent h unsent conflict =
     (case conflict of
        None \<Rightarrow> False
      | Some c \<Rightarrow> unsent < max_writes h \<and> (case sent h of None \<Rightarrow> False | Some f \<Rightarrow> \<not> f c))"

definition mergedBase :: "'n versioned_model option \<Rightarrow> base_version" where
  "mergedBase refetched = (case refetched of Some v \<Rightarrow> BaseVersion (vm_version v) | None \<Rightarrow> AnyVersion)"

definition settle_unavailable ::
  "('n, 'c, 'e, 'w) hooks \<Rightarrow> 'n js \<Rightarrow> 'c \<Rightarrow> int \<Rightarrow> (('c, 'e) thrown, 'w, 'c write_outcome) promise" where
  "settle_unavailable h model conflict writes w =
     (case onUnavailable h of
        None \<Rightarrow> (Inr (Settled UnavailableWrite conflict writes), w)
      | Some f \<Rightarrow>
          (case f model conflict w of
             (Some e, w1) \<Rightarrow> (Inl e, w1)
           | (None, w1) \<Rightarrow> (Inr (Settled UnavailableWrite conflict writes), w1)))"

function (sequential) reconcile_loop ::
  "('n, 'c, 'e, 'w) hooks \<Rightarrow> 'n js \<Rightarrow> 'n js \<Rightarrow> base_version \<Rightarrow> 'c option \<Rightarrow> int \<Rightarrow> int \<Rightarrow> 'w \<Rightarrow>
     (('c, 'e) thrown + 'c write_outcome) \<times> 'n write_log \<times> 'w" where
  "reconcile_loop h model candidate baseVersion previous writes unsent w =
     (case persistOrConflict h candidate baseVersion w of
        (Inl e, w1) \<Rightarrow> (Inl e, [(candidate, baseVersion, False)], w1)
      | (Inr conflict, w1) \<Rightarrow>
          (let refused = refusedUnsent h unsent conflict;
               unsent1 = (if refused then unsent + 1 else unsent);
               writes1 = (if refused then writes else writes + 1)
           in case conflict of
                None \<Rightarrow>
                  (Inr (case previous of Some p \<Rightarrow> Settled MergedWrite p writes1 | None \<Rightarrow> Persisted),
                   [(candidate, baseVersion, True)], w1)
              | Some c \<Rightarrow>
                  (case conflictResolver h (base h) model (capture h) (w1, None) of
                     (Inl e, (w2, refetched)) \<Rightarrow> (Inl e, [(candidate, baseVersion, False)], w2)
                   | (Inr (Merged merged), (w2, refetched)) \<Rightarrow>
                       if max_writes h \<le> writes1
                       then (Inr (Settled Dropped c writes1), [(candidate, baseVersion, False)], w2)
                       else (let (r, log, w3) = reconcile_loop h model merged (mergedBase refetched) (Some c) writes1 unsent1 w2
                             in (r, (candidate, baseVersion, False) # log, w3))
                   | (Inr (AlreadyApplied _), (w2, refetched)) \<Rightarrow>
                       (Inr (Settled AlreadyAppliedWrite c writes1), [(candidate, baseVersion, False)], w2)
                   | (Inr NoOp, (w2, refetched)) \<Rightarrow>
                       (Inr (Settled Unchanged c writes1), [(candidate, baseVersion, False)], w2)
                   | (Inr (Conflict _), (w2, refetched)) \<Rightarrow>
                       (Inr (Settled ConflictWrite c writes1), [(candidate, baseVersion, False)], w2)
                   | (Inr Unavailable, (w2, refetched)) \<Rightarrow>
                       (let (r, w3) = settle_unavailable h model c writes1 w2
                        in (r, [(candidate, baseVersion, False)], w3)))))"
  by pat_completeness auto
termination
  by (relation "measure (\<lambda>(h, model, candidate, baseVersion, previous, writes, unsent, w).
        nat (max_writes h - writes) + nat (max_writes h - unsent))")
     (auto simp: refusedUnsent_def split: if_splits option.splits)

declare reconcile_loop.simps [simp del]

definition reconcileWrite ::
  "'n js \<Rightarrow> base_version \<Rightarrow> ('n, 'c, 'e, 'w) hooks \<Rightarrow> 'w \<Rightarrow> (('c, 'e) thrown + 'c write_outcome) \<times> 'n write_log \<times> 'w" where
  "reconcileWrite model baseVersion h w = reconcile_loop h model model baseVersion None 0 0 w"

subsection \<open>One pass of the loop\<close>

text \<open>A pass ends the loop, or its merge is written next; \<open>counted\<close> says whether the pass counts as a write.\<close>

definition pass_ends :: "'c option \<Rightarrow> int \<Rightarrow> (('c, 'e) thrown + 'c write_outcome) \<Rightarrow> bool \<Rightarrow> bool" where
  "pass_ends previous writes1 r landed \<longleftrightarrow>
     (if landed then r = Inr (case previous of Some p \<Rightarrow> Settled MergedWrite p writes1 | None \<Rightarrow> Persisted)
      else (\<exists>e. r = Inl e) \<or> (\<exists>st c. r = Inr (Settled st c writes1) \<and> st \<noteq> MergedWrite))"

lemma reconcile_pass:
  obtains (ends) refused r landed w1 where
      "reconcile_loop h model candidate baseVersion previous writes unsent w = (r, [(candidate, baseVersion, landed)], w1)"
      "pass_ends previous (if refused then writes else writes + 1) r landed"
      "refused \<Longrightarrow> unsent < max_writes h \<and> sent h \<noteq> None"
  | (again) refused c merged refetched w1 w2 r log w3 where
      "reconcile_loop h model candidate baseVersion previous writes unsent w = (r, (candidate, baseVersion, False) # log, w3)"
      "conflictResolver h (base h) model (capture h) (w1, None) = (Inr (Merged merged), (w2, refetched))"
      "reconcile_loop h model merged (mergedBase refetched) (Some c)
         (if refused then writes else writes + 1) (if refused then unsent + 1 else unsent) w2 = (r, log, w3)"
      "(if refused then writes else writes + 1) < max_writes h" "refused \<Longrightarrow> unsent < max_writes h \<and> sent h \<noteq> None"
proof -
  let ?loop = "reconcile_loop h model candidate baseVersion previous writes unsent w"
  obtain p w1 where p: "persistOrConflict h candidate baseVersion w = (p, w1)" by (metis surj_pair)
  show thesis
  proof (cases p)
    case (Inl e)
    then show ?thesis using p by (intro ends [where refused = False]) (auto simp: reconcile_loop.simps pass_ends_def)
  next
    case (Inr conflict)
    let ?refused = "refusedUnsent h unsent conflict"
    have ref: "?refused \<Longrightarrow> unsent < max_writes h \<and> sent h \<noteq> None" by (auto simp: refusedUnsent_def split: option.splits)
    show ?thesis
    proof (cases conflict)
      case None
      then show ?thesis using p Inr
        by (intro ends [where refused = False]) (auto simp: reconcile_loop.simps pass_ends_def refusedUnsent_def Let_def)
    next
      case (Some c)
      obtain q w2 refetched where q: "conflictResolver h (base h) model (capture h) (w1, None) = (q, (w2, refetched))" by (metis surj_pair)
      show ?thesis
      proof (cases "\<exists>m. q = Inr (Merged m) \<and> (if ?refused then writes else writes + 1) < max_writes h")
        case True
        then obtain m where m: "q = Inr (Merged m)" "(if ?refused then writes else writes + 1) < max_writes h" by blast
        obtain r log w3 where "reconcile_loop h model m (mergedBase refetched) (Some c)
            (if ?refused then writes else writes + 1) (if ?refused then unsent + 1 else unsent) w2 = (r, log, w3)" by (metis surj_pair)
        moreover from this have "?loop = (r, (candidate, baseVersion, False) # log, w3)"
          using p Inr Some q m by (simp add: reconcile_loop.simps [of h model candidate] Let_def)
        ultimately show ?thesis using again q m ref by blast
      next
        case False
        obtain u w3 where u: "settle_unavailable h model c (if ?refused then writes else writes + 1) w2 = (u, w3)" by (metis surj_pair)
        then have "(\<exists>e. u = Inl e) \<or> u = Inr (Settled UnavailableWrite c (if ?refused then writes else writes + 1))"
          by (auto simp: settle_unavailable_def split: option.splits prod.splits)
        then have "\<exists>r w4. ?loop = (r, [(candidate, baseVersion, False)], w4) \<and>
            pass_ends previous (if ?refused then writes else writes + 1) r False"
          using p Inr Some q u False
          by (cases q rule: sum.exhaust [case_names Inl Inr]; cases "projr q")
             (auto simp: reconcile_loop.simps [of h model candidate] pass_ends_def Let_def)
        then show ?thesis using ends ref by blast
      qed
    qed
  qed
qed

subsection \<open>The writes of a run\<close>

definition landed_status :: "(('c, 'e) thrown + 'c write_outcome) \<Rightarrow> bool" where
  "landed_status r \<longleftrightarrow> r = Inr Persisted \<or> (\<exists>c n. r = Inr (Settled MergedWrite c n))"

lemma loop_bound:
  assumes "reconcile_loop h model candidate baseVersion previous writes unsent w = (r, log, w1)"
  shows "int (length log) \<le> max 1 (max 0 (max_writes h - writes) + max 0 (max_writes h - unsent))"
  using assms
proof (induction log arbitrary: candidate baseVersion previous writes unsent w)
  case (Cons e log)
  show ?case
  proof (rule reconcile_pass [of h model candidate baseVersion previous writes unsent w], goal_cases)
    case (1 refused r' landed w')
    then show ?case using Cons.prems by simp
  next
    case (2 refused c merged refetched w' w2 r' log' w3)
    then have "reconcile_loop h model merged (mergedBase refetched) (Some c)
         (if refused then writes else writes + 1) (if refused then unsent + 1 else unsent) w2 = (r, log, w1)"
      using Cons.prems by simp
    from Cons.IH [OF this] 2(4,5) show ?case by (cases refused) auto
  qed
qed simp

lemma loop_landed:
  assumes "reconcile_loop h model candidate baseVersion previous writes unsent w = (r, log, w1)"
  shows "log \<noteq> [] \<and> (\<forall>e \<in> set (butlast log). \<not> snd (snd e)) \<and> (snd (snd (last log)) \<longleftrightarrow> landed_status r) \<and>
    (r = Inr Persisted \<longrightarrow> previous = None \<and> length log = 1) \<and>
    (\<forall>c n. r = Inr (Settled MergedWrite c n) \<longrightarrow> previous \<noteq> None \<or> tl log \<noteq> [])"
  using assms
proof (induction log arbitrary: candidate baseVersion previous writes unsent w)
  case Nil
  then show ?case by (rule_tac reconcile_pass [of h model candidate baseVersion previous writes unsent w]) auto
next
  case (Cons e log)
  show ?case
  proof (rule reconcile_pass [of h model candidate baseVersion previous writes unsent w], goal_cases)
    case (1 refused r' landed w')
    then show ?case using Cons.prems by (auto simp: pass_ends_def landed_status_def split: if_splits option.splits)
  next
    case (2 refused c merged refetched w' w2 r' log' w3)
    then have "reconcile_loop h model merged (mergedBase refetched) (Some c)
         (if refused then writes else writes + 1) (if refused then unsent + 1 else unsent) w2 = (r, log, w1)"
      and "e = (candidate, baseVersion, False)"
      using Cons.prems by simp_all
    with Cons.IH [OF this(1)] show ?case by (auto simp: neq_Nil_conv)
  qed
qed

lemma loop_counted:
  assumes "reconcile_loop h model candidate baseVersion previous writes unsent w = (Inr (Settled st c n), log, w1)"
  shows "writes \<le> n \<and> n \<le> writes + int (length log) \<and> n \<le> max (writes + 1) (max_writes h) \<and> (sent h = None \<longrightarrow> n = writes + int (length log))"
  using assms
proof (induction log arbitrary: candidate baseVersion previous writes unsent w)
  case Nil
  then show ?case using loop_landed by fastforce
next
  case (Cons e log)
  show ?case
  proof (rule reconcile_pass [of h model candidate baseVersion previous writes unsent w], goal_cases)
    case (1 refused r' landed w')
    then show ?case using Cons.prems by (cases refused) (auto simp: pass_ends_def split: if_splits option.splits)
  next
    case (2 refused c' merged refetched w' w2 r' log' w3)
    then have "reconcile_loop h model merged (mergedBase refetched) (Some c')
         (if refused then writes else writes + 1) (if refused then unsent + 1 else unsent) w2 = (Inr (Settled st c n), log, w1)"
      using Cons.prems by simp
    from Cons.IH [OF this] 2(4,5) show ?case by (cases refused) auto
  qed
qed

subsection \<open>What a resolver promises\<close>

text \<open>
  The interface between the loop and its resolver: a merge either saw no refetch, and then is one the
  resolver makes blindly, or was made onto the root the one refetch answered.
\<close>

locale conflict_resolver =
  fixes resolve :: "'n js \<Rightarrow> 'n js \<Rightarrow> ('x, 's, 'n js option) promise \<Rightarrow> ('x, 's, 'n reconcile_outcome) promise"
    and merges :: "'n js \<Rightarrow> 'n js \<Rightarrow> 'n js \<Rightarrow> 'n js \<Rightarrow> bool"
    and blind :: "'n js \<Rightarrow> 'n js \<Rightarrow> 'n js \<Rightarrow> bool"
  assumes merged_from: "resolve b ours fetch s = (Inr (Merged m), s1) \<Longrightarrow>
    (s1 = s \<and> blind b ours m) \<or> (\<exists>theirs. fetch s = (Inr (Some theirs), s1) \<and> merges b ours theirs m)"

text \<open>A write of a merge names the version of the root it was merged onto.\<close>

definition write_based ::
  "('n js \<Rightarrow> 'n js \<Rightarrow> 'n js \<Rightarrow> 'n js \<Rightarrow> bool) \<Rightarrow> ('n js \<Rightarrow> 'n js \<Rightarrow> 'n js \<Rightarrow> bool) \<Rightarrow> ('n, 'c, 'e, 'w) hooks \<Rightarrow> 'n js \<Rightarrow>
     'n js \<times> base_version \<times> bool \<Rightarrow> bool" where
  "write_based merges blind h model = (\<lambda>(m, baseVersion, landed).
     baseVersion = AnyVersion \<and> blind (base h) model m \<or>
     (\<exists>w w1 v. refetch h w = (Inr (Some v), w1) \<and> baseVersion = BaseVersion (vm_version v) \<and> merges (base h) model (vm_model v) m))"

lemma capture_merged:
  assumes "capture h (w1, None) = (Inr (Some theirs), (w2, refetched))"
  obtains v where "refetched = Some v" "theirs = vm_model v" "refetch h w1 = (Inr (Some v), w2)"
  using assms by (auto simp: capture_def split: prod.splits sum.splits)

lemma loop_based:
  assumes "conflict_resolver (conflictResolver h) merges blind"
    and "reconcile_loop h model candidate baseVersion previous writes unsent w = (r, log, w1)"
  shows "hd log = (candidate, baseVersion, snd (snd (hd log))) \<and> (\<forall>e \<in> set (tl log). write_based merges blind h model e)"
  using assms(2)
proof (induction log arbitrary: candidate baseVersion previous writes unsent w)
  case Nil
  then show ?case using loop_landed by fastforce
next
  case (Cons e log)
  show ?case
  proof (rule reconcile_pass [of h model candidate baseVersion previous writes unsent w], goal_cases)
    case (1 refused r' landed w')
    then show ?case using Cons.prems by simp
  next
    case (2 refused c merged refetched w' w2 r' log' w3)
    then have rest: "reconcile_loop h model merged (mergedBase refetched) (Some c)
         (if refused then writes else writes + 1) (if refused then unsent + 1 else unsent) w2 = (r, log, w1)"
      and e: "e = (candidate, baseVersion, False)"
      using Cons.prems by simp_all
    have "write_based merges blind h model (merged, mergedBase refetched, l)" for l
      using conflict_resolver.merged_from [OF assms(1) 2(2)]
    proof
      assume "\<exists>theirs. capture h (w', None) = (Inr (Some theirs), w2, refetched) \<and> merges (base h) model theirs merged"
      then obtain theirs where "capture h (w', None) = (Inr (Some theirs), w2, refetched)" "merges (base h) model theirs merged" by blast
      then show ?thesis by (elim capture_merged) (auto simp: write_based_def mergedBase_def)
    qed (simp add: write_based_def mergedBase_def)
    moreover have "log \<noteq> []" using loop_landed [OF rest] by simp
    then have "set log = insert (hd log) (set (tl log))" by (cases log) auto
    ultimately show ?case using Cons.IH [OF rest] e by (metis insert_iff list.sel(1,3) snd_conv)
  qed
qed

interpretation reconciling: conflict_resolver "ReconcilingConflictResolver_resolve P itemKey"
  "\<lambda>b ours theirs m. replay_options P itemKey b ours theirs = Merged m" "\<lambda>b ours m. False"
  for P :: "'n patch_lib" and itemKey
  by unfold_locales
     (auto simp: ReconcilingConflictResolver_resolve_def reconcileByPatchReplay_def split: if_splits prod.splits sum.splits option.splits)

interpretation forcing: conflict_resolver ForceConflictResolver_resolve "\<lambda>b ours theirs m. False" "\<lambda>b ours m. m = ours"
  by unfold_locales (auto simp: ForceConflictResolver_resolve_def)

lemma loop_bound_all_sent:
  assumes "sent h = None" and "reconcile_loop h model candidate baseVersion previous writes unsent w = (r, log, w1)"
  shows "int (length log) \<le> max 1 (max_writes h - writes)"
  using assms(2)
proof (induction log arbitrary: candidate baseVersion previous writes unsent w)
  case (Cons e log)
  show ?case
  proof (rule reconcile_pass [of h model candidate baseVersion previous writes unsent w], goal_cases)
    case (1 refused r' landed w')
    then show ?case using Cons.prems by simp
  next
    case (2 refused c merged refetched w' w2 r' log' w3)
    then have "\<not> refused" using assms(1) by auto
    with 2 Cons.prems have "reconcile_loop h model merged (mergedBase refetched) (Some c) (writes + 1) unsent w2 = (r, log, w1)" by auto
    from Cons.IH [OF this] 2(4) \<open>\<not> refused\<close> show ?case by auto
  qed
qed simp

subsection \<open>Properties\<close>

text \<open>A gated server whose version names its content, as a concrete instance of the hooks.\<close>

definition witness_content :: "int \<Rightarrow> int js" where
  "witness_content v = (if v = 5 then Obj [(''n'', Number 1), (''m'', Number 5)] else Obj [(''n'', Number 1), (''m'', Number 1)])"

definition witness_hooks :: "(int, unit, unit, int) hooks" where
  "witness_hooks =
     \<lparr>persist = (\<lambda>m bv w. if bv = AnyVersion \<or> bv = BaseVersion w then (None, w + 1) else (Some (ConflictError ()), w)),
      refetch = (\<lambda>w. (Inr (Some \<lparr>vm_model = witness_content w, vm_version = w\<rparr>), w)),
      base = witness_content 4,
      conflictResolver = ReconcilingConflictResolver_resolve flat_lib None,
      maxWrites = None, sent = None, onUnavailable = None\<rparr>"

lemma witness_run:
  "reconcileWrite (Obj [(''n'', Number 2), (''m'', Number 1)]) (BaseVersion 4) witness_hooks 5 =
     (Inr (Settled MergedWrite () 2),
      [(Obj [(''n'', Number 2), (''m'', Number 1)], BaseVersion 4, False), (Obj [(''n'', Number 2), (''m'', Number 5)], BaseVersion 5, True)], 6)"
proof -
  have "replay flat_lib (Obj [(''n'', Number 1), (''m'', Number 1)]) (Obj [(''n'', Number 2), (''m'', Number 1)])
      (Obj [(''n'', Number 1), (''m'', Number 5)]) [\<lparr>op_of = OpReplace, path = ''/n'', op_value = Number 2\<rparr>] =
      Merged (Obj [(''n'', Number 2), (''m'', Number 5)])"
    by (simp add: replay_def withoutAgreed_def insertedArrays_def outermostArrayOn_def object_op_stays_def parent_path_def last_step_def
        addsCollide_def editsMovedElement_def valueAt_def flat_lib_def witness_get_def child_def js_has_def Let_def)
  moreover have "compare flat_lib (Obj [(''n'', Number 1), (''m'', Number 1)]) (Obj [(''n'', Number 2), (''m'', Number 1)]) =
      [\<lparr>op_of = OpReplace, path = ''/n'', op_value = Number 2\<rparr>]"
    by (simp add: flat_lib_def child_def)
  ultimately show ?thesis
    by (simp add: reconcileWrite_def witness_hooks_def witness_content_def reconcile_loop.simps persistOrConflict_def refusedUnsent_def
        max_writes_def DEFAULT_MAX_WRITES_def ReconcilingConflictResolver_resolve_def reconcileByPatchReplay_def capture_def
        replay_options_def mergedBase_def Let_def)
qed

text \<open>
  C12: a reconciled write always ends, after at least one and at most twice \<open>maxWrites\<close> writes, and after at
  most \<open>maxWrites\<close> where every write reaches the server; the writes it reports never exceed the cap (the
  first write always happens, so a cap below one counts as one).
\<close>

theorem reconcile_write_bounded:
  "case reconcileWrite model baseVersion h w of (r, log, w1) \<Rightarrow>
     log \<noteq> [] \<and> int (length log) \<le> max 1 (2 * max_writes h) \<and>
     (sent h = None \<longrightarrow> int (length log) \<le> max 1 (max_writes h)) \<and>
     (\<forall>st c n. r = Inr (Settled st c n) \<longrightarrow> 0 \<le> n \<and> n \<le> max 1 (max_writes h) \<and> (sent h = None \<longrightarrow> n = int (length log)))"
proof -
  obtain r log w1 where run: "reconcile_loop h model model baseVersion None 0 0 w = (r, log, w1)" by (metis surj_pair)
  have "int (length log) \<le> max 1 (2 * max_writes h)" using loop_bound [OF run] by auto
  moreover have "0 \<le> n \<and> n \<le> max 1 (max_writes h) \<and> (sent h = None \<longrightarrow> n = int (length log))" if "r = Inr (Settled st c n)" for st c n
    using loop_counted [OF run [unfolded that]] by simp
  ultimately show ?thesis
    using run loop_landed [OF run] loop_bound_all_sent [of h, OF _ run] by (simp add: reconcileWrite_def)
qed

theorem reconcile_write_bounded_witness:
  "int (length (fst (snd (reconcileWrite (Obj [(''n'', Number 2), (''m'', Number 1)]) (BaseVersion 4) witness_hooks 5)))) \<le> 3"
  using reconcile_write_bounded [of witness_hooks "Obj [(''n'', Number 2), (''m'', Number 1)]" "BaseVersion 4" 5]
  unfolding witness_run by (simp add: witness_hooks_def max_writes_def DEFAULT_MAX_WRITES_def)

text \<open>
  What \<open>landed\<close> counts of the caller's writes in a world, with what a server promises of \<open>persist\<close>: an
  answered write landed, a conflict refused the write, any other failure leaves it unknown. Reading and
  resolving land nothing.
\<close>

definition persist_counted :: "('w \<Rightarrow> int) \<Rightarrow> 'w \<Rightarrow> ('c, 'e) thrown option \<times> 'w \<Rightarrow> bool" where
  "persist_counted landed w answer \<longleftrightarrow>
     (case answer of
        (None, w1) \<Rightarrow> landed w1 = landed w + 1
      | (Some (ConflictError c), w1) \<Rightarrow> landed w1 = landed w
      | (Some (OtherError e), w1) \<Rightarrow> landed w1 = landed w \<or> landed w1 = landed w + 1)"

definition counts_writes :: "('w \<Rightarrow> int) \<Rightarrow> ('n, 'c, 'e, 'w) hooks \<Rightarrow> bool" where
  "counts_writes landed h \<longleftrightarrow>
     (\<forall>m v w. persist_counted landed w (persist h m v w)) \<and>
     (\<forall>m w. landed (fst (snd (conflictResolver h (base h) m (capture h) (w, None)))) = landed w)"

text \<open>What a reconciled write says of the writes that landed between the worlds \<open>w\<close> and \<open>w1\<close>.\<close>

definition landing_told :: "('w \<Rightarrow> int) \<Rightarrow> ('n, 'c, 'e, 'w) hooks \<Rightarrow> 'n js \<Rightarrow> 'w \<Rightarrow> (('c, 'e) thrown + 'c write_outcome) \<Rightarrow> 'w \<Rightarrow> bool" where
  "landing_told landed h model w r w1 \<longleftrightarrow>
     (case r of
        Inr Persisted \<Rightarrow> landed w1 = landed w + 1
      | Inr (Settled st c n) \<Rightarrow>
          (case st of
             MergedWrite \<Rightarrow> landed w1 = landed w + 1
           | UnavailableWrite \<Rightarrow>
               (case onUnavailable h of
                  None \<Rightarrow> landed w1 = landed w
                | Some f \<Rightarrow> (\<exists>w2. landed w2 = landed w \<and> f model c w2 = (None, w1)))
           | _ \<Rightarrow> landed w1 = landed w)
      | Inl e \<Rightarrow>
          landed w1 = landed w \<or> (landed w1 = landed w + 1 \<and> (\<exists>x. e = OtherError x)) \<or>
          (\<exists>f c w2. onUnavailable h = Some f \<and> landed w2 = landed w \<and> f model c w2 = (Some e, w1)))"

lemma landing_told_from: "landed w2 = landed w \<Longrightarrow> landing_told landed h model w2 r w1 \<Longrightarrow> landing_told landed h model w r w1"
  by (auto simp: landing_told_def split: sum.splits write_outcome.splits write_status.splits option.splits)

lemma persist_counts:
  assumes "counts_writes landed h" and "persistOrConflict h m v w = (p, w1)"
  shows "case p of Inr None \<Rightarrow> landed w1 = landed w + 1 | Inr (Some c) \<Rightarrow> landed w1 = landed w
    | Inl e \<Rightarrow> (\<exists>x. e = OtherError x) \<and> (landed w1 = landed w \<or> landed w1 = landed w + 1)"
proof -
  have "persist_counted landed w (persist h m v w)" using assms(1) by (simp add: counts_writes_def)
  then show ?thesis using assms(2)
    by (auto simp: persistOrConflict_def persist_counted_def split: prod.splits option.splits thrown.splits)
qed

lemma unavailable_told:
  assumes "settle_unavailable h model c n w2 = (r, w1)" and "landed w2 = landed w"
  shows "landing_told landed h model w r w1"
  using assms by (auto simp: settle_unavailable_def landing_told_def split: option.splits prod.splits)

lemma loop_told:
  assumes "counts_writes landed h" and "reconcile_loop h model candidate baseVersion previous writes unsent w = (r, log, w1)"
  shows "landing_told landed h model w r w1"
  using assms(2)
proof (induction log arbitrary: candidate baseVersion previous writes unsent w)
  case Nil
  then show ?case using loop_landed by fastforce
next
  case (Cons e log)
  obtain p w2 where p: "persistOrConflict h candidate baseVersion w = (p, w2)" by (metis surj_pair)
  note pc = persist_counts [OF assms(1) p]
  let ?refused = "\<lambda>c. refusedUnsent h unsent (Some c)"
  consider (failed) x where "p = Inl x" | (answered) "p = Inr None" | (conflict) c where "p = Inr (Some c)"
    by (metis option.exhaust sum.exhaust)
  then show ?case
  proof cases
    case failed
    then show ?thesis using Cons.prems p pc by (auto simp: reconcile_loop.simps landing_told_def)
  next
    case answered
    then show ?thesis using Cons.prems p pc
      by (auto simp: reconcile_loop.simps landing_told_def Let_def split: option.splits)
  next
    case (conflict c)
    obtain q w3 refetched where q: "conflictResolver h (base h) model (capture h) (w2, None) = (q, (w3, refetched))" by (metis surj_pair)
    have "landed (fst (snd (conflictResolver h (base h) model (capture h) (w2, None)))) = landed w2"
      using assms(1) unfolding counts_writes_def by blast
    then have same: "landed w3 = landed w" using pc conflict q by simp
    let ?n = "if ?refused c then writes else writes + 1"
    show ?thesis
    proof (cases "\<exists>m. q = Inr (Merged m) \<and> ?n < max_writes h")
      case True
      then obtain m where m: "q = Inr (Merged m)" "?n < max_writes h" by blast
      obtain r' log' w4 where rest: "reconcile_loop h model m (mergedBase refetched) (Some c) ?n
          (if ?refused c then unsent + 1 else unsent) w3 = (r', log', w4)" by (metis surj_pair)
      then have "r' = r \<and> log' = log \<and> w4 = w1"
        using Cons.prems p conflict q m by (simp add: reconcile_loop.simps [of h model candidate] Let_def)
      then show ?thesis using Cons.IH [of m "mergedBase refetched" "Some c"] rest landing_told_from [where landed = landed, OF same] by blast
    next
      case False
      obtain u w4 where u: "settle_unavailable h model c ?n w3 = (u, w4)" by (metis surj_pair)
      show ?thesis
      proof (cases "q = Inr Unavailable")
        case True
        then have "u = r \<and> w4 = w1" using Cons.prems p conflict q u by (simp add: reconcile_loop.simps [of h model candidate] Let_def)
        then show ?thesis using unavailable_told [OF u same] by simp
      next
        case other: False
        then show ?thesis using Cons.prems p conflict q False same
          by (cases q rule: sum.exhaust [case_names Inl Inr]; cases "projr q")
             (auto simp: reconcile_loop.simps [of h model candidate] landing_told_def Let_def)
      qed
    qed
  qed
qed

text \<open>
  C11: an edit lands at most once, and the caller is told the truth. Where the server keeps its promise of \<open>persist\<close>,
  exactly one write landed when the status is \<open>persisted\<close> or \<open>merged\<close>, and none when it is any other, except for
  what the hook of an unavailable refetch wrote itself; where the write rejects, with an error that is no conflict or
  one of a hook, at most one landed. \<open>persisted\<close> is answered after a single write, of the caller's own model at its base.
\<close>

theorem write_lands_at_most_once:
  assumes "counts_writes landed h" and "reconcileWrite model baseVersion h w = (r, log, w1)"
  shows "landing_told landed h model w r w1 \<and> fst (hd log) = model \<and> fst (snd (hd log)) = baseVersion \<and>
    (r = Inr Persisted \<longrightarrow> length log = 1) \<and> (\<forall>c n. r = Inr (Settled MergedWrite c n) \<longrightarrow> 2 \<le> length log)"
proof -
  note run = assms(2) [unfolded reconcileWrite_def]
  obtain landed' rest where log: "log = (model, baseVersion, landed') # rest"
    by (rule reconcile_pass [of h model model baseVersion None 0 0 w]) (use run in auto)
  then have "2 \<le> length log" if "r = Inr (Settled MergedWrite c n)" for c n
    using that loop_landed [OF run] by (cases rest) auto
  then show ?thesis using loop_told [OF assms(1) run] loop_landed [OF run] log by simp
qed

theorem write_lands_at_most_once_witness:
  "landing_told (\<lambda>v. v) witness_hooks (Obj [(''n'', Number 2), (''m'', Number 1)]) 5 (Inr (Settled MergedWrite () 2)) 6"
proof -
  have "counts_writes (\<lambda>v. v) witness_hooks"
    by (auto simp: counts_writes_def persist_counted_def witness_hooks_def capture_def ReconcilingConflictResolver_resolve_def
        reconcileByPatchReplay_def split: reconcile_outcome.splits)
  from write_lands_at_most_once [OF this witness_run] show ?thesis by simp
qed

text \<open>
  C8: no lost update. Where a version of the server names its content, a write that merged names exactly
  the version it was merged onto, so a server that gates on the version holds that very content when the
  write lands; no write after the first skips the gate.
\<close>

theorem merged_write_loses_no_update:
  assumes "conflictResolver h = ReconcilingConflictResolver_resolve P itemKey"
    and "\<And>w w1 v. refetch h w = (Inr (Some v), w1) \<Longrightarrow> vm_model v = content (vm_version v)"
    and "reconcileWrite model baseVersion h w = (Inr (Settled MergedWrite c n), log, w1)"
  shows "(\<exists>m v. last log = (m, BaseVersion v, True) \<and> replay_options P itemKey (base h) model (content v) = Merged m) \<and>
    (\<forall>e \<in> set (tl log). fst (snd e) \<noteq> AnyVersion)"
proof
  note run = assms(3) [unfolded reconcileWrite_def]
  have res: "conflict_resolver (conflictResolver h) (\<lambda>b ours theirs m. replay_options P itemKey b ours theirs = Merged m) (\<lambda>b ours m. False)"
    unfolding assms(1) by (rule reconciling.conflict_resolver_axioms)
  note based = loop_based [OF res run]
  then have later: "\<exists>v. fst (snd e) = BaseVersion v \<and> replay_options P itemKey (base h) model (content v) = Merged (fst e)" if "e \<in> set (tl log)" for e
    using that assms(2) by (fastforce simp: write_based_def)
  show "\<forall>e \<in> set (tl log). fst (snd e) \<noteq> AnyVersion" using later by fastforce
  have "tl log \<noteq> []" using loop_landed [OF run] by simp
  then have "last log \<in> set (tl log)" by (metis last_in_set last_tl)
  moreover have "snd (snd (last log))" using loop_landed [OF run] by (simp add: landed_status_def)
  ultimately show "\<exists>m v. last log = (m, BaseVersion v, True) \<and> replay_options P itemKey (base h) model (content v) = Merged m"
    using later [of "last log"] by (metis prod.collapse)
qed

theorem merged_write_loses_no_update_witness:
  "\<exists>m v. last (fst (snd (reconcileWrite (Obj [(''n'', Number 2), (''m'', Number 1)]) (BaseVersion 4) witness_hooks 5))) = (m, BaseVersion v, True) \<and>
     replay_options flat_lib None (witness_content 4) (Obj [(''n'', Number 2), (''m'', Number 1)]) (witness_content v) = Merged m"
proof -
  have "conflictResolver witness_hooks = ReconcilingConflictResolver_resolve flat_lib None" "base witness_hooks = witness_content 4"
    by (simp_all add: witness_hooks_def)
  moreover have "vm_model v = witness_content (vm_version v)" if "refetch witness_hooks w = (Inr (Some v), w1)" for w w1 v
    using that by (auto simp: witness_hooks_def)
  ultimately show ?thesis using merged_write_loses_no_update [OF _ _ witness_run] unfolding witness_run by simp
qed

end
