(* ===== verification/RecoveryBuilds.thy ===== *)
theory RecoveryBuilds
  imports Prelude "HOL-Library.Multiset"
begin

section \<open>Recovery builds\<close>

text \<open>
  The build requests of \<open>DefaultVersionSyncService\<close> (\<open>core/src/documents/version-sync-service.ts\<close>): requests
  for one URI share builds, a failed build is retried for each of its requests, and a build a write
  cancelled does not count. The loop \<open>runBuilds\<close> of a URI is split at its two awaits: \<open>readRuns\<close> is the
  callback of the lock read, \<open>buildSettles\<close> what follows once the build settled, up to the next await. A
  request has a number; \<open>stillNeeded\<close> is a closure of the requester, so its answers are an argument. The
  answer of \<open>lock.writeCancellations\<close> is an argument too.
\<close>

record recovery_request =
  deleted :: "bool option"
  reason :: "string option"
  ignoreDeferred :: "bool option"

record queued_build =
  requestId :: nat
  request :: recovery_request
  failures :: nat

datatype 'e settlement = Resolved | Rejected 'e nat

text \<open>
  An entry of \<open>pendingBuilds\<close>. \<open>running\<close> holds, while a build is awaited, the requests it carries and the
  cancellations read when it was queued, \<open>None\<close> where the batch needed no build.
\<close>

record pending_builds =
  entryQueue :: "queued_build list"
  running :: "(queued_build list \<times> int option) option"

record scheduled_update =
  buildUri :: uri
  buildDeleted :: bool
  buildReason :: "string option"

record 'e build_queue =
  pendingBuilds :: "(uri, pending_builds) js_map"
  deferredBuildChecks :: "(nat, uri \<Rightarrow> bool) js_map"
  maxBuildRetries :: nat
  nextRequest :: nat
  nextCheck :: nat
  settled :: "(nat \<times> 'e settlement) list"
  scheduled :: "scheduled_update list"

definition new_build_queue :: "'e build_queue" where
  "new_build_queue =
     \<lparr>pendingBuilds = [], deferredBuildChecks = [], maxBuildRetries = 1, nextRequest = 0, nextCheck = 0, settled = [], scheduled = []\<rparr>"

definition queueRecoveryBuild :: "uri \<Rightarrow> recovery_request \<Rightarrow> 'e build_queue \<Rightarrow> nat \<times> 'e build_queue" where
  "queueRecoveryBuild key req Q =
     (let q = \<lparr>requestId = nextRequest Q, request = req, failures = 0\<rparr>;
          entry = (case js_get (pendingBuilds Q) key of
                     Some pend \<Rightarrow> pend\<lparr>entryQueue := entryQueue pend @ [q]\<rparr>
                   | None \<Rightarrow> \<lparr>entryQueue = [q], running = None\<rparr>)
      in (nextRequest Q, Q\<lparr>pendingBuilds := js_set key entry (pendingBuilds Q), nextRequest := nextRequest Q + 1\<rparr>))"

definition registerDeferredBuilds :: "(uri \<Rightarrow> bool) \<Rightarrow> 'e build_queue \<Rightarrow> nat \<times> 'e build_queue" where
  "registerDeferredBuilds isDeferred Q =
     (nextCheck Q, Q\<lparr>deferredBuildChecks := js_set (nextCheck Q) isDeferred (deferredBuildChecks Q), nextCheck := nextCheck Q + 1\<rparr>)"

definition disposeDeferredBuilds :: "nat \<Rightarrow> 'e build_queue \<Rightarrow> 'e build_queue" where
  "disposeDeferredBuilds n Q = Q\<lparr>deferredBuildChecks := js_delete n (deferredBuildChecks Q)\<rparr>"

definition build_isDeferred :: "uri \<Rightarrow> 'e build_queue \<Rightarrow> bool" where
  "build_isDeferred u Q = list_ex (\<lambda>(_, isDeferred). isDeferred u) (deferredBuildChecks Q)"

definition isStillNeeded :: "(nat \<Rightarrow> bool) \<Rightarrow> uri \<Rightarrow> queued_build \<Rightarrow> 'e build_queue \<Rightarrow> bool" where
  "isStillNeeded stillNeeded u q Q \<longleftrightarrow>
     stillNeeded (requestId q) \<and> (ignoreDeferred (request q) = Some True \<or> \<not> build_isDeferred u Q)"

definition scheduleBatch :: "uri \<Rightarrow> recovery_request list \<Rightarrow> scheduled_update" where
  "scheduleBatch u batch =
     \<lparr>buildUri = u, buildDeleted = (batch \<noteq> [] \<and> deleted (last batch) = Some True),
      buildReason = Option.bind (List.find (\<lambda>r. reason r \<noteq> None) batch) reason\<rparr>"

definition settle_all :: "(queued_build \<Rightarrow> 'e settlement) \<Rightarrow> queued_build list \<Rightarrow> 'e build_queue \<Rightarrow> 'e build_queue" where
  "settle_all s qs Q = Q\<lparr>settled := settled Q @ map (\<lambda>q. (requestId q, s q)) qs\<rparr>"

definition readRuns :: "(nat \<Rightarrow> bool) \<Rightarrow> int \<Rightarrow> uri \<Rightarrow> 'e build_queue \<Rightarrow> 'e build_queue option" where
  "readRuns stillNeeded cancellations key Q =
     (case js_get (pendingBuilds Q) key of
        None \<Rightarrow> None
      | Some entry \<Rightarrow>
          if running entry \<noteq> None then None
          else (let needed = filter (\<lambda>q. isStillNeeded stillNeeded key q Q) (entryQueue entry);
                    moot = filter (\<lambda>q. \<not> isStillNeeded stillNeeded key q Q) (entryQueue entry);
                    Q1 = settle_all (\<lambda>_. Resolved) moot Q;
                    Q2 = (if needed = [] then Q1
                          else Q1\<lparr>scheduled := scheduled Q1 @ [scheduleBatch key (map request needed)]\<rparr>);
                    entry1 = \<lparr>entryQueue = [], running = Some (needed, if needed = [] then None else Some cancellations)\<rparr>
                in Some (Q2\<lparr>pendingBuilds := js_set key entry1 (pendingBuilds Q2)\<rparr>)))"

text \<open>The check of the loop: an entry with nothing queued is dropped.\<close>

definition loop_or_drop :: "uri \<Rightarrow> queued_build list \<Rightarrow> 'e build_queue \<Rightarrow> 'e build_queue" where
  "loop_or_drop key qs Q =
     Q\<lparr>pendingBuilds := (if qs = [] then js_delete key (pendingBuilds Q)
                          else js_set key \<lparr>entryQueue = qs, running = None\<rparr> (pendingBuilds Q))\<rparr>"

datatype 'e build_outcome = BuildDone int | BuildFailed 'e

definition buildSettles :: "'e build_outcome \<Rightarrow> uri \<Rightarrow> 'e build_queue \<Rightarrow> 'e build_queue option" where
  "buildSettles outcome key Q =
     (case js_get (pendingBuilds Q) key of
        None \<Rightarrow> None
      | Some entry \<Rightarrow>
          (case running entry of
             None \<Rightarrow> None
           | Some (carried, cancellations) \<Rightarrow>
               Some (case outcome of
                       BuildDone now \<Rightarrow>
                         if cancellations \<noteq> None \<and> cancellations \<noteq> Some now
                         then loop_or_drop key (carried @ entryQueue entry) Q
                         else loop_or_drop key (entryQueue entry) (settle_all (\<lambda>_. Resolved) carried Q)
                     | BuildFailed e \<Rightarrow>
                         (let retried = filter (\<lambda>q. failures q < maxBuildRetries Q) carried;
                              givenUp = filter (\<lambda>q. \<not> failures q < maxBuildRetries Q) carried;
                              again = map (\<lambda>q. q\<lparr>failures := failures q + 1\<rparr>) retried
                          in loop_or_drop key (again @ entryQueue entry)
                               (settle_all (\<lambda>q. Rejected e (failures q + 1)) givenUp Q)))))"

subsection \<open>Steps\<close>

datatype 'e build_op =
    Request uri recovery_request
  | ReadRuns "nat \<Rightarrow> bool" int uri
  | BuildSettles "'e build_outcome" uri
  | RegisterDeferred "uri \<Rightarrow> bool"
  | DisposeDeferred nat

fun build_step :: "'e build_op \<Rightarrow> 'e build_queue \<Rightarrow> 'e build_queue option" where
  "build_step (Request u req) Q = Some (snd (queueRecoveryBuild u req Q))"
| "build_step (ReadRuns stillNeeded c u) Q = readRuns stillNeeded c u Q"
| "build_step (BuildSettles out u) Q = buildSettles out u Q"
| "build_step (RegisterDeferred f) Q = Some (snd (registerDeferredBuilds f Q))"
| "build_step (DisposeDeferred n) Q = Some (disposeDeferredBuilds n Q)"

text \<open>The requests an entry still holds.\<close>

definition entry_requests :: "pending_builds \<Rightarrow> queued_build list" where
  "entry_requests entry = (case running entry of None \<Rightarrow> [] | Some (carried, _) \<Rightarrow> carried) @ entryQueue entry"

definition pending_requests :: "'e build_queue \<Rightarrow> queued_build multiset" where
  "pending_requests Q = (\<Sum>e \<in># mset (pendingBuilds Q). mset (entry_requests (snd e)))"

definition builds_ok :: "'e build_queue \<Rightarrow> bool" where
  "builds_ok Q \<longleftrightarrow>
     js_map_ok (pendingBuilds Q) \<and>
     image_mset requestId (pending_requests Q) + mset (map fst (settled Q)) = mset [0..<nextRequest Q] \<and>
     (\<forall>key entry. js_get (pendingBuilds Q) key = Some entry \<longrightarrow>
        (running entry = None \<longrightarrow> entryQueue entry \<noteq> []) \<and> (\<forall>q \<in> set (entry_requests entry). failures q \<le> maxBuildRetries Q)) \<and>
     (\<forall>n e k. (n, Rejected e k) \<in> set (settled Q) \<longrightarrow> k = maxBuildRetries Q + 1)"

subsection \<open>Every request is settled once\<close>

lemma js_delete_absent: "k \<notin> fst ` set m \<Longrightarrow> js_delete k m = m"
  by (induction m) auto

lemma mset_js_get: "js_map_ok m \<Longrightarrow> js_get m k = Some v \<Longrightarrow> mset m = add_mset (k, v) (mset (js_delete k m))"
  by (induction m) (auto simp: js_map_ok_def js_delete_absent split: if_splits)

lemma mset_js_set: "js_map_ok m \<Longrightarrow> mset (js_set k v m) = add_mset (k, v) (mset (js_delete k m))"
  by (induction m) (auto simp: js_map_ok_def js_delete_absent)

abbreviation requests_in :: "(uri, pending_builds) js_map \<Rightarrow> queued_build multiset" where
  "requests_in m \<equiv> (\<Sum>e \<in># mset m. mset (entry_requests (snd e)))"

lemma requests_get: "js_map_ok m \<Longrightarrow> js_get m k = Some e \<Longrightarrow> requests_in m = mset (entry_requests e) + requests_in (js_delete k m)"
  by (simp add: mset_js_get)

lemma requests_set: "js_map_ok m \<Longrightarrow> requests_in (js_set k e m) = mset (entry_requests e) + requests_in (js_delete k m)"
  by (simp add: mset_js_set)

lemma builds_okI:
  assumes "js_map_ok (pendingBuilds Q)"
    and "image_mset requestId (requests_in (pendingBuilds Q)) + mset (map fst (settled Q)) = mset [0..<nextRequest Q]"
    and "\<And>key entry. js_get (pendingBuilds Q) key = Some entry \<Longrightarrow>
        (running entry = None \<longrightarrow> entryQueue entry \<noteq> []) \<and> (\<forall>q \<in> set (entry_requests entry). failures q \<le> maxBuildRetries Q)"
    and "\<And>n e k. (n, Rejected e k) \<in> set (settled Q) \<Longrightarrow> k = maxBuildRetries Q + 1"
  shows "builds_ok Q"
  using assms unfolding builds_ok_def pending_requests_def by blast

lemma builds_okD:
  assumes "builds_ok Q"
  shows "js_map_ok (pendingBuilds Q)"
    and "image_mset requestId (requests_in (pendingBuilds Q)) + mset (map fst (settled Q)) = mset [0..<nextRequest Q]"
    and "js_get (pendingBuilds Q) key = Some entry \<Longrightarrow> running entry = None \<Longrightarrow> entryQueue entry \<noteq> []"
    and "js_get (pendingBuilds Q) key = Some entry \<Longrightarrow> q \<in> set (entry_requests entry) \<Longrightarrow> failures q \<le> maxBuildRetries Q"
    and "(n, Rejected e k) \<in> set (settled Q) \<Longrightarrow> k = maxBuildRetries Q + 1"
  using assms unfolding builds_ok_def pending_requests_def by blast+

text \<open>Replacing the entry of one URI, with the requests it loses settled.\<close>

lemma entry_replaced_ok:
  assumes ok: "builds_ok Q" and get: "js_get (pendingBuilds Q) key = Some entry"
    and gone: "image_mset requestId (mset (entry_requests entry)) = image_mset requestId (mset kept_reqs) + mset (map fst ended)"
    and Q': "settled Q' = settled Q @ ended" "nextRequest Q' = nextRequest Q" "maxBuildRetries Q' = maxBuildRetries Q"
    and new: "pendingBuilds Q' = (if dropped then js_delete key (pendingBuilds Q) else js_set key entry' (pendingBuilds Q))"
    and kept_reqs: "if dropped then kept_reqs = [] else entry_requests entry' = kept_reqs \<and> (running entry' = None \<longrightarrow> entryQueue entry' \<noteq> [])"
    and fails: "\<And>q. q \<in> set kept_reqs \<Longrightarrow> failures q \<le> maxBuildRetries Q"
    and rej: "\<And>n e k. (n, Rejected e k) \<in> set ended \<Longrightarrow> k = maxBuildRetries Q + 1"
  shows "builds_ok Q'"
proof (rule builds_okI)
  note m = builds_okD(1) [OF ok]
  show "js_map_ok (pendingBuilds Q')" using m new by (auto intro: js_map_ok_set js_map_ok_delete)
  have "requests_in (pendingBuilds Q') = mset kept_reqs + requests_in (js_delete key (pendingBuilds Q))"
    using m new kept_reqs by (cases dropped) (simp_all add: requests_set)
  then show "image_mset requestId (requests_in (pendingBuilds Q')) + mset (map fst (settled Q')) = mset [0..<nextRequest Q']"
    using builds_okD(2) [OF ok] gone by (simp add: requests_get [OF m get] Q' ac_simps)
  show "(running e = None \<longrightarrow> entryQueue e \<noteq> []) \<and> (\<forall>q \<in> set (entry_requests e). failures q \<le> maxBuildRetries Q')"
    if "js_get (pendingBuilds Q') k = Some e" for k e
    using that new kept_reqs fails builds_okD(3,4) [OF ok, of k e]
    by (auto simp: Q' js_get_set js_get_delete split: if_splits)
  show "k = maxBuildRetries Q' + 1" if "(n, Rejected e k) \<in> set (settled Q')" for n e k
    using that rej builds_okD(5) [OF ok] by (auto simp: Q')
qed

lemma mset_filter_split: "mset (filter p xs) + mset (filter (\<lambda>x. \<not> p x) xs) = mset xs"
  by (induction xs) auto

lemma queue_ok:
  assumes ok: "builds_ok Q"
  shows "builds_ok (snd (queueRecoveryBuild key req Q))"
proof (rule builds_okI)
  let ?Q = "snd (queueRecoveryBuild key req Q)"
  let ?q = "\<lparr>requestId = nextRequest Q, request = req, failures = 0\<rparr>"
  note m = builds_okD(1) [OF ok]
  obtain entry where Q': "pendingBuilds ?Q = js_set key entry (pendingBuilds Q)"
    and e: "case js_get (pendingBuilds Q) key of None \<Rightarrow> entry_requests entry = [?q] \<and> running entry = None \<and> entryQueue entry \<noteq> []
      | Some old \<Rightarrow> mset (entry_requests entry) = add_mset ?q (mset (entry_requests old)) \<and> running entry = running old \<and> entryQueue entry \<noteq> []"
    by (auto simp: queueRecoveryBuild_def Let_def entry_requests_def split: option.splits)
  have rest: "settled ?Q = settled Q" "nextRequest ?Q = nextRequest Q + 1" "maxBuildRetries ?Q = maxBuildRetries Q"
    by (simp_all add: queueRecoveryBuild_def Let_def)
  have req: "requests_in (pendingBuilds ?Q) = add_mset ?q (requests_in (pendingBuilds Q))"
    using e m by (auto simp: Q' requests_set requests_get js_delete_absent map_of_eq_None_iff split: option.splits)
  show "js_map_ok (pendingBuilds ?Q)" using m by (simp add: Q' js_map_ok_set)
  show "image_mset requestId (requests_in (pendingBuilds ?Q)) + mset (map fst (settled ?Q)) = mset [0..<nextRequest ?Q]"
    using builds_okD(2) [OF ok] by (simp add: req rest)
  have f: "\<forall>q \<in># mset (entry_requests entry). failures q \<le> maxBuildRetries Q"
  proof (cases "js_get (pendingBuilds Q) key")
    case (Some old)
    then have "mset (entry_requests entry) = add_mset ?q (mset (entry_requests old))" using e by simp
    then show ?thesis using builds_okD(4) [OF ok Some] by simp
  qed (use e in simp)
  have ne: "entryQueue entry \<noteq> []" using e by (simp split: option.splits)
  show "(running d = None \<longrightarrow> entryQueue d \<noteq> []) \<and> (\<forall>q \<in> set (entry_requests d). failures q \<le> maxBuildRetries ?Q)"
    if "js_get (pendingBuilds ?Q) k = Some d" for k d
  proof (cases "k = key")
    case True
    then show ?thesis using that f ne unfolding Q' rest by (simp add: js_get_set)
  next
    case False
    then show ?thesis using that builds_okD(3,4) [OF ok, of k d] unfolding Q' rest by (simp add: js_get_set)
  qed
  show "k = maxBuildRetries ?Q + 1" if "(n, Rejected x k) \<in> set (settled ?Q)" for n x k
    using that builds_okD(5) [OF ok] by (simp add: rest)
qed

lemma read_ok:
  assumes ok: "builds_ok Q" and run: "readRuns stillNeeded c key Q = Some Q'"
  shows "builds_ok Q'"
proof -
  obtain entry where get: "js_get (pendingBuilds Q) key = Some entry"
    using run by (cases "js_get (pendingBuilds Q) key") (simp_all add: readRuns_def)
  have r: "running entry = None" using run get by (cases "running entry") (simp_all add: readRuns_def)
  let ?p = "\<lambda>q. isStillNeeded stillNeeded key q Q"
  let ?needed = "filter ?p (entryQueue entry)" and ?moot = "filter (\<lambda>q. \<not> ?p q) (entryQueue entry)"
  have Q': "pendingBuilds Q' = js_set key \<lparr>entryQueue = [], running = Some (?needed, if ?needed = [] then None else Some c)\<rparr> (pendingBuilds Q)"
    "settled Q' = settled Q @ map (\<lambda>q. (requestId q, Resolved)) ?moot" "nextRequest Q' = nextRequest Q" "maxBuildRetries Q' = maxBuildRetries Q"
    using run get r by (auto simp: readRuns_def settle_all_def Let_def)
  show ?thesis
  proof (rule entry_replaced_ok [OF ok get, where dropped = False and kept_reqs = ?needed])
    show "image_mset requestId (mset (entry_requests entry)) =
        image_mset requestId (mset ?needed) + mset (map fst (map (\<lambda>q. (requestId q, Resolved :: 'a settlement)) ?moot))"
      using r mset_filter_split [of ?p "entryQueue entry"]
      by (simp add: entry_requests_def comp_def flip: image_mset_union)
    show "failures q \<le> maxBuildRetries Q" if "q \<in> set ?needed" for q
      using that builds_okD(4) [OF ok get, of q] by (simp add: entry_requests_def)
  qed (use Q' in \<open>auto simp: entry_requests_def\<close>)
qed

text \<open>What \<open>buildSettles\<close> leaves queued and what it settles.\<close>

lemma buildSettles_cases:
  assumes "buildSettles outcome key Q = Some Q'"
  obtains entry carried c again ended where
    "js_get (pendingBuilds Q) key = Some entry" "running entry = Some (carried, c)"
    "Q' = loop_or_drop key (again @ entryQueue entry) (Q\<lparr>settled := settled Q @ ended\<rparr>)"
    "image_mset requestId (mset carried) = image_mset requestId (mset again) + mset (map fst ended)"
    "(again = carried \<and> ended = [] \<and> c \<noteq> None \<and> (\<exists>now. outcome = BuildDone now \<and> c \<noteq> Some now)) \<or>
     (again = [] \<and> ended = map (\<lambda>q. (requestId q, Resolved)) carried \<and> (\<exists>now. outcome = BuildDone now)) \<or>
     (\<exists>e. outcome = BuildFailed e \<and>
        again = map (\<lambda>q. q\<lparr>failures := failures q + 1\<rparr>) (filter (\<lambda>q. failures q < maxBuildRetries Q) carried) \<and>
        ended = map (\<lambda>q. (requestId q, Rejected e (failures q + 1))) (filter (\<lambda>q. \<not> failures q < maxBuildRetries Q) carried))"
proof -
  obtain entry where get: "js_get (pendingBuilds Q) key = Some entry"
    using assms by (cases "js_get (pendingBuilds Q) key") (simp_all add: buildSettles_def)
  obtain carried c where r: "running entry = Some (carried, c)"
    using assms get by (cases "running entry") (auto simp: buildSettles_def)
  note defs = buildSettles_def get r settle_all_def
  show thesis
  proof (cases outcome)
    case (BuildDone now)
    show ?thesis
    proof (cases "c \<noteq> None \<and> c \<noteq> Some now")
      case True
      then show ?thesis using assms BuildDone by (intro that [OF get r, of carried "[]"]) (auto simp: defs)
    next
      case False
      then show ?thesis using assms BuildDone
        by (intro that [OF get r, of "[]" "map (\<lambda>q. (requestId q, Resolved)) carried"]) (auto simp: defs comp_def)
    qed
  next
    case (BuildFailed e)
    let ?p = "\<lambda>q. failures q < maxBuildRetries Q"
    let ?again = "map (\<lambda>q. q\<lparr>failures := failures q + 1\<rparr>) (filter ?p carried)"
    let ?ended = "map (\<lambda>q. (requestId q, Rejected e (failures q + 1))) (filter (\<lambda>q. \<not> ?p q) carried)"
    show ?thesis
    proof (rule that [OF get r, of ?again ?ended])
      show "Q' = loop_or_drop key (?again @ entryQueue entry) (Q\<lparr>settled := settled Q @ ?ended\<rparr>)"
        using assms BuildFailed by (simp add: defs Let_def)
      show "image_mset requestId (mset carried) = image_mset requestId (mset ?again) + mset (map fst ?ended)"
        by (simp add: comp_def multiset.map_comp flip: image_mset_union multiset_partition)
    qed (use BuildFailed in auto)
  qed
qed

lemma settle_ok:
  assumes ok: "builds_ok Q" and run: "buildSettles outcome key Q = Some Q'"
  shows "builds_ok Q'"
proof (rule buildSettles_cases [OF run], goal_cases)
  case (1 entry carried c again ended)
  note f = builds_okD(4) [OF ok 1(1)]
  have carried: "failures q \<le> maxBuildRetries Q" if "q \<in> set carried" for q
    using f [of q] that 1(2) by (simp add: entry_requests_def)
  show ?case
  proof (rule entry_replaced_ok [OF ok 1(1), where dropped = "again @ entryQueue entry = []" and kept_reqs = "again @ entryQueue entry"
        and ended = ended and entry' = "\<lparr>entryQueue = again @ entryQueue entry, running = None\<rparr>"])
    show "image_mset requestId (mset (entry_requests entry)) = image_mset requestId (mset (again @ entryQueue entry)) + mset (map fst ended)"
      using 1(2,4) by (simp add: entry_requests_def)
    show "failures q \<le> maxBuildRetries Q" if "q \<in> set (again @ entryQueue entry)" for q
      using that 1(5) carried f [of q] 1(2) by (auto simp: entry_requests_def)
    show "k = maxBuildRetries Q + 1" if "(n, Rejected e k) \<in> set ended" for n e k
      using that 1(5) carried by (auto simp: le_antisym not_less)
  qed (use 1(3) in \<open>auto simp: loop_or_drop_def entry_requests_def\<close>)
qed

lemma build_step_ok:
  assumes "builds_ok Q" and "build_step op Q = Some Q'"
  shows "builds_ok Q'"
proof (cases op)
  case (RegisterDeferred f)
  then show ?thesis using assms by (auto simp: builds_ok_def registerDeferredBuilds_def pending_requests_def)
next
  case (DisposeDeferred n)
  then show ?thesis using assms by (auto simp: builds_ok_def disposeDeferredBuilds_def pending_requests_def)
qed (use assms queue_ok read_ok settle_ok in auto)

interpretation builds: component build_step builds_ok
  by unfold_locales (rule build_step_ok)

lemma builds_run_ok: "builds_ok (builds.run ops new_build_queue)"
  by (rule builds.run_inv) (simp add: new_build_queue_def builds_ok_def pending_requests_def)

subsection \<open>Properties\<close>

text \<open>
  C19: over any interleaving of requests, builds, cancellations and failures, every request ever made is
  either still held by the run of its URI or was settled, exactly once; no run is left without a request
  to serve, and a request is rejected only after one build more than its retries failed.
\<close>

theorem requests_settled_once:
  assumes "Q = builds.run ops new_build_queue"
  shows "image_mset requestId (pending_requests Q) + mset (map fst (settled Q)) = mset [0..<nextRequest Q] \<and>
    (\<forall>n e k. (n, Rejected e k) \<in> set (settled Q) \<longrightarrow> k = maxBuildRetries Q + 1) \<and>
    (\<forall>key entry. js_get (pendingBuilds Q) key = Some entry \<longrightarrow> running entry \<noteq> None \<or> entryQueue entry \<noteq> [])"
  using builds_run_ok [of ops] unfolding assms builds_ok_def by blast

theorem requests_settled_once_witness:
  "map fst (settled (builds.run [Request ''a'' \<lparr>deleted = None, reason = None, ignoreDeferred = None\<rparr>,
      ReadRuns (\<lambda>_. True) 0 ''a'', BuildSettles (BuildFailed ()) ''a'', ReadRuns (\<lambda>_. True) 0 ''a'',
      BuildSettles (BuildDone 0) ''a''] new_build_queue)) = [0]"
proof -
  let ?Q = "builds.run [Request ''a'' \<lparr>deleted = None, reason = None, ignoreDeferred = None\<rparr>,
      ReadRuns (\<lambda>_. True) 0 ''a'', BuildSettles (BuildFailed ()) ''a'', ReadRuns (\<lambda>_. True) 0 ''a'',
      BuildSettles (BuildDone 0) ''a''] new_build_queue"
  have "pending_requests ?Q = {#}" "nextRequest ?Q = 1"
    by (simp_all add: new_build_queue_def queueRecoveryBuild_def readRuns_def buildSettles_def isStillNeeded_def build_isDeferred_def
        settle_all_def loop_or_drop_def pending_requests_def Let_def)
  with requests_settled_once [OF refl, of "[Request ''a'' \<lparr>deleted = None, reason = None, ignoreDeferred = None\<rparr>,
      ReadRuns (\<lambda>_. True) 0 ''a'', BuildSettles (BuildFailed ()) ''a'', ReadRuns (\<lambda>_. True) 0 ''a'',
      BuildSettles (BuildDone 0) ''a'']"]
  have "mset (map fst (settled ?Q)) = {#0#}" by simp
  then show ?thesis by (metis mset_single_iff_right)
qed

text \<open>Rounds of one URI: a read and a build that no write cancels.\<close>

fun rounds :: "uri \<Rightarrow> ((nat \<Rightarrow> bool) \<times> int \<times> 'e build_outcome) list \<Rightarrow> 'e build_op list" where
  "rounds key [] = []"
| "rounds key ((stillNeeded, c, out) # rs) = ReadRuns stillNeeded c key # BuildSettles out key # rounds key rs"

fun uncancelled :: "(nat \<Rightarrow> bool) \<times> int \<times> 'e build_outcome \<Rightarrow> bool" where
  "uncancelled (stillNeeded, c, BuildDone now) = (now = c)"
| "uncancelled (stillNeeded, c, BuildFailed e) = True"

definition waits_from :: "nat \<Rightarrow> uri \<Rightarrow> 'e build_queue \<Rightarrow> bool" where
  "waits_from k key Q \<longleftrightarrow>
     (case js_get (pendingBuilds Q) key of
        None \<Rightarrow> True
      | Some entry \<Rightarrow> running entry = None \<and> (\<forall>q \<in> set (entryQueue entry). k \<le> failures q))"

lemma delete_set_same: "js_delete k (js_set k v m) = js_delete k m"
  by (induction m) auto

lemma delete_twice: "js_delete k (js_delete k m) = js_delete k m"
  by (induction m) auto

lemma round_step:
  assumes "waits_from k key Q" and "uncancelled (stillNeeded, c, out)"
  defines "Q1 \<equiv> builds.run [ReadRuns stillNeeded c key, BuildSettles out key] Q"
  shows "waits_from (k + 1) key Q1 \<and> js_delete key (pendingBuilds Q1) = js_delete key (pendingBuilds Q) \<and>
    maxBuildRetries Q1 = maxBuildRetries Q \<and> nextRequest Q1 = nextRequest Q"
proof (cases "js_get (pendingBuilds Q) key")
  case None
  then show ?thesis by (simp add: Q1_def readRuns_def buildSettles_def waits_from_def)
next
  case (Some entry)
  then have r: "running entry = None" and f: "\<forall>q \<in> set (entryQueue entry). k \<le> failures q"
    using assms(1) by (simp_all add: waits_from_def)
  let ?needed = "filter (\<lambda>q. isStillNeeded stillNeeded key q Q) (entryQueue entry)"
  obtain Q2 where read: "readRuns stillNeeded c key Q = Some Q2"
    and Q2: "pendingBuilds Q2 = js_set key \<lparr>entryQueue = [], running = Some (?needed, if ?needed = [] then None else Some c)\<rparr> (pendingBuilds Q)"
      "maxBuildRetries Q2 = maxBuildRetries Q" "nextRequest Q2 = nextRequest Q"
    using Some r by (auto simp: readRuns_def settle_all_def Let_def)
  have get: "js_get (pendingBuilds Q2) key = Some \<lparr>entryQueue = [], running = Some (?needed, if ?needed = [] then None else Some c)\<rparr>"
    by (simp add: Q2 js_get_set)
  obtain Q3 where settle: "buildSettles out key Q2 = Some Q3" by (simp add: buildSettles_def get)
  have Q1: "Q1 = Q3" by (simp add: Q1_def read settle)
  show ?thesis
  proof (rule buildSettles_cases [OF settle], goal_cases)
    case (1 entry' carried c' again ended)
    then have e: "entry' = \<lparr>entryQueue = [], running = Some (?needed, if ?needed = [] then None else Some c)\<rparr>"
      "carried = ?needed" "c' = (if ?needed = [] then None else Some c)" using get by auto
    have "\<forall>q \<in> set again. k + 1 \<le> failures q" using 1(5) e f assms(2) by (auto split: if_splits)
    then show ?case using 1(3) e(1) Q2
      by (auto simp: Q1 loop_or_drop_def waits_from_def js_get_set js_get_delete delete_set_same delete_twice)
  qed
qed

lemma rounds_run:
  assumes "list_all uncancelled rs" and "waits_from k key Q"
  shows "waits_from (k + length rs) key (builds.run (rounds key rs) Q) \<and>
    js_delete key (pendingBuilds (builds.run (rounds key rs) Q)) = js_delete key (pendingBuilds Q) \<and>
    maxBuildRetries (builds.run (rounds key rs) Q) = maxBuildRetries Q \<and> nextRequest (builds.run (rounds key rs) Q) = nextRequest Q"
  using assms
proof (induction rs arbitrary: k Q)
  case (Cons x rs)
  obtain sn c out where x: "x = (sn, c, out)" by (cases x)
  let ?Q1 = "builds.run [ReadRuns sn c key, BuildSettles out key] Q"
  have "builds.run (rounds key (x # rs)) Q = builds.run (rounds key rs) ?Q1" by (simp add: x)
  moreover note round_step [of k key Q sn c out] Cons.IH [of "k + 1" ?Q1]
  ultimately show ?case using Cons.prems x by (simp del: builds.run.simps)
qed simp

text \<open>
  recovery ends: from any state the service can reach, a waiting run whose builds no write cancels is
  over after at most one build more than the retries, whatever those builds do, and has settled each of
  its requests and no other.
\<close>

theorem recovery_run_ends:
  assumes "Q = builds.run ops new_build_queue" and "js_get (pendingBuilds Q) key = Some entry" and "running entry = None"
    and "list_all uncancelled rs" and "length rs = maxBuildRetries Q + 1" and "Q1 = builds.run (rounds key rs) Q"
  shows "js_get (pendingBuilds Q1) key = None \<and>
    mset (map fst (settled Q1)) = mset (map fst (settled Q)) + image_mset requestId (mset (entryQueue entry))"
proof -
  have ok: "builds_ok Q" unfolding assms(1) by (rule builds_run_ok)
  have ok1: "builds_ok Q1" unfolding assms(6) by (rule builds.run_inv [OF ok])
  have "waits_from 0 key Q" using assms(2,3) by (simp add: waits_from_def)
  note run = rounds_run [OF assms(4) this, folded assms(6)]
  have gone: "js_get (pendingBuilds Q1) key = None"
  proof (rule ccontr)
    assume "js_get (pendingBuilds Q1) key \<noteq> None"
    then obtain e where e: "js_get (pendingBuilds Q1) key = Some e" by blast
    then have w: "running e = None" "\<forall>q \<in> set (entryQueue e). maxBuildRetries Q + 1 \<le> failures q"
      using run assms(5) by (auto simp: waits_from_def)
    then obtain q where "q \<in> set (entryQueue e)" using builds_okD(3) [OF ok1 e] by fastforce
    then show False using w builds_okD(4) [OF ok1 e, of q] run by (fastforce simp: entry_requests_def)
  qed
  then have del: "pendingBuilds Q1 = js_delete key (pendingBuilds Q)"
    using run js_delete_absent [of key "pendingBuilds Q1"] by (simp add: map_of_eq_None_iff)
  let ?R = "image_mset requestId (requests_in (js_delete key (pendingBuilds Q)))"
  have "?R + mset (map fst (settled Q1)) = mset [0..<nextRequest Q]"
    using builds_okD(2) [OF ok1] run unfolding del by argo
  moreover have "mset (entry_requests entry) = mset (entryQueue entry)" using assms(3) by (simp add: entry_requests_def)
  then have "image_mset requestId (mset (entryQueue entry)) + ?R + mset (map fst (settled Q)) = mset [0..<nextRequest Q]"
    using builds_okD(2) [OF ok] unfolding requests_get [OF builds_okD(1) [OF ok] assms(2)] image_mset_union by argo
  ultimately have "?R + mset (map fst (settled Q1)) = ?R + (mset (map fst (settled Q)) + image_mset requestId (mset (entryQueue entry)))"
    by (simp only: ac_simps)
  then show ?thesis using gone by simp
qed

theorem recovery_run_ends_witness:
  "js_get (pendingBuilds (builds.run (rounds ''a'' [(\<lambda>_. True, 0, BuildFailed ()), (\<lambda>_. True, 0, BuildFailed ())])
     (builds.run [Request ''a'' \<lparr>deleted = None, reason = None, ignoreDeferred = None\<rparr>] new_build_queue))) ''a'' = None"
proof -
  let ?ops = "[Request ''a'' \<lparr>deleted = None, reason = None, ignoreDeferred = None\<rparr>] :: unit build_op list"
  let ?rs = "[(\<lambda>_. True, 0, BuildFailed ()), (\<lambda>_. True, 0, BuildFailed ())] :: ((nat \<Rightarrow> bool) \<times> int \<times> unit build_outcome) list"
  have "js_get (pendingBuilds (builds.run ?ops new_build_queue)) ''a'' =
      Some \<lparr>entryQueue = [\<lparr>requestId = 0, request = \<lparr>deleted = None, reason = None, ignoreDeferred = None\<rparr>, failures = 0\<rparr>], running = None\<rparr>"
    and "length ?rs = maxBuildRetries (builds.run ?ops new_build_queue) + 1"
    by (simp_all add: new_build_queue_def queueRecoveryBuild_def Let_def)
  with recovery_run_ends [OF refl _ _ _ _ refl, of ?ops "''a''" _ ?rs] show ?thesis by simp
qed

end
