(* ===== verification/VersionSync.thy ===== *)
theory VersionSync
  imports RecoveryBuilds StoreProperties
begin

section \<open>Keeping the model ledger in step with the text store\<close>

text \<open>
  The rest of \<open>DefaultVersionSyncService\<close>: a produced root is recorded at the version of the text it was
  parsed from, reconciled with the store and built again if it is behind. A document of the workspace is a
  record with an identity; \<open>docs\<close> stands for \<open>LangiumDocuments\<close>, whose entry for a URI decides whether a
  produced document is registered.
\<close>

record lang_document =
  ldId :: nat
  ldUri :: uri
  ldRoot :: model_root
  ldParsed :: bool
  ldVersion :: int
  ldText :: text_body

record 'e sync =
  docs :: "(uri, lang_document) js_map"
  modelLedger :: model_ledger
  textStore :: store
  buildQueue :: "'e build_queue"
  recorded :: "nat list"

definition isSyncedTo :: "uri \<Rightarrow> int \<Rightarrow> 'e sync \<Rightarrow> bool" where
  "isSyncedTo u textVersion Y =
     (case js_get (docs Y) u of
        None \<Rightarrow> True
      | Some doc \<Rightarrow>
          (let rec_version = versionOf (ldRoot doc) (modelLedger Y)
           in rec_version = UNRECORDED_VERSION \<or> isPlaceholder (ldRoot doc) (modelLedger Y) \<or> textVersion \<le> rec_version))"

definition parsedText :: "lang_document \<Rightarrow> 'e sync \<Rightarrow> text_body" where
  "parsedText doc Y = (case textOf (ldRoot doc) (modelLedger Y) of Some t \<Rightarrow> t | None \<Rightarrow> ldText doc)"

text \<open>The options of a request without any: \<open>{ stillNeeded }\<close>.\<close>

definition plain_request :: recovery_request where
  "plain_request = \<lparr>deleted = None, reason = None, ignoreDeferred = None\<rparr>"

definition syncTo :: "uri \<Rightarrow> int \<Rightarrow> 'e sync \<Rightarrow> nat option \<times> 'e sync" where
  "syncTo u textVersion Y =
     (if isSyncedTo u textVersion Y then (None, Y)
      else (let (n, Q) = queueRecoveryBuild u plain_request (buildQueue Y) in (Some n, Y\<lparr>buildQueue := Q\<rparr>)))"

definition rebuildWhileCurrent :: "lang_document \<Rightarrow> 'e sync \<Rightarrow> 'e sync" where
  "rebuildWhileCurrent doc Y = Y\<lparr>buildQueue := snd (queueRecoveryBuild (ldUri doc) plain_request (buildQueue Y))\<rparr>"

text \<open>An empty-changes update of the store re-stamps the document's own version.\<close>

definition stamp_version :: "lang_document \<Rightarrow> int \<Rightarrow> 'e sync \<Rightarrow> 'e sync" where
  "stamp_version doc v Y =
     (if ldVersion doc = v then Y else Y\<lparr>docs := js_set (ldUri doc) (doc\<lparr>ldVersion := v\<rparr>) (docs Y)\<rparr>)"

definition modelProduced :: "env \<Rightarrow> lang_document \<Rightarrow> int option \<Rightarrow> text_body option \<Rightarrow> 'e sync \<Rightarrow> 'e sync" where
  "modelProduced E doc originVersion originText Y =
     (let root = ldRoot doc; u = ldUri doc
      in if \<not> ldParsed doc then Y\<lparr>modelLedger := markPlaceholder root (modelLedger Y)\<rparr>
         else (let Y1 = (case originVersion of
                           Some v \<Rightarrow> Y\<lparr>modelLedger := record_model root v originText (modelLedger Y)\<rparr>
                         | None \<Rightarrow> Y)
               in if map_option ldId (js_get (docs Y1) u) \<noteq> Some (ldId doc) then Y1
                  else (let (version, S) = reconcileExternalContent E u
                              (case originText of Some t \<Rightarrow> t | None \<Rightarrow> parsedText doc Y1) (textStore Y1);
                            Y2 = Y1\<lparr>textStore := S\<rparr>;
                            Y3 = (case version of
                                    Some v \<Rightarrow> stamp_version doc v (Y2\<lparr>modelLedger := record_model root v originText (modelLedger Y2)\<rparr>)
                                  | None \<Rightarrow> Y2);
                            Y4 = snd (syncTo u (store_version E u (textStore Y3)) Y3)
                        in Y4\<lparr>recorded := recorded Y4 @ [ldId doc]\<rparr>)))"

subsection \<open>What a produced root leads to\<close>

text \<open>What the store answers for text from outside, and its version afterwards.\<close>

lemma external_version:
  assumes "env_ok E" and "store_ok E S" and "reconcileExternalContent E u t S = (version, S1)"
  shows "(case js_get (synced S) (documentKey E u) of
      Some d \<Rightarrow> version = (if docText d = t then Some (docVersion d) else None) \<and> store_version E u S1 = docVersion d
    | None \<Rightarrow> version = Some (store_version E u S1))"
proof -
  have ok1: "store_ok E S1" using reconcileExternalContent_ok [OF assms(2), of u t] by (simp add: assms(3))
  show ?thesis
  proof (cases "js_get (synced S) (documentKey E u)")
    case (Some d)
    then have "S1 = S" using assms(3) by (auto simp: reconcileExternalContent_def)
    then show ?thesis using assms Some by (auto simp: reconcileExternalContent_def store_version_def store_get_key)
  next
    case None
    then have "version = Some (fst (reconcile (documentKey E u) t (ledger S)))" "synced S1 = synced S"
      "ledger S1 = snd (reconcile (documentKey E u) t (ledger S))"
      using assms(3) by (auto simp: reconcileExternalContent_def case_prod_beta Let_def)
    then show ?thesis using None store_get_key [OF assms(1) ok1, of u] by (simp add: store_version_def recordOf_reconcile)
  qed
qed

lemma syncTo_result:
  "case syncTo u v Y of (n, Y1) \<Rightarrow> docs Y1 = docs Y \<and> modelLedger Y1 = modelLedger Y \<and> textStore Y1 = textStore Y \<and>
     (if isSyncedTo u v Y then Y1 = Y
      else \<exists>entry. js_get (pendingBuilds (buildQueue Y1)) u = Some entry \<and> entryQueue entry \<noteq> [])"
  by (auto simp: syncTo_def queueRecoveryBuild_def Let_def js_get_set split: option.splits)

lemma stamp_version_frame [simp]:
  "modelLedger (stamp_version doc v Y) = modelLedger Y" "textStore (stamp_version doc v Y) = textStore Y"
  "buildQueue (stamp_version doc v Y) = buildQueue Y"
  by (simp_all add: stamp_version_def)

lemma stamp_version_docs:
  "js_get (docs Y) (ldUri doc) = Some doc \<Longrightarrow> map_option ldRoot (js_get (docs (stamp_version doc v Y)) (ldUri doc)) = Some (ldRoot doc)"
  by (simp add: stamp_version_def js_get_set)

lemma isSyncedTo_recorded:
  "map_option ldRoot (js_get (docs Y) u) = Some root \<Longrightarrow> v \<le> versionOf root (modelLedger Y) \<Longrightarrow> isSyncedTo u v Y"
  by (auto simp: isSyncedTo_def Let_def)

subsection \<open>Properties\<close>

text \<open>The text a produced root describes: the one given with it, or the one it was parsed from.\<close>

definition produced_text :: "lang_document \<Rightarrow> text_body option \<Rightarrow> 'e sync \<Rightarrow> text_body" where
  "produced_text doc originText Y = (case originText of Some t \<Rightarrow> t | None \<Rightarrow> parsedText doc Y)"

lemma parsedText_recorded:
  "parsedText doc (Y\<lparr>modelLedger := record_model (ldRoot doc) v None (modelLedger Y)\<rparr>) = parsedText doc Y"
  by (simp add: parsedText_def textOf_record_model)

text \<open>What \<open>modelProduced\<close> does for a registered document with a version, in any state of the store.\<close>

lemma modelProduced_steps:
  assumes "env_ok E" and "store_ok E (textStore Y)" and "ldParsed doc" and "js_get (docs Y) (ldUri doc) = Some doc"
    and "\<not> isPlaceholder (ldRoot doc) (modelLedger Y)" and "w \<noteq> UNRECORDED_VERSION"
    and "Y' = modelProduced E doc (Some w) originText Y" and "v = store_version E (ldUri doc) (textStore Y')"
  shows "case js_get (synced (textStore Y)) (documentKey E (ldUri doc)) of
      Some d \<Rightarrow>
        v = docVersion d \<and>
        (if docText d = produced_text doc originText Y then versionOf (ldRoot doc) (modelLedger Y') = v \<and> buildQueue Y' = buildQueue Y
         else versionOf (ldRoot doc) (modelLedger Y') = w \<and>
              (if v \<le> w then buildQueue Y' = buildQueue Y
               else \<exists>entry. js_get (pendingBuilds (buildQueue Y')) (ldUri doc) = Some entry \<and> entryQueue entry \<noteq> []))
    | None \<Rightarrow> versionOf (ldRoot doc) (modelLedger Y') = v \<and> buildQueue Y' = buildQueue Y"
proof -
  let ?u = "ldUri doc" and ?root = "ldRoot doc" and ?txt = "produced_text doc originText Y"
  define Y1 where "Y1 = Y\<lparr>modelLedger := record_model ?root w originText (modelLedger Y)\<rparr>"
  have Y1: "docs Y1 = docs Y" "textStore Y1 = textStore Y" "buildQueue Y1 = buildQueue Y" by (simp_all add: Y1_def)
  have text_is: "(case originText of Some t \<Rightarrow> t | None \<Rightarrow> parsedText doc Y1) = ?txt"
    by (cases originText) (simp_all add: produced_text_def Y1_def parsedText_recorded)
  obtain version S where r: "reconcileExternalContent E ?u ?txt (textStore Y) = (version, S)" by (metis surj_pair)
  define Y3 where "Y3 = (case version of
      Some v \<Rightarrow> stamp_version doc v (Y1\<lparr>textStore := S, modelLedger := record_model ?root v originText (modelLedger Y1)\<rparr>)
    | None \<Rightarrow> Y1\<lparr>textStore := S\<rparr>)"
  define Y4 where "Y4 = snd (syncTo ?u (store_version E ?u (textStore Y3)) Y3)"
  have Y': "Y' = Y4\<lparr>recorded := recorded Y4 @ [ldId doc]\<rparr>"
    by (cases version) (simp_all add: assms(3,4,7) modelProduced_def Let_def text_is [unfolded Y1_def] r Y1_def Y3_def Y4_def)
  have Y3: "textStore Y3 = S" "buildQueue Y3 = buildQueue Y" by (simp_all add: Y3_def Y1 split: option.splits)
  have docs3: "map_option ldRoot (js_get (docs Y3) ?u) = Some ?root"
    using assms(4) by (cases version) (simp_all add: Y3_def Y1 stamp_version_docs del: map_option_eq_Some)
  have placed: "\<not> isPlaceholder ?root (modelLedger Y3)"
    using assms(5) by (simp add: Y3_def Y1_def model_ledger_markPlaceholder split: option.splits)
  note sync = syncTo_result [where u = ?u and v = "store_version E ?u (textStore Y3)" and Y = Y3]
  then have frame: "docs Y4 = docs Y3" "modelLedger Y4 = modelLedger Y3" "textStore Y4 = S"
    and fin: "isSyncedTo ?u (store_version E ?u S) Y3 \<Longrightarrow> Y4 = Y3"
    and behind: "\<not> isSyncedTo ?u (store_version E ?u S) Y3 \<Longrightarrow>
      \<exists>entry. js_get (pendingBuilds (buildQueue Y4)) ?u = Some entry \<and> entryQueue entry \<noteq> []"
    by (auto simp: Y4_def Y3 case_prod_beta)
  have v: "v = store_version E ?u S" using frame by (simp add: assms(8) Y')
  have led: "versionOf ?root (modelLedger Y3) = (case version of Some v \<Rightarrow> v | None \<Rightarrow> w)"
    by (simp add: Y3_def Y1_def versionOf_record_model split: option.splits)
  have synced_iff: "isSyncedTo ?u v Y3 \<longleftrightarrow> versionOf ?root (modelLedger Y3) = UNRECORDED_VERSION \<or> v \<le> versionOf ?root (modelLedger Y3)"
    using docs3 placed by (auto simp: isSyncedTo_def Let_def)
  have in_step: "versionOf ?root (modelLedger Y') = v \<and> buildQueue Y' = buildQueue Y" if "version = Some v"
    using that led synced_iff fin v Y3 by (simp add: Y')
  have final: "versionOf ?root (modelLedger Y') = versionOf ?root (modelLedger Y3)" "buildQueue Y' = buildQueue Y4"
    using frame by (simp_all add: Y')
  have out: "versionOf ?root (modelLedger Y') = w \<and> (if v \<le> w then buildQueue Y' = buildQueue Y
      else \<exists>entry. js_get (pendingBuilds (buildQueue Y')) ?u = Some entry \<and> entryQueue entry \<noteq> [])" if "version = None"
  proof (cases "v \<le> w")
    case True
    then have "isSyncedTo ?u v Y3" using led that synced_iff by simp
    then show ?thesis using True fin final led that Y3(2) unfolding v by simp
  next
    case False
    then have "\<not> isSyncedTo ?u v Y3" using led that synced_iff assms(6) by simp
    then show ?thesis using False behind final led that unfolding v by simp
  qed
  note ext = external_version [OF assms(1,2) r]
  show ?thesis
  proof (cases "js_get (synced (textStore Y)) (documentKey E ?u)")
    case None
    then show ?thesis using ext in_step v by simp
  next
    case (Some d)
    then show ?thesis using ext in_step out v by (cases "docText d = ?txt") auto
  qed
qed

text \<open>
  C21: a root produced for a registered document never stays behind its text unnoticed. Let it be produced with the
  version \<open>w\<close> the store answered for its text before the parse, whatever happened to the store since. Where the store
  does not hold the document, or holds the very text of the root, the root is recorded at the version the store then
  answers, and needs no build. Where the store holds other text, the root stays recorded at \<open>w\<close>, the version of its own
  text; unless the two texts have the same digest, the store is past \<open>w\<close>, and a recovery build of the document is queued.
\<close>

theorem produced_root_in_step:
  assumes "env_ok E" and "ldParsed doc" and "js_get (docs Y) (ldUri doc) = Some doc"
    and "\<not> isPlaceholder (ldRoot doc) (modelLedger Y)" and "w \<noteq> UNRECORDED_VERSION"
    and "standing (store.run E ops (new_store grace)) (documentKey E (ldUri doc)) = Some (w, textHash (produced_text doc originText Y))"
    and "textStore Y = store.run E (ops @ later) (new_store grace)"
    and "Y' = modelProduced E doc (Some w) originText Y" and "v = store_version E (ldUri doc) (textStore Y')"
  shows "case js_get (synced (textStore Y)) (documentKey E (ldUri doc)) of
      Some d \<Rightarrow>
        v = docVersion d \<and>
        (if docText d = produced_text doc originText Y then versionOf (ldRoot doc) (modelLedger Y') = v \<and> buildQueue Y' = buildQueue Y
         else versionOf (ldRoot doc) (modelLedger Y') = w \<and>
              (textHash (docText d) = textHash (produced_text doc originText Y) \<or>
               w < v \<and> (\<exists>entry. js_get (pendingBuilds (buildQueue Y')) (ldUri doc) = Some entry \<and> entryQueue entry \<noteq> [])))
    | None \<Rightarrow> versionOf (ldRoot doc) (modelLedger Y') = v \<and> buildQueue Y' = buildQueue Y"
proof -
  let ?k = "documentKey E (ldUri doc)" and ?t = "produced_text doc originText Y"
  have ok: "store_ok E (textStore Y)" unfolding assms(7) by (rule store_run_ok [OF assms(1)])
  note steps = modelProduced_steps [OF assms(1) ok assms(2-5,8,9)]
  have "sequences_progress (store.run E ops (new_store grace)) (textStore Y)"
    unfolding assms(7) by (rule store.run_between) (simp add: assms(1))
  then have "moved_on (Some (w, textHash ?t)) (standing (textStore Y) ?k)"
    unfolding sequences_progress_def assms(6) [symmetric] by blast
  then have "w < docVersion d \<or> textHash (docText d) = textHash ?t" if "js_get (synced (textStore Y)) ?k = Some d" for d
    using that by (auto simp: moved_on_def standing_def)
  then show ?thesis using steps by (auto split: option.splits if_splits)
qed

text \<open>A root parsed from the text at version 0, which a client replaced while it was parsed.\<close>

definition overtaken_doc :: lang_document where
  "overtaken_doc = \<lparr>ldId = 0, ldUri = ''a'', ldRoot = \<lparr>rootId = 0, rootCst = None\<rparr>, ldParsed = True, ldVersion = 0, ldText = [7]\<rparr>"

definition overtaken_sync :: "unit sync" where
  "overtaken_sync =
     \<lparr>docs = [(''a'', overtaken_doc)], modelLedger = new_model_ledger,
      textStore = store.run witness_env ([StReconcile ''a'' [7]] @ [StOpen 0 None new_model_ledger ''a'' ''x'' 1 [8] ''form'']) (new_store 10),
      buildQueue = new_build_queue, recorded = []\<rparr>"

theorem produced_root_in_step_witness:
  "\<exists>entry. js_get (pendingBuilds (buildQueue (modelProduced witness_env overtaken_doc (Some 0) None overtaken_sync))) ''a'' = Some entry \<and>
     entryQueue entry \<noteq> []"
proof -
  have text_is: "produced_text overtaken_doc None overtaken_sync = [7]" and doc: "ldUri overtaken_doc = ''a''" "ldParsed overtaken_doc"
    "js_get (docs overtaken_sync) (ldUri overtaken_doc) = Some overtaken_doc"
    and fresh: "\<not> isPlaceholder (ldRoot overtaken_doc) (modelLedger overtaken_sync)" "(0 :: int) \<noteq> UNRECORDED_VERSION"
    by (simp_all add: produced_text_def parsedText_def overtaken_doc_def overtaken_sync_def textOf_def new_model_ledger_def isPlaceholder_def
        UNRECORDED_VERSION_def)
  have before: "standing (store.run witness_env [StReconcile ''a'' [7]] (new_store 10)) (documentKey witness_env (ldUri overtaken_doc)) =
      Some (0, textHash (produced_text overtaken_doc None overtaken_sync))"
    unfolding text_is doc
    by (simp add: standing_def reconcileExternalContent_def new_store_def reconcile_def new_ledger_def standing_of_def recordOf_def)
  have diff: "textHash [8] \<noteq> textHash [7]" by code_simp
  have "\<exists>d. js_get (synced (textStore overtaken_sync)) (documentKey witness_env ''a'') = Some d \<and> docText d = [8]"
    unfolding overtaken_sync_def by (simp add: store_eval reconcileExternalContent_def reconcile_def recordOf_def Let_def)
  with produced_root_in_step [OF witness_env_ok doc(2,3) fresh before, of "[StOpen 0 None new_model_ledger ''a'' ''x'' 1 [8] ''form'']", OF _ refl refl]
    diff text_is doc(1) show ?thesis
    by (auto simp: overtaken_sync_def)
qed

end
