(* ===== verification/TaskQueue.thy ===== *)
theory TaskQueue
  imports Prelude
begin

section \<open>The file system task queue\<close>

text \<open>
  \<open>DefaultFileSystemTaskQueue\<close> of \<open>core/src/documents/file-system-task-queue.ts\<close>. The tasks are numbered in
  the order they were enqueued; \<open>queues\<close> maps a file to the number of the task whose settling the next
  one chains behind. A chained task starts once the promise before it settled (\<open>startTask\<close>), runs until it
  settles either way (\<open>settleTask\<close>), and the callback after its settling drops the entry of a file whose
  queue ran empty (\<open>cleanupTask\<close>). The policy's \<open>canonicalUri\<close>, another component's, is an argument.
\<close>

datatype task_status = Waiting | Running | Settled

record task =
  taskKey :: uri
  chainedBehind :: "nat option"
  status :: task_status

record task_queue =
  queues :: "(uri, nat) js_map"
  tasks :: "task list"

definition new_task_queue :: task_queue where
  "new_task_queue = \<lparr>queues = [], tasks = []\<rparr>"

definition enqueue :: "(uri \<Rightarrow> uri) \<Rightarrow> uri \<Rightarrow> task_queue \<Rightarrow> nat \<times> task_queue" where
  "enqueue canonicalUri uri T =
     (let key = canonicalUri uri; n = length (tasks T)
      in (n, \<lparr>queues = js_set key n (queues T),
              tasks = tasks T @ [\<lparr>taskKey = key, chainedBehind = js_get (queues T) key, status = Waiting\<rparr>]\<rparr>))"

definition isIdle :: "(uri \<Rightarrow> uri) \<Rightarrow> uri \<Rightarrow> task_queue \<Rightarrow> bool" where
  "isIdle canonicalUri uri T \<longleftrightarrow> \<not> js_has (queues T) (canonicalUri uri)"

definition setStatus :: "nat \<Rightarrow> task_status \<Rightarrow> task_queue \<Rightarrow> task_queue" where
  "setStatus n st T = T\<lparr>tasks := (tasks T)[n := (tasks T ! n)\<lparr>status := st\<rparr>]\<rparr>"

definition startTask :: "nat \<Rightarrow> task_queue \<Rightarrow> task_queue option" where
  "startTask n T =
     (if n < length (tasks T) \<and> status (tasks T ! n) = Waiting \<and>
         (case chainedBehind (tasks T ! n) of None \<Rightarrow> True | Some p \<Rightarrow> status (tasks T ! p) = Settled)
      then Some (setStatus n Running T) else None)"

definition settleTask :: "nat \<Rightarrow> task_queue \<Rightarrow> task_queue option" where
  "settleTask n T =
     (if n < length (tasks T) \<and> status (tasks T ! n) = Running then Some (setStatus n Settled T) else None)"

definition cleanupTask :: "nat \<Rightarrow> task_queue \<Rightarrow> task_queue option" where
  "cleanupTask n T =
     (if n < length (tasks T) \<and> status (tasks T ! n) = Settled
      then Some (if js_get (queues T) (taskKey (tasks T ! n)) = Some n
                 then T\<lparr>queues := js_delete (taskKey (tasks T ! n)) (queues T)\<rparr> else T)
      else None)"

datatype task_op = Enqueue uri | StartTask nat | SettleTask nat | CleanupTask nat

fun task_step :: "(uri \<Rightarrow> uri) \<Rightarrow> task_op \<Rightarrow> task_queue \<Rightarrow> task_queue option" where
  "task_step canonicalUri (Enqueue uri) T = Some (snd (enqueue canonicalUri uri T))"
| "task_step canonicalUri (StartTask n) T = startTask n T"
| "task_step canonicalUri (SettleTask n) T = settleTask n T"
| "task_step canonicalUri (CleanupTask n) T = cleanupTask n T"

subsection \<open>The specification: one first-in first-out queue per file\<close>

text \<open>The tasks of a file that have not settled, oldest first, and the one that runs.\<close>

record fifo_spec =
  fifo :: "uri \<Rightarrow> nat list"
  active :: "uri \<Rightarrow> nat option"

inductive fifo_step :: "fifo_spec \<Rightarrow> fifo_spec \<Rightarrow> bool" where
  fifo_enqueue: "fifo_step F (F\<lparr>fifo := (fifo F)(key := fifo F key @ [n])\<rparr>)"
| fifo_start: "fifo F key = n # rest \<Longrightarrow> active F key = None \<Longrightarrow> fifo_step F (F\<lparr>active := (active F)(key := Some n)\<rparr>)"
| fifo_settle: "fifo F key = n # rest \<Longrightarrow> active F key = Some n \<Longrightarrow>
    fifo_step F (F\<lparr>fifo := (fifo F)(key := rest), active := (active F)(key := None)\<rparr>)"
| fifo_idle: "fifo_step F F"

definition unsettled :: "uri \<Rightarrow> task_queue \<Rightarrow> nat list" where
  "unsettled key T = filter (\<lambda>i. taskKey (tasks T ! i) = key \<and> status (tasks T ! i) \<noteq> Settled) [0..<length (tasks T)]"

definition running_task :: "uri \<Rightarrow> task_queue \<Rightarrow> nat option" where
  "running_task key T = List.find (\<lambda>i. taskKey (tasks T ! i) = key \<and> status (tasks T ! i) = Running) [0..<length (tasks T)]"

definition abs_queue :: "task_queue \<Rightarrow> fifo_spec" where
  "abs_queue T = \<lparr>fifo = (\<lambda>key. unsettled key T), active = (\<lambda>key. running_task key T)\<rparr>"

text \<open>
  The invariant: a task that started has every earlier task of its file settled; a task is chained behind
  the last task of its file before it, or behind none where all those had settled; an entry names the last
  task of its file, and a file without entry has none unsettled.
\<close>

definition earlier_settled :: "nat \<Rightarrow> task_queue \<Rightarrow> bool" where
  "earlier_settled i T \<longleftrightarrow> (\<forall>j < i. taskKey (tasks T ! j) = taskKey (tasks T ! i) \<longrightarrow> status (tasks T ! j) = Settled)"

definition chain_ok :: "nat \<Rightarrow> task_queue \<Rightarrow> bool" where
  "chain_ok i T \<longleftrightarrow>
     (case chainedBehind (tasks T ! i) of
        None \<Rightarrow> earlier_settled i T
      | Some p \<Rightarrow> p < i \<and> taskKey (tasks T ! p) = taskKey (tasks T ! i) \<and>
                  (\<forall>j. p < j \<and> j < i \<longrightarrow> taskKey (tasks T ! j) \<noteq> taskKey (tasks T ! i)))"

definition entry_ok :: "uri \<Rightarrow> task_queue \<Rightarrow> bool" where
  "entry_ok key T \<longleftrightarrow>
     (case js_get (queues T) key of
        None \<Rightarrow> unsettled key T = []
      | Some p \<Rightarrow> p < length (tasks T) \<and> taskKey (tasks T ! p) = key \<and>
                  (\<forall>j. p < j \<and> j < length (tasks T) \<longrightarrow> taskKey (tasks T ! j) \<noteq> key))"

definition tasks_ok :: "task_queue \<Rightarrow> bool" where
  "tasks_ok T \<longleftrightarrow>
     (\<forall>i < length (tasks T). (status (tasks T ! i) \<noteq> Waiting \<longrightarrow> earlier_settled i T) \<and> chain_ok i T) \<and>
     (\<forall>key. entry_ok key T)"

lemma tasks_okD:
  assumes "tasks_ok T"
  shows "i < length (tasks T) \<Longrightarrow> status (tasks T ! i) \<noteq> Waiting \<Longrightarrow> earlier_settled i T"
    and "i < length (tasks T) \<Longrightarrow> chain_ok i T" and "entry_ok key T"
  using assms unfolding tasks_ok_def by blast+

lemma unsettled_empty:
  "unsettled key T = [] \<longleftrightarrow> (\<forall>i < length (tasks T). taskKey (tasks T ! i) = key \<longrightarrow> status (tasks T ! i) = Settled)"
  by (auto simp: unsettled_def filter_empty_conv)

text \<open>A task whose predecessor has settled has all earlier tasks of its file settled.\<close>

lemma may_start:
  assumes "tasks_ok T" and "n < length (tasks T)"
    and "case chainedBehind (tasks T ! n) of None \<Rightarrow> True | Some p \<Rightarrow> status (tasks T ! p) = Settled"
  shows "earlier_settled n T"
proof (cases "chainedBehind (tasks T ! n)")
  case None
  then show ?thesis using tasks_okD(2) [OF assms(1,2)] by (simp add: chain_ok_def)
next
  case (Some p)
  then have p: "p < n" "taskKey (tasks T ! p) = taskKey (tasks T ! n)"
    "\<forall>j. p < j \<and> j < n \<longrightarrow> taskKey (tasks T ! j) \<noteq> taskKey (tasks T ! n)" "status (tasks T ! p) = Settled"
    using assms(3) tasks_okD(2) [OF assms(1,2)] by (simp_all add: chain_ok_def)
  then have "earlier_settled p T" using tasks_okD(1) [OF assms(1), of p] assms(2) by simp
  then show ?thesis using p by (auto simp: earlier_settled_def) (metis linorder_neqE_nat)
qed

subsection \<open>The invariant is kept\<close>

lemma setStatus_simps [simp]:
  "length (tasks (setStatus n st T)) = length (tasks T)" "queues (setStatus n st T) = queues T"
  "n < length (tasks T) \<Longrightarrow> taskKey (tasks (setStatus n st T) ! i) = taskKey (tasks T ! i)"
  "n < length (tasks T) \<Longrightarrow> chainedBehind (tasks (setStatus n st T) ! i) = chainedBehind (tasks T ! i)"
  "n < length (tasks T) \<Longrightarrow> status (tasks (setStatus n st T) ! i) = (if i = n then st else status (tasks T ! i))"
  by (simp_all add: setStatus_def nth_list_update)

lemma setStatus_ok:
  assumes ok: "tasks_ok T" and n: "n < length (tasks T)" and e: "earlier_settled n T"
    and "status (tasks T ! n) \<noteq> Settled"
  shows "tasks_ok (setStatus n st T)"
proof -
  have mono: "earlier_settled i (setStatus n st T)" if "earlier_settled i T" for i
    using that assms(4) n by (auto simp: earlier_settled_def)
  have "unsettled key T = [] \<Longrightarrow> unsettled key (setStatus n st T) = []" for key
    using assms(4) n by (auto simp: unsettled_empty)
  then have entry: "entry_ok key (setStatus n st T)" for key
    using tasks_okD(3) [OF ok, of key] n by (auto simp: entry_ok_def split: option.splits)
  have chain: "chain_ok i (setStatus n st T)" if "i < length (tasks T)" for i
    using tasks_okD(2) [OF ok that] n mono by (auto simp: chain_ok_def split: option.splits)
  show ?thesis
    unfolding tasks_ok_def using entry chain mono [OF e] mono tasks_okD(1) [OF ok] n by auto
qed

lemma enqueue_ok:
  assumes ok: "tasks_ok T"
  shows "tasks_ok (snd (enqueue canonicalUri uri T))"
proof -
  let ?T = "snd (enqueue canonicalUri uri T)" and ?key = "canonicalUri uri"
  have len: "length (tasks ?T) = Suc (length (tasks T))" by (simp add: enqueue_def Let_def)
  have old: "tasks ?T ! i = tasks T ! i" if "i < length (tasks T)" for i using that by (simp add: enqueue_def Let_def nth_append)
  have new: "tasks ?T ! length (tasks T) = \<lparr>taskKey = ?key, chainedBehind = js_get (queues T) ?key, status = Waiting\<rparr>"
    by (simp add: enqueue_def Let_def)
  have q: "queues ?T = js_set ?key (length (tasks T)) (queues T)" by (simp add: enqueue_def Let_def)
  have es: "earlier_settled i ?T = earlier_settled i T" if "i < length (tasks T)" for i
    using that old by (auto simp: earlier_settled_def)
  have chain: "chain_ok i ?T" if "i \<le> length (tasks T)" for i
  proof (cases "i = length (tasks T)")
    case True
    then show ?thesis using tasks_okD(3) [OF ok, of ?key] new old
      by (auto simp: chain_ok_def entry_ok_def unsettled_empty earlier_settled_def split: option.splits)
  next
    case False
    then have i: "i < length (tasks T)" using that by simp
    then show ?thesis using tasks_okD(2) [OF ok i] old es by (auto simp: chain_ok_def split: option.splits)
  qed
  have entry: "entry_ok k ?T" for k
  proof (cases "k = ?key")
    case True
    then show ?thesis using new by (auto simp: entry_ok_def q js_get_set len)
  next
    case False
    then show ?thesis using tasks_okD(3) [OF ok, of k] old new
      by (auto simp: entry_ok_def q js_get_set len unsettled_empty less_Suc_eq split: option.splits)
  qed
  have "status (tasks ?T ! i) \<noteq> Waiting \<longrightarrow> earlier_settled i ?T" if "i < length (tasks ?T)" for i
    using that tasks_okD(1) [OF ok, of i] new old [of i] es [of i] unfolding len less_Suc_eq by auto
  then show ?thesis using chain entry unfolding tasks_ok_def by (simp add: len less_Suc_eq_le)
qed

lemma cleanup_ok:
  assumes ok: "tasks_ok T" and run: "cleanupTask n T = Some T'"
  shows "tasks_ok T'"
proof (cases "js_get (queues T) (taskKey (tasks T ! n)) = Some n")
  case True
  let ?key = "taskKey (tasks T ! n)"
  have n: "n < length (tasks T)" "status (tasks T ! n) = Settled" and T': "T' = T\<lparr>queues := js_delete ?key (queues T)\<rparr>"
    using run True by (auto simp: cleanupTask_def split: if_splits)
  have "earlier_settled n T" using tasks_okD(1) [OF ok n(1)] n(2) by simp
  moreover have "\<forall>j. n < j \<and> j < length (tasks T) \<longrightarrow> taskKey (tasks T ! j) \<noteq> ?key"
    using tasks_okD(3) [OF ok, of ?key] True by (simp add: entry_ok_def)
  ultimately have empty: "unsettled ?key T = []"
    using n by (auto simp: unsettled_empty earlier_settled_def) (metis linorder_neqE_nat)
  have same: "earlier_settled i T' = earlier_settled i T" "chain_ok i T' = chain_ok i T" "unsettled key T' = unsettled key T" for i key
    by (auto simp: T' earlier_settled_def chain_ok_def unsettled_def split: option.splits)
  have "entry_ok key T'" for key
    using tasks_okD(3) [OF ok, of key] empty same(3) [of key] by (auto simp: entry_ok_def T' js_get_delete split: option.splits)
  then show ?thesis using tasks_okD(1,2) [OF ok] unfolding tasks_ok_def same by (simp add: T')
qed (use run ok in \<open>auto simp: cleanupTask_def split: if_splits\<close>)

lemma task_step_ok:
  assumes "tasks_ok T" and "task_step canonicalUri op T = Some T'"
  shows "tasks_ok T'"
proof (cases op)
  case (StartTask n)
  then have n: "n < length (tasks T)" "status (tasks T ! n) = Waiting" "T' = setStatus n Running T"
    "case chainedBehind (tasks T ! n) of None \<Rightarrow> True | Some p \<Rightarrow> status (tasks T ! p) = Settled"
    using assms(2) by (auto simp: startTask_def split: if_splits)
  then show ?thesis using setStatus_ok [OF assms(1) n(1) may_start [OF assms(1) n(1,4)]] by simp
next
  case (SettleTask n)
  then have n: "n < length (tasks T)" "status (tasks T ! n) = Running" "T' = setStatus n Settled T"
    using assms(2) by (auto simp: settleTask_def split: if_splits)
  then show ?thesis using setStatus_ok [OF assms(1) n(1) tasks_okD(1) [OF assms(1) n(1)]] by simp
qed (use assms enqueue_ok cleanup_ok in auto)

interpretation queue: component "task_step canonicalUri" tasks_ok for canonicalUri
  by unfold_locales (rule task_step_ok)

lemma queue_run_ok: "tasks_ok (queue.run canonicalUri ops new_task_queue)"
  by (rule queue.run_inv) (simp add: tasks_ok_def new_task_queue_def unsettled_def entry_ok_def)

subsection \<open>Refinement\<close>

lemma unsettled_head:
  assumes "tasks_ok T" and n: "n < length (tasks T)" "status (tasks T ! n) \<noteq> Settled" and "earlier_settled n T"
  shows "\<exists>rest. unsettled (taskKey (tasks T ! n)) T = n # rest"
proof -
  let ?p = "\<lambda>i. taskKey (tasks T ! i) = taskKey (tasks T ! n) \<and> status (tasks T ! i) \<noteq> Settled"
  have split: "[0..<length (tasks T)] = [0..<n] @ n # [Suc n..<length (tasks T)]"
    using n(1) upt_add_eq_append [of 0 n "length (tasks T) - n"] by (simp add: upt_conv_Cons)
  have "filter ?p [0..<n] = []" using assms(4) by (auto simp: filter_empty_conv earlier_settled_def)
  then show ?thesis using n(2) unfolding unsettled_def split by simp
qed

lemma unsettled_first:
  assumes "unsettled key T = n # rest"
  shows "earlier_settled n T"
proof -
  let ?p = "\<lambda>i. taskKey (tasks T ! i) = key \<and> status (tasks T ! i) \<noteq> Settled"
  have n: "n < length (tasks T)" "?p n" using arg_cong [OF assms, of set] by (auto simp: unsettled_def)
  have "sorted (unsettled key T)" by (simp add: unsettled_def sorted_filter [of id, simplified])
  then have least: "n \<le> i" if "i \<in> set (unsettled key T)" for i using that assms by auto
  have "status (tasks T ! j) = Settled" if "j < n" "taskKey (tasks T ! j) = key" for j
    using least [of j] that n(1) by (auto simp: unsettled_def)
  then show ?thesis using n(2) by (auto simp: earlier_settled_def)
qed

lemma running_head:
  assumes ok: "tasks_ok T" and n: "n < length (tasks T)" "status (tasks T ! n) \<noteq> Settled" "earlier_settled n T"
  shows "running_task (taskKey (tasks T ! n)) T = (if status (tasks T ! n) = Running then Some n else None)"
proof -
  let ?r = "\<lambda>i. taskKey (tasks T ! i) = taskKey (tasks T ! n) \<and> status (tasks T ! i) = Running"
  have only: "i = n" if "i < length (tasks T)" "?r i" for i
  proof (rule ccontr)
    assume "i \<noteq> n"
    moreover have "earlier_settled i T" using tasks_okD(1) [OF ok that(1)] that(2) by simp
    ultimately show False using that n by (auto simp: earlier_settled_def) (metis linorder_neqE_nat task_status.distinct(5))
  qed
  show ?thesis
  proof (cases "status (tasks T ! n) = Running")
    case True
    then obtain i where i: "running_task (taskKey (tasks T ! n)) T = Some i"
      using n(1) by (cases "running_task (taskKey (tasks T ! n)) T") (auto simp: running_task_def find_None_iff)
    then have "i < length (tasks T)" "?r i" by (auto simp: running_task_def find_Some_iff)
    then show ?thesis using only i True by simp
  next
    case False
    then show ?thesis using only n(1) by (auto simp: running_task_def find_None_iff)
  qed
qed

lemma abs_queue_simps: "fifo (abs_queue T) = (\<lambda>key. unsettled key T)" "active (abs_queue T) = (\<lambda>key. running_task key T)"
  by (simp_all add: abs_queue_def)

lemma other_key:
  assumes "n < length (tasks T)" and "key \<noteq> taskKey (tasks T ! n)"
  shows "unsettled key (setStatus n st T) = unsettled key T" and "running_task key (setStatus n st T) = running_task key T"
  using assms by (auto simp: unsettled_def running_task_def intro: filter_cong intro!: find_cong)

lemma start_refines:
  assumes ok: "tasks_ok T" and run: "startTask n T = Some T'"
  shows "fifo_step (abs_queue T) (abs_queue T')"
proof -
  let ?key = "taskKey (tasks T ! n)"
  have n: "n < length (tasks T)" "status (tasks T ! n) = Waiting" "T' = setStatus n Running T"
    "case chainedBehind (tasks T ! n) of None \<Rightarrow> True | Some p \<Rightarrow> status (tasks T ! p) = Settled"
    using run by (auto simp: startTask_def split: if_splits)
  have e: "earlier_settled n T" using may_start [OF ok n(1,4)] .
  have e': "earlier_settled n T'" using e n by (auto simp: earlier_settled_def)
  have ok': "tasks_ok T'" using setStatus_ok [OF ok n(1) e] n by simp
  obtain rest where rest: "unsettled ?key T = n # rest" using unsettled_head [OF ok n(1) _ e] n(2) by auto
  have "unsettled key T' = unsettled key T" for key using n by (auto simp: unsettled_def intro: filter_cong)
  moreover have "running_task key T' = (if key = ?key then Some n else running_task key T)" for key
    using running_head [OF ok', of n] e' n other_key(2) [OF n(1)] by auto
  ultimately have "abs_queue T' = (abs_queue T)\<lparr>active := (active (abs_queue T))(?key := Some n)\<rparr>"
    by (auto simp: abs_queue_def fun_eq_iff)
  moreover have "active (abs_queue T) ?key = None" using running_head [OF ok n(1) _ e] n(2) by (simp add: abs_queue_simps)
  ultimately show ?thesis using fifo_start [of "abs_queue T" ?key n rest] rest by (simp add: abs_queue_simps)
qed

lemma settle_refines:
  assumes ok: "tasks_ok T" and run: "settleTask n T = Some T'"
  shows "fifo_step (abs_queue T) (abs_queue T')"
proof -
  let ?key = "taskKey (tasks T ! n)"
  have n: "n < length (tasks T)" "status (tasks T ! n) = Running" "T' = setStatus n Settled T"
    using run by (auto simp: settleTask_def split: if_splits)
  have e: "earlier_settled n T" using tasks_okD(1) [OF ok n(1)] n(2) by simp
  have ok': "tasks_ok T'" using setStatus_ok [OF ok n(1) e] n by simp
  obtain rest where rest: "unsettled ?key T = n # rest" using unsettled_head [OF ok n(1) _ e] n(2) by auto
  have "unsettled ?key T' = filter (\<lambda>i. i \<noteq> n) (unsettled ?key T)"
    using n by (auto simp: unsettled_def intro: filter_cong)
  also have "\<dots> = rest"
  proof -
    have "distinct (unsettled ?key T)" by (simp add: unsettled_def)
    then show ?thesis by (auto simp: rest intro!: filter_True)
  qed
  finally have u: "unsettled key T' = (if key = ?key then rest else unsettled key T)" for key using other_key(1) [OF n(1)] n(3) by auto
  have "running_task ?key T' = None"
  proof (rule ccontr)
    assume "running_task ?key T' \<noteq> None"
    then obtain i where i: "i < length (tasks T')" "taskKey (tasks T' ! i) = ?key" "status (tasks T' ! i) = Running"
      by (auto simp: running_task_def find_Some_iff)
    then have "i \<noteq> n" "status (tasks T ! i) = Running" "taskKey (tasks T ! i) = ?key" "i < length (tasks T)"
      using n by (auto split: if_splits)
    moreover from this have "earlier_settled i T" using tasks_okD(1) [OF ok] by simp
    ultimately show False using n(2) e by (auto simp: earlier_settled_def) (metis linorder_neqE_nat n(1) task_status.distinct(5))
  qed
  then have r: "running_task key T' = (if key = ?key then None else running_task key T)" for key using other_key(2) [OF n(1)] n(3) by auto
  have "abs_queue T' = (abs_queue T)\<lparr>fifo := (fifo (abs_queue T))(?key := rest), active := (active (abs_queue T))(?key := None)\<rparr>"
    using u r by (auto simp: abs_queue_def fun_eq_iff)
  moreover have "active (abs_queue T) ?key = Some n" using running_head [OF ok n(1) _ e] n(2) by (simp add: abs_queue_simps)
  ultimately show ?thesis using fifo_settle [of "abs_queue T" ?key n rest] rest by (simp add: abs_queue_simps)
qed

lemma find_snoc: "List.find P (xs @ [x]) = (case List.find P xs of None \<Rightarrow> if P x then Some x else None | Some y \<Rightarrow> Some y)"
  by (induction xs) auto

lemma enqueue_refines: "fifo_step (abs_queue T) (abs_queue (snd (enqueue canonicalUri uri T)))"
proof -
  let ?T = "snd (enqueue canonicalUri uri T)" and ?key = "canonicalUri uri" and ?n = "length (tasks T)"
  have tasks: "tasks ?T = tasks T @ [\<lparr>taskKey = ?key, chainedBehind = js_get (queues T) ?key, status = Waiting\<rparr>]"
    by (simp add: enqueue_def Let_def)
  have "unsettled key ?T = (if key = ?key then unsettled key T @ [?n] else unsettled key T)" for key
    by (auto simp: unsettled_def tasks nth_append intro!: filter_cong)
  moreover have "running_task key ?T = running_task key T" for key
  proof -
    have "List.find (\<lambda>i. taskKey (tasks ?T ! i) = key \<and> status (tasks ?T ! i) = Running) [0..<?n] = running_task key T"
      unfolding running_task_def by (rule find_cong) (auto simp: tasks nth_append)
    then show ?thesis unfolding running_task_def [of key ?T] by (simp add: tasks find_snoc split: option.splits)
  qed
  ultimately have "abs_queue ?T = (abs_queue T)\<lparr>fifo := (fifo (abs_queue T))(?key := fifo (abs_queue T) ?key @ [?n])\<rparr>"
    by (auto simp: abs_queue_def fun_eq_iff)
  then show ?thesis using fifo_enqueue [of "abs_queue T" ?key ?n] by simp
qed

lemma cleanup_refines:
  assumes "cleanupTask n T = Some T'"
  shows "fifo_step (abs_queue T) (abs_queue T')"
proof -
  have "tasks T' = tasks T" using assms by (auto simp: cleanupTask_def split: if_splits)
  then have "abs_queue T' = abs_queue T" by (simp add: abs_queue_def unsettled_def running_task_def)
  then show ?thesis using fifo_idle [of "abs_queue T"] by simp
qed

text \<open>
  C20: The task queue implements one first-in first-out queue per file. From every state the queue reaches,
  whatever order tasks were enqueued, started, settled and cleaned up in, each further operation is a step of
  the specification: an enqueued task goes to the end of its file's queue; a task starts only when it is
  at the head of that queue and no task of the file runs; the running task leaves when it settles, either
  way; and dropping the entry of an idle file changes no queue.
\<close>

theorem task_queue_refines_fifo:
  assumes "task_step canonicalUri op (queue.run canonicalUri ops new_task_queue) = Some T'"
  shows "fifo_step (abs_queue (queue.run canonicalUri ops new_task_queue)) (abs_queue T')"
  using assms start_refines [OF queue_run_ok] settle_refines [OF queue_run_ok] cleanup_refines enqueue_refines
  by (cases op) auto

definition two_saves :: "task_op list" where
  "two_saves = [Enqueue ''a'', Enqueue ''a'', StartTask 0, SettleTask 0]"

lemma two_saves_run:
  "task_step id (StartTask 1) (queue.run id two_saves new_task_queue) =
     Some \<lparr>queues = [(''a'', 1)], tasks = [\<lparr>taskKey = ''a'', chainedBehind = None, status = Settled\<rparr>,
       \<lparr>taskKey = ''a'', chainedBehind = Some 0, status = Running\<rparr>]\<rparr>"
  by (simp add: two_saves_def new_task_queue_def enqueue_def startTask_def settleTask_def setStatus_def Let_def)

theorem task_queue_refines_fifo_witness:
  "fifo_step (abs_queue (queue.run id two_saves new_task_queue))
     (abs_queue \<lparr>queues = [(''a'', 1)], tasks = [\<lparr>taskKey = ''a'', chainedBehind = None, status = Settled\<rparr>,
       \<lparr>taskKey = ''a'', chainedBehind = Some 0, status = Running\<rparr>]\<rparr>)"
  by (rule task_queue_refines_fifo [OF two_saves_run])

text \<open>
  The queue never blocks. In every state it reaches, a file with a task that has not settled has either
  its oldest such task running, or that task may start at once (the chain behind a task that failed
  or whose entry was dropped is not left waiting); and a file the queue reports idle has every task settled.
\<close>

theorem task_queue_progress:
  "(unsettled key (queue.run canonicalUri ops new_task_queue) = n # rest \<longrightarrow>
      running_task key (queue.run canonicalUri ops new_task_queue) = Some n \<or>
      startTask n (queue.run canonicalUri ops new_task_queue) \<noteq> None) \<and>
   (isIdle canonicalUri uri (queue.run canonicalUri ops new_task_queue) \<longrightarrow>
      unsettled (canonicalUri uri) (queue.run canonicalUri ops new_task_queue) = [])"
proof -
  let ?T = "queue.run canonicalUri ops new_task_queue"
  note ok = queue_run_ok [of canonicalUri ops]
  have "running_task key ?T = Some n \<or> startTask n ?T \<noteq> None" if u: "unsettled key ?T = n # rest"
  proof -
    have mem: "n < length (tasks ?T)" "taskKey (tasks ?T ! n) = key" "status (tasks ?T ! n) \<noteq> Settled"
      using arg_cong [OF u, of set] by (auto simp: unsettled_def)
    have first: "earlier_settled n ?T" using unsettled_first [OF u] .
    have "chain_ok n ?T" using tasks_okD(2) [OF ok mem(1)] .
    then show ?thesis using running_head [OF ok mem(1,3) first] mem first
      by (cases "status (tasks ?T ! n)") (auto simp: startTask_def chain_ok_def earlier_settled_def split: option.splits)
  qed
  moreover have "unsettled (canonicalUri uri) ?T = []" if "isIdle canonicalUri uri ?T"
    using that tasks_okD(3) [OF ok, of "canonicalUri uri"] by (simp add: isIdle_def entry_ok_def js_has_get split: option.splits)
  ultimately show ?thesis by blast
qed

lemma two_saves_state:
  "queue.run id two_saves new_task_queue =
     \<lparr>queues = [(''a'', 1)], tasks = [\<lparr>taskKey = ''a'', chainedBehind = None, status = Settled\<rparr>,
       \<lparr>taskKey = ''a'', chainedBehind = Some 0, status = Waiting\<rparr>]\<rparr>"
  by (simp add: two_saves_def new_task_queue_def enqueue_def startTask_def settleTask_def setStatus_def Let_def)

theorem task_queue_progress_witness:
  "unsettled ''a'' (queue.run id two_saves new_task_queue) = [1] \<and>
   running_task ''a'' (queue.run id two_saves new_task_queue) = None \<and>
   startTask 1 (queue.run id two_saves new_task_queue) \<noteq> None \<and>
   isIdle id ''b'' (queue.run id two_saves new_task_queue) \<and> unsettled ''b'' (queue.run id two_saves new_task_queue) = []"
proof -
  let ?T = "queue.run id two_saves new_task_queue"
  have "unsettled ''a'' ?T = [1]" "running_task ''a'' ?T = None" "isIdle id ''b'' ?T"
    unfolding two_saves_state by (simp_all add: unsettled_def running_task_def isIdle_def js_has_def upt_rec)
  then show ?thesis using task_queue_progress [of "''a''" id two_saves 1 "[]" "''b''"] by simp
qed

end
