(* ===== verification/Debouncer.thy ===== *)
theory Debouncer
  imports Prelude
begin

section \<open>The debouncer\<close>

text \<open>
  \<open>Debouncer\<close> of \<open>protocol/src/debouncer.ts\<close> over a \<open>Clock\<close>. Time is the clock's monotonic reading in
  milliseconds. An armed timer is the moment it is due, the stopwatch of the window the moment it was
  started. The clock is not part of the class: \<open>Tick\<close> lets time pass up to the moment an armed timer is due
  (a timer runs its callback once its milliseconds have elapsed), \<open>TimerDue\<close> runs the callback at
  that moment. What the debounced function itself calls comes after \<open>fire\<close> cleared the window, so it is
  the steps that follow.
\<close>

record debouncer =
  clockNow :: int
  delay :: int
  maxWaitMs :: "int option"
  timer :: "int option"
  sinceFirstSchedule :: "int option"
  fnRuns :: "int list"

definition new_debouncer :: "int \<Rightarrow> int \<Rightarrow> int option \<Rightarrow> debouncer" where
  "new_debouncer t d w = \<lparr>clockNow = t, delay = d, maxWaitMs = w, timer = None, sinceFirstSchedule = None, fnRuns = []\<rparr>"

definition pending :: "debouncer \<Rightarrow> bool" where
  "pending D \<longleftrightarrow> timer D \<noteq> None"

definition schedule :: "debouncer \<Rightarrow> debouncer" where
  "schedule D =
     (let since = (case sinceFirstSchedule D of None \<Rightarrow> clockNow D | Some s \<Rightarrow> s);
          wait = max 0 (delay D);
          wait' = (case maxWaitMs D of
                     None \<Rightarrow> wait
                   | Some w \<Rightarrow> (let untilCeiling = w - (clockNow D - since) in min wait (max 0 untilCeiling)))
      in D\<lparr>sinceFirstSchedule := Some since, timer := Some (clockNow D + wait')\<rparr>)"

definition fire :: "debouncer \<Rightarrow> debouncer" where
  "fire D = D\<lparr>timer := None, sinceFirstSchedule := None, fnRuns := fnRuns D @ [clockNow D]\<rparr>"

definition flush :: "debouncer \<Rightarrow> debouncer" where
  "flush D = (if timer D \<noteq> None then fire D else D)"

definition cancel :: "debouncer \<Rightarrow> debouncer" where
  "cancel D = D\<lparr>timer := None, sinceFirstSchedule := None\<rparr>"

definition debouncer_dispose :: "debouncer \<Rightarrow> debouncer" where
  "debouncer_dispose D = cancel D"

datatype debounce_op = Schedule | Flush | Cancel | Dispose | SetDelay int | Tick nat | TimerDue

fun debounce_step :: "debounce_op \<Rightarrow> debouncer \<Rightarrow> debouncer option" where
  "debounce_step Schedule D = Some (schedule D)"
| "debounce_step Flush D = Some (flush D)"
| "debounce_step Cancel D = Some (cancel D)"
| "debounce_step Dispose D = Some (debouncer_dispose D)"
| "debounce_step (SetDelay d) D = Some (D\<lparr>delay := d\<rparr>)"
| "debounce_step (Tick ms) D =
     (if \<forall>due \<in> set_option (timer D). clockNow D + int ms \<le> due
      then Some (D\<lparr>clockNow := clockNow D + int ms\<rparr>) else None)"
| "debounce_step TimerDue D = (if timer D = Some (clockNow D) then Some (fire D) else None)"

subsection \<open>The window\<close>

text \<open>
  A window is open exactly while a timer is armed; the timer is not overdue, and with a ceiling it is
  due no later than the ceiling after the window opened.
\<close>

definition window_ok :: "debouncer \<Rightarrow> bool" where
  "window_ok D \<longleftrightarrow>
     (case (timer D, sinceFirstSchedule D) of
        (None, None) \<Rightarrow> True
      | (Some due, Some s) \<Rightarrow>
          s \<le> clockNow D \<and> clockNow D \<le> due \<and> (\<forall>w \<in> set_option (maxWaitMs D). due \<le> s + max 0 w)
      | _ \<Rightarrow> False)"

lemma schedule_ok: "window_ok D \<Longrightarrow> window_ok (schedule D)"
  by (auto simp: window_ok_def schedule_def Let_def split: option.splits)

lemma closed_ok: "window_ok (cancel D)" "window_ok (fire D)"
  by (simp_all add: window_ok_def cancel_def fire_def)

lemma debounce_step_ok:
  assumes ok: "window_ok D" and step: "debounce_step op D = Some D'"
  shows "window_ok D'"
proof (cases op)
  case (SetDelay d)
  then show ?thesis using assms by (auto simp: window_ok_def split: option.splits)
next
  case (Tick ms)
  then show ?thesis using assms by (auto simp: window_ok_def split: option.splits if_splits)
qed (use assms schedule_ok closed_ok in \<open>auto simp: flush_def debouncer_dispose_def split: if_splits\<close>)

text \<open>How the armed moment moves: never before the present, by a call's own delay at most.\<close>

lemma schedule_due:
  assumes "window_ok D"
  shows "\<exists>due. timer (schedule D) = Some due \<and> clockNow D \<le> due \<and> due \<le> clockNow D + max 0 (delay D) \<and>
    (maxWaitMs D = None \<longrightarrow> due = clockNow D + max 0 (delay D))"
  using assms by (auto simp: schedule_def Let_def window_ok_def split: option.splits)

definition debounce_progress :: "debouncer \<Rightarrow> debouncer \<Rightarrow> bool" where
  "debounce_progress D D' \<longleftrightarrow>
     clockNow D \<le> clockNow D' \<and> maxWaitMs D' = maxWaitMs D \<and> (\<exists>later. fnRuns D' = fnRuns D @ later)"

lemma debounce_step_progress: "debounce_step op D = Some D' \<Longrightarrow> debounce_progress D D'"
  by (cases op)
    (auto simp: debounce_progress_def schedule_def Let_def flush_def fire_def cancel_def debouncer_dispose_def split: if_splits)

interpretation debounce: progress_component debounce_step window_ok debounce_progress
proof unfold_locales
  show "debounce_progress s s" for s by (simp add: debounce_progress_def)
  show "debounce_progress s t \<Longrightarrow> debounce_progress t u \<Longrightarrow> debounce_progress s u" for s t u
    by (auto simp: debounce_progress_def)
qed (use debounce_step_ok debounce_step_progress in blast)+

lemma new_window_ok: "window_ok (new_debouncer t d w)"
  by (simp add: window_ok_def new_debouncer_def)

lemma debounce_run_ok: "window_ok (debounce.run ops (new_debouncer t d w))"
  by (rule debounce.run_inv [OF new_window_ok])

text \<open>
  C23: The starvation ceiling holds. Whatever mixture of calls, flushes, cancellations, delay changes and
  passing time a debouncer with a ceiling sees, a pending run is due no later than the ceiling after the first
  call of its window (at once for a ceiling of zero or below), so calls that keep arriving faster than
  the delay cannot defer the run past that moment: the clock reaches it with the window either closed or
  due just then. And a window is pending exactly when it has a first call.
\<close>

theorem debounce_ceiling:
  assumes "debounce.run ops (new_debouncer t d (Some w)) = D"
  shows "(pending D \<longleftrightarrow> sinceFirstSchedule D \<noteq> None) \<and>
    (\<forall>due s. timer D = Some due \<and> sinceFirstSchedule D = Some s \<longrightarrow>
       s \<le> clockNow D \<and> clockNow D \<le> due \<and> due \<le> s + max 0 w)"
proof -
  have "maxWaitMs D = Some w"
    using debounce.run_progress [OF new_window_ok, of t d "Some w" ops] assms
    by (simp add: debounce_progress_def new_debouncer_def)
  then show ?thesis using debounce_run_ok [of ops t d "Some w"] assms
    by (auto simp: window_ok_def pending_def split: option.splits)
qed

definition burst :: "debounce_op list" where
  "burst = [Schedule, Tick 40, Schedule, Tick 40, Schedule, Tick 20]"

theorem debounce_ceiling_witness:
  "clockNow (debounce.run burst (new_debouncer 0 50 (Some 100))) = 100 \<and>
   timer (debounce.run burst (new_debouncer 0 50 (Some 100))) = Some 100 \<and>
   (pending (debounce.run burst (new_debouncer 0 50 (Some 100))) \<longleftrightarrow>
      sinceFirstSchedule (debounce.run burst (new_debouncer 0 50 (Some 100))) \<noteq> None)"
  using debounce_ceiling [OF refl, of burst 0 50 100]
  by (simp add: burst_def new_debouncer_def schedule_def Let_def)

subsection \<open>One run per window\<close>

text \<open>
  The windows a run of operations opens, the runs of the function it makes and the pending runs it drops.
\<close>

fun opens :: "debounce_op \<Rightarrow> debouncer \<Rightarrow> nat" where
  "opens Schedule D = (if pending D then 0 else 1)"
| "opens _ D = 0"

fun drops :: "debounce_op \<Rightarrow> debouncer \<Rightarrow> nat" where
  "drops Cancel D = (if pending D then 1 else 0)"
| "drops Dispose D = (if pending D then 1 else 0)"
| "drops _ D = 0"

fun tally :: "(debounce_op \<Rightarrow> debouncer \<Rightarrow> nat) \<Rightarrow> debounce_op list \<Rightarrow> debouncer \<Rightarrow> nat" where
  "tally f [] D = 0"
| "tally f (op # ops) D = f op D + tally f ops (case debounce_step op D of None \<Rightarrow> D | Some D' \<Rightarrow> D')"

lemma step_balance:
  assumes "debounce_step op D = Some D'"
  shows "length (fnRuns D') + drops op D + (if pending D' then 1 else 0) =
    length (fnRuns D) + opens op D + (if pending D then 1 else 0)"
  using assms by (cases op)
    (auto simp: pending_def schedule_def Let_def flush_def fire_def cancel_def debouncer_dispose_def split: if_splits)

lemma run_balance:
  "length (fnRuns (debounce.run ops D)) + tally drops ops D + (if pending (debounce.run ops D) then 1 else 0) =
   length (fnRuns D) + tally opens ops D + (if pending D then 1 else 0)"
proof (induction ops arbitrary: D)
  case (Cons op ops)
  show ?case
  proof (cases "debounce_step op D")
    case None
    then have "op = TimerDue \<or> (\<exists>ms. op = Tick ms)" by (cases op) auto
    then show ?thesis using Cons [of D] None by auto
  next
    case (Some D')
    then show ?thesis using Cons [of D'] step_balance [OF Some] by simp
  qed
qed simp

text \<open>
  Calls collapse into one run per window, and no window is lost. Over any sequence of operations, the
  windows opened (the calls that found no run pending) are exactly the runs of the debounced
  function, the pending runs dropped by a cancel or the disposal, and the window still pending at the end:
  a repeated call inside a window adds no run, and a run is never made without a call.
\<close>

theorem one_run_per_window:
  "tally opens ops (new_debouncer t d w) =
     length (fnRuns (debounce.run ops (new_debouncer t d w))) + tally drops ops (new_debouncer t d w) +
     (if pending (debounce.run ops (new_debouncer t d w)) then 1 else 0)"
  using run_balance [of ops "new_debouncer t d w"] by (simp add: new_debouncer_def pending_def)

end
