(* ===== verification/ReleaseHandler.thy ===== *)
theory ReleaseHandler
  imports RecoveryBuilds
begin

section \<open>The release of a document\<close>

text \<open>
  \<open>DefaultDocumentReleaseHandler\<close> of \<open>core/src/documents/document-release-handler.ts\<close>. What the other
  parts answer while a release runs is the argument \<open>release_world\<close>: the file system provider
  (\<open>existsFile\<close>, and \<open>existsSettled\<close> where the provider has it, numbered by the call: 0 when deciding, then
  the count of misses), the store (\<open>wasOnDisk\<close>, and \<open>reclaimedAt\<close>: 0 before the write is queued, 1 in
  the write, then after each redecision), the document builder (\<open>buildResult\<close>: whether attempt \<open>n\<close> parsed the
  document and how it threw), the lock (\<open>lockRuns\<close>, and \<open>lockResolves\<close>: the errors of an action, those of
  a cancellation, it resolves on) and the two error predicates.
\<close>

datatype release_decision = Rebuild | Remove

datatype 'e release_outcome =
    Reclaimed
  | Discarded release_decision
  | Cancelled release_decision bool
  | Completed release_decision bool
  | Failed "release_decision option" bool 'e
  | Skipped bool 'e

datatype release_progress = InQueue | TakenBack | Building | Built

record 'e release_world =
  wasOnDisk :: bool
  existsFile :: "nat \<Rightarrow> 'e + bool"
  existsSettled :: "(nat \<Rightarrow> 'e + bool) option"
  readyFails :: "'e option"
  reclaimedAt :: "nat \<Rightarrow> bool"
  lockRuns :: bool
  lockResolves :: "'e \<Rightarrow> bool"
  buildResult :: "nat \<Rightarrow> bool \<times> 'e option"
  isFileNotFound :: "'e \<Rightarrow> bool"
  isConnectionGone :: "'e \<Rightarrow> bool"

record release_run =
  runProgress :: release_progress
  runDecision :: release_decision
  runParsed :: bool
  runUpdates :: "release_decision list"

definition decideRelease :: "'e release_world \<Rightarrow> 'e + release_decision" where
  "decideRelease W =
     (case existsFile W 0 of
        Inl err \<Rightarrow> Inl err
      | Inr served \<Rightarrow>
          if served \<or> \<not> wasOnDisk W then Inr (if served then Rebuild else Remove)
          else (case existsSettled W of
                  None \<Rightarrow> Inr Remove
                | Some ask \<Rightarrow> map_sum id (\<lambda>b. if b then Rebuild else Remove) (ask 0)))"

definition redecideRelease :: "'e release_world \<Rightarrow> nat \<Rightarrow> 'e + release_decision" where
  "redecideRelease W misses =
     (if 1 < misses then Inr Remove
      else map_sum id (\<lambda>b. if b then Rebuild else Remove)
             (case existsSettled W of Some ask \<Rightarrow> ask misses | None \<Rightarrow> existsFile W misses))"

text \<open>
  The loop inside the write. Its end is an error the action throws, or none.
\<close>

function applyLoop :: "'e release_world \<Rightarrow> nat \<Rightarrow> release_decision \<Rightarrow> release_run \<Rightarrow> 'e option \<times> release_run" where
  "applyLoop W misses applied R =
     (let R1 = R\<lparr>runUpdates := runUpdates R @ [applied], runParsed := runParsed R \<or> fst (buildResult W misses)\<rparr>
      in case snd (buildResult W misses) of
           None \<Rightarrow> (None, R1\<lparr>runProgress := Built\<rparr>)
         | Some err \<Rightarrow>
             if applied \<noteq> Rebuild \<or> \<not> isFileNotFound W err then (Some err, R1)
             else (case redecideRelease W misses of
                     Inl err' \<Rightarrow> (Some err', R1)
                   | Inr again \<Rightarrow>
                       if reclaimedAt W (Suc misses) then (None, R1\<lparr>runProgress := TakenBack\<rparr>)
                       else applyLoop W (Suc misses) again (R1\<lparr>runDecision := again\<rparr>)))"
  by pat_completeness auto

termination
  by (relation "measure (\<lambda>(W, misses, applied, R). if applied = Remove then 0 else Suc (2 - misses))")
    (auto simp: redecideRelease_def split: if_splits)

declare applyLoop.simps [simp del]

definition release_write :: "'e release_world \<Rightarrow> release_decision \<Rightarrow> 'e option \<times> release_run" where
  "release_write W decided =
     (let R = \<lparr>runProgress = InQueue, runDecision = decided, runParsed = False, runUpdates = []\<rparr>
      in if \<not> lockRuns W then (None, R)
         else if reclaimedAt W 1 then (None, R\<lparr>runProgress := TakenBack\<rparr>)
         else (case applyLoop W 1 decided (R\<lparr>runProgress := Building\<rparr>) of
                 (None, R') \<Rightarrow> (None, R')
               | (Some err, R') \<Rightarrow> (if lockResolves W err then None else Some err, R')))"

definition thrown_outcome :: "'e release_world \<Rightarrow> release_decision option \<Rightarrow> bool \<Rightarrow> 'e \<Rightarrow> 'e release_outcome" where
  "thrown_outcome W decision parsed err =
     (if isConnectionGone W err \<or> isFileNotFound W err then Skipped parsed err else Failed decision parsed err)"

definition run_outcome :: "'e release_world \<Rightarrow> 'e option \<times> release_run \<Rightarrow> 'e release_outcome" where
  "run_outcome W r =
     (case r of
        (Some err, R) \<Rightarrow> thrown_outcome W (Some (runDecision R)) (runParsed R) err
      | (None, R) \<Rightarrow>
          (case runProgress R of
             TakenBack \<Rightarrow> Reclaimed
           | InQueue \<Rightarrow> Discarded (runDecision R)
           | Building \<Rightarrow> Cancelled (runDecision R) (runParsed R)
           | Built \<Rightarrow> Completed (runDecision R) (runParsed R)))"

text \<open>The outcome, with the updates the release asked of the builder.\<close>

definition runRelease :: "'e release_world \<Rightarrow> 'e release_outcome \<times> release_decision list" where
  "runRelease W =
     (case decideRelease W of
        Inl err \<Rightarrow> (thrown_outcome W None False err, [])
      | Inr decided \<Rightarrow>
          (case readyFails W of
             Some err \<Rightarrow> (thrown_outcome W (Some decided) False err, [])
           | None \<Rightarrow>
               if reclaimedAt W 0 then (Reclaimed, [])
               else let r = release_write W decided in (run_outcome W r, runUpdates (snd r))))"

subsection \<open>What follows the run\<close>

fun outcome_parsed :: "'e release_outcome \<Rightarrow> bool" where
  "outcome_parsed Reclaimed = False"
| "outcome_parsed (Discarded d) = False"
| "outcome_parsed (Cancelled d parsed) = parsed"
| "outcome_parsed (Completed d parsed) = parsed"
| "outcome_parsed (Failed d parsed err) = parsed"
| "outcome_parsed (Skipped parsed err) = parsed"

fun outcome_decision :: "'e release_outcome \<Rightarrow> release_decision option" where
  "outcome_decision (Discarded d) = Some d"
| "outcome_decision (Cancelled d parsed) = Some d"
| "outcome_decision (Completed d parsed) = Some d"
| "outcome_decision (Failed d parsed err) = d"
| "outcome_decision _ = None"

fun formatDecision :: "release_decision \<Rightarrow> string" where
  "formatDecision Rebuild = '' rebuild''"
| "formatDecision Remove = '' remove''"

definition formatParsed :: "bool \<Rightarrow> string" where
  "formatParsed parsed = (if parsed then '', parsed'' else '', not parsed'')"

fun formatReleaseOutcome :: "'e release_outcome \<Rightarrow> string" where
  "formatReleaseOutcome Reclaimed = ''reclaimed by a client, built nothing''"
| "formatReleaseOutcome (Discarded d) = ''discarded'' @ formatDecision d"
| "formatReleaseOutcome (Cancelled d p) = ''cancelled'' @ formatDecision d @ formatParsed p"
| "formatReleaseOutcome (Completed d p) = ''completed'' @ formatDecision d @ formatParsed p"
| "formatReleaseOutcome (Failed d p err) = ''failed'' @ (case d of None \<Rightarrow> [] | Some d' \<Rightarrow> formatDecision d') @ formatParsed p"
| "formatReleaseOutcome (Skipped p err) = ''skipped'' @ formatParsed p"

definition stoppedShort :: "'e release_outcome \<Rightarrow> bool \<Rightarrow> bool" where
  "stoppedShort outcome kept \<longleftrightarrow>
     (case outcome of
        Discarded d \<Rightarrow> \<not> outcome_parsed outcome \<and> kept
      | Cancelled d p \<Rightarrow> \<not> outcome_parsed outcome \<and> kept
      | Completed d p \<Rightarrow> \<not> outcome_parsed outcome \<and> kept
      | Failed d p err \<Rightarrow> True
      | _ \<Rightarrow> False)"

definition requestRecoveryBuild :: "uri \<Rightarrow> bool \<Rightarrow> 'e build_queue \<Rightarrow> nat \<times> 'e build_queue" where
  "requestRecoveryBuild u gone Q =
     queueRecoveryBuild u \<lparr>deleted = Some gone, reason = Some ''didRelease'', ignoreDeferred = Some True\<rparr> Q"

text \<open>
  How the promise of a release settled, and the recovery build it requested. The release waits while it has
  not settled.
\<close>

datatype 'e release_end = ReleaseResolved | ReleaseRejected 'e | ReleaseSkipped 'e

record 'e release_wait =
  releaseEnd :: "'e release_end option"
  recovery :: "nat option"

definition waitForReleaseBuild ::
  "uri \<Rightarrow> bool \<Rightarrow> bool \<Rightarrow> bool \<Rightarrow> bool option \<Rightarrow> 'e build_queue \<Rightarrow> 'e release_wait \<times> 'e build_queue" where
  "waitForReleaseBuild u parsed kept reclaimed startRecovery Q =
     (let (n, Q') = (case startRecovery of
                       None \<Rightarrow> (None, Q)
                     | Some gone \<Rightarrow> map_prod Some id (requestRecoveryBuild u gone Q))
      in (\<lparr>releaseEnd = (if parsed \<or> \<not> kept \<or> reclaimed then Some ReleaseResolved else None), recovery = n\<rparr>, Q'))"

definition didReleaseDocument ::
  "'e release_world \<Rightarrow> uri \<Rightarrow> bool \<Rightarrow> bool \<Rightarrow> 'e build_queue \<Rightarrow> 'e release_wait \<times> 'e build_queue" where
  "didReleaseDocument W u kept reclaimed Q =
     (let outcome = fst (runRelease W)
      in case outcome of
           Skipped parsed err \<Rightarrow>
             (\<lparr>releaseEnd = Some (if \<not> parsed then ReleaseSkipped err else ReleaseResolved), recovery = None\<rparr>, Q)
         | _ \<Rightarrow>
             waitForReleaseBuild u (outcome_parsed outcome) kept reclaimed
               (if stoppedShort outcome kept \<and> \<not> reclaimed then Some (outcome_decision outcome = Some Remove) else None) Q)"

text \<open>
  The listeners of a waiting release: a parse of a document, an update with removals (each with whether it
  is this document's), and the end of the recovery build, with whether the document was reclaimed then. The
  first that ends the release disposes the listeners.
\<close>

datatype 'e release_event = ModelRecorded bool | DocumentsRemoved bool | RecoveryEnded "'e settlement" bool

definition releaseEvent :: "'e release_event \<Rightarrow> 'e release_wait \<Rightarrow> 'e release_wait" where
  "releaseEvent ev w =
     (if releaseEnd w \<noteq> None then w
      else case ev of
        ModelRecorded isFor \<Rightarrow> if isFor then w\<lparr>releaseEnd := Some ReleaseResolved\<rparr> else w
      | DocumentsRemoved isFor \<Rightarrow> if isFor then w\<lparr>releaseEnd := Some ReleaseResolved\<rparr> else w
      | RecoveryEnded Resolved reclaimed \<Rightarrow> if reclaimed then w\<lparr>releaseEnd := Some ReleaseResolved\<rparr> else w
      | RecoveryEnded (Rejected err n) reclaimed \<Rightarrow> w\<lparr>releaseEnd := Some (ReleaseRejected err)\<rparr>)"

subsection \<open>The updates of a release\<close>

lemma applyLoop_cases:
  obtains (ends) "runUpdates (snd (applyLoop W m d R)) = runUpdates R @ [d]"
      "runParsed (snd (applyLoop W m d R)) \<longleftrightarrow> runParsed R \<or> fst (buildResult W m)"
      "runProgress (snd (applyLoop W m d R)) \<in> {runProgress R, Built, TakenBack}"
  | (misses) err again R1 where "snd (buildResult W m) = Some err" "d = Rebuild" "isFileNotFound W err"
      "redecideRelease W m = Inr again" "\<not> reclaimedAt W (Suc m)" "applyLoop W m d R = applyLoop W (Suc m) again R1"
      "R1 = R\<lparr>runUpdates := runUpdates R @ [d], runParsed := runParsed R \<or> fst (buildResult W m), runDecision := again\<rparr>"
proof (cases "\<exists>err again. snd (buildResult W m) = Some err \<and> d = Rebuild \<and> isFileNotFound W err \<and>
    redecideRelease W m = Inr again \<and> \<not> reclaimedAt W (Suc m)")
  case False
  then have "runUpdates (snd (applyLoop W m d R)) = runUpdates R @ [d] \<and>
      runParsed (snd (applyLoop W m d R)) = (runParsed R \<or> fst (buildResult W m)) \<and>
      runProgress (snd (applyLoop W m d R)) \<in> {runProgress R, Built, TakenBack}"
    unfolding applyLoop.simps [of W m d R] by (auto simp: Let_def split: option.split sum.split)
  then show ?thesis using ends by blast
next
  case True
  then obtain err again where t: "snd (buildResult W m) = Some err" "d = Rebuild" "isFileNotFound W err"
    "redecideRelease W m = Inr again" "\<not> reclaimedAt W (Suc m)" by blast
  then have "applyLoop W m d R = applyLoop W (Suc m) again (R\<lparr>runUpdates := runUpdates R @ [d],
      runParsed := runParsed R \<or> fst (buildResult W m), runDecision := again\<rparr>)"
    by (subst applyLoop.simps) (simp add: Let_def)
  then show ?thesis using misses [OF t _ refl] by blast
qed

lemma applyLoop_updates:
  "\<exists>us. runUpdates (snd (applyLoop W m d R)) = runUpdates R @ us \<and> us \<noteq> [] \<and>
     (\<forall>k < length us. 0 < k \<longrightarrow> \<not> reclaimedAt W (m + k)) \<and>
     (runParsed (snd (applyLoop W m d R)) \<longleftrightarrow> runParsed R \<or> (\<exists>k < length us. fst (buildResult W (m + k))))"
proof (induction W m d R rule: applyLoop.induct)
  case (1 W m d R)
  show ?case
  proof (cases rule: applyLoop_cases [of W m d R])
    case ends
    then show ?thesis by (intro exI [of _ "[d]"]) simp
  next
    case (misses err again R1)
    obtain us where us: "runUpdates (snd (applyLoop W (Suc m) again R1)) = runUpdates R @ d # us"
      "\<forall>k < length us. 0 < k \<longrightarrow> \<not> reclaimedAt W (Suc m + k)"
      "runParsed (snd (applyLoop W (Suc m) again R1)) \<longleftrightarrow>
         (runParsed R \<or> fst (buildResult W m)) \<or> (\<exists>k < length us. fst (buildResult W (Suc m + k)))"
      using "1.IH" [OF refl misses(1) _ misses(4,5)] misses(2,3) unfolding misses(7) by auto
    have "\<not> reclaimedAt W (m + k)" if "k < length (d # us)" "0 < k" for k
      using that us(2) misses(5) by (cases "k = 1") (auto simp: gr0_conv_Suc)
    moreover have "(\<exists>k < length (d # us). fst (buildResult W (m + k))) \<longleftrightarrow>
        fst (buildResult W m) \<or> (\<exists>k < length us. fst (buildResult W (Suc m + k)))"
      by (auto simp: Ex_less_Suc2)
    ultimately show ?thesis unfolding misses(6) using us(1,3) by (intro exI [of _ "d # us"]) auto
  qed
qed

lemma release_write_loop:
  "release_write W d \<in> {(None, R) |R. runUpdates R = [] \<and> \<not> runParsed R} \<or>
   \<not> reclaimedAt W 1 \<and> snd (release_write W d) =
     snd (applyLoop W 1 d \<lparr>runProgress = Building, runDecision = d, runParsed = False, runUpdates = []\<rparr>)"
  by (auto simp: release_write_def Let_def split: prod.splits option.splits)

lemma applyLoop_progress: "runProgress (snd (applyLoop W m d R)) \<in> {runProgress R, Built, TakenBack}"
proof (induction W m d R rule: applyLoop.induct)
  case (1 W m d R)
  show ?case
  proof (cases rule: applyLoop_cases [of W m d R])
    case (misses err again R1)
    then show ?thesis using "1.IH" [OF refl misses(1) _ misses(4,5)] by simp
  qed simp
qed

lemma release_write_updates:
  fixes W :: "'e release_world" and d :: release_decision
  defines "us \<equiv> runUpdates (snd (release_write W d))"
  shows "(us \<noteq> [] \<longrightarrow> (\<forall>k. 0 < k \<and> k \<le> length us \<longrightarrow> \<not> reclaimedAt W k)) \<and>
    (runParsed (snd (release_write W d)) \<longleftrightarrow> (\<exists>k. 0 < k \<and> k \<le> length us \<and> fst (buildResult W k)))"
proof (cases "runUpdates (snd (release_write W d)) = [] \<and> \<not> runParsed (snd (release_write W d))")
  case True
  then show ?thesis by (simp add: us_def)
next
  case False
  let ?R = "\<lparr>runProgress = Building, runDecision = d, runParsed = False, runUpdates = []\<rparr>"
  have same: "snd (release_write W d) = snd (applyLoop W 1 d ?R)" and first: "\<not> reclaimedAt W 1"
    using release_write_loop [of W d] False by auto
  obtain vs where vs: "runUpdates (snd (applyLoop W 1 d ?R)) = vs" "vs \<noteq> []"
    "\<forall>k < length vs. 0 < k \<longrightarrow> \<not> reclaimedAt W (1 + k)"
    "runParsed (snd (applyLoop W 1 d ?R)) \<longleftrightarrow> (\<exists>k < length vs. fst (buildResult W (1 + k)))"
    using applyLoop_updates [of W 1 d ?R] by auto
  have "\<not> reclaimedAt W k" if "0 < k" "k \<le> length vs" for k
    using that vs(3) first by (cases "k = 1") (auto simp: gr0_conv_Suc)
  moreover have "(\<exists>k < length vs. fst (buildResult W (1 + k))) \<longleftrightarrow> (\<exists>k. 0 < k \<and> k \<le> length vs \<and> fst (buildResult W k))"
    by (metis Suc_eq_plus1 Suc_le_eq add.commute gr0_implies_Suc zero_less_Suc)
  ultimately show ?thesis using vs by (simp add: us_def same)
qed

text \<open>
  A release yields to a client that takes its document back. The release checks before it queues its
  write, again as the write's holder, and after every redecision, and every update it asks of the builder
  comes after checks that all found the document still released: nothing is rebuilt over or removed under a
  client that opened the document meanwhile.
\<close>

theorem release_yields_to_client:
  assumes "reclaimedAt W k" and "runRelease W = (outcome, updates)"
  shows "updates = [] \<or> length updates < k"
proof (rule ccontr)
  assume not: "\<not> (updates = [] \<or> length updates < k)"
  then obtain d where d: "updates = runUpdates (snd (release_write W d))" "\<not> reclaimedAt W 0"
    using assms(2) by (auto simp: runRelease_def Let_def split: sum.splits option.splits if_splits)
  have "\<not> reclaimedAt W k"
    using release_write_updates [of W d] not d by (cases "k = 0") auto
  then show False using assms(1) by simp
qed

definition calm_world :: "string release_world" where
  "calm_world =
     \<lparr>wasOnDisk = True, existsFile = (\<lambda>_. Inr True), existsSettled = Some (\<lambda>_. Inr True), readyFails = None,
      reclaimedAt = (\<lambda>_. False), lockRuns = True, lockResolves = (\<lambda>err. err = ''cancelled''),
      buildResult = (\<lambda>_. (True, None)), isFileNotFound = (\<lambda>err. err = ''missing''), isConnectionGone = (\<lambda>err. err = ''gone'')\<rparr>"

text \<open>A file that goes while its first rebuild waits, and a client that takes the document back meanwhile.\<close>

definition taken_world :: "string release_world" where
  "taken_world = calm_world\<lparr>buildResult := (\<lambda>_. (False, Some ''missing'')), reclaimedAt := (\<lambda>k. 2 \<le> k)\<rparr>"

lemmas release_eval =
  runRelease_def decideRelease_def redecideRelease_def release_write_def run_outcome_def thrown_outcome_def Let_def
  applyLoop.simps [of _ 1] applyLoop.simps [of _ "Suc 0"] applyLoop.simps [of _ 2] applyLoop.simps [of _ "Suc (Suc 0)"]
  applyLoop.simps [of _ 3] applyLoop.simps [of _ "Suc (Suc (Suc 0))"]

theorem release_yields_to_client_witness:
  "reclaimedAt taken_world 2 \<and> runRelease taken_world = (Reclaimed, [Rebuild]) \<and> ([Rebuild] = [] \<or> length [Rebuild] < 2)"
proof -
  have "runRelease taken_world = (Reclaimed, [Rebuild])" and "reclaimedAt taken_world 2"
    by (simp_all add: taken_world_def calm_world_def release_eval)
  then show ?thesis using release_yields_to_client [of taken_world 2 Reclaimed "[Rebuild]"] by simp
qed

subsection \<open>What is removed\<close>

definition rebuild_missed :: "'e release_world \<Rightarrow> nat \<Rightarrow> bool" where
  "rebuild_missed W n \<longleftrightarrow> (\<exists>err. snd (buildResult W n) = Some err \<and> isFileNotFound W err)"

definition not_served :: "'e release_world \<Rightarrow> nat \<Rightarrow> bool" where
  "not_served W n \<longleftrightarrow> (case existsSettled W of Some ask \<Rightarrow> ask n = Inr False | None \<Rightarrow> existsFile W n = Inr False)"

lemma redecide_remove: "redecideRelease W n = Inr Remove \<Longrightarrow> 1 < n \<or> not_served W n"
  by (auto simp: redecideRelease_def not_served_def map_sum_def split: if_splits option.splits sum.splits)

lemma redecide_late: "1 < n \<Longrightarrow> redecideRelease W n = Inr Remove"
  by (simp add: redecideRelease_def)

text \<open>The loop from a later attempt: one removal ends it; a rebuild is followed by a removal at most.\<close>

lemma loop_removing: "runUpdates (snd (applyLoop W n Remove R)) = runUpdates R @ [Remove]"
  by (simp add: applyLoop.simps [of W n Remove R] Let_def split: option.split)

lemma loop_rebuilding:
  "runUpdates (snd (applyLoop W n Rebuild R)) = runUpdates R @ [Rebuild] \<or>
   (\<exists>again R'. rebuild_missed W n \<and> redecideRelease W n = Inr again \<and> runUpdates R' = runUpdates R @ [Rebuild] \<and>
      runUpdates (snd (applyLoop W n Rebuild R)) = runUpdates (snd (applyLoop W (Suc n) again R')))"
proof (cases rule: applyLoop_cases [of W n Rebuild R])
  case (misses err again R1)
  then have "rebuild_missed W n" "runUpdates R1 = runUpdates R @ [Rebuild]" by (simp_all add: rebuild_missed_def)
  then show ?thesis using misses(4,6) by metis
qed simp

lemma loop_second:
  "runUpdates (snd (applyLoop W 2 Rebuild R)) = runUpdates R @ [Rebuild] \<or>
   rebuild_missed W 2 \<and> runUpdates (snd (applyLoop W 2 Rebuild R)) = runUpdates R @ [Rebuild, Remove]"
  using loop_rebuilding [of W 2 R] redecide_late [of 2 W] loop_removing [of W "Suc 2"] by auto

lemma loop_first:
  assumes "runUpdates R = []"
  shows "runUpdates (snd (applyLoop W 1 Rebuild R)) \<in> {[Rebuild], [Rebuild, Rebuild]} \<or>
    rebuild_missed W 1 \<and> (not_served W 1 \<and> runUpdates (snd (applyLoop W 1 Rebuild R)) = [Rebuild, Remove] \<or>
      rebuild_missed W 2 \<and> runUpdates (snd (applyLoop W 1 Rebuild R)) = [Rebuild, Rebuild, Remove])"
proof -
  consider "runUpdates (snd (applyLoop W 1 Rebuild R)) = [Rebuild]"
    | again R' where "rebuild_missed W 1" "redecideRelease W 1 = Inr again" "runUpdates R' = [Rebuild]"
      "runUpdates (snd (applyLoop W 1 Rebuild R)) = runUpdates (snd (applyLoop W 2 again R'))"
    using loop_rebuilding [of W 1 R] assms by (auto simp: numeral_2_eq_2)
  then show ?thesis
  proof cases
    case (2 again R')
    then show ?thesis using loop_second [of W R'] loop_removing [of W 2 R'] redecide_remove [of W 1] by (cases again) auto
  qed simp
qed

text \<open>
  A release asks at most three updates of the builder, two rebuilds at most, and a removal only as the
  last one. It removes a document only where the provider did not serve its file: it said so when the release
  was decided (and again, settled, for a document known on disk), or the rebuild found no file and the
  provider confirmed that, or the rebuild found none twice.
\<close>

theorem release_removes_only_missing:
  "snd (runRelease W) \<in> {[], [Rebuild], [Rebuild, Rebuild]} \<or>
   snd (runRelease W) = [Remove] \<and> existsFile W 0 = Inr False \<and>
     (wasOnDisk W \<longrightarrow> (\<forall>ask. existsSettled W = Some ask \<longrightarrow> ask 0 = Inr False)) \<or>
   rebuild_missed W 1 \<and> (not_served W 1 \<and> snd (runRelease W) = [Rebuild, Remove] \<or>
     rebuild_missed W 2 \<and> snd (runRelease W) = [Rebuild, Rebuild, Remove])"
proof -
  let ?R = "\<lambda>d. \<lparr>runProgress = Building, runDecision = d, runParsed = False, runUpdates = []\<rparr>"
  consider "snd (runRelease W) = []" | d where "decideRelease W = Inr d" "snd (runRelease W) = runUpdates (snd (applyLoop W 1 d (?R d)))"
  proof (cases "snd (runRelease W) = []")
    case False
    then obtain d where "decideRelease W = Inr d" "snd (runRelease W) = runUpdates (snd (release_write W d))"
      by (auto simp: runRelease_def Let_def split: sum.splits option.splits if_splits)
    then show ?thesis using that(2) release_write_loop [of W d] False by fastforce
  qed (use that in blast)
  then show ?thesis
  proof cases
    case (2 d)
    show ?thesis
    proof (cases d)
      case Rebuild
      then show ?thesis using 2 loop_first [of "?R Rebuild" W] by auto
    next
      case Remove
      then have "existsFile W 0 = Inr False \<and> (wasOnDisk W \<longrightarrow> (\<forall>ask. existsSettled W = Some ask \<longrightarrow> ask 0 = Inr False))"
        using 2(1) by (auto simp: decideRelease_def map_sum_def split: sum.splits option.splits if_splits)
      then show ?thesis using 2(2) Remove loop_removing [of W 1 "?R Remove"] by simp
    qed
  qed simp
qed

text \<open>A file that goes before the first rebuild and stays away.\<close>

definition lost_world :: "string release_world" where
  "lost_world = calm_world\<lparr>buildResult := (\<lambda>n. if n < 3 then (False, Some ''missing'') else (False, None))\<rparr>"

theorem release_removes_only_missing_witness:
  "snd (runRelease lost_world) = [Rebuild, Rebuild, Remove] \<and> rebuild_missed lost_world 1 \<and> rebuild_missed lost_world 2"
proof -
  have "snd (runRelease lost_world) = [Rebuild, Rebuild, Remove]"
    by (simp add: lost_world_def calm_world_def release_eval)
  then show ?thesis using release_removes_only_missing [of lost_world] by simp
qed

subsection \<open>How a release settles\<close>

definition settled_by :: "'e release_event list \<Rightarrow> bool" where
  "settled_by evs \<longleftrightarrow> ModelRecorded True \<in> set evs \<or> DocumentsRemoved True \<in> set evs \<or> RecoveryEnded Resolved True \<in> set evs"

lemma outcome_parsed_built:
  "outcome_parsed (fst (runRelease W)) \<longleftrightarrow> (\<exists>k. 0 < k \<and> k \<le> length (snd (runRelease W)) \<and> fst (buildResult W k)) \<and>
     fst (runRelease W) \<noteq> Reclaimed"
proof (cases "\<exists>d. decideRelease W = Inr d \<and> readyFails W = None \<and> \<not> reclaimedAt W 0")
  case False
  then show ?thesis by (auto simp: runRelease_def thrown_outcome_def split: sum.splits option.splits)
next
  case True
  then obtain d where d: "decideRelease W = Inr d" "readyFails W = None" "\<not> reclaimedAt W 0" by blast
  obtain err R where r: "release_write W d = (err, R)" by (cases "release_write W d")
  have "runProgress R = InQueue \<Longrightarrow> \<not> runParsed R"
    using release_write_loop [of W d] r applyLoop_progress [of W 1 d "\<lparr>runProgress = Building, runDecision = d, runParsed = False, runUpdates = []\<rparr>"]
    by auto
  then have "outcome_parsed (run_outcome W (err, R)) \<longleftrightarrow> runParsed R \<and> run_outcome W (err, R) \<noteq> Reclaimed"
    by (auto simp: run_outcome_def thrown_outcome_def split: option.splits release_progress.splits)
  then show ?thesis using release_write_updates [of W d] d r by (simp add: runRelease_def Let_def)
qed

lemma releaseEvent_fold:
  assumes "releaseEnd (fold releaseEvent evs w) = Some r"
  shows "releaseEnd w = Some r \<or> r = ReleaseResolved \<and> settled_by evs \<or>
    (\<exists>err n b. r = ReleaseRejected err \<and> RecoveryEnded (Rejected err n) b \<in> set evs)"
  using assms
proof (induction evs arbitrary: w)
  case (Cons ev evs)
  have "releaseEnd (releaseEvent ev w) = Some r \<Longrightarrow> releaseEnd w = Some r \<or> r = ReleaseResolved \<and> settled_by [ev] \<or>
      (\<exists>err n b. r = ReleaseRejected err \<and> RecoveryEnded (Rejected err n) b = ev)"
    by (auto simp: releaseEvent_def settled_by_def split: release_event.splits settlement.splits if_splits)
  then show ?case using Cons.IH [of "releaseEvent ev w"] Cons.prems by (auto simp: settled_by_def)
qed simp

lemma didRelease_end:
  "releaseEnd (fst (didReleaseDocument W u kept reclaimed Q)) =
     (case fst (runRelease W) of
        Skipped parsed err \<Rightarrow> Some (if parsed then ReleaseResolved else ReleaseSkipped err)
      | outcome \<Rightarrow> if outcome_parsed outcome \<or> \<not> kept \<or> reclaimed then Some ReleaseResolved else None)"
  by (auto simp: didReleaseDocument_def Let_def waitForReleaseBuild_def split: release_outcome.splits prod.splits)

text \<open>
  C18: A release settles as its contract says, whatever the builder, the lock and the provider do. It resolves
  only once the build no longer carries the released text: one of its updates parsed the document, the
  build has no such document, a client took it back, or, while it waited, a parse or a removal of the
  document was announced. It rejects with an error only when its recovery build was given up with that
  error, and as skipped only when the connection or the file was gone before any update parsed the document.
\<close>

theorem release_settles_by_contract:
  assumes "releaseEnd (fold releaseEvent evs (fst (didReleaseDocument W u kept reclaimed Q))) = Some r"
  shows "case r of
      ReleaseResolved \<Rightarrow>
        (\<exists>k. 0 < k \<and> k \<le> length (snd (runRelease W)) \<and> fst (buildResult W k)) \<or> \<not> kept \<or> reclaimed \<or> settled_by evs
    | ReleaseRejected err \<Rightarrow> \<exists>n b. RecoveryEnded (Rejected err n) b \<in> set evs
    | ReleaseSkipped err \<Rightarrow>
        (isConnectionGone W err \<or> isFileNotFound W err) \<and>
        (\<forall>k. 0 < k \<and> k \<le> length (snd (runRelease W)) \<longrightarrow> \<not> fst (buildResult W k))"
proof (cases "releaseEnd (fst (didReleaseDocument W u kept reclaimed Q)) = Some r")
  case False
  then show ?thesis using releaseEvent_fold [OF assms] by (auto, blast)
next
  case True
  show ?thesis
  proof (cases "fst (runRelease W)")
    case (Skipped parsed err)
    then have "isConnectionGone W err \<or> isFileNotFound W err"
      by (auto simp: runRelease_def run_outcome_def thrown_outcome_def Let_def
          split: sum.splits option.splits prod.splits if_splits release_progress.splits)
    then show ?thesis using True Skipped outcome_parsed_built [of W] by (auto simp: didRelease_end split: if_splits)
  qed (use True outcome_parsed_built [of W] in \<open>auto simp: didRelease_end split: if_splits\<close>)
qed

text \<open>A release whose build a later write cancelled before it parsed; a parse ends its wait.\<close>

definition cancelled_world :: "string release_world" where
  "cancelled_world = calm_world\<lparr>buildResult := (\<lambda>_. (False, Some ''cancelled''))\<rparr>"

lemma cancelled_release: "runRelease cancelled_world = (Cancelled Rebuild False, [Rebuild])"
  by (simp add: cancelled_world_def calm_world_def release_eval)

definition late_parse :: "string release_event list" where
  "late_parse = [ModelRecorded False, ModelRecorded True]"

theorem release_settles_by_contract_witness:
  "releaseEnd (fold releaseEvent late_parse
      (fst (didReleaseDocument cancelled_world ''a'' True False new_build_queue))) = Some ReleaseResolved \<and>
   \<not> fst (buildResult cancelled_world 1) \<and> settled_by late_parse"
proof -
  have settled: "releaseEnd (fold releaseEvent late_parse (fst (didReleaseDocument cancelled_world ''a'' True False new_build_queue))) = Some ReleaseResolved"
    by (simp add: late_parse_def didReleaseDocument_def cancelled_release waitForReleaseBuild_def stoppedShort_def releaseEvent_def
        requestRecoveryBuild_def queueRecoveryBuild_def new_build_queue_def Let_def)
  have none: "\<not> fst (buildResult cancelled_world k)" for k by (simp add: cancelled_world_def)
  show ?thesis using release_settles_by_contract [OF settled] settled none by simp
qed

text \<open>
  C22: No release is left waiting for a build that nobody requested. When a release does not settle at once, a
  recovery build of its document is queued for it, as a removal exactly when the release had decided to
  remove, and one that no deferral of the update handler drops: it stays needed for as long as no client
  takes the document back. The one exception is a release a client had taken back and given up again,
  whose own release is on its way.
\<close>

theorem waiting_release_has_build:
  assumes "didReleaseDocument W u kept reclaimed Q = (w, Q')" and "releaseEnd w = None"
  shows "fst (runRelease W) = Reclaimed \<or>
    (\<exists>n q pend. recovery w = Some n \<and> js_get (pendingBuilds Q') u = Some pend \<and> q \<in> set (entryQueue pend) \<and>
       requestId q = n \<and> (deleted (request q) = Some True \<longleftrightarrow> outcome_decision (fst (runRelease W)) = Some Remove) \<and>
       (\<forall>stillNeeded. isStillNeeded stillNeeded u q Q' \<longleftrightarrow> stillNeeded n))"
proof (cases "fst (runRelease W) = Reclaimed")
  case False
  let ?outcome = "fst (runRelease W)"
  have "releaseEnd (fst (didReleaseDocument W u kept reclaimed Q)) = None" using assms by simp
  then have short: "stoppedShort ?outcome kept" "\<not> reclaimed" "\<And>p err. ?outcome \<noteq> Skipped p err"
    using False unfolding didRelease_end
    by (auto simp: stoppedShort_def split: release_outcome.splits if_splits)
  then have "(w, Q') = waitForReleaseBuild u (outcome_parsed ?outcome) kept reclaimed (Some (outcome_decision ?outcome = Some Remove)) Q"
    using assms(1) by (auto simp: didReleaseDocument_def Let_def split: release_outcome.splits)
  then have "recovery w = Some (nextRequest Q)" "Q' = snd (requestRecoveryBuild u (outcome_decision ?outcome = Some Remove) Q)"
    by (auto simp: waitForReleaseBuild_def requestRecoveryBuild_def queueRecoveryBuild_def Let_def)
  moreover define q where "q = \<lparr>requestId = nextRequest Q, request = \<lparr>deleted = Some (outcome_decision ?outcome = Some Remove),
    reason = Some ''didRelease'', ignoreDeferred = Some True\<rparr>, failures = 0\<rparr>"
  ultimately have "recovery w = Some (nextRequest Q)" "\<exists>pend. js_get (pendingBuilds Q') u = Some pend \<and> q \<in> set (entryQueue pend)"
    by (auto simp: requestRecoveryBuild_def queueRecoveryBuild_def Let_def js_get_set split: option.split)
  moreover have "requestId q = nextRequest Q" "deleted (request q) = Some True \<longleftrightarrow> outcome_decision ?outcome = Some Remove"
    "isStillNeeded stillNeeded u q Q' \<longleftrightarrow> stillNeeded (nextRequest Q)" for stillNeeded
    by (simp_all add: q_def isStillNeeded_def)
  ultimately show ?thesis by blast
qed simp

theorem waiting_release_has_build_witness:
  "releaseEnd (fst (didReleaseDocument cancelled_world ''a'' True False new_build_queue)) = None \<and>
   recovery (fst (didReleaseDocument cancelled_world ''a'' True False new_build_queue)) = Some 0 \<and>
   js_has (pendingBuilds (snd (didReleaseDocument cancelled_world ''a'' True False new_build_queue))) ''a''"
proof -
  let ?r = "didReleaseDocument cancelled_world ''a'' True False new_build_queue"
  have facts: "releaseEnd (fst ?r) = None" "recovery (fst ?r) = Some 0"
    by (simp_all add: didReleaseDocument_def cancelled_release waitForReleaseBuild_def stoppedShort_def
        requestRecoveryBuild_def queueRecoveryBuild_def new_build_queue_def Let_def)
  show ?thesis
    using waiting_release_has_build [of cancelled_world "''a''" True False new_build_queue "fst ?r" "snd ?r"] facts
    by (auto simp: cancelled_release js_has_get)
qed

end
