(* ===== verification/WorkingCopy.thy ===== *)
theory WorkingCopy
  imports PatchMerge
begin

section \<open>The working copy of a client\<close>

text \<open>
  \<open>WorkingCopy\<close> of \<open>protocol/src/client/working-copy.ts\<close>: the server's last document plus the edits it has
  not confirmed. Roots are the values of \<open>PatchMerge\<close>; an edit is a function of the root, \<open>None\<close> where it
  throws. The opens a copy has had are kept in a list, and the position is an open's identity
  (\<open>open === this.current\<close>), since a request sent under an ended open still comes back to that open. The methods are
  split at their awaits. What \<open>reconcile\<close> and \<open>splitConflict\<close> answer for a batch is an argument of the step
  that ends the batch; what they do to the open meanwhile are the steps \<open>onWrite\<close> and \<open>writeLanded\<close>. A listener
  that calls back into the copy from an event is the steps that follow.
\<close>

subsection \<open>Documents and edits\<close>

record 'n transfer_model =
  tmRoot :: "'n js"
  tmVersion :: int
  tmHash :: string
  tmDiagnostics :: "string list option"

record text_state =
  tsDirty :: bool
  tsVersion :: "int option"

record 'n transfer_document =
  docUri :: uri
  epoch :: string
  heldWrites :: "(string, int) js_map option"
  model :: "'n transfer_model option"
  textState :: "text_state option"
  docSequence :: "int option"

abbreviation isLoaded :: "'n transfer_document \<Rightarrow> bool" where
  "isLoaded d \<equiv> model d \<noteq> None"

definition heldWriteOf :: "'n transfer_document \<Rightarrow> client_id \<Rightarrow> int option" where
  "heldWriteOf d c = (case heldWrites d of None \<Rightarrow> None | Some m \<Rightarrow> js_get m c)"

definition reportsWrites :: "'n transfer_document \<Rightarrow> bool" where
  "reportsWrites d \<longleftrightarrow> heldWrites d \<noteq> None"

datatype edit_outcome = Applied | MergedEdit | ConflictEdit | RanOut | UnchangedEdit | UnavailableEdit

datatype edit_end = EditResolved edit_outcome | EditRejected string

record 'n copy_edit =
  editId :: nat
  change :: "'n js \<Rightarrow> 'n js option"

record 'n write_base =
  baseModel :: "'n js"
  baseVersion :: int
  baseEpoch :: string
  unconfirmed :: bool
  dropped :: "('n js \<times> 'n js) option"
  onto :: "'n js option"

record 'n copy_open =
  snapshot :: "'n transfer_document"
  snapshotUnderWrite :: bool
  queued :: "'n copy_edit list"
  writeBase :: "'n write_base option"
  sending :: "'n copy_edit list"
  sendingWrite :: "int option"
  batchBase :: "'n write_base option"
  writing :: bool
  serverDirty :: bool
  snapshotRequests :: int
  held :: "'n transfer_document option"
  holdTimer :: bool
  dirtyVersion :: "int option"
  dirtyFromEvent :: bool

record 'n working_copy =
  opens :: "'n copy_open list"
  current :: "nat option"
  editsInFlight :: "nat list"
  announcedDirty :: bool
  settling :: nat
  openingLoad :: "nat option"
  closing :: bool
  disposed :: bool
  registeredEpoch :: "string option"
  openAbandoned :: bool
  heardWhileLoading :: "uri list option"
  contentChanges :: nat
  dirtyChanges :: "bool list"
  settledEdits :: "(nat \<times> edit_end) list"
  nextEdit :: nat
  nextLoad :: nat
  sessionCloses :: nat

definition new_copy :: "'n working_copy" where
  "new_copy =
     \<lparr>opens = [], current = None, editsInFlight = [], announcedDirty = False, settling = 0, openingLoad = None, closing = False,
      disposed = False, registeredEpoch = None, openAbandoned = False, heardWhileLoading = None, contentChanges = 0,
      dirtyChanges = [], settledEdits = [], nextEdit = 0, nextLoad = 0, sessionCloses = 0\<rparr>"

text \<open>
  The library, the options and the session of a copy. \<open>reporting\<close> is what the copy assumes of servers: the
  documents of one server life all carry \<open>heldWrites\<close> or none does.
\<close>

record 'n copy_env =
  patchLib :: "'n patch_lib"
  replayKey :: "'n item_key option"
  copyUri :: uri
  clientId :: client_id
  reporting :: "string \<Rightarrow> bool"

abbreviation open_at :: "'n working_copy \<Rightarrow> nat \<Rightarrow> 'n copy_open" where
  "open_at C n \<equiv> opens C ! n"

definition setOpen :: "nat \<Rightarrow> ('n copy_open \<Rightarrow> 'n copy_open) \<Rightarrow> 'n working_copy \<Rightarrow> 'n working_copy" where
  "setOpen n f C = C\<lparr>opens := (opens C)[n := f (opens C ! n)]\<rparr>"

fun apply_edits :: "'n copy_edit list \<Rightarrow> 'n js \<Rightarrow> 'n js option" where
  "apply_edits [] r = Some r"
| "apply_edits (e # es) r = (case change e r of None \<Rightarrow> None | Some r' \<Rightarrow> apply_edits es r')"

text \<open>The roots after each edit, or \<open>None\<close> when one throws.\<close>

fun edit_roots :: "'n copy_edit list \<Rightarrow> 'n js \<Rightarrow> 'n js list option" where
  "edit_roots [] r = Some [r]"
| "edit_roots (e # es) r =
     (case change e r of None \<Rightarrow> None | Some r' \<Rightarrow> map_option (\<lambda>rs. r # rs) (edit_roots es r'))"

text \<open>The roots up to the first edit that throws.\<close>

fun roots_until :: "'n copy_edit list \<Rightarrow> 'n js \<Rightarrow> 'n js list" where
  "roots_until [] r = []"
| "roots_until (e # es) r = (case change e r of None \<Rightarrow> [] | Some r' \<Rightarrow> r' # roots_until es r')"

definition paths_overlap :: "string \<Rightarrow> string \<Rightarrow> bool" where
  "paths_overlap p q \<longleftrightarrow> p = q \<or> prefix (q @ ''/'') p \<or> prefix (p @ ''/'') q"

definition writesDropped :: "'n copy_env \<Rightarrow> 'n copy_edit list \<Rightarrow> ('n js \<times> 'n js) option \<Rightarrow> bool list" where
  "writesDropped E batch lost =
     (case lost of
        None \<Rightarrow> map (\<lambda>_. False) batch
      | Some (keptRoot, seenRoot) \<Rightarrow>
          (let changed = changedPaths (patchLib E) (replayKey E) (keptRoot # seenRoot # roots_until batch seenRoot)
           in case changed of
                [] \<Rightarrow> map (\<lambda>_. False) batch
              | droppedPaths # editPaths \<Rightarrow>
                  map (\<lambda>i. i < length editPaths \<and> list_ex (\<lambda>p. list_ex (paths_overlap p) droppedPaths) (editPaths ! i))
                    [0..<length batch]))"

fun isLost :: "edit_end \<Rightarrow> bool" where
  "isLost (EditRejected err) = True"
| "isLost (EditResolved out) = (out = ConflictEdit)"

fun isDropped :: "edit_end \<Rightarrow> bool" where
  "isDropped (EditRejected err) = True"
| "isDropped (EditResolved out) = (out = ConflictEdit \<or> out = RanOut)"

definition keptOf :: "'n copy_edit list \<Rightarrow> edit_end list \<Rightarrow> (edit_end \<Rightarrow> bool) \<Rightarrow> 'n js \<Rightarrow> 'n js" where
  "keptOf batch outcomes left r =
     (case apply_edits (map fst (filter (\<lambda>(e, out). \<not> left out) (zip batch outcomes))) r of Some r' \<Rightarrow> r' | None \<Rightarrow> r)"

subsection \<open>The root and the dirty flag\<close>

definition holdsSending :: "'n copy_env \<Rightarrow> 'n copy_open \<Rightarrow> 'n transfer_document \<Rightarrow> bool" where
  "holdsSending E P d \<longleftrightarrow>
     (case (sendingWrite P, heldWriteOf d (clientId E)) of (Some w, Some h) \<Rightarrow> w \<le> h | _ \<Rightarrow> False)"

definition open_root :: "'n copy_env \<Rightarrow> 'n copy_open \<Rightarrow> 'n js option" where
  "open_root E P =
     (case model (snapshot P) of
        None \<Rightarrow> None
      | Some m \<Rightarrow> apply_edits ((if holdsSending E P (snapshot P) then [] else sending P) @ queued P) (tmRoot m))"

definition copy_root :: "'n copy_env \<Rightarrow> 'n working_copy \<Rightarrow> 'n js option" where
  "copy_root E C = (case current C of None \<Rightarrow> None | Some n \<Rightarrow> open_root E (open_at C n))"

definition copy_diagnostics :: "'n copy_open \<Rightarrow> string list" where
  "copy_diagnostics P =
     (case Option.bind (model (snapshot P)) tmDiagnostics of None \<Rightarrow> [] | Some ds \<Rightarrow> ds)"

definition copy_dirty :: "'n working_copy \<Rightarrow> bool" where
  "copy_dirty C \<longleftrightarrow>
     (case current C of
        None \<Rightarrow> False
      | Some n \<Rightarrow> serverDirty (open_at C n) \<or> queued (open_at C n) \<noteq> [] \<or> sending (open_at C n) \<noteq> [])"

definition hasWritesInFlight :: "'n working_copy \<Rightarrow> bool" where
  "hasWritesInFlight C \<longleftrightarrow> editsInFlight C \<noteq> []"

definition fireChange :: "'n working_copy \<Rightarrow> 'n working_copy" where
  "fireChange C = (if disposed C then C else C\<lparr>contentChanges := contentChanges C + 1\<rparr>)"

definition announceDirty :: "'n working_copy \<Rightarrow> 'n working_copy" where
  "announceDirty C =
     (if settling C = 0 \<and> copy_dirty C \<noteq> announcedDirty C
      then C\<lparr>announcedDirty := copy_dirty C,
             dirtyChanges := (if disposed C then dirtyChanges C else dirtyChanges C @ [copy_dirty C])\<rparr>
      else C)"

text \<open>Settling the promise of an edit, which also leaves the tracker.\<close>

definition settleEdits :: "(nat \<times> edit_end) list \<Rightarrow> 'n working_copy \<Rightarrow> 'n working_copy" where
  "settleEdits ends C =
     C\<lparr>settledEdits := settledEdits C @ ends, editsInFlight := filter (\<lambda>i. i \<notin> fst ` set ends) (editsInFlight C)\<rparr>"

definition unavailable :: "'n copy_edit list \<Rightarrow> (nat \<times> edit_end) list" where
  "unavailable es = map (\<lambda>e. (editId e, EditResolved UnavailableEdit)) es"

subsection \<open>Taking documents\<close>

definition builtBefore :: "'n copy_open \<Rightarrow> 'n transfer_document \<Rightarrow> bool" where
  "builtBefore P d \<longleftrightarrow>
     (case (model d, model (snapshot P)) of
        (Some offered, Some now) \<Rightarrow> tmVersion offered < tmVersion now \<and> epoch d = epoch (snapshot P)
      | _ \<Rightarrow> False)"

definition hold :: "nat \<Rightarrow> 'n transfer_document \<Rightarrow> 'n working_copy \<Rightarrow> 'n working_copy" where
  "hold n d C = setOpen n (\<lambda>P. P\<lparr>held := Some d, holdTimer := (holdTimer P \<or> \<not> disposed C)\<rparr>) C"

definition unhold :: "nat \<Rightarrow> 'n working_copy \<Rightarrow> 'n working_copy" where
  "unhold n C = setOpen n (\<lambda>P. P\<lparr>held := None, holdTimer := False\<rparr>) C"

definition takeDirty :: "nat \<Rightarrow> text_state option \<Rightarrow> bool \<Rightarrow> 'n working_copy \<Rightarrow> 'n working_copy" where
  "takeDirty n txt announced C =
     (case txt of
        None \<Rightarrow> C
      | Some t \<Rightarrow>
          (let P = open_at C n;
               stale = (0 < snapshotRequests P \<and>
                        (case (dirtyVersion P, tsVersion t) of
                           (Some d, Some v) \<Rightarrow> v < d \<or> v = d \<and> dirtyFromEvent P \<and> \<not> announced
                         | _ \<Rightarrow> False))
           in if stale then C
              else announceDirty (setOpen n (\<lambda>P. P\<lparr>dirtyVersion := (case tsVersion t of Some v \<Rightarrow> Some v | None \<Rightarrow> dirtyVersion P),
                                        dirtyFromEvent := announced, serverDirty := tsDirty t\<rparr>) C)))"

text \<open>
  Whether taking a document is announced: by the hash of its model, or while a write is out by what changed.
\<close>

definition view_differs :: "'n copy_env \<Rightarrow> 'n copy_open \<Rightarrow> 'n copy_open \<Rightarrow> bool option" where
  "view_differs E before after =
     (case (open_root E before, open_root E after) of
        (Some r, Some r') \<Rightarrow>
          Some (compare (patchLib E) r r' \<noteq> [] \<or> copy_diagnostics before \<noteq> copy_diagnostics after)
      | _ \<Rightarrow> None)"

definition adopt :: "'n copy_env \<Rightarrow> nat \<Rightarrow> 'n transfer_document \<Rightarrow> bool \<Rightarrow> 'n working_copy \<Rightarrow> 'n working_copy" where
  "adopt E n d announce C =
     (let P = open_at C n;
          hash = map_option tmHash (model (snapshot P));
          changed = (announce \<and> (hash = None \<or> hash \<noteq> map_option tmHash (model d)));
          P' = P\<lparr>snapshot := d, snapshotUnderWrite := (sending P \<noteq> [] \<and> \<not> reportsWrites d)\<rparr>;
          fires = (if announce \<and> sending P \<noteq> []
                   then (case view_differs E P P' of Some differs \<Rightarrow> differs | None \<Rightarrow> changed)
                   else changed);
          C' = setOpen n (\<lambda>_. P') C
      in if fires then fireChange C' else C')"

definition offer :: "'n copy_env \<Rightarrow> nat \<Rightarrow> 'n transfer_document \<Rightarrow> bool \<Rightarrow> 'n working_copy \<Rightarrow> 'n working_copy" where
  "offer E n d announce C =
     (if builtBefore (open_at C n) d then C
      else (let C1 = takeDirty n (textState d) False C; P = open_at C1 n
            in if 0 < snapshotRequests P \<and> \<not> reportsWrites d
               then (case (Option.bind (held P) model, model d) of
                       (Some h, Some offered) \<Rightarrow> if tmVersion h \<le> tmVersion offered then hold n d C1 else C1
                     | _ \<Rightarrow> hold n d C1)
               else adopt E n d announce C1))"

text \<open>Ending the open: its unwritten edits are handed to the caller, requests still out answer to nothing.\<close>

definition unload :: "'n working_copy \<Rightarrow> 'n copy_edit list \<times> 'n working_copy" where
  "unload C =
     (case current C of
        None \<Rightarrow> ([], announceDirty C)
      | Some n \<Rightarrow> (queued (open_at C n), announceDirty ((unhold n C)\<lparr>current := None\<rparr>)))"

definition dropDocument :: "'n working_copy \<Rightarrow> 'n working_copy" where
  "dropDocument C =
     (let (unwritten, C1) = unload C
      in settleEdits (unavailable unwritten) (fireChange (C1\<lparr>openingLoad := None\<rparr>)))"

definition settleAnswer :: "'n copy_env \<Rightarrow> nat \<Rightarrow> 'n transfer_document option \<Rightarrow> bool \<Rightarrow> 'n working_copy \<Rightarrow> 'n working_copy" where
  "settleAnswer E n received announce C =
     (let expected = (case registeredEpoch C of Some e \<Rightarrow> e | None \<Rightarrow> epoch (snapshot (open_at C n)));
          answer = (case received of Some d \<Rightarrow> if epoch d = expected then Some d else None | None \<Rightarrow> None)
      in if \<exists>d \<in> set_option answer. \<not> isLoaded d
         then dropDocument (C\<lparr>sessionCloses := sessionCloses C + 1\<rparr>)
         else (let C1 = (case answer of None \<Rightarrow> C | Some d \<Rightarrow> offer E n d announce C);
                   C2 = setOpen n (\<lambda>P. P\<lparr>snapshotRequests := snapshotRequests P - 1\<rparr>) C1;
                   P = open_at C2 n
               in if snapshotRequests P = 0 \<or> sending P = []
                  then (case held P of
                          Some d \<Rightarrow> if sending P = [] then adopt E n d announce (unhold n C2) else unhold n C2
                        | None \<Rightarrow> unhold n C2)
                  else C2))"

definition settleRequest :: "'n copy_env \<Rightarrow> nat \<Rightarrow> 'n transfer_document option \<Rightarrow> bool \<Rightarrow> 'n working_copy \<Rightarrow> 'n working_copy" where
  "settleRequest E n answer announce C =
     (if current C \<noteq> Some n then C
      else (let C1 = settleAnswer E n answer announce (C\<lparr>settling := settling C + 1\<rparr>)
            in announceDirty (C1\<lparr>settling := settling C1 - 1\<rparr>)))"

definition requestOut :: "nat \<Rightarrow> 'n working_copy \<Rightarrow> 'n working_copy" where
  "requestOut n C = setOpen n (\<lambda>P. P\<lparr>snapshotRequests := snapshotRequests P + 1\<rparr>) C"

subsection \<open>Edits and their writes\<close>

datatype copy_error = CopyDisposed | CopyClosed | DocumentNotOpen | NotLoaded | ChangeThrew | SaveFailed | LoadFailed | SessionClosed

definition base_on :: "'n copy_env \<Rightarrow> 'n copy_open \<Rightarrow> 'n transfer_model \<Rightarrow> 'n write_base" where
  "base_on E P m =
     (let sent = (if holdsSending E P (snapshot P) then [] else sending P)
      in \<lparr>baseModel = (case apply_edits sent (tmRoot m) of Some r \<Rightarrow> r | None \<Rightarrow> tmRoot m),
          baseVersion = tmVersion m, baseEpoch = epoch (snapshot P),
          unconfirmed = (snapshotUnderWrite P \<and> sending P \<noteq> []), dropped = None,
          onto = (if sent \<noteq> [] then Some (tmRoot m) else None)\<rparr>)"

definition plain_base :: "'n transfer_document \<Rightarrow> 'n transfer_model \<Rightarrow> 'n write_base" where
  "plain_base d m =
     \<lparr>baseModel = tmRoot m, baseVersion = tmVersion m, baseEpoch = epoch d, unconfirmed = False, dropped = None, onto = None\<rparr>"

definition edit :: "'n copy_env \<Rightarrow> ('n js \<Rightarrow> 'n js option) \<Rightarrow> 'n working_copy \<Rightarrow> copy_error + nat \<times> 'n working_copy" where
  "edit E f C =
     (if disposed C then Inl CopyDisposed
      else case current C of
        None \<Rightarrow> Inl DocumentNotOpen
      | Some n \<Rightarrow>
          (case model (snapshot (open_at C n)) of
             None \<Rightarrow> Inl NotLoaded
           | Some m \<Rightarrow>
               if \<exists>shown \<in> set_option (copy_root E C). f shown = None then Inl ChangeThrew
               else (let i = nextEdit C;
                         C1 = setOpen n (\<lambda>P. P\<lparr>writeBase := Some (case writeBase P of Some b \<Rightarrow> b | None \<Rightarrow> base_on E P m),
                                               queued := queued P @ [\<lparr>editId = i, change = f\<rparr>]\<rparr>) C;
                         C2 = fireChange (announceDirty (C1\<lparr>nextEdit := i + 1, editsInFlight := editsInFlight C1 @ [i]\<rparr>))
                     in Inr (i, setOpen n (\<lambda>P. P\<lparr>writing := True\<rparr>) C2))))"

definition copy_editRoot :: "'n copy_env \<Rightarrow> 'n js \<Rightarrow> 'n js \<Rightarrow> 'n working_copy \<Rightarrow> copy_error + nat \<times> 'n working_copy" where
  "copy_editRoot E before after = edit E (\<lambda>root. Some (editRoot (patchLib E) (replayKey E) before after root))"

text \<open>
  The end of \<open>writeBatch\<close>: the base of the edits queued meanwhile is rebuilt where the batch failed or lost
  edits, the answer is taken, and the edits of the batch are settled, by their outcomes or all alike.
\<close>

datatype batch_end = BatchThrew string | BatchNone | BatchOutcomes "edit_end list"

definition rebase :: "'n copy_edit list \<Rightarrow> batch_end \<Rightarrow> 'n copy_open \<Rightarrow> 'n copy_open" where
  "rebase batch res P =
     (case writeBase P of
        None \<Rightarrow> P
      | Some b \<Rightarrow>
          (case res of
             BatchOutcomes outcomes \<Rightarrow>
               (case onto b of
                  Some r \<Rightarrow>
                    if list_ex isDropped outcomes
                    then (let keptRoot = keptOf batch outcomes isDropped r;
                              seenRoot = keptOf batch outcomes (\<lambda>out. isDropped out \<and> \<not> isLost out) r
                          in P\<lparr>writeBase := Some (b\<lparr>baseModel := keptRoot, unconfirmed := True, dropped := Some (keptRoot, seenRoot), onto := None\<rparr>)\<rparr>)
                    else P
                | None \<Rightarrow> P)
           | _ \<Rightarrow> P\<lparr>writeBase := map_option (plain_base (snapshot P)) (model (snapshot P))\<rparr>))"

definition batch_settlements :: "'n copy_edit list \<Rightarrow> batch_end \<Rightarrow> (nat \<times> edit_end) list" where
  "batch_settlements batch res =
     (case res of
        BatchThrew err \<Rightarrow> map (\<lambda>e. (editId e, EditRejected err)) batch
      | BatchNone \<Rightarrow> unavailable batch
      | BatchOutcomes outcomes \<Rightarrow> zip (map editId batch) outcomes)"

definition endBatch :: "'n copy_env \<Rightarrow> nat \<Rightarrow> batch_end \<Rightarrow> 'n transfer_document option \<Rightarrow> 'n working_copy \<Rightarrow> 'n working_copy" where
  "endBatch E n res answer C =
     (let batch = sending (open_at C n);
          C1 = setOpen n (\<lambda>P. rebase batch res (P\<lparr>sending := [], sendingWrite := None, batchBase := None\<rparr>)) C
      in settleEdits (batch_settlements batch res) (fireChange (settleRequest E n answer False C1)))"

text \<open>What the edits of a batch resolve to, given what its written part did.\<close>

fun merge_outcomes :: "bool list \<Rightarrow> edit_end list \<Rightarrow> edit_end list" where
  "merge_outcomes [] outs = []"
| "merge_outcomes (True # lost) outs = EditResolved ConflictEdit # merge_outcomes lost outs"
| "merge_outcomes (False # lost) (out # outs) = out # merge_outcomes lost outs"
| "merge_outcomes (False # lost) [] = EditResolved UnchangedEdit # merge_outcomes lost []"

definition batch_written :: "'n copy_env \<Rightarrow> 'n copy_edit list \<Rightarrow> 'n write_base \<Rightarrow> 'n copy_edit list" where
  "batch_written E batch b = map fst (filter (\<lambda>(e, lost). \<not> lost) (zip batch (writesDropped E batch (dropped b))))"

text \<open>\<open>writeBatch\<close> up to its write: a batch with nothing to write ends at once, as does one with an edit that throws.\<close>

definition startBatch :: "'n copy_env \<Rightarrow> nat \<Rightarrow> 'n working_copy \<Rightarrow> 'n working_copy" where
  "startBatch E n C =
     (let batch = sending (open_at C n)
      in case batchBase (open_at C n) of
           None \<Rightarrow> endBatch E n BatchNone None C
         | Some b \<Rightarrow>
             (case edit_roots (batch_written E batch b) (baseModel b) of
                None \<Rightarrow> endBatch E n (BatchThrew ''change'') None C
              | Some roots \<Rightarrow>
                  if compare (patchLib E) (baseModel b) (last roots) = []
                  then endBatch E n (BatchOutcomes (merge_outcomes (writesDropped E batch (dropped b)) [])) None C
                  else C))"

text \<open>A turn of the write loop: take the queued edits as a batch, or end once none is left or the open ended.\<close>

definition writeTurn :: "'n copy_env \<Rightarrow> nat \<Rightarrow> 'n working_copy \<Rightarrow> 'n working_copy option" where
  "writeTurn E n C =
     (if \<not> (n < length (opens C) \<and> writing (open_at C n) \<and> sending (open_at C n) = []) then None
      else if queued (open_at C n) = [] \<or> current C \<noteq> Some n
      then Some (announceDirty (setOpen n (\<lambda>P. P\<lparr>writing := False, sending := [], sendingWrite := None\<rparr>) C))
      else Some (startBatch E n (requestOut n
             (setOpen n (\<lambda>P. P\<lparr>sending := queued P, queued := [], writeBase := None, batchBase := writeBase P\<rparr>) C))))"

text \<open>The write of a batch came back: with an error, or with the outcomes of its written edits.\<close>

definition writeAnswered ::
  "'n copy_env \<Rightarrow> nat \<Rightarrow> string + edit_end list \<times> 'n transfer_document option \<Rightarrow> 'n working_copy \<Rightarrow> 'n working_copy option" where
  "writeAnswered E n result C =
     (if \<not> (n < length (opens C) \<and> sending (open_at C n) \<noteq> []) then None
      else case batchBase (open_at C n) of
        None \<Rightarrow> None
      | Some b \<Rightarrow>
          (case result of
             Inl err \<Rightarrow> Some (endBatch E n (BatchThrew err) None C)
           | Inr (outs, answer) \<Rightarrow>
               if length outs = length (batch_written E (sending (open_at C n)) b)
               then Some (endBatch E n (BatchOutcomes (merge_outcomes (writesDropped E (sending (open_at C n)) (dropped b)) outs)) answer C)
               else None))"

definition onWrite :: "nat \<Rightarrow> int \<Rightarrow> 'n working_copy \<Rightarrow> 'n working_copy option" where
  "onWrite n w C =
     (if n < length (opens C) \<and> sending (open_at C n) \<noteq> []
      then Some (setOpen n (\<lambda>P. P\<lparr>sendingWrite := (case sendingWrite P of Some v \<Rightarrow> Some v | None \<Rightarrow> Some w)\<rparr>) C)
      else None)"

text \<open>
  The answer to the batch's own write, \<open>sent\<close>: the queued edits were made on it when it was built from the
  write's own text, or holds its model unchanged.
\<close>

definition writeLanded ::
  "'n copy_env \<Rightarrow> nat \<Rightarrow> 'n js \<Rightarrow> 'n transfer_document \<Rightarrow> int \<Rightarrow> 'n working_copy \<Rightarrow> 'n working_copy option" where
  "writeLanded E n sent answer writtenVersion C =
     (if \<not> (n < length (opens C) \<and> sending (open_at C n) \<noteq> []) then None
      else Some (case (batchBase (open_at C n), writeBase (open_at C n), model answer) of
        (Some b, Some q, Some m) \<Rightarrow>
          (let landed = (tmVersion m = writtenVersion \<or> compare (patchLib E) (tmRoot m) sent = []);
               madeOnWrite = (baseVersion q = baseVersion b \<or> compare (patchLib E) (baseModel q) sent = [])
           in if madeOnWrite \<and> landed then setOpen n (\<lambda>P. P\<lparr>writeBase := Some (plain_base answer m)\<rparr>) C else C)
      | _ \<Rightarrow> C))"

subsection \<open>Opening\<close>

text \<open>
  \<open>openCopy\<close> shares the load under way or done; it answers the number of the load. \<open>loadAnswered\<close> is what \<open>load\<close>
  does with the answer of its request, \<open>Inl\<close> a rejection; a load that reads again goes on with \<open>loadedAgain\<close>.
\<close>

definition openCopy :: "'n working_copy \<Rightarrow> copy_error + nat \<times> 'n working_copy" where
  "openCopy C =
     (if disposed C then Inl CopyDisposed
      else if closing C then Inl CopyClosed
      else case openingLoad C of
        Some l \<Rightarrow> Inr (l, C)
      | None \<Rightarrow> Inr (nextLoad C, C\<lparr>openingLoad := Some (nextLoad C), nextLoad := nextLoad C + 1, heardWhileLoading := Some []\<rparr>))"

definition loadFails :: "nat \<Rightarrow> 'n working_copy \<Rightarrow> 'n working_copy" where
  "loadFails l C = C\<lparr>openingLoad := (if openingLoad C = Some l then None else openingLoad C)\<rparr>"

definition new_open :: "'n transfer_document \<Rightarrow> 'n copy_open" where
  "new_open d =
     \<lparr>snapshot = d, snapshotUnderWrite = False, queued = [], writeBase = None, sending = [], sendingWrite = None, batchBase = None,
      writing = False, serverDirty = False, snapshotRequests = 0, held = None, holdTimer = False, dirtyVersion = None,
      dirtyFromEvent = False\<rparr>"

definition unloadSettled :: "'n working_copy \<Rightarrow> 'n working_copy" where
  "unloadSettled C = (let (unwritten, C1) = unload C in settleEdits (unavailable unwritten) C1)"

definition loadEnds :: "nat \<Rightarrow> bool \<Rightarrow> 'n working_copy \<Rightarrow> 'n working_copy" where
  "loadEnds l sessionDisposed C =
     (if sessionDisposed then loadFails l (unloadSettled C) else fireChange C)"

definition loadAnswered :: "nat \<Rightarrow> bool \<Rightarrow> 'n transfer_document option \<Rightarrow> 'n working_copy \<Rightarrow> 'n working_copy" where
  "loadAnswered l sessionDisposed answer C =
     (let heard = (case heardWhileLoading C of Some us \<Rightarrow> us | None \<Rightarrow> []);
          C1 = C\<lparr>heardWhileLoading := None\<rparr>
      in case answer of
           None \<Rightarrow> loadFails l C1
         | Some d \<Rightarrow>
             if openAbandoned C1 then loadFails l C1
             else if \<not> isLoaded d then loadFails l (C1\<lparr>sessionCloses := sessionCloses C1 + 1\<rparr>)
             else (let n = length (opens C1);
                       C2 = takeDirty n (textState d) False (C1\<lparr>opens := opens C1 @ [new_open d], current := Some n\<rparr>)
                   in if docUri d \<in> set heard \<or> docSequence d = None then requestOut n C2 else loadEnds l sessionDisposed C2))"

text \<open>
  The second read of the load that made open \<open>n\<close>. A failed one first ends its request, and once the session is
  connected rejects the load, unless a restore took the document over (\<open>readFailed\<close>).
\<close>

definition loadedAgain ::
  "'n copy_env \<Rightarrow> nat \<Rightarrow> nat \<Rightarrow> bool \<Rightarrow> 'n transfer_document \<Rightarrow> 'n working_copy \<Rightarrow> 'n working_copy" where
  "loadedAgain E l n sessionDisposed answer C =
     (let C1 = settleRequest E n (Some answer) False C
      in if current C1 \<noteq> Some n then loadFails l C1 else loadEnds l sessionDisposed C1)"

definition readFailed :: "nat \<Rightarrow> nat \<Rightarrow> bool \<Rightarrow> bool \<Rightarrow> 'n working_copy \<Rightarrow> 'n working_copy" where
  "readFailed l n sessionDisposed restored C =
     (if current C \<noteq> Some n then loadFails l C
      else if restored then loadEnds l sessionDisposed C
      else (let C1 = unloadSettled C in loadFails l (C1\<lparr>sessionCloses := sessionCloses C1 + 1\<rparr>)))"

subsection \<open>Events of the session\<close>

definition heard :: "uri \<Rightarrow> 'n working_copy \<Rightarrow> 'n working_copy" where
  "heard u C = C\<lparr>heardWhileLoading := map_option (set_add u) (heardWhileLoading C)\<rparr>"

definition handleDocumentUpdated :: "'n copy_env \<Rightarrow> 'n transfer_document \<Rightarrow> bool \<Rightarrow> 'n working_copy \<Rightarrow> 'n working_copy" where
  "handleDocumentUpdated E d ownEcho C =
     (case current C of
        None \<Rightarrow> heard (docUri d) C
      | Some n \<Rightarrow>
          if docUri d \<noteq> docUri (snapshot (open_at C n)) then C
          else if \<not> reportsWrites d \<and> sending (open_at C n) \<noteq> [] \<and> ownEcho then C
          else offer E n d True C)"

definition handleDocumentDeleted :: "uri \<Rightarrow> 'n working_copy \<Rightarrow> 'n working_copy" where
  "handleDocumentDeleted u C =
     (case current C of
        None \<Rightarrow> C
      | Some n \<Rightarrow> if u \<noteq> docUri (snapshot (open_at C n)) then C else dropDocument C)"

definition handleDirtyChanged :: "uri \<Rightarrow> text_state option \<Rightarrow> 'n working_copy \<Rightarrow> 'n working_copy" where
  "handleDirtyChanged u txt C =
     (case current C of
        None \<Rightarrow> heard u C
      | Some n \<Rightarrow>
          if u = docUri (snapshot (open_at C n))
          then takeDirty n (Some (case txt of Some t \<Rightarrow> t | None \<Rightarrow> \<lparr>tsDirty = False, tsVersion = None\<rparr>)) True C
          else C)"

text \<open>A reread asks the server once more; its answer comes back to \<open>settleRequest\<close>.\<close>

definition reread :: "nat \<Rightarrow> 'n working_copy \<Rightarrow> 'n working_copy" where
  "reread n C = requestOut n C"

definition keep_diagnostics :: "'n copy_open \<Rightarrow> 'n transfer_document \<Rightarrow> 'n transfer_document" where
  "keep_diagnostics P d =
     (case (model d, Option.bind (model (snapshot P)) tmDiagnostics) of
        (Some m, Some ds) \<Rightarrow> if tmDiagnostics m = None then d\<lparr>model := Some (m\<lparr>tmDiagnostics := Some ds\<rparr>)\<rparr> else d
      | _ \<Rightarrow> d)"

definition handleDocumentRestored ::
  "'n copy_env \<Rightarrow> uri \<Rightarrow> bool \<Rightarrow> 'n transfer_document option \<Rightarrow> 'n working_copy \<Rightarrow> 'n working_copy" where
  "handleDocumentRestored E u reopened document C =
     (case current C of
        None \<Rightarrow> C
      | Some n \<Rightarrow>
          if u \<noteq> copyUri E then C
          else if \<not> reopened then dropDocument C
          else (let C1 = setOpen n (\<lambda>P. P\<lparr>dirtyVersion := None, dirtyFromEvent := False\<rparr>) (unhold n C);
                    restored = map_option (keep_diagnostics (open_at C1 n)) document
                in case restored of
                     Some d \<Rightarrow>
                       if isLoaded d \<and> \<not> builtBefore (open_at C1 n) d
                       then (let C2 = takeDirty n (textState d) False C1
                             in if sending (open_at C2 n) \<noteq> [] \<and> \<not> reportsWrites d then reread n (hold n d C2)
                                else if Option.bind (Option.bind document model) tmDiagnostics \<noteq> None then adopt E n d True C2
                                else reread n (adopt E n d True C2))
                       else reread n C1
                   | None \<Rightarrow> reread n C1))"

definition handleRegistered :: "'n copy_env \<Rightarrow> string \<Rightarrow> bool \<Rightarrow> 'n working_copy \<Rightarrow> 'n working_copy" where
  "handleRegistered E newEpoch reconnected C =
     (let C1 = C\<lparr>registeredEpoch := Some newEpoch\<rparr>
      in case current C1 of
           None \<Rightarrow> C1
         | Some n \<Rightarrow>
             if \<not> reconnected \<or> sendingWrite (open_at C1 n) = None then C1
             else (let before = copy_root E C1;
                       C2 = setOpen n (\<lambda>P. P\<lparr>sendingWrite := None\<rparr>) C1;
                       after = copy_root E C2
                   in if (case (before, after) of
                            (Some r, Some r') \<Rightarrow> compare (patchLib E) r r' \<noteq> []
                          | (None, None) \<Rightarrow> False
                          | _ \<Rightarrow> True)
                      then fireChange C2 else C2))"

definition holdTimerFires :: "'n copy_env \<Rightarrow> nat \<Rightarrow> 'n working_copy \<Rightarrow> 'n working_copy option" where
  "holdTimerFires E n C =
     (if n < length (opens C) \<and> holdTimer (open_at C n)
      then Some (case held (open_at C n) of
                   Some d \<Rightarrow> if current C = Some n then adopt E n d True (unhold n C) else unhold n C
                 | None \<Rightarrow> unhold n C)
      else None)"

subsection \<open>Saving and closing\<close>

text \<open>
  One attempt of a save, once the wait for the edits is over; \<open>before\<close> is the open the save was called under,
  and \<open>mayPersist\<close> the host's answer. The request carries the version and epoch the copy shows.
\<close>

definition saveOnce ::
  "nat \<Rightarrow> bool \<Rightarrow> bool \<Rightarrow> 'n working_copy \<Rightarrow> copy_error + (int \<times> string) option \<times> 'n working_copy" where
  "saveOnce before editsIdle mayPersist C =
     (if \<not> editsIdle then Inl SaveFailed
      else if disposed C then Inl CopyDisposed
      else if current C \<noteq> Some before then Inl DocumentNotOpen
      else case model (snapshot (open_at C before)) of
        None \<Rightarrow> Inr (None, C)
      | Some m \<Rightarrow>
          if \<not> serverDirty (open_at C before) then Inr (None, C)
          else if \<not> mayPersist then Inl SaveFailed
          else Inr (Some (tmVersion m, epoch (snapshot (open_at C before))), requestOut before C))"

definition closeCopy :: "'n working_copy \<Rightarrow> 'n working_copy" where
  "closeCopy C = C\<lparr>closing := True\<rparr>"

definition closeAfter :: "bool \<Rightarrow> 'n working_copy \<Rightarrow> 'n working_copy" where
  "closeAfter opened C =
     (let C1 = C\<lparr>openAbandoned := \<not> opened\<rparr>
      in if current C1 = None \<and> opened then C1
         else (let C2 = unloadSettled C1 in fireChange (C2\<lparr>sessionCloses := sessionCloses C2 + 1\<rparr>)))"

definition disposeCopy :: "'n working_copy \<Rightarrow> 'n working_copy" where
  "disposeCopy C =
     (if disposed C then C
      else (case current C of None \<Rightarrow> id | Some n \<Rightarrow> setOpen n (\<lambda>P. P\<lparr>holdTimer := False\<rparr>)) (C\<lparr>disposed := True\<rparr>))"

subsection \<open>Steps\<close>

datatype 'n copy_op =
    CpOpen
  | CpLoadAnswered nat bool "'n transfer_document option"
  | CpLoadedAgain nat nat bool "'n transfer_document"
  | CpReadFailed nat nat bool bool
  | CpEdit "'n js \<Rightarrow> 'n js option"
  | CpWriteTurn nat
  | CpOnWrite nat int
  | CpWriteLanded nat "'n js" "'n transfer_document" int
  | CpWriteAnswered nat "string + edit_end list \<times> 'n transfer_document option"
  | CpUpdated "'n transfer_document" bool
  | CpDeleted uri
  | CpDirty uri "text_state option"
  | CpRestored uri bool "'n transfer_document option"
  | CpRegistered string bool
  | CpHoldTimer nat
  | CpSave nat bool bool
  | CpAnswered nat "'n transfer_document option"
  | CpReadEnds nat
  | CpReread nat
  | CpClose
  | CpCloseAfter bool
  | CpDispose

text \<open>
  The requests an open has out beside a batch: its second read, rereads and saves. \<open>CpAnswered\<close> and
  \<open>CpLoadedAgain\<close> come for one of them, so an open followed has one out.
\<close>

definition other_requests :: "'n copy_open \<Rightarrow> int" where
  "other_requests P = snapshotRequests P - (if sending P \<noteq> [] then 1 else 0)"

definition request_out :: "nat \<Rightarrow> 'n working_copy \<Rightarrow> bool" where
  "request_out n C \<longleftrightarrow> n < length (opens C) \<and> (current C = Some n \<longrightarrow> 0 < other_requests (open_at C n))"

definition server_sends :: "'n copy_env \<Rightarrow> 'n transfer_document option \<Rightarrow> bool" where
  "server_sends E answer \<longleftrightarrow> (\<forall>d \<in> set_option answer. reportsWrites d \<longleftrightarrow> reporting E (epoch d))"

fun copy_step :: "'n copy_env \<Rightarrow> 'n copy_op \<Rightarrow> 'n working_copy \<Rightarrow> 'n working_copy option" where
  "copy_step E CpOpen C = (case openCopy C of Inl _ \<Rightarrow> None | Inr (l, C') \<Rightarrow> Some C')"
| "copy_step E (CpLoadAnswered l ended answer) C =
     (if current C = None \<and> server_sends E answer then Some (loadAnswered l ended answer C) else None)"
| "copy_step E (CpLoadedAgain l n ended answer) C =
     (if request_out n C \<and> server_sends E (Some answer) then Some (loadedAgain E l n ended answer C) else None)"
| "copy_step E (CpReadFailed l n ended restored) C = (if n < length (opens C) then Some (readFailed l n ended restored C) else None)"
| "copy_step E (CpEdit f) C = (case edit E f C of Inl _ \<Rightarrow> None | Inr (i, C') \<Rightarrow> Some C')"
| "copy_step E (CpWriteTurn n) C = writeTurn E n C"
| "copy_step E (CpOnWrite n w) C = onWrite n w C"
| "copy_step E (CpWriteLanded n sent answer v) C = writeLanded E n sent answer v C"
| "copy_step E (CpWriteAnswered n result) C =
     (if (case result of Inl _ \<Rightarrow> True | Inr (outs, answer) \<Rightarrow> server_sends E answer) then writeAnswered E n result C else None)"
| "copy_step E (CpUpdated d own) C = (if server_sends E (Some d) then Some (handleDocumentUpdated E d own C) else None)"
| "copy_step E (CpDeleted u) C = Some (handleDocumentDeleted u C)"
| "copy_step E (CpDirty u txt) C = Some (handleDirtyChanged u txt C)"
| "copy_step E (CpRestored u reopened document) C =
     (if server_sends E document then Some (handleDocumentRestored E u reopened document C) else None)"
| "copy_step E (CpRegistered e reconnected) C = Some (handleRegistered E e reconnected C)"
| "copy_step E (CpHoldTimer n) C = holdTimerFires E n C"
| "copy_step E (CpSave n idle may) C =
     (case saveOnce n idle may C of Inl _ \<Rightarrow> None | Inr (_, C') \<Rightarrow> Some C')"
| "copy_step E (CpAnswered n answer) C =
     (if request_out n C \<and> server_sends E answer then Some (settleRequest E n answer True C) else None)"
| "copy_step E (CpReadEnds n) C = (if request_out n C then Some (settleRequest E n None False C) else None)"
| "copy_step E (CpReread n) C = (if n < length (opens C) then Some (reread n C) else None)"
| "copy_step E CpClose C = Some (closeCopy C)"
| "copy_step E (CpCloseAfter opened) C = Some (closeAfter opened C)"
| "copy_step E CpDispose C = Some (disposeCopy C)"

end
