(* ===== verification/CopyEdits.thy ===== *)
theory CopyEdits
  imports WorkingCopy
begin

section \<open>The edits of a working copy\<close>

text \<open>
  Every edit is settled once. An edit not settled yet is queued in the open the copy follows, or is of the batch
  that some open, followed or ended, has out; it is in flight for the unload guard just as long.
\<close>

lemma length_setOpen [simp]: "length (opens (setOpen n f C)) = length (opens C)"
  by (simp add: setOpen_def)

lemma setOpen_fields [simp]:
  "current (setOpen n f C) = current C" "settledEdits (setOpen n f C) = settledEdits C" "nextEdit (setOpen n f C) = nextEdit C"
  "editsInFlight (setOpen n f C) = editsInFlight C" "disposed (setOpen n f C) = disposed C" "settling (setOpen n f C) = settling C"
  "announcedDirty (setOpen n f C) = announcedDirty C" "dirtyChanges (setOpen n f C) = dirtyChanges C"
  by (simp_all add: setOpen_def)

lemma open_at_setOpen: "m < length (opens C) \<Longrightarrow> open_at (setOpen n f C) m = (if m = n then f (open_at C n) else open_at C m)"
  by (simp add: setOpen_def nth_list_update)

subsection \<open>What leaves the edits alone\<close>

definition edit_view :: "'n working_copy \<Rightarrow> nat option \<times> ('n copy_edit list \<times> 'n copy_edit list) list \<times> (nat \<times> edit_end) list \<times> nat \<times> nat list" where
  "edit_view C = (current C, map (\<lambda>P. (queued P, sending P)) (opens C), settledEdits C, nextEdit C, editsInFlight C)"

named_theorems edit_frames \<open>operations that leave the edits alone\<close>

lemma setOpen_view:
  assumes "\<And>P. queued (f P) = queued P \<and> sending (f P) = sending P"
  shows "edit_view (setOpen n f C) = edit_view C"
  using assms by (cases "n < length (opens C)") (simp_all add: edit_view_def setOpen_def map_update list_update_same_conv list_update_beyond)

lemma fireChange_view [edit_frames]: "edit_view (fireChange C) = edit_view C"
  by (simp add: edit_view_def fireChange_def)

lemma announceDirty_view [edit_frames]: "edit_view (announceDirty C) = edit_view C"
  by (simp add: edit_view_def announceDirty_def)

lemma hold_view [edit_frames]: "edit_view (hold n d C) = edit_view C"
  unfolding hold_def by (rule setOpen_view) simp

lemma unhold_view [edit_frames]: "edit_view (unhold n C) = edit_view C"
  unfolding unhold_def by (rule setOpen_view) simp

lemma requestOut_view [edit_frames]: "edit_view (requestOut n C) = edit_view C"
  unfolding requestOut_def by (rule setOpen_view) simp

lemma takeDirty_view [edit_frames]: "edit_view (takeDirty n t a C) = edit_view C"
  by (auto simp: takeDirty_def Let_def edit_frames split: option.split intro!: setOpen_view)

lemma adopt_view [edit_frames]: "edit_view (adopt E n d a C) = edit_view C"
proof -
  have "edit_view (setOpen n (\<lambda>_. (open_at C n)\<lparr>snapshot := d, snapshotUnderWrite := b\<rparr>) C) = edit_view C" for b
    by (cases "n < length (opens C)")
      (auto simp: edit_view_def setOpen_def map_update list_update_beyond list_update_same_conv)
  then show ?thesis by (simp add: adopt_def Let_def edit_frames)
qed

lemma offer_view [edit_frames]: "edit_view (offer E n d a C) = edit_view C"
  by (auto simp: offer_def Let_def edit_frames split: option.split)

subsection \<open>Edits and their settling\<close>

definition pendingEdits :: "'n working_copy \<Rightarrow> nat list" where
  "pendingEdits C =
     (case current C of None \<Rightarrow> [] | Some n \<Rightarrow> map editId (queued (open_at C n))) @
     concat (map (\<lambda>P. map editId (sending P)) (opens C))"

definition edits_owe :: "nat list \<Rightarrow> 'n working_copy \<Rightarrow> bool" where
  "edits_owe ids C \<longleftrightarrow>
     (\<forall>n. current C = Some n \<longrightarrow> n < length (opens C)) \<and>
     mset (pendingEdits C) + mset ids + mset (map fst (settledEdits C)) = mset [0..<nextEdit C] \<and>
     mset (editsInFlight C) = mset (pendingEdits C) + mset ids"

lemma edits_owe_view:
  assumes "edit_view C' = edit_view C"
  shows "edits_owe ids C' \<longleftrightarrow> edits_owe ids C"
proof -
  have same: "map (\<lambda>P. (queued P, sending P)) (opens C') = map (\<lambda>P. (queued P, sending P)) (opens C)" "current C' = current C"
    "settledEdits C' = settledEdits C" "nextEdit C' = nextEdit C" "editsInFlight C' = editsInFlight C"
    using assms by (simp_all add: edit_view_def)
  have len: "length (opens C') = length (opens C)" using map_eq_imp_length_eq [OF same(1)] .
  have "queued (open_at C' n) = queued (open_at C n)" if "n < length (opens C)" for n
    using arg_cong [OF same(1), of "\<lambda>xs. fst (xs ! n)"] that len by simp
  moreover have "concat (map (\<lambda>P. map editId (sending P)) (opens C')) = concat (map (\<lambda>P. map editId (sending P)) (opens C))"
    using arg_cong [OF same(1), of "\<lambda>xs. concat (map (\<lambda>p. map editId (snd p)) xs)"] by (simp add: comp_def)
  ultimately have "(\<forall>n. current C = Some n \<longrightarrow> n < length (opens C)) \<Longrightarrow> pendingEdits C' = pendingEdits C"
    by (auto simp: pendingEdits_def same split: option.split)
  then show ?thesis unfolding edits_owe_def same len by auto
qed

lemma edits_owe_frames [edit_frames]:
  "edits_owe ids (fireChange C) \<longleftrightarrow> edits_owe ids C" "edits_owe ids (announceDirty C) \<longleftrightarrow> edits_owe ids C"
  "edits_owe ids (hold n d C) \<longleftrightarrow> edits_owe ids C" "edits_owe ids (unhold n C) \<longleftrightarrow> edits_owe ids C"
  "edits_owe ids (requestOut n C) \<longleftrightarrow> edits_owe ids C" "edits_owe ids (takeDirty n t a C) \<longleftrightarrow> edits_owe ids C"
  "edits_owe ids (adopt E n d a C) \<longleftrightarrow> edits_owe ids C" "edits_owe ids (offer E n d a C) \<longleftrightarrow> edits_owe ids C"
  by (simp_all add: edits_owe_view [OF fireChange_view] edits_owe_view [OF announceDirty_view] edits_owe_view [OF hold_view]
      edits_owe_view [OF unhold_view] edits_owe_view [OF requestOut_view] edits_owe_view [OF takeDirty_view]
      edits_owe_view [OF adopt_view] edits_owe_view [OF offer_view])

lemma edits_owe_fields [edit_frames]:
  "edits_owe ids (C\<lparr>settling := k\<rparr>) \<longleftrightarrow> edits_owe ids C" "edits_owe ids (C\<lparr>openingLoad := l\<rparr>) \<longleftrightarrow> edits_owe ids C"
  "edits_owe ids (C\<lparr>sessionCloses := c\<rparr>) \<longleftrightarrow> edits_owe ids C" "edits_owe ids (C\<lparr>heardWhileLoading := u\<rparr>) \<longleftrightarrow> edits_owe ids C"
  "edits_owe ids (C\<lparr>openAbandoned := b\<rparr>) \<longleftrightarrow> edits_owe ids C" "edits_owe ids (C\<lparr>registeredEpoch := e\<rparr>) \<longleftrightarrow> edits_owe ids C"
  "edits_owe ids (C\<lparr>closing := b\<rparr>) \<longleftrightarrow> edits_owe ids C" "edits_owe ids (C\<lparr>disposed := b\<rparr>) \<longleftrightarrow> edits_owe ids C"
  "edits_owe ids (C\<lparr>nextLoad := m\<rparr>) \<longleftrightarrow> edits_owe ids C"
  by (rule edits_owe_view, simp add: edit_view_def)+

lemma edits_owe_setOpen:
  assumes "\<And>P. queued (f P) = queued P \<and> sending (f P) = sending P"
  shows "edits_owe ids (setOpen n f C) \<longleftrightarrow> edits_owe ids C"
  by (rule edits_owe_view [OF setOpen_view [OF assms]])

text \<open>Settling what is owed.\<close>

lemma settle_owed:
  assumes "edits_owe ids C" and "map fst ends = owed" and "mset ids = mset owed + mset rest"
  shows "edits_owe rest (settleEdits ends C)"
proof -
  have all: "mset (pendingEdits C) + mset ids + mset (map fst (settledEdits C)) = mset [0..<nextEdit C]"
    and fly: "mset (editsInFlight C) = mset (pendingEdits C) + mset ids" using assms(1) by (simp_all add: edits_owe_def)
  have ends: "fst ` set ends = set owed" using assms(2) by (metis list.set_map)
  have dist: "distinct (pendingEdits C @ owed @ rest @ map fst (settledEdits C))"
    by (rule mset_eq_imp_distinct_iff [THEN iffD2, of _ "[0..<nextEdit C]"]) (use all assms(3) in \<open>simp_all add: ac_simps\<close>)
  have keep: "filter (\<lambda>i. i \<notin> set owed) (pendingEdits C @ owed @ rest) = pendingEdits C @ rest"
  proof -
    have "filter (\<lambda>i. i \<notin> set owed) (pendingEdits C) = pendingEdits C" "filter (\<lambda>i. i \<notin> set owed) rest = rest"
      using dist by (auto intro!: filter_True)
    moreover have "filter (\<lambda>i. i \<notin> set owed) owed = []" by (simp add: filter_empty_conv)
    ultimately show ?thesis by simp
  qed
  have "mset (filter (\<lambda>i. i \<notin> set owed) (editsInFlight C)) = filter_mset (\<lambda>i. i \<notin> set owed) (mset (pendingEdits C @ owed @ rest))"
    using fly assms(3) by (simp add: mset_filter)
  then have "mset (filter (\<lambda>i. i \<notin> set owed) (editsInFlight C)) = mset (pendingEdits C) + mset rest"
    using keep by (metis mset_append mset_filter)
  moreover have "pendingEdits (settleEdits ends C) = pendingEdits C" by (simp add: pendingEdits_def settleEdits_def split: option.split)
  ultimately show ?thesis
    using assms unfolding edits_owe_def by (simp add: settleEdits_def ends ac_simps)
qed

lemma map_fst_unavailable [simp]: "map fst (unavailable es) = map editId es"
  by (simp add: unavailable_def comp_def)

lemma unload_owes:
  assumes "edits_owe ids C" and "unload C = (unwritten, C')"
  shows "edits_owe (map editId unwritten @ ids) C'" and "current C' = None"
proof -
  have "edits_owe (map editId unwritten @ ids) C' \<and> current C' = None"
  proof (cases "current C")
    case None
    then have "unwritten = []" "C' = announceDirty C" using assms(2) by (simp_all add: unload_def)
    then show ?thesis using assms(1) None by (simp add: edit_frames) (simp add: announceDirty_def)
  next
    case (Some n)
    then have un: "unwritten = queued (open_at C n)" and C': "C' = announceDirty ((unhold n C)\<lparr>current := None\<rparr>)"
      using assms(2) by (auto simp: unload_def)
    have "edits_owe ids (unhold n C)" using assms(1) by (simp add: edit_frames)
    moreover have n: "n < length (opens C)" using assms(1) Some by (simp add: edits_owe_def)
    then have "queued (open_at (unhold n C) n) = unwritten" by (simp add: un unhold_def open_at_setOpen)
    moreover have "current (unhold n C) = Some n" using Some by (simp add: unhold_def)
    ultimately have "edits_owe (map editId unwritten @ ids) ((unhold n C)\<lparr>current := None\<rparr>)"
      by (simp add: edits_owe_def pendingEdits_def ac_simps)
    then show ?thesis unfolding C' by (simp add: edit_frames) (simp add: announceDirty_def)
  qed
  then show "edits_owe (map editId unwritten @ ids) C'" and "current C' = None" by blast+
qed

lemma unloadSettled_owes: "edits_owe ids C \<Longrightarrow> edits_owe ids (unloadSettled C)"
  unfolding unloadSettled_def
  by (cases "unload C") (auto intro!: settle_owed [OF unload_owes(1)])

lemma dropDocument_owes: "edits_owe ids C \<Longrightarrow> edits_owe ids (dropDocument C)"
  unfolding dropDocument_def
  by (cases "unload C") (auto simp: edit_frames intro!: settle_owed dest: unload_owes(1))

lemma settleAnswer_owes: "edits_owe ids C \<Longrightarrow> edits_owe ids (settleAnswer E n received a C)"
  by (auto simp: settleAnswer_def Let_def edit_frames edits_owe_setOpen intro!: dropDocument_owes split: option.split)

lemma settleRequest_owes: "edits_owe ids C \<Longrightarrow> edits_owe ids (settleRequest E n answer a C)"
  by (auto simp: settleRequest_def Let_def edit_frames intro!: settleAnswer_owes)

subsection \<open>Batches\<close>

lemma length_merge_outcomes [simp]: "length (merge_outcomes lost outs) = length lost"
  by (induction lost outs rule: merge_outcomes.induct) auto

lemma length_writesDropped [simp]: "length (writesDropped E batch lost) = length batch"
  by (auto simp: writesDropped_def Let_def split: option.split list.split)

definition batch_end_fits :: "'n copy_edit list \<Rightarrow> batch_end \<Rightarrow> bool" where
  "batch_end_fits batch res \<longleftrightarrow> (case res of BatchOutcomes outs \<Rightarrow> length outs = length batch | _ \<Rightarrow> True)"

lemma batch_settlements_ids: "batch_end_fits batch res \<Longrightarrow> map fst (batch_settlements batch res) = map editId batch"
  by (cases res) (simp_all add: batch_settlements_def batch_end_fits_def comp_def)

lemma rebase_edits [simp]: "queued (rebase batch res P) = queued P" "sending (rebase batch res P) = sending P"
  by (auto simp: rebase_def Let_def split: option.split batch_end.split)

lemma concat_update:
  "n < length xs \<Longrightarrow> mset (concat (map f (xs[n := y]))) + mset (f (xs ! n)) = mset (concat (map f xs)) + mset (f y)"
  by (induction xs arbitrary: n) (auto simp: less_Suc_eq_0_disj ac_simps)

lemma endBatch_owes:
  assumes "edits_owe ids C" and n: "n < length (opens C)" and "batch_end_fits (sending (open_at C n)) res"
  shows "edits_owe ids (endBatch E n res answer C)"
proof -
  let ?batch = "sending (open_at C n)" and ?f = "\<lambda>P. rebase (sending (open_at C n)) res (P\<lparr>sending := [], sendingWrite := None, batchBase := None\<rparr>)"
  have moved: "mset (pendingEdits (setOpen n ?f C)) + mset (map editId ?batch) = mset (pendingEdits C)"
  proof -
    have "mset (concat (map (\<lambda>P. map editId (sending P)) ((opens C)[n := ?f (open_at C n)]))) + mset (map editId ?batch) =
        mset (concat (map (\<lambda>P. map editId (sending P)) (opens C)))"
      using concat_update [OF n, of "\<lambda>P. map editId (sending P)" "?f (open_at C n)"] by simp
    moreover have "queued (open_at (setOpen n ?f C) m) = queued (open_at C m)" if "m < length (opens C)" for m
      using that by (simp add: open_at_setOpen)
    ultimately show ?thesis using assms(1)
      by (auto simp: pendingEdits_def setOpen_def edits_owe_def ac_simps split: option.splits)
  qed
  have "edits_owe (map editId ?batch @ ids) (setOpen n ?f C)"
    using assms(1) moved [symmetric] by (auto simp: edits_owe_def ac_simps)
  then have "edits_owe (map editId ?batch @ ids) (fireChange (settleRequest E n answer False (setOpen n ?f C)))"
    by (simp add: edit_frames settleRequest_owes)
  then show ?thesis unfolding endBatch_def Let_def
    by (rule settle_owed [OF _ batch_settlements_ids [OF assms(3)]]) simp
qed

lemma batch_taken_owes:
  assumes ok: "edits_owe ids C" and n: "current C = Some n" and empty: "sending (open_at C n) = []"
  shows "edits_owe ids (setOpen n (\<lambda>P. P\<lparr>sending := queued P, queued := [], writeBase := None, batchBase := writeBase P\<rparr>) C)"
proof -
  let ?f = "\<lambda>P. P\<lparr>sending := queued P, queued := [], writeBase := None, batchBase := writeBase P\<rparr>"
  have len: "n < length (opens C)" using ok n by (simp add: edits_owe_def)
  have "mset (pendingEdits (setOpen n ?f C)) = mset (pendingEdits C)"
    using concat_update [OF len, of "\<lambda>P. map editId (sending P)" "?f (open_at C n)"] n len empty
    by (simp add: pendingEdits_def setOpen_def ac_simps)
  then show ?thesis using ok by (simp add: edits_owe_def)
qed

lemma startBatch_cases:
  "startBatch E n C = C \<or> (\<exists>res. startBatch E n C = endBatch E n res None C \<and> batch_end_fits (sending (open_at C n)) res)"
proof (cases "batchBase (open_at C n)")
  case None
  then show ?thesis by (auto simp: startBatch_def batch_end_fits_def intro: exI [of _ BatchNone])
next
  case (Some b)
  let ?outs = "BatchOutcomes (merge_outcomes (writesDropped E (sending (open_at C n)) (dropped b)) [])"
  have "startBatch E n C \<in> {C, endBatch E n (BatchThrew ''change'') None C, endBatch E n ?outs None C}"
    by (simp add: startBatch_def Some Let_def split: option.split)
  then show ?thesis by (auto simp: batch_end_fits_def intro: exI [of _ "BatchThrew ''change''"] exI [of _ ?outs])
qed

lemma startBatch_owes: "edits_owe ids C \<Longrightarrow> n < length (opens C) \<Longrightarrow> edits_owe ids (startBatch E n C)"
  using startBatch_cases [of E n C] endBatch_owes by metis

lemma length_requestOut [simp]: "length (opens (requestOut n C)) = length (opens C)"
  by (simp add: requestOut_def)

lemma writeTurn_owes:
  assumes ok: "edits_owe ids C" and run: "writeTurn E n C = Some C'"
  shows "edits_owe ids C'"
proof -
  have g: "n < length (opens C)" "sending (open_at C n) = []" using run by (auto simp: writeTurn_def split: if_splits)
  show ?thesis
  proof (cases "queued (open_at C n) = [] \<or> current C \<noteq> Some n")
    case True
    then have "C' = announceDirty (setOpen n (\<lambda>P. P\<lparr>writing := False, sending := [], sendingWrite := None\<rparr>) C)"
      using run by (auto simp: writeTurn_def split: if_splits)
    moreover have "edit_view (setOpen n (\<lambda>P. P\<lparr>writing := False, sending := [], sendingWrite := None\<rparr>) C) = edit_view C"
      using g by (simp add: edit_view_def setOpen_def map_update list_update_same_conv)
    ultimately show ?thesis using ok edits_owe_view announceDirty_view by metis
  next
    case False
    then have "C' = startBatch E n (requestOut n (setOpen n (\<lambda>P. P\<lparr>sending := queued P, queued := [], writeBase := None, batchBase := writeBase P\<rparr>) C))"
      using run g by (simp add: writeTurn_def split: if_splits)
    then show ?thesis using batch_taken_owes [OF ok _ g(2)] False g(1) by (auto simp: edit_frames intro!: startBatch_owes)
  qed
qed

subsection \<open>Every operation\<close>

lemma edit_owes:
  assumes ok: "edits_owe ids C" and run: "edit E f C = Inr (i, C')"
  shows "edits_owe ids C'"
proof -
  obtain n m where n: "current C = Some n" "model (snapshot (open_at C n)) = Some m"
    using run by (auto simp: edit_def split: if_splits option.splits)
  then have len: "n < length (opens C)" using ok by (simp add: edits_owe_def)
  let ?C1 = "setOpen n (\<lambda>P. P\<lparr>writeBase := Some (case writeBase P of Some b \<Rightarrow> b | None \<Rightarrow> base_on E P m),
      queued := queued P @ [\<lparr>editId = nextEdit C, change = f\<rparr>]\<rparr>) C"
  have C': "C' = setOpen n (\<lambda>P. P\<lparr>writing := True\<rparr>)
      (fireChange (announceDirty (?C1\<lparr>nextEdit := nextEdit C + 1, editsInFlight := editsInFlight ?C1 @ [nextEdit C]\<rparr>)))"
    using run n by (auto simp: edit_def Let_def split: if_splits)
  have "mset (pendingEdits ?C1) = mset (pendingEdits C) + {#nextEdit C#}"
  proof -
    have "map (\<lambda>P. map editId (sending P)) (opens ?C1) = map (\<lambda>P. map editId (sending P)) (opens C)"
      using len by (simp add: setOpen_def map_update list_update_same_conv)
    then show ?thesis using n(1) len by (simp add: pendingEdits_def) (simp add: open_at_setOpen)
  qed
  moreover have "pendingEdits (?C1\<lparr>nextEdit := k, editsInFlight := fs\<rparr>) = pendingEdits ?C1" for k fs
    by (simp add: pendingEdits_def split: option.split)
  ultimately have "edits_owe ids (?C1\<lparr>nextEdit := nextEdit C + 1, editsInFlight := editsInFlight ?C1 @ [nextEdit C]\<rparr>)"
    using ok by (simp add: edits_owe_def ac_simps)
  then show ?thesis unfolding C' by (simp add: edit_frames edits_owe_setOpen)
qed

lemma loadAnswered_owes:
  assumes "edits_owe ids C" and "current C = None"
  shows "edits_owe ids (loadAnswered l ended answer C)"
proof -
  have new: "edits_owe ids (C\<lparr>heardWhileLoading := None, opens := opens C @ [new_open d], current := Some (length (opens C))\<rparr>)" for d
    using assms by (simp add: edits_owe_def pendingEdits_def new_open_def)
  show ?thesis using assms(1) new
    by (auto simp: loadAnswered_def loadEnds_def loadFails_def Let_def edit_frames intro!: unloadSettled_owes split: option.split)
qed

lemma handleRestored_owes: "edits_owe ids C \<Longrightarrow> edits_owe ids (handleDocumentRestored E u reopened document C)"
  by (auto simp: handleDocumentRestored_def reread_def Let_def edit_frames edits_owe_setOpen intro!: dropDocument_owes split: option.split)

lemma copy_step_owes:
  assumes ok: "edits_owe ids C" and step: "copy_step E op C = Some C'"
  shows "edits_owe ids C'"
proof (cases op)
  case (CpWriteAnswered n result)
  then show ?thesis using step ok
    by (auto simp: writeAnswered_def batch_end_fits_def split: if_splits option.splits sum.splits intro!: endBatch_owes)
next
  case (CpLoadAnswered l ended answer)
  then show ?thesis using step loadAnswered_owes [OF ok] by (auto split: if_splits)
next
  case (CpWriteTurn n)
  then show ?thesis using step writeTurn_owes [OF ok] by simp
next
  case (CpEdit f)
  then show ?thesis using step edit_owes [OF ok] by (auto split: sum.splits)
next
  case (CpRegistered e reconnected)
  then show ?thesis using step ok
    by (auto simp: handleRegistered_def Let_def edit_frames edits_owe_setOpen split: option.splits if_splits)
next
  case (CpOnWrite n w)
  then show ?thesis using step ok by (auto simp: onWrite_def edits_owe_setOpen split: if_splits)
next
  case (CpWriteLanded n sent answer v)
  then show ?thesis using step ok by (auto simp: writeLanded_def Let_def edits_owe_setOpen split: if_splits option.splits)
next
  case (CpDispose)
  then show ?thesis using step ok by (auto simp: disposeCopy_def edit_frames edits_owe_setOpen split: option.splits)
next
  case (CpHoldTimer n)
  then show ?thesis using step ok by (auto simp: holdTimerFires_def edit_frames split: option.splits if_splits)
next
  case (CpSave n idle may)
  then show ?thesis using step ok by (auto simp: saveOnce_def edit_frames split: option.splits if_splits sum.splits prod.splits)
qed (use step ok handleRestored_owes in
    \<open>auto simp: openCopy_def loadedAgain_def readFailed_def loadEnds_def loadFails_def handleDocumentUpdated_def heard_def
      handleDocumentDeleted_def handleDirtyChanged_def reread_def closeCopy_def closeAfter_def Let_def edit_frames
      settleRequest_owes unloadSettled_owes dropDocument_owes split: if_splits option.splits\<close>)

end
