(* ===== verification/CopyState.thy ===== *)
theory CopyState
  imports CopyEdits
begin

section \<open>The dirty flag of a working copy\<close>

text \<open>The announcements alternate, and while the copy announces, their parity is the flag announced last.\<close>

definition heard_ok :: "'n working_copy \<Rightarrow> bool" where
  "heard_ok C \<longleftrightarrow>
     (\<forall>i < length (dirtyChanges C). dirtyChanges C ! i \<longleftrightarrow> even i) \<and>
     (\<not> disposed C \<longrightarrow> (announcedDirty C \<longleftrightarrow> odd (length (dirtyChanges C))))"

definition told :: "'n working_copy \<Rightarrow> bool" where
  "told C \<longleftrightarrow> settling C = 0 \<and> heard_ok C \<and> announcedDirty C = copy_dirty C"

definition dirty_view :: "'n working_copy \<Rightarrow> bool \<times> nat \<times> bool \<times> bool list \<times> bool" where
  "dirty_view C = (copy_dirty C, settling C, announcedDirty C, dirtyChanges C, disposed C)"

lemma told_view: "dirty_view C' = dirty_view C \<Longrightarrow> told C' \<longleftrightarrow> told C"
  by (simp add: dirty_view_def told_def heard_ok_def)

lemma copy_dirty_setOpen:
  assumes "\<And>P. serverDirty (f P) = serverDirty P \<and> queued (f P) = queued P \<and> sending (f P) = sending P"
  shows "copy_dirty (setOpen n f C) = copy_dirty C"
proof (cases "current C")
  case (Some m)
  then show ?thesis using assms by (cases "n = m"; cases "n < length (opens C)") (simp_all add: copy_dirty_def setOpen_def list_update_beyond)
qed (simp add: copy_dirty_def)

lemma told_setOpen:
  assumes "\<And>P. serverDirty (f P) = serverDirty P \<and> queued (f P) = queued P \<and> sending (f P) = sending P"
  shows "told (setOpen n f C) \<longleftrightarrow> told C"
  by (rule told_view) (simp add: dirty_view_def copy_dirty_setOpen [OF assms])

named_theorems dirty_frames \<open>operations that leave the dirty flag alone\<close>

lemma told_frames [dirty_frames]:
  "told (fireChange C) \<longleftrightarrow> told C" "told (settleEdits ends C) \<longleftrightarrow> told C"
  by (rule told_view, simp add: dirty_view_def fireChange_def settleEdits_def copy_dirty_def split: option.split)+

lemma told_open_frames [dirty_frames]:
  "told (hold n d C) \<longleftrightarrow> told C" "told (unhold n C) \<longleftrightarrow> told C" "told (requestOut n C) \<longleftrightarrow> told C"
  unfolding hold_def unhold_def requestOut_def by (rule told_setOpen, simp)+

lemma told_fields [dirty_frames]:
  "told (C\<lparr>openingLoad := l\<rparr>) \<longleftrightarrow> told C" "told (C\<lparr>sessionCloses := c\<rparr>) \<longleftrightarrow> told C"
  "told (C\<lparr>heardWhileLoading := u\<rparr>) \<longleftrightarrow> told C" "told (C\<lparr>openAbandoned := b\<rparr>) \<longleftrightarrow> told C"
  "told (C\<lparr>registeredEpoch := e\<rparr>) \<longleftrightarrow> told C" "told (C\<lparr>closing := b\<rparr>) \<longleftrightarrow> told C" "told (C\<lparr>nextLoad := m\<rparr>) \<longleftrightarrow> told C"
  by (rule told_view, simp add: dirty_view_def copy_dirty_def split: option.split)+

lemma adopted_dirty: "copy_dirty (setOpen n (\<lambda>_. (open_at C n)\<lparr>snapshot := d, snapshotUnderWrite := b\<rparr>) C) = copy_dirty C"
proof (cases "current C")
  case (Some m)
  then show ?thesis by (cases "n = m"; cases "n < length (opens C)") (simp_all add: copy_dirty_def setOpen_def list_update_beyond)
qed (simp add: copy_dirty_def)

lemma adopt_told [dirty_frames]: "told (adopt E n d a C) \<longleftrightarrow> told C"
proof -
  have "told (setOpen n (\<lambda>_. (open_at C n)\<lparr>snapshot := d, snapshotUnderWrite := b\<rparr>) C) \<longleftrightarrow> told C" for b
    by (intro told_view) (simp add: dirty_view_def adopted_dirty)
  then show ?thesis by (simp add: adopt_def Let_def dirty_frames)
qed

subsection \<open>While a request is being settled\<close>

definition listening :: "nat \<Rightarrow> 'n working_copy \<Rightarrow> bool" where
  "listening k C \<longleftrightarrow> settling C = k \<and> heard_ok C"

lemma told_listening: "told C \<Longrightarrow> listening 0 C"
  by (simp add: told_def listening_def)

lemma announceDirty_listening: "listening k C \<Longrightarrow> listening k (announceDirty C)"
  by (auto simp: listening_def announceDirty_def heard_ok_def nth_append less_Suc_eq)

lemma announced_flag: "settling C = 0 \<Longrightarrow> announcedDirty (announceDirty C) = copy_dirty (announceDirty C)"
  by (auto simp: announceDirty_def copy_dirty_def split: option.split)

lemma announceDirty_told: "listening 0 C \<Longrightarrow> told (announceDirty C)"
  using announceDirty_listening [of 0 C] announced_flag [of C] by (simp add: told_def listening_def)

lemma listening_frames [dirty_frames]:
  "listening k (setOpen n f C) \<longleftrightarrow> listening k C" "listening k (fireChange C) \<longleftrightarrow> listening k C"
  "listening k (hold n d C) \<longleftrightarrow> listening k C" "listening k (unhold n C) \<longleftrightarrow> listening k C"
  "listening k (requestOut n C) \<longleftrightarrow> listening k C" "listening k (settleEdits ends C) \<longleftrightarrow> listening k C"
  "listening k (C\<lparr>current := m\<rparr>) \<longleftrightarrow> listening k C" "listening k (C\<lparr>openingLoad := l\<rparr>) \<longleftrightarrow> listening k C"
  "listening k (C\<lparr>sessionCloses := c\<rparr>) \<longleftrightarrow> listening k C" "listening k (C\<lparr>nextEdit := i\<rparr>) \<longleftrightarrow> listening k C"
  "listening k (C\<lparr>editsInFlight := fs\<rparr>) \<longleftrightarrow> listening k C" "listening k (adopt E n d a C) \<longleftrightarrow> listening k C"
  "listening k (C\<lparr>opens := os\<rparr>) \<longleftrightarrow> listening k C" "listening k (C\<lparr>heardWhileLoading := u\<rparr>) \<longleftrightarrow> listening k C"
  by (simp_all add: listening_def heard_ok_def fireChange_def hold_def unhold_def requestOut_def settleEdits_def adopt_def Let_def)

lemma takeDirty_listening: "listening k C \<Longrightarrow> listening k (takeDirty n t a C)"
  by (auto simp: takeDirty_def Let_def dirty_frames intro!: announceDirty_listening split: option.split)

lemma takeDirty_told: "told C \<Longrightarrow> told (takeDirty n t a C)"
  by (auto simp: takeDirty_def Let_def dirty_frames told_listening intro!: announceDirty_told split: option.split)

lemma offer_listening: "listening k C \<Longrightarrow> listening k (offer E n d a C)"
  by (auto simp: offer_def Let_def dirty_frames takeDirty_listening split: option.split)

lemma offer_told: "told C \<Longrightarrow> told (offer E n d a C)"
  by (auto simp: offer_def Let_def dirty_frames takeDirty_told split: option.split)

lemma unload_listening: "listening k C \<Longrightarrow> listening k (snd (unload C))"
  by (auto simp: unload_def dirty_frames intro!: announceDirty_listening split: option.split)

lemma unload_told: "listening 0 C \<Longrightarrow> told (snd (unload C))"
  by (auto simp: unload_def dirty_frames intro!: announceDirty_told split: option.split)

lemma dropDocument_listening: "listening k C \<Longrightarrow> listening k (dropDocument C)"
  using unload_listening [of k C] by (cases "unload C") (simp add: dropDocument_def dirty_frames)

lemma dropDocument_told: "told C \<Longrightarrow> told (dropDocument C)"
  using unload_told [OF told_listening, of C] by (cases "unload C") (simp add: dropDocument_def dirty_frames)

lemma unloadSettled_told: "told C \<Longrightarrow> told (unloadSettled C)"
  using unload_told [OF told_listening, of C] by (cases "unload C") (simp add: unloadSettled_def dirty_frames)

lemma settleAnswer_listening: "listening k C \<Longrightarrow> listening k (settleAnswer E n received a C)"
  by (auto simp: settleAnswer_def Let_def dirty_frames intro!: dropDocument_listening offer_listening split: option.split)

lemma settleRequest_told:
  assumes "told C \<or> current C = Some n \<and> listening 0 C"
  shows "told (settleRequest E n answer a C)"
proof (cases "current C = Some n")
  case True
  let ?D = "settleAnswer E n answer a (C\<lparr>settling := settling C + 1\<rparr>)"
  have "listening 1 (C\<lparr>settling := settling C + 1\<rparr>)" using assms told_listening [of C] by (auto simp: listening_def heard_ok_def)
  then have "listening 1 ?D" by (rule settleAnswer_listening)
  then have "listening 0 (?D\<lparr>settling := settling ?D - 1\<rparr>)" by (simp add: listening_def heard_ok_def)
  then show ?thesis using True announceDirty_told by (simp add: settleRequest_def Let_def)
qed (use assms in \<open>simp add: settleRequest_def\<close>)

lemma endBatch_told:
  assumes "told C"
  shows "told (endBatch E n res answer C)"
proof -
  let ?C = "setOpen n (\<lambda>P. rebase (sending (open_at C n)) res (P\<lparr>sending := [], sendingWrite := None, batchBase := None\<rparr>)) C"
  have "told ?C" if "current C \<noteq> Some n"
  proof -
    have "copy_dirty ?C = copy_dirty C" using that by (auto simp: copy_dirty_def setOpen_def split: option.split)
    then show ?thesis using assms by (simp add: told_view [of ?C C] dirty_view_def)
  qed
  then have "told ?C \<or> current ?C = Some n \<and> listening 0 ?C" using told_listening [OF assms] by (auto simp: dirty_frames)
  then show ?thesis by (simp add: endBatch_def Let_def dirty_frames settleRequest_told)
qed

subsection \<open>Every operation\<close>

lemma startBatch_told: "told C \<Longrightarrow> told (startBatch E n C)"
  using startBatch_cases [of E n C] endBatch_told by metis

lemma writeTurn_told:
  assumes told: "told C" and run: "writeTurn E n C = Some C'"
  shows "told C'"
proof (cases "queued (open_at C n) = [] \<or> current C \<noteq> Some n")
  case True
  then show ?thesis using run told_listening [OF told]
    by (auto simp: writeTurn_def dirty_frames intro!: announceDirty_told split: if_splits)
next
  case False
  let ?C = "setOpen n (\<lambda>P. P\<lparr>sending := queued P, queued := [], writeBase := None, batchBase := writeBase P\<rparr>) C"
  have "n < length (opens C)" using run by (auto simp: writeTurn_def split: if_splits)
  then have "copy_dirty ?C = copy_dirty C" using False by (simp add: copy_dirty_def setOpen_def)
  then have "told ?C" using told by (simp add: told_view [of ?C C] dirty_view_def)
  moreover have "C' = startBatch E n (requestOut n ?C)" using run False by (simp add: writeTurn_def split: if_splits)
  ultimately show ?thesis by (simp add: startBatch_told dirty_frames)
qed

lemma edit_told:
  assumes told: "told C" and run: "edit E f C = Inr (i, C')"
  shows "told C'"
proof -
  obtain n where "current C = Some n" using run by (auto simp: edit_def split: if_splits option.splits)
  then show ?thesis using run told_listening [OF told]
    by (auto simp: edit_def Let_def told_setOpen dirty_frames intro!: announceDirty_told split: if_splits option.splits)
qed

lemma loadAnswered_told:
  assumes "told C" and "current C = None"
  shows "told (loadAnswered l ended answer C)"
proof -
  have new: "told (C\<lparr>heardWhileLoading := None, opens := opens C @ [new_open d], current := Some (length (opens C))\<rparr>)" for d
    by (rule told_view [THEN iffD2, OF _ assms(1)]) (use assms(2) in \<open>simp add: dirty_view_def copy_dirty_def new_open_def\<close>)
  show ?thesis using assms(1) new
    by (auto simp: loadAnswered_def loadEnds_def loadFails_def Let_def dirty_frames takeDirty_told intro!: unloadSettled_told split: option.split)
qed

lemma disposeCopy_told:
  assumes "told C"
  shows "told (disposeCopy C)"
proof -
  have "told (C\<lparr>disposed := True\<rparr>)" using assms by (auto simp: told_def heard_ok_def copy_dirty_def split: option.splits)
  then show ?thesis using assms by (simp add: disposeCopy_def told_setOpen split: option.split)
qed

lemma copy_step_told:
  assumes told: "told C" and step: "copy_step E op C = Some C'"
  shows "told C'"
proof (cases op)
  case (CpWriteAnswered n result)
  then show ?thesis using step told by (auto simp: writeAnswered_def endBatch_told split: if_splits option.splits sum.splits)
next
  case (CpLoadAnswered l ended answer)
  then show ?thesis using step loadAnswered_told [OF told] by (auto split: if_splits)
next
  case (CpWriteTurn n)
  then show ?thesis using step writeTurn_told [OF told] by simp
next
  case (CpEdit f)
  then show ?thesis using step edit_told [OF told] by (auto split: sum.splits)
next
  case (CpRegistered e reconnected)
  then show ?thesis using step told
    by (auto simp: handleRegistered_def Let_def dirty_frames told_setOpen split: option.splits if_splits)
next
  case (CpOnWrite n w)
  then show ?thesis using step told by (auto simp: onWrite_def told_setOpen split: if_splits)
next
  case (CpWriteLanded n sent answer v)
  then show ?thesis using step told by (auto simp: writeLanded_def Let_def told_setOpen split: if_splits option.splits)
next
  case CpDispose
  then show ?thesis using step disposeCopy_told [OF told] by simp
next
  case (CpHoldTimer n)
  then show ?thesis using step told by (auto simp: holdTimerFires_def dirty_frames split: option.splits if_splits)
next
  case (CpSave n idle may)
  then show ?thesis using step told by (auto simp: saveOnce_def dirty_frames split: option.splits if_splits sum.splits prod.splits)
next
  case (CpRestored u reopened document)
  then show ?thesis using step told
    by (auto simp: handleDocumentRestored_def reread_def Let_def dirty_frames told_setOpen takeDirty_told dropDocument_told
        split: option.splits if_splits)
qed (use step told in
    \<open>auto simp: openCopy_def loadedAgain_def readFailed_def loadEnds_def loadFails_def handleDocumentUpdated_def heard_def
      handleDocumentDeleted_def handleDirtyChanged_def reread_def closeCopy_def closeAfter_def Let_def dirty_frames
      settleRequest_told unloadSettled_told dropDocument_told takeDirty_told offer_told split: if_splits option.splits\<close>)

end
