(* ===== verification/CopySnapshot.thy ===== *)
theory CopySnapshot
  imports CopyEdits
begin

section \<open>The snapshot of a working copy\<close>

text \<open>
  The open a copy follows: its requests are counted, a document is held only while a request is out, comes from a
  server that reports no writes, and was not built before the snapshot.
\<close>

definition open_ok :: "'n copy_env \<Rightarrow> 'n copy_open \<Rightarrow> bool" where
  "open_ok E P \<longleftrightarrow>
     0 \<le> other_requests P \<and> server_sends E (Some (snapshot P)) \<and>
     (\<forall>h. held P = Some h \<longrightarrow> 0 < snapshotRequests P \<and> \<not> reportsWrites h \<and> server_sends E (Some h) \<and> \<not> builtBefore P h)"

definition follows_ok :: "'n copy_env \<Rightarrow> 'n working_copy \<Rightarrow> bool" where
  "follows_ok E C \<longleftrightarrow> (\<forall>n. current C = Some n \<longrightarrow> n < length (opens C) \<and> open_ok E (open_at C n))"

text \<open>What \<open>follows_ok\<close> reads of the open followed.\<close>

definition open_view :: "'n copy_open \<Rightarrow> bool \<times> int \<times> 'n transfer_document option \<times> 'n transfer_document" where
  "open_view P = (sending P = [], snapshotRequests P, held P, snapshot P)"

definition follow_view :: "'n working_copy \<Rightarrow> (nat \<times> bool \<times> bool \<times> int \<times> 'n transfer_document option \<times> 'n transfer_document) option" where
  "follow_view C = map_option (\<lambda>n. (n, n < length (opens C), open_view (open_at C n))) (current C)"

lemma builtBefore_snapshot: "snapshot P' = snapshot P \<Longrightarrow> builtBefore P' d \<longleftrightarrow> builtBefore P d"
  by (simp add: builtBefore_def split: option.split)

lemma builtBefore_requests [simp]: "builtBefore (P\<lparr>snapshotRequests := k\<rparr>) d \<longleftrightarrow> builtBefore P d"
  by (rule builtBefore_snapshot) simp

lemma open_ok_view:
  assumes "open_view P' = open_view P"
  shows "open_ok E P' \<longleftrightarrow> open_ok E P"
proof -
  have same: "(sending P' = []) = (sending P = [])" "snapshotRequests P' = snapshotRequests P" "held P' = held P" "snapshot P' = snapshot P"
    using assms by (simp_all add: open_view_def)
  show ?thesis by (simp add: open_ok_def other_requests_def same builtBefore_snapshot [OF same(4)])
qed

text \<open>
  \<open>moves E C C'\<close>: the copy still follows well, and where it follows the same open, that open's snapshot is not
  replaced by one built before it.
\<close>

definition moves :: "'n copy_env \<Rightarrow> 'n working_copy \<Rightarrow> 'n working_copy \<Rightarrow> bool" where
  "moves E C C' \<longleftrightarrow>
     follows_ok E C' \<and>
     (\<forall>n. current C = Some n \<and> current C' = Some n \<longrightarrow> \<not> builtBefore (open_at C n) (snapshot (open_at C' n)))"

lemma not_before_itself [simp]: "\<not> builtBefore P (snapshot P)"
  by (simp add: builtBefore_def split: option.split)

lemma follow_viewD:
  assumes "follow_view C' = follow_view C"
  shows "current C' = current C"
    and "current C = Some n \<Longrightarrow> open_view (open_at C' n) = open_view (open_at C n)"
    and "current C = Some n \<Longrightarrow> n < length (opens C') \<longleftrightarrow> n < length (opens C)"
  using assms by (cases "current C"; cases "current C'"; auto simp: follow_view_def)+

lemma follows_view: "follow_view C' = follow_view C \<Longrightarrow> follows_ok E C' \<longleftrightarrow> follows_ok E C"
  using follow_viewD [of C' C] open_ok_view [of _ _ E] unfolding follows_ok_def by metis

lemma moves_view:
  assumes "follow_view C'' = follow_view C'"
  shows "moves E C C'' \<longleftrightarrow> moves E C C'"
proof -
  have "snapshot (open_at C'' n) = snapshot (open_at C' n)" if "current C' = Some n" for n
    using follow_viewD(2) [OF assms that] by (simp add: open_view_def)
  then show ?thesis using follows_view [OF assms] follow_viewD(1) [OF assms] unfolding moves_def by auto
qed

lemma moves_refl: "follows_ok E C \<Longrightarrow> moves E C C"
  by (simp add: moves_def)

lemma moves_away: "current C' = None \<Longrightarrow> moves E C C'"
  by (simp add: moves_def follows_ok_def)

subsection \<open>What leaves the open alone\<close>

named_theorems follow_frames \<open>operations that leave the snapshot and the requests alone\<close>

lemma setOpen_follow:
  assumes "\<And>P. open_view (f P) = open_view P"
  shows "follow_view (setOpen n f C) = follow_view C"
proof (cases "current C")
  case (Some m)
  then show ?thesis using assms
    by (cases "n = m"; cases "n < length (opens C)") (simp_all add: follow_view_def setOpen_def list_update_beyond)
qed (simp add: follow_view_def)

lemma fields_follow [follow_frames]:
  "follow_view (fireChange C) = follow_view C" "follow_view (announceDirty C) = follow_view C"
  "follow_view (settleEdits ends C) = follow_view C" "follow_view (C\<lparr>settling := k\<rparr>) = follow_view C"
  "follow_view (C\<lparr>openingLoad := l\<rparr>) = follow_view C" "follow_view (C\<lparr>sessionCloses := c\<rparr>) = follow_view C"
  "follow_view (C\<lparr>heardWhileLoading := u\<rparr>) = follow_view C" "follow_view (C\<lparr>openAbandoned := b\<rparr>) = follow_view C"
  "follow_view (C\<lparr>registeredEpoch := e\<rparr>) = follow_view C" "follow_view (C\<lparr>closing := b\<rparr>) = follow_view C"
  "follow_view (C\<lparr>disposed := b\<rparr>) = follow_view C" "follow_view (C\<lparr>nextLoad := i\<rparr>) = follow_view C"
  "follow_view (C\<lparr>nextEdit := i\<rparr>) = follow_view C" "follow_view (C\<lparr>editsInFlight := fs\<rparr>) = follow_view C"
  by (simp_all add: follow_view_def fireChange_def announceDirty_def settleEdits_def split: option.split)

lemma takeDirty_follow [follow_frames]: "follow_view (takeDirty n t a C) = follow_view C"
  by (auto simp: takeDirty_def Let_def follow_frames open_view_def intro!: setOpen_follow split: option.split)

lemmas moves_frames = follow_frames [THEN moves_view]
lemmas follows_frames = follow_frames [THEN follows_view]

lemma follow_open:
  assumes "follow_view C' = follow_view C" and "current C = Some n"
  shows "snapshot (open_at C' n) = snapshot (open_at C n)" "held (open_at C' n) = held (open_at C n)"
    "snapshotRequests (open_at C' n) = snapshotRequests (open_at C n)" "sending (open_at C' n) = [] \<longleftrightarrow> sending (open_at C n) = []"
    "current C' = Some n" "n < length (opens C') \<longleftrightarrow> n < length (opens C)"
  using follow_viewD [OF assms(1)] assms(2) by (auto simp: open_view_def)

subsection \<open>Taking a document\<close>

text \<open>An operation on the open followed, seen at that open.\<close>

lemma moves_open:
  assumes "follows_ok E C" and "current C = Some n" and "current C' = Some n" and "n < length (opens C')"
    and "open_ok E (open_at C' n)" and "\<not> builtBefore (open_at C n) (snapshot (open_at C' n))"
  shows "moves E C C'"
  using assms by (simp add: moves_def follows_ok_def)

lemma adopt_at:
  assumes "n < length (opens C)"
  shows "snapshot (open_at (adopt E n d a C) n) = d" "held (open_at (adopt E n d a C) n) = held (open_at C n)"
    "snapshotRequests (open_at (adopt E n d a C) n) = snapshotRequests (open_at C n)"
    "sending (open_at (adopt E n d a C) n) = sending (open_at C n)" "current (adopt E n d a C) = current C"
    "length (opens (adopt E n d a C)) = length (opens C)"
  using assms by (auto simp: adopt_def Let_def fireChange_def open_at_setOpen)

lemma adopt_ok:
  assumes "follows_ok E C" and n: "current C = Some n" and "server_sends E (Some d)" and "held (open_at C n) = None \<or> reportsWrites d"
  shows "follows_ok E (adopt E n d a C)"
proof -
  have len: "n < length (opens C)" and ok: "open_ok E (open_at C n)" using assms by (simp_all add: follows_ok_def)
  have "\<not> builtBefore (open_at (adopt E n d a C) n) h" if "held (open_at C n) = Some h" for h
  proof -
    have "reportsWrites d" "\<not> reportsWrites h" "server_sends E (Some h)" using that assms ok by (auto simp: open_ok_def)
    then have "epoch h \<noteq> epoch d" using assms(3) by (auto simp: server_sends_def)
    then show ?thesis by (auto simp: builtBefore_def adopt_at [OF len] split: option.split)
  qed
  then show ?thesis using ok n assms(3) len by (auto simp: follows_ok_def open_ok_def other_requests_def adopt_at [OF len])
qed

lemma hold_at:
  assumes "n < length (opens C)"
  shows "snapshot (open_at (hold n d C) n) = snapshot (open_at C n)" "held (open_at (hold n d C) n) = Some d"
    "snapshotRequests (open_at (hold n d C) n) = snapshotRequests (open_at C n)"
    "sending (open_at (hold n d C) n) = sending (open_at C n)" "current (hold n d C) = current C"
    "length (opens (hold n d C)) = length (opens C)"
  using assms by (simp_all add: hold_def open_at_setOpen)

lemma hold_ok:
  assumes "follows_ok E C" and n: "current C = Some n" and "server_sends E (Some d)" and "\<not> reportsWrites d"
    and "\<not> builtBefore (open_at C n) d" and "0 < snapshotRequests (open_at C n)"
  shows "follows_ok E (hold n d C)"
proof -
  have len: "n < length (opens C)" using assms by (simp add: follows_ok_def)
  have "builtBefore (open_at (hold n d C) n) d \<longleftrightarrow> builtBefore (open_at C n) d"
    by (rule builtBefore_snapshot) (simp add: hold_at [OF len])
  then show ?thesis using assms len by (auto simp: follows_ok_def open_ok_def other_requests_def hold_at [OF len])
qed

lemma unhold_at:
  assumes "n < length (opens C)"
  shows "snapshot (open_at (unhold n C) n) = snapshot (open_at C n)" "held (open_at (unhold n C) n) = None"
    "snapshotRequests (open_at (unhold n C) n) = snapshotRequests (open_at C n)"
    "sending (open_at (unhold n C) n) = sending (open_at C n)" "current (unhold n C) = current C"
    "length (opens (unhold n C)) = length (opens C)"
  using assms by (simp_all add: unhold_def open_at_setOpen)

lemma unhold_ok:
  assumes "follows_ok E C"
  shows "follows_ok E (unhold n C)"
proof (cases "current C = Some n")
  case True
  then have "n < length (opens C)" using assms by (simp add: follows_ok_def)
  then show ?thesis using True assms by (auto simp: follows_ok_def open_ok_def other_requests_def unhold_at)
next
  case False
  then show ?thesis using assms by (auto simp: follows_ok_def unhold_def open_at_setOpen)
qed

text \<open>
  An offered document is skipped, held, or taken; one taken while another is held comes from a server that
  reports its writes.
\<close>

lemma offer_cases:
  fixes a :: bool
  assumes ok: "follows_ok E C" and n: "current C = Some n" and d: "server_sends E (Some d)"
  defines "C' \<equiv> offer E n d a C"
  shows "follows_ok E C'" and "current C' = Some n"
    and "snapshotRequests (open_at C' n) = snapshotRequests (open_at C n)"
    and "sending (open_at C' n) = [] \<longleftrightarrow> sending (open_at C n) = []"
    and "snapshot (open_at C' n) = snapshot (open_at C n) \<or>
      snapshot (open_at C' n) = d \<and> \<not> builtBefore (open_at C n) d \<and> held (open_at C' n) = held (open_at C n)"
proof -
  let ?C1 = "takeDirty n (textState d) False C"
  have t: "follow_view ?C1 = follow_view C" by (rule takeDirty_follow)
  note at = follow_open [OF t n]
  have len: "n < length (opens C)" and len1: "n < length (opens ?C1)" using ok n at by (simp_all add: follows_ok_def)
  have ok1: "follows_ok E ?C1" using ok by (simp add: follows_view [OF t])
  have before: "builtBefore (open_at ?C1 n) d \<longleftrightarrow> builtBefore (open_at C n) d" by (rule builtBefore_snapshot) (rule at)
  consider "C' = C" | "C' = ?C1"
    | "C' = hold n d ?C1" "0 < snapshotRequests (open_at ?C1 n)" "\<not> reportsWrites d" "\<not> builtBefore (open_at C n) d"
    | "C' = adopt E n d a ?C1" "snapshotRequests (open_at ?C1 n) \<le> 0 \<or> reportsWrites d" "\<not> builtBefore (open_at C n) d"
  proof (cases "builtBefore (open_at C n) d")
    case True
    then have "C' = C" by (simp add: C'_def offer_def)
    then show ?thesis using that(1) by simp
  next
    case False
    show ?thesis
    proof (cases "0 < snapshotRequests (open_at ?C1 n) \<and> \<not> reportsWrites d")
      case True
      then have "C' = ?C1 \<or> C' = hold n d ?C1" using False by (auto simp: C'_def offer_def Let_def split: option.split)
      then show ?thesis using that(2,3) True False by blast
    next
      case no: False
      then have "C' = adopt E n d a ?C1" using False by (auto simp: C'_def offer_def Let_def)
      then show ?thesis using that(4) no False by linarith
    qed
  qed
  then have "follows_ok E C' \<and> current C' = Some n \<and> snapshotRequests (open_at C' n) = snapshotRequests (open_at C n) \<and>
      (sending (open_at C' n) = [] \<longleftrightarrow> sending (open_at C n) = []) \<and>
      (snapshot (open_at C' n) = snapshot (open_at C n) \<or>
       snapshot (open_at C' n) = d \<and> \<not> builtBefore (open_at C n) d \<and> held (open_at C' n) = held (open_at C n))"
  proof cases
    case 3
    then show ?thesis using hold_ok [OF ok1 at(5) d] before at by (simp add: hold_at [OF len1])
  next
    case 4
    have "held (open_at ?C1 n) = None \<or> reportsWrites d"
      using 4(2) ok1 at(5) by (auto simp: follows_ok_def open_ok_def)
    then show ?thesis using adopt_ok [OF ok1 at(5) d] 4 at by (simp add: adopt_at [OF len1])
  qed (use ok ok1 n at in auto)
  then show "follows_ok E C'" and "current C' = Some n"
    and "snapshotRequests (open_at C' n) = snapshotRequests (open_at C n)"
    and "sending (open_at C' n) = [] \<longleftrightarrow> sending (open_at C n) = []"
    and "snapshot (open_at C' n) = snapshot (open_at C n) \<or>
      snapshot (open_at C' n) = d \<and> \<not> builtBefore (open_at C n) d \<and> held (open_at C' n) = held (open_at C n)" by blast+
qed

lemma offer_moves:
  assumes "follows_ok E C" and "current C = Some n" and "server_sends E (Some d)"
  shows "moves E C (offer E n d a C)"
  using offer_cases [OF assms, of a] assms(2) by (auto simp: moves_def)

subsection \<open>Ending a request\<close>

lemma unload_away: "unload C = (unwritten, C') \<Longrightarrow> current C' = None"
  by (auto simp: unload_def announceDirty_def split: option.splits)

lemma dropDocument_away: "current (dropDocument C) = None"
  by (cases "unload C") (auto simp: dropDocument_def settleEdits_def fireChange_def dest: unload_away)

lemma unloadSettled_away: "current (unloadSettled C) = None"
  by (cases "unload C") (auto simp: unloadSettled_def settleEdits_def dest: unload_away)

text \<open>One request less: what is held is dropped or taken once no request needs it held.\<close>

definition answered :: "'n copy_env \<Rightarrow> nat \<Rightarrow> bool \<Rightarrow> 'n working_copy \<Rightarrow> 'n working_copy" where
  "answered E n a C =
     (let C2 = setOpen n (\<lambda>P. P\<lparr>snapshotRequests := snapshotRequests P - 1\<rparr>) C; P = open_at C2 n
      in if snapshotRequests P = 0 \<or> sending P = []
         then (case held P of
                 Some d \<Rightarrow> if sending P = [] then adopt E n d a (unhold n C2) else unhold n C2
               | None \<Rightarrow> unhold n C2)
         else C2)"

lemma settleAnswer_cases:
  assumes "server_sends E received"
  obtains (drop) "current (settleAnswer E n received a C) = None"
  | (kept) "settleAnswer E n received a C = answered E n a C"
  | (offered) d where "settleAnswer E n received a C = answered E n a (offer E n d a C)" "server_sends E (Some d)"
proof -
  define expected where "expected = (case registeredEpoch C of Some e \<Rightarrow> e | None \<Rightarrow> epoch (snapshot (open_at C n)))"
  consider "received = None" | d where "received = Some d" "epoch d \<noteq> expected" | d where "received = Some d" "epoch d = expected"
    by (cases received) auto
  then show thesis
  proof cases
    case 1
    then show ?thesis using kept by (simp add: settleAnswer_def answered_def Let_def)
  next
    case (2 d)
    then show ?thesis using kept by (simp add: settleAnswer_def answered_def Let_def expected_def)
  next
    case (3 d)
    show ?thesis
    proof (cases "isLoaded d")
      case True
      then obtain m where "model d = Some m" by auto
      then have "settleAnswer E n received a C = answered E n a (offer E n d a C)"
        using 3 by (simp add: settleAnswer_def answered_def Let_def expected_def)
      then show ?thesis using offered assms 3 by blast
    next
      case False
      then have "current (settleAnswer E n received a C) = None"
        using 3 by (simp add: settleAnswer_def Let_def expected_def dropDocument_away)
      then show ?thesis by (rule drop)
    qed
  qed
qed

lemma answered_moves:
  assumes ok: "follows_ok E C" and n: "current C = Some n" and out: "0 < other_requests (open_at C n)"
  shows "moves E C (answered E n a C)" and "snapshot (open_at (answered E n a C) n) = snapshot (open_at C n) \<or>
    held (open_at C n) = Some (snapshot (open_at (answered E n a C) n))"
proof -
  let ?C2 = "setOpen n (\<lambda>P. P\<lparr>snapshotRequests := snapshotRequests P - 1\<rparr>) C"
  have len: "n < length (opens C)" and P: "open_ok E (open_at C n)" using ok n by (simp_all add: follows_ok_def)
  have len2: "n < length (opens ?C2)" using len by simp
  have at: "open_at ?C2 n = (open_at C n)\<lparr>snapshotRequests := snapshotRequests (open_at C n) - 1\<rparr>"
    using len by (simp add: open_at_setOpen)
  let ?quiet = "snapshotRequests (open_at C n) = 1 \<or> sending (open_at C n) = []"
  have un: "follows_ok E (unhold n ?C2)"
    using n len P out by (auto simp: follows_ok_def open_ok_def unhold_at [OF len2] at other_requests_def split: if_splits)
  have keep: "follows_ok E ?C2" if "\<not> ?quiet"
    using that n len P out
    by (auto simp: follows_ok_def open_ok_def at other_requests_def)
  consider "answered E n a C = ?C2" "\<not> ?quiet" | "answered E n a C = unhold n ?C2"
    | d where "answered E n a C = adopt E n d a (unhold n ?C2)" "held (open_at C n) = Some d"
    by (cases "held (open_at C n)"; cases "sending (open_at C n) = []"; cases "snapshotRequests (open_at C n) = 1")
      (auto simp: answered_def Let_def at)
  then have "moves E C (answered E n a C) \<and> (snapshot (open_at (answered E n a C) n) = snapshot (open_at C n) \<or>
    held (open_at C n) = Some (snapshot (open_at (answered E n a C) n)))"
  proof cases
    case 1
    then show ?thesis using keep n by (simp add: moves_def at)
  next
    case 2
    then show ?thesis using un n by (simp add: moves_def unhold_at [OF len2] at)
  next
    case (3 d)
    have d: "server_sends E (Some d)" "\<not> builtBefore (open_at C n) d" using 3(2) P by (auto simp: open_ok_def)
    have c: "current (unhold n ?C2) = Some n" "n < length (opens (unhold n ?C2))" "held (open_at (unhold n ?C2) n) = None"
      using n len by (simp_all add: unhold_at [OF len2])
    have "follows_ok E (adopt E n d a (unhold n ?C2))" by (rule adopt_ok [OF un c(1) d(1)]) (simp add: c(3))
    then show ?thesis using 3 d n c by (simp add: moves_def adopt_at [OF c(2)])
  qed
  then show "moves E C (answered E n a C)" and "snapshot (open_at (answered E n a C) n) = snapshot (open_at C n) \<or>
    held (open_at C n) = Some (snapshot (open_at (answered E n a C) n))" by blast+
qed

lemma settleAnswer_moves:
  assumes ok: "follows_ok E C" and n: "current C = Some n" and out: "0 < other_requests (open_at C n)"
    and server: "server_sends E received"
  shows "moves E C (settleAnswer E n received a C)"
proof -
  show ?thesis
  using server
  proof (cases rule: settleAnswer_cases [where n = n and a = a and C = C])
    case drop
    then show ?thesis by (rule moves_away)
  next
    case kept
    then show ?thesis using answered_moves(1) [OF ok n out] by simp
  next
    case (offered d)
    let ?C1 = "offer E n d a C"
    note o = offer_cases [OF ok n offered(2), of a]
    have out1: "0 < other_requests (open_at ?C1 n)" using out o(3,4) by (simp add: other_requests_def)
    note ans = answered_moves [OF o(1,2) out1, of a]
    have P: "open_ok E (open_at C n)" using ok n by (simp add: follows_ok_def)
    have h1: "\<not> builtBefore (open_at ?C1 n) h" if "held (open_at ?C1 n) = Some h" for h
      using o(1,2) that by (simp add: follows_ok_def open_ok_def)
    have "\<not> builtBefore (open_at C n) (snapshot (open_at (answered E n a ?C1) n))"
      if "held (open_at ?C1 n) = Some (snapshot (open_at (answered E n a ?C1) n))"
      using h1 [OF that] o(5) that P builtBefore_snapshot [of "open_at ?C1 n" "open_at C n"] unfolding open_ok_def by metis
    moreover have "\<not> builtBefore (open_at C n) (snapshot (open_at ?C1 n))" using o(5) by auto
    ultimately have "\<not> builtBefore (open_at C n) (snapshot (open_at (answered E n a ?C1) n))" using ans(2) by metis
    then show ?thesis using ans(1) offered(1) n by (auto simp: moves_def)
  qed
qed

lemma moves_from: "follow_view C' = follow_view C \<Longrightarrow> moves E C' D \<longleftrightarrow> moves E C D"
proof -
  assume view: "follow_view C' = follow_view C"
  have "builtBefore (open_at C' n) d \<longleftrightarrow> builtBefore (open_at C n) d" if "current C = Some n" for n d
    by (rule builtBefore_snapshot) (rule follow_open(1) [OF view that])
  then show ?thesis using follow_viewD(1) [OF view] by (auto simp: moves_def)
qed

lemma settleRequest_moves:
  assumes ok: "follows_ok E C" and out: "request_out n C" and server: "server_sends E received"
  shows "moves E C (settleRequest E n received a C)"
proof (cases "current C = Some n")
  case True
  let ?C = "C\<lparr>settling := settling C + 1\<rparr>"
  have "moves E ?C (settleAnswer E n received a ?C)"
    by (rule settleAnswer_moves) (use True out ok server in \<open>simp_all add: follows_frames request_out_def\<close>)
  then show ?thesis using True by (simp add: settleRequest_def Let_def moves_frames moves_from [OF follow_frames(4)])
qed (simp add: settleRequest_def moves_refl ok)

subsection \<open>Every operation\<close>

lemma moves_same_snapshot:
  assumes "current C' = current C" and "\<And>n. current C = Some n \<Longrightarrow> snapshot (open_at C' n) = snapshot (open_at C n)"
  shows "moves E C' D \<longleftrightarrow> moves E C D"
proof -
  have "builtBefore (open_at C' n) d \<longleftrightarrow> builtBefore (open_at C n) d" if "current C = Some n" for n d
    by (rule builtBefore_snapshot) (rule assms(2) [OF that])
  then show ?thesis using assms(1) by (auto simp: moves_def)
qed

lemma moves_kept:
  assumes "follows_ok E C'" and "current C' = current C" and "\<And>n. current C = Some n \<Longrightarrow> snapshot (open_at C' n) = snapshot (open_at C n)"
  shows "moves E C C'"
  using moves_same_snapshot [OF assms(2,3), of E C'] moves_refl [OF assms(1)] by simp

lemma requestOut_at [simp]:
  "current (requestOut n C) = current C" "snapshot (open_at (requestOut n C) m) = snapshot (open_at C m)"
  by (cases "n = m"; cases "n < length (opens C)"; simp add: requestOut_def setOpen_def list_update_beyond)+

lemma requestOut_ok: "follows_ok E C \<Longrightarrow> follows_ok E (requestOut n C)"
  by (auto simp: follows_ok_def requestOut_def open_at_setOpen open_ok_def other_requests_def)

lemma requestOut_moves: "moves E C D \<Longrightarrow> moves E C (requestOut n D)"
  using requestOut_ok [of E D n] by (simp add: moves_def)

lemma rebase_view [simp]: "snapshot (rebase batch res P) = snapshot P" "held (rebase batch res P) = held P"
  "snapshotRequests (rebase batch res P) = snapshotRequests P"
  by (auto simp: rebase_def Let_def split: option.split batch_end.split)

lemma endBatch_moves:
  assumes ok: "follows_ok E C" and n: "n < length (opens C)" and out: "sending (open_at C n) \<noteq> []" and server: "server_sends E answer"
  shows "moves E C (endBatch E n res answer C)"
proof -
  let ?C = "setOpen n (\<lambda>P. rebase (sending (open_at C n)) res (P\<lparr>sending := [], sendingWrite := None, batchBase := None\<rparr>)) C"
  have at: "open_at ?C n = rebase (sending (open_at C n)) res ((open_at C n)\<lparr>sending := [], sendingWrite := None, batchBase := None\<rparr>)"
    using n by (simp add: open_at_setOpen)
  have snap: "snapshot (open_at ?C m) = snapshot (open_at C m)" if "current C = Some m" for m
    using ok that by (simp add: follows_ok_def open_at_setOpen)
  have "open_ok E (open_at ?C m)" if "current C = Some m" for m
  proof (cases "m = n")
    case True
    then have "open_ok E (open_at C n)" using ok that by (simp add: follows_ok_def)
    then show ?thesis using True out builtBefore_snapshot [of "open_at ?C n" "open_at C n"] snap that
      by (auto simp: open_ok_def other_requests_def at)
  qed (use ok that in \<open>simp add: follows_ok_def open_at_setOpen\<close>)
  then have ok': "follows_ok E ?C" using ok by (simp add: follows_ok_def)
  have "request_out n ?C" using ok out n by (auto simp: request_out_def other_requests_def at follows_ok_def open_ok_def)
  then have "moves E ?C (settleRequest E n answer False ?C)" by (rule settleRequest_moves [OF ok' _ server])
  then have "moves E C (settleRequest E n answer False ?C)" using moves_same_snapshot [of ?C C] snap by simp
  then show ?thesis by (simp add: endBatch_def Let_def moves_frames)
qed

lemma writeTurn_moves:
  assumes ok: "follows_ok E C" and run: "writeTurn E n C = Some C'"
  shows "moves E C C'"
proof -
  have g: "n < length (opens C)" "sending (open_at C n) = []" using run by (auto simp: writeTurn_def split: if_splits)
  show ?thesis
  proof (cases "queued (open_at C n) = [] \<or> current C \<noteq> Some n")
    case True
    let ?C = "setOpen n (\<lambda>P. P\<lparr>writing := False, sending := [], sendingWrite := None\<rparr>) C"
    have "follow_view ?C = follow_view C"
      using g by (cases "current C"; cases "n = the (current C)") (auto simp: follow_view_def setOpen_def open_view_def)
    then have "moves E C ?C" using moves_view moves_refl [OF ok] by blast
    moreover have "C' = announceDirty ?C" using run True by (auto simp: writeTurn_def split: if_splits)
    ultimately show ?thesis by (simp add: moves_frames)
  next
    case False
    let ?C = "requestOut n (setOpen n (\<lambda>P. P\<lparr>sending := queued P, queued := [], writeBase := None, batchBase := writeBase P\<rparr>) C)"
    have n: "current C = Some n" "current ?C = Some n" "n < length (opens ?C)" using False g by (simp_all add: requestOut_def)
    have at: "snapshot (open_at ?C n) = snapshot (open_at C n)" "held (open_at ?C n) = held (open_at C n)"
      "snapshotRequests (open_at ?C n) = snapshotRequests (open_at C n) + 1" "sending (open_at ?C n) = queued (open_at C n)"
      using g by (simp_all add: requestOut_def open_at_setOpen)
    have P: "open_ok E (open_at C n)" using ok n(1) by (simp add: follows_ok_def)
    have "open_ok E (open_at ?C n)"
      unfolding open_ok_def other_requests_def at builtBefore_snapshot [OF at(1)]
      using P False g by (auto simp: open_ok_def other_requests_def)
    then have ok': "follows_ok E ?C" using n by (simp add: follows_ok_def)
    have "moves E ?C (startBatch E n ?C)"
      using startBatch_cases [of E n ?C] endBatch_moves [OF ok' n(3), of None] moves_refl [OF ok'] False at(4)
      by (auto simp: server_sends_def)
    moreover have "moves E ?C D \<longleftrightarrow> moves E C D" for D by (rule moves_same_snapshot) (use n at in auto)
    moreover have "C' = startBatch E n ?C" using run False g by (simp add: writeTurn_def split: if_splits)
    ultimately show ?thesis by simp
  qed
qed

lemma loadEnds_moves:
  assumes "moves E C D"
  shows "moves E C (loadEnds l ended D)"
  using assms by (auto simp: loadEnds_def loadFails_def moves_frames unloadSettled_away intro: moves_away)

lemma loadAnswered_moves:
  assumes "follows_ok E C" and none: "current C = None" and "server_sends E answer"
  shows "moves E C (loadAnswered l ended answer C)"
proof -
  let ?C = "\<lambda>d. takeDirty (length (opens C)) (textState d) False
      (C\<lparr>heardWhileLoading := None, opens := opens C @ [new_open d], current := Some (length (opens C))\<rparr>)"
  have new: "follows_ok E (?C d)" if "answer = Some d" for d
    using assms(3) that by (simp add: follows_frames) (simp add: follows_ok_def open_ok_def new_open_def other_requests_def)
  have any: "moves E C D" if "follows_ok E D" for D using that none by (simp add: moves_def)
  show ?thesis
  proof (cases answer)
    case None
    then show ?thesis using any [OF assms(1)] by (simp add: loadAnswered_def loadFails_def Let_def moves_frames)
  next
    case (Some d)
    have "moves E C (requestOut (length (opens C)) (?C d))" "moves E C (loadEnds l ended (?C d))"
      using any [OF new [OF Some]] requestOut_moves loadEnds_moves by blast+
    then show ?thesis using Some any [OF assms(1)] by (auto simp: loadAnswered_def Let_def loadFails_def moves_frames)
  qed
qed

lemma handleRestored_moves:
  assumes ok: "follows_ok E C" and server: "server_sends E document"
  shows "moves E C (handleDocumentRestored E u reopened document C)"
proof (cases "\<exists>n. current C = Some n \<and> u = copyUri E \<and> reopened")
  case False
  then show ?thesis using ok
    by (auto simp: handleDocumentRestored_def moves_refl dropDocument_away intro: moves_away split: option.split)
next
  case True
  then obtain n where n: "current C = Some n" "u = copyUri E" "reopened" by blast
  then have len: "n < length (opens C)" using ok by (simp add: follows_ok_def)
  let ?C1 = "setOpen n (\<lambda>P. P\<lparr>dirtyVersion := None, dirtyFromEvent := False\<rparr>) (unhold n C)"
  have v1: "follow_view ?C1 = follow_view (unhold n C)" by (rule setOpen_follow) (simp add: open_view_def)
  have ok1: "follows_ok E ?C1" using unhold_ok [OF ok] by (simp add: follows_view [OF v1])
  have c1: "current (unhold n C) = Some n" using n(1) by (simp add: unhold_at [OF len])
  note at1 = follow_open [OF v1 c1, simplified unhold_at [OF len]]
  have same1: "moves E ?C1 D \<longleftrightarrow> moves E C D" for D by (rule moves_same_snapshot) (use n at1 in auto)
  have reread1: "moves E C (reread n ?C1)" using requestOut_moves [of E ?C1 ?C1 n] moves_refl [OF ok1] by (simp add: reread_def same1)
  show ?thesis
  proof (cases document)
    case None
    then show ?thesis using n reread1 by (simp add: handleDocumentRestored_def Let_def)
  next
    case (Some d)
    define r where "r = keep_diagnostics (open_at ?C1 n) d"
    have r: "server_sends E (Some r)" "reportsWrites r = reportsWrites d"
      using server Some by (auto simp: r_def keep_diagnostics_def server_sends_def reportsWrites_def split: option.split)
    show ?thesis
    proof (cases "isLoaded r \<and> \<not> builtBefore (open_at ?C1 n) r")
      case False
      then show ?thesis using n Some reread1 by (cases "model r") (simp_all add: handleDocumentRestored_def Let_def r_def [symmetric])
    next
      case take: True
      let ?C2 = "takeDirty n (textState r) False ?C1"
      have v2: "follow_view ?C2 = follow_view ?C1" by (rule takeDirty_follow)
      note at2 = follow_open [OF v2 at1(5)]
      have ok2: "follows_ok E ?C2" using ok1 by (simp add: follows_view [OF v2])
      have len2: "n < length (opens ?C2)" using at2(6) at1(6) len by (simp add: unhold_at [OF len])
      have nb: "\<not> builtBefore (open_at ?C2 n) r" using take builtBefore_snapshot [OF at2(1)] by blast
      have nb0: "\<not> builtBefore (open_at C n) r" using take builtBefore_snapshot [OF at1(1)] by blast
      have adopted: "moves E C (adopt E n r True ?C2)"
        using adopt_ok [OF ok2 at2(5) r(1), of True] at1(2) at2(2) n nb0 by (simp add: moves_def adopt_at [OF len2])
      then have adopted': "moves E C (reread n (adopt E n r True ?C2))" unfolding reread_def by (rule requestOut_moves)
      have held: "moves E C (reread n (hold n r ?C2))" if "sending (open_at ?C2 n) \<noteq> []" "\<not> reportsWrites r"
      proof -
        have "0 < snapshotRequests (open_at ?C2 n)" using ok2 at2(5) that(1) by (auto simp: follows_ok_def open_ok_def other_requests_def)
        then have "follows_ok E (hold n r ?C2)" by (rule hold_ok [OF ok2 at2(5) r(1) that(2) nb])
        then have "moves E C (hold n r ?C2)" using n at1(1) at2(1,5) by (simp add: moves_def hold_at [OF len2])
        then show ?thesis unfolding reread_def by (rule requestOut_moves)
      qed
      show ?thesis using n Some take adopted adopted' held by (auto simp: handleDocumentRestored_def Let_def r_def [symmetric])
    qed
  qed
qed

lemma holdTimer_moves:
  assumes ok: "follows_ok E C" and run: "holdTimerFires E n C = Some C'"
  shows "moves E C C'"
proof -
  have len: "n < length (opens C)" using run by (auto simp: holdTimerFires_def split: if_splits)
  have un: "moves E C (unhold n C)"
    by (rule moves_kept [OF unhold_ok [OF ok]]) (use ok in \<open>auto simp: unhold_def open_at_setOpen follows_ok_def\<close>)
  consider "C' = unhold n C" | d where "C' = adopt E n d True (unhold n C)" "held (open_at C n) = Some d" "current C = Some n"
    using run by (auto simp: holdTimerFires_def split: if_splits option.splits)
  then show ?thesis
  proof cases
    case (2 d)
    then have d: "server_sends E (Some d)" "\<not> builtBefore (open_at C n) d" using ok by (auto simp: follows_ok_def open_ok_def)
    have c: "current (unhold n C) = Some n" "n < length (opens (unhold n C))" "held (open_at (unhold n C) n) = None"
      using 2 len by (simp_all add: unhold_at [OF len])
    have "follows_ok E C'" unfolding 2(1) by (rule adopt_ok [OF unhold_ok [OF ok] c(1) d(1)]) (simp add: c(3))
    then show ?thesis using d 2 c by (simp add: moves_def adopt_at [OF c(2)])
  qed (use un in simp)
qed

lemma edit_moves:
  assumes ok: "follows_ok E C" and run: "edit E f C = Inr (i, C')"
  shows "moves E C C'"
proof -
  obtain n m where "current C = Some n" "model (snapshot (open_at C n)) = Some m"
    using run by (auto simp: edit_def split: if_splits option.splits)
  then have C': "C' = setOpen n (\<lambda>P. P\<lparr>writing := True\<rparr>)
      (fireChange (announceDirty ((setOpen n (\<lambda>P. P\<lparr>writeBase := Some (case writeBase P of Some b \<Rightarrow> b | None \<Rightarrow> base_on E P m),
        queued := queued P @ [\<lparr>editId = nextEdit C, change = f\<rparr>]\<rparr>) C)
          \<lparr>nextEdit := nextEdit C + 1, editsInFlight := editsInFlight C @ [nextEdit C]\<rparr>)))"
    using run by (auto simp: edit_def Let_def split: if_splits)
  have "follow_view C' = follow_view C"
    unfolding C' by (subst setOpen_follow, simp add: open_view_def, simp add: follow_frames, rule setOpen_follow, simp add: open_view_def)
  then show ?thesis using moves_view moves_refl [OF ok] by blast
qed

lemma setOpen_moves:
  assumes "follows_ok E C" and "\<And>P. open_view (f P) = open_view P"
  shows "moves E C (setOpen n f C)"
  using moves_view [OF setOpen_follow [OF assms(2)], of E C n C] moves_refl [OF assms(1)] by blast

lemma loadedAgain_moves:
  assumes "follows_ok E C" and "request_out n C" and "server_sends E (Some answer)"
  shows "moves E C (loadedAgain E l n ended answer C)"
  using settleRequest_moves [OF assms, of False]
  by (auto simp: loadedAgain_def Let_def loadFails_def moves_frames intro!: loadEnds_moves)

lemma copy_step_moves:
  assumes ok: "follows_ok E C" and step: "copy_step E op C = Some C'"
  shows "moves E C C'"
proof (cases op)
  case (CpWriteAnswered n result)
  then show ?thesis using step ok
    by (auto simp: writeAnswered_def server_sends_def split: if_splits option.splits sum.splits intro!: endBatch_moves)
next
  case (CpLoadAnswered l ended answer)
  then show ?thesis using step loadAnswered_moves [OF ok] by (auto split: if_splits)
next
  case (CpLoadedAgain l n ended answer)
  then show ?thesis using step loadedAgain_moves [OF ok] by (auto split: if_splits)
next
  case (CpWriteTurn n)
  then show ?thesis using step writeTurn_moves [OF ok] by simp
next
  case (CpEdit f)
  then show ?thesis using step edit_moves [OF ok] by (auto split: sum.splits)
next
  case (CpRegistered e reconnected)
  have "moves E C (setOpen n (\<lambda>P. P\<lparr>sendingWrite := None\<rparr>) (C\<lparr>registeredEpoch := Some e\<rparr>))" for n
    using setOpen_moves [of E "C\<lparr>registeredEpoch := Some e\<rparr>" "\<lambda>P. P\<lparr>sendingWrite := None\<rparr>" n] ok
      moves_from [OF fields_follow(9) [of "Some e" C]]
    by (simp add: open_view_def follows_frames)
  then show ?thesis using CpRegistered step ok
    by (auto simp: handleRegistered_def Let_def moves_frames moves_refl split: option.splits if_splits)
next
  case (CpOnWrite n w)
  then show ?thesis using step ok by (auto simp: onWrite_def open_view_def intro!: setOpen_moves split: if_splits)
next
  case (CpWriteLanded n sent answer v)
  then show ?thesis using step ok
    by (auto simp: writeLanded_def Let_def open_view_def moves_refl intro!: setOpen_moves split: if_splits option.splits)
next
  case CpDispose
  have "moves E C (setOpen n (\<lambda>P. P\<lparr>holdTimer := False\<rparr>) (C\<lparr>disposed := True\<rparr>))" for n
    using setOpen_moves [of E "C\<lparr>disposed := True\<rparr>" "\<lambda>P. P\<lparr>holdTimer := False\<rparr>" n] ok moves_from [OF fields_follow(11) [of True C]]
    by (simp add: open_view_def follows_frames)
  then show ?thesis using CpDispose step ok by (auto simp: disposeCopy_def moves_frames moves_refl split: option.splits)
next
  case (CpHoldTimer n)
  then show ?thesis using step holdTimer_moves [OF ok] by simp
next
  case (CpSave n idle may)
  then show ?thesis using step ok
    by (auto simp: saveOnce_def moves_refl intro!: requestOut_moves split: option.splits if_splits sum.splits prod.splits)
next
  case (CpRestored u reopened document)
  then show ?thesis using step handleRestored_moves [OF ok] by (auto split: if_splits)
next
  case (CpUpdated d own)
  then show ?thesis using step ok
    by (auto simp: handleDocumentUpdated_def heard_def moves_frames moves_refl intro!: offer_moves split: if_splits option.splits)
next
  case (CpDeleted u)
  then show ?thesis using step ok
    by (auto simp: handleDocumentDeleted_def moves_refl intro: moves_away [OF dropDocument_away] split: option.splits)
next
  case (CpDirty u t)
  then show ?thesis using step ok
    by (auto simp: handleDirtyChanged_def heard_def moves_frames moves_refl split: option.splits)
next
  case (CpReadFailed l n ended restored)
  then show ?thesis using step ok
    by (auto simp: readFailed_def loadFails_def Let_def moves_frames moves_refl unloadSettled_away intro!: loadEnds_moves
        intro: moves_away split: if_splits)
next
  case (CpCloseAfter opened)
  then show ?thesis using step ok
    by (auto simp: closeAfter_def Let_def moves_frames moves_refl intro: moves_away [OF unloadSettled_away])
next
  case (CpAnswered n answer)
  then show ?thesis using step settleRequest_moves [OF ok] by (auto split: if_splits)
next
  case (CpReadEnds n)
  then show ?thesis using step settleRequest_moves [OF ok, of n None False] by (auto simp: server_sends_def split: if_splits)
next
  case (CpReread n)
  then show ?thesis using step ok by (auto simp: reread_def moves_refl intro!: requestOut_moves split: if_splits)
qed (use step ok in \<open>auto simp: openCopy_def closeCopy_def moves_frames moves_refl split: if_splits option.splits\<close>)

end
