(* ===== verification/CopyProgress.thy ===== *)
theory CopyProgress
  imports CopyEdits
begin

section \<open>The write loop of a working copy\<close>

text \<open>
  The loop of an open runs while it has a batch out, and the loop of the open followed while it has queued edits;
  a batch that is out has a base.
\<close>

definition loops_ok :: "'n working_copy \<Rightarrow> bool" where
  "loops_ok C \<longleftrightarrow>
     (\<forall>n. current C = Some n \<longrightarrow> n < length (opens C) \<and> (queued (open_at C n) \<noteq> [] \<longrightarrow> writing (open_at C n))) \<and>
     (\<forall>P \<in> set (opens C). sending P \<noteq> [] \<longrightarrow> writing P \<and> batchBase P \<noteq> None)"

definition loop_fields :: "'n copy_open \<Rightarrow> 'n copy_edit list \<times> 'n copy_edit list \<times> bool \<times> 'n write_base option" where
  "loop_fields P = (queued P, sending P, writing P, batchBase P)"

definition loop_view :: "'n working_copy \<Rightarrow> nat option \<times> ('n copy_edit list \<times> 'n copy_edit list \<times> bool \<times> 'n write_base option) list" where
  "loop_view C = (current C, map loop_fields (opens C))"

lemma loops_open:
  "loops_ok C \<longleftrightarrow>
     (\<forall>n. current C = Some n \<longrightarrow> n < length (opens C) \<and> (queued (open_at C n) \<noteq> [] \<longrightarrow> writing (open_at C n))) \<and>
     (\<forall>n < length (opens C). sending (open_at C n) \<noteq> [] \<longrightarrow> writing (open_at C n) \<and> batchBase (open_at C n) \<noteq> None)"
  by (auto simp: loops_ok_def all_set_conv_all_nth)

lemma loops_view:
  assumes "loop_view C' = loop_view C"
  shows "loops_ok C' \<longleftrightarrow> loops_ok C"
proof -
  have len: "length (opens C') = length (opens C)" using assms by (auto simp: loop_view_def dest: map_eq_imp_length_eq)
  have "loop_fields (open_at C' n) = loop_fields (open_at C n)" if "n < length (opens C)" for n
    using arg_cong [OF assms, of "\<lambda>v. snd v ! n"] that len by (simp add: loop_view_def)
  then have "queued (open_at C' n) = queued (open_at C n) \<and> sending (open_at C' n) = sending (open_at C n) \<and>
      writing (open_at C' n) = writing (open_at C n) \<and> batchBase (open_at C' n) = batchBase (open_at C n)" if "n < length (opens C)" for n
    using that by (simp add: loop_fields_def)
  moreover have "current C' = current C" using assms by (simp add: loop_view_def)
  ultimately show ?thesis unfolding loops_open len by auto
qed

named_theorems loop_frames \<open>operations that leave the write loops alone\<close>

lemma setOpen_loops:
  assumes "\<And>P. loop_fields (f P) = loop_fields P"
  shows "loops_ok (setOpen n f C) \<longleftrightarrow> loops_ok C"
  by (rule loops_view)
    (use assms in \<open>cases "n < length (opens C)"; simp add: loop_view_def setOpen_def map_update list_update_same_conv list_update_beyond\<close>)

lemma fields_loops [loop_frames]:
  "loops_ok (fireChange C) \<longleftrightarrow> loops_ok C" "loops_ok (announceDirty C) \<longleftrightarrow> loops_ok C"
  "loops_ok (settleEdits ends C) \<longleftrightarrow> loops_ok C" "loops_ok (C\<lparr>settling := k\<rparr>) \<longleftrightarrow> loops_ok C"
  "loops_ok (C\<lparr>openingLoad := l\<rparr>) \<longleftrightarrow> loops_ok C" "loops_ok (C\<lparr>sessionCloses := c\<rparr>) \<longleftrightarrow> loops_ok C"
  "loops_ok (C\<lparr>heardWhileLoading := u\<rparr>) \<longleftrightarrow> loops_ok C" "loops_ok (C\<lparr>openAbandoned := b\<rparr>) \<longleftrightarrow> loops_ok C"
  "loops_ok (C\<lparr>registeredEpoch := e\<rparr>) \<longleftrightarrow> loops_ok C" "loops_ok (C\<lparr>closing := b\<rparr>) \<longleftrightarrow> loops_ok C"
  "loops_ok (C\<lparr>disposed := b\<rparr>) \<longleftrightarrow> loops_ok C" "loops_ok (C\<lparr>nextLoad := i\<rparr>) \<longleftrightarrow> loops_ok C"
  "loops_ok (C\<lparr>nextEdit := i\<rparr>) \<longleftrightarrow> loops_ok C" "loops_ok (C\<lparr>editsInFlight := fs\<rparr>) \<longleftrightarrow> loops_ok C"
  by (simp_all add: loops_ok_def fireChange_def announceDirty_def settleEdits_def)

lemma open_frames_loops [loop_frames]:
  "loops_ok (hold n d C) \<longleftrightarrow> loops_ok C" "loops_ok (unhold n C) \<longleftrightarrow> loops_ok C" "loops_ok (requestOut n C) \<longleftrightarrow> loops_ok C"
  unfolding hold_def unhold_def requestOut_def by (rule setOpen_loops, simp add: loop_fields_def)+

lemma takeDirty_loops [loop_frames]: "loops_ok (takeDirty n t a C) \<longleftrightarrow> loops_ok C"
  by (auto simp: takeDirty_def Let_def loop_frames setOpen_loops loop_fields_def split: option.split)

lemma adopt_loops [loop_frames]: "loops_ok (adopt E n d a C) \<longleftrightarrow> loops_ok C"
proof -
  have "loops_ok (setOpen n (\<lambda>_. (open_at C n)\<lparr>snapshot := d, snapshotUnderWrite := b\<rparr>) C) \<longleftrightarrow> loops_ok C" for b
    by (rule loops_view)
      (cases "n < length (opens C)"; simp add: loop_view_def setOpen_def map_update list_update_same_conv list_update_beyond loop_fields_def)
  then show ?thesis by (simp add: adopt_def Let_def loop_frames)
qed

lemma offer_loops [loop_frames]: "loops_ok (offer E n d a C) \<longleftrightarrow> loops_ok C"
  by (auto simp: offer_def Let_def loop_frames split: option.split)

lemma unload_loops: "loops_ok C \<Longrightarrow> loops_ok (snd (unload C))"
proof -
  assume ok: "loops_ok C"
  have "loops_ok (D\<lparr>current := None\<rparr>)" if "loops_ok D" for D :: "'a working_copy" using that by (simp add: loops_ok_def)
  then show ?thesis using ok by (auto simp: unload_def loop_frames split: option.split)
qed

lemma dropDocument_loops: "loops_ok C \<Longrightarrow> loops_ok (dropDocument C)"
  using unload_loops [of C] by (cases "unload C") (simp add: dropDocument_def loop_frames)

lemma unloadSettled_loops: "loops_ok C \<Longrightarrow> loops_ok (unloadSettled C)"
  using unload_loops [of C] by (cases "unload C") (simp add: unloadSettled_def loop_frames)

lemma settleAnswer_loops: "loops_ok C \<Longrightarrow> loops_ok (settleAnswer E n received a C)"
  by (auto simp: settleAnswer_def Let_def loop_frames setOpen_loops loop_fields_def intro!: dropDocument_loops split: option.split)

lemma settleRequest_loops: "loops_ok C \<Longrightarrow> loops_ok (settleRequest E n answer a C)"
  by (auto simp: settleRequest_def Let_def loop_frames intro!: settleAnswer_loops)

lemma rebase_loop_fields [simp]: "writing (rebase batch res P) = writing P" "batchBase (rebase batch res P) = batchBase P"
  by (auto simp: rebase_def Let_def split: option.split batch_end.split)

lemma endBatch_loops:
  assumes "\<And>m. m < length (opens C) \<Longrightarrow> m \<noteq> n \<Longrightarrow> sending (open_at C m) \<noteq> [] \<Longrightarrow> writing (open_at C m) \<and> batchBase (open_at C m) \<noteq> None"
    and "\<And>m. current C = Some m \<Longrightarrow> m < length (opens C) \<and> (queued (open_at C m) \<noteq> [] \<longrightarrow> writing (open_at C m))"
    and "n < length (opens C)"
  shows "loops_ok (endBatch E n res answer C)"
proof -
  have "loops_ok (setOpen n (\<lambda>P. rebase (sending (open_at C n)) res (P\<lparr>sending := [], sendingWrite := None, batchBase := None\<rparr>)) C)"
    using assms unfolding loops_open by (auto simp: open_at_setOpen)
  then show ?thesis by (simp add: endBatch_def Let_def loop_frames settleRequest_loops)
qed

lemma endBatch_loops_ok: "loops_ok C \<Longrightarrow> n < length (opens C) \<Longrightarrow> loops_ok (endBatch E n res answer C)"
  by (rule endBatch_loops) (auto simp: loops_open)

lemma writeTurn_loops:
  assumes ok: "loops_ok C" and run: "writeTurn E n C = Some C'"
  shows "loops_ok C'"
proof -
  have g: "n < length (opens C)" "sending (open_at C n) = []" "writing (open_at C n)" using run by (auto simp: writeTurn_def split: if_splits)
  show ?thesis
  proof (cases "queued (open_at C n) = [] \<or> current C \<noteq> Some n")
    case True
    then have C': "C' = announceDirty (setOpen n (\<lambda>P. P\<lparr>writing := False, sending := [], sendingWrite := None\<rparr>) C)"
      using run by (auto simp: writeTurn_def split: if_splits)
    have "loops_ok (setOpen n (\<lambda>P. P\<lparr>writing := False, sending := [], sendingWrite := None\<rparr>) C)"
      using ok True unfolding loops_open by (auto simp: open_at_setOpen)
    then show ?thesis by (simp add: C' loop_frames)
  next
    case False
    let ?D = "setOpen n (\<lambda>P. P\<lparr>sending := queued P, queued := [], writeBase := None, batchBase := writeBase P\<rparr>) C"
    let ?C = "requestOut n ?D"
    have at: "open_at ?C m = (if m = n then (open_at ?D n)\<lparr>snapshotRequests := snapshotRequests (open_at ?D n) + 1\<rparr> else open_at C m)"
      if "m < length (opens C)" for m using that by (simp add: requestOut_def open_at_setOpen)
    have C': "C' = startBatch E n ?C" using run False g by (simp add: writeTurn_def split: if_splits)
    have others: "writing (open_at ?C m) \<and> batchBase (open_at ?C m) \<noteq> None"
      if "m < length (opens C)" "m \<noteq> n" "sending (open_at ?C m) \<noteq> []" for m using that ok by (simp add: at loops_open)
    have cur: "m < length (opens ?C) \<and> (queued (open_at ?C m) \<noteq> [] \<longrightarrow> writing (open_at ?C m))" if "current ?C = Some m" for m
      using that ok False g by (auto simp: at requestOut_def loops_open open_at_setOpen)
    have here: "batchBase (open_at ?C n) = writeBase (open_at C n)" "writing (open_at ?C n)" "length (opens ?C) = length (opens C)"
      using g by (simp_all add: at open_at_setOpen)
    have ended: "loops_ok (endBatch E n res None ?C)" for res by (rule endBatch_loops) (use others cur here(3) g(1) in auto)
    show ?thesis
    proof (cases "writeBase (open_at C n)")
      case None
      then have "C' = endBatch E n BatchNone None ?C" by (simp add: C' startBatch_def here)
      then show ?thesis using ended by simp
    next
      case (Some b)
      have "writing (open_at ?C m) \<and> batchBase (open_at ?C m) \<noteq> None" if "m < length (opens C)" "sending (open_at ?C m) \<noteq> []" for m
        using others [OF that(1) _ that(2)] here Some by (cases "m = n") auto
      then have "loops_ok ?C" unfolding loops_open here(3) using cur here(3) by auto
      then show ?thesis using ended startBatch_cases [of E n ?C] C' by auto
    qed
  qed
qed

lemma edit_loops:
  assumes ok: "loops_ok C" and run: "edit E f C = Inr (i, C')"
  shows "loops_ok C'"
proof -
  obtain n m where n: "current C = Some n" "model (snapshot (open_at C n)) = Some m"
    using run by (auto simp: edit_def split: if_splits option.splits)
  let ?C = "setOpen n (\<lambda>P. P\<lparr>writeBase := Some (case writeBase P of Some b \<Rightarrow> b | None \<Rightarrow> base_on E P m),
        queued := queued P @ [\<lparr>editId = nextEdit C, change = f\<rparr>]\<rparr>) C"
  have len: "n < length (opens C)" using ok n by (simp add: loops_ok_def)
  have C': "C' = setOpen n (\<lambda>P. P\<lparr>writing := True\<rparr>)
      (fireChange (announceDirty (?C\<lparr>nextEdit := nextEdit C + 1, editsInFlight := editsInFlight C @ [nextEdit C]\<rparr>)))"
    using run n by (auto simp: edit_def Let_def split: if_splits)
  have "opens C' = opens (setOpen n (\<lambda>P. P\<lparr>writing := True\<rparr>) ?C)" "current C' = Some n"
    by (simp_all add: C' n setOpen_def fireChange_def announceDirty_def)
  moreover have "loops_ok (setOpen n (\<lambda>P. P\<lparr>writing := True\<rparr>) ?C)"
    using ok n len unfolding loops_open by (auto simp: open_at_setOpen)
  ultimately show ?thesis using n(1) by (simp add: loops_ok_def)
qed

lemma loadAnswered_loops:
  assumes "loops_ok C" and "current C = None"
  shows "loops_ok (loadAnswered l ended answer C)"
proof -
  have "loops_ok (C\<lparr>heardWhileLoading := None, opens := opens C @ [new_open d], current := Some (length (opens C))\<rparr>)" for d
    using assms by (auto simp: loops_ok_def new_open_def)
  then show ?thesis using assms(1)
    by (auto simp: loadAnswered_def loadEnds_def loadFails_def Let_def loop_frames intro!: unloadSettled_loops split: option.split)
qed

lemma copy_step_loops:
  assumes ok: "loops_ok C" and step: "copy_step E op C = Some C'"
  shows "loops_ok C'"
proof (cases op)
  case (CpWriteAnswered n result)
  then show ?thesis using step ok by (auto simp: writeAnswered_def endBatch_loops_ok split: if_splits option.splits sum.splits)
next
  case (CpLoadAnswered l ended answer)
  then show ?thesis using step loadAnswered_loops [OF ok] by (auto split: if_splits)
next
  case (CpWriteTurn n)
  then show ?thesis using step writeTurn_loops [OF ok] by simp
next
  case (CpEdit f)
  then show ?thesis using step edit_loops [OF ok] by (auto split: sum.splits)
next
  case (CpRegistered e reconnected)
  then show ?thesis using step ok
    by (auto simp: handleRegistered_def Let_def loop_frames setOpen_loops loop_fields_def split: option.splits if_splits)
next
  case (CpOnWrite n w)
  then show ?thesis using step ok by (auto simp: onWrite_def setOpen_loops loop_fields_def split: if_splits)
next
  case (CpWriteLanded n sent answer v)
  then show ?thesis using step ok by (auto simp: writeLanded_def Let_def setOpen_loops loop_fields_def split: if_splits option.splits)
next
  case CpDispose
  then show ?thesis using step ok by (auto simp: disposeCopy_def loop_frames setOpen_loops loop_fields_def split: option.splits)
next
  case (CpHoldTimer n)
  then show ?thesis using step ok by (auto simp: holdTimerFires_def loop_frames split: option.splits if_splits)
next
  case (CpSave n idle may)
  then show ?thesis using step ok by (auto simp: saveOnce_def loop_frames split: option.splits if_splits sum.splits prod.splits)
next
  case (CpRestored u reopened document)
  then show ?thesis using step ok
    by (auto simp: handleDocumentRestored_def reread_def Let_def loop_frames setOpen_loops loop_fields_def dropDocument_loops
        split: option.splits if_splits)
qed (use step ok in
    \<open>auto simp: openCopy_def loadedAgain_def readFailed_def loadEnds_def loadFails_def handleDocumentUpdated_def heard_def
      handleDocumentDeleted_def handleDirtyChanged_def reread_def closeCopy_def closeAfter_def Let_def loop_frames
      settleRequest_loops unloadSettled_loops dropDocument_loops split: if_splits option.splits\<close>)

end
