(* ===== verification/CopyProperties.thy ===== *)
theory CopyProperties
  imports CopyState CopySnapshot CopyProgress MergeReplay
begin

section \<open>What a working copy promises\<close>

text \<open>
  The four invariants over every run of a working copy, and what they say of edits, of the dirty flag and of the
  snapshot.
\<close>

definition copy_ok :: "'n copy_env \<Rightarrow> 'n working_copy \<Rightarrow> bool" where
  "copy_ok E C \<longleftrightarrow> edits_owe [] C \<and> told C \<and> follows_ok E C \<and> loops_ok C"

lemma copy_step_ok:
  assumes "copy_ok E C" and "copy_step E op C = Some C'"
  shows "copy_ok E C'"
  using assms copy_step_owes [of "[]" C E op C'] copy_step_told [of C E op C'] copy_step_moves [of E C op C'] copy_step_loops [of C E op C']
  by (simp add: copy_ok_def moves_def)

interpretation copy: component "copy_step E" "copy_ok E" for E
  by unfold_locales (rule copy_step_ok)

lemma copy_run_ok: "copy_ok E (copy.run E ops new_copy)"
  by (rule copy.run_inv)
    (simp add: copy_ok_def edits_owe_def pendingEdits_def told_def heard_ok_def copy_dirty_def follows_ok_def loops_ok_def new_copy_def)

lemma copy_run_parts:
  "edits_owe [] (copy.run E ops new_copy)" "told (copy.run E ops new_copy)" "follows_ok E (copy.run E ops new_copy)"
  "loops_ok (copy.run E ops new_copy)"
  using copy_run_ok [of E ops] by (simp_all add: copy_ok_def)

subsection \<open>A run to apply the properties to\<close>

definition flat_env :: "int copy_env" where
  "flat_env = \<lparr>patchLib = flat_lib, replayKey = None, copyUri = ''f'', clientId = ''me'', reporting = (\<lambda>_. True)\<rparr>"

definition doc_at :: "int \<Rightarrow> int \<Rightarrow> bool \<Rightarrow> int transfer_document" where
  "doc_at v n d =
     \<lparr>docUri = ''f'', epoch = ''e'', heldWrites = Some [],
      model = Some \<lparr>tmRoot = Obj [(''n'', Number n)], tmVersion = v, tmHash = ''h'', tmDiagnostics = Some []\<rparr>,
      textState = Some \<lparr>tsDirty = d, tsVersion = Some v\<rparr>, docSequence = Some 0\<rparr>"

definition set_two :: "int js \<Rightarrow> int js option" where
  "set_two r = Some (Obj [(''n'', Number 2)])"

text \<open>Open, edit, and start the write; the answer is then the document with the edit at the next version.\<close>

definition editing :: "int copy_op list" where
  "editing = [CpOpen, CpLoadAnswered 0 False (Some (doc_at 1 1 False)), CpEdit set_two, CpWriteTurn 0, CpOnWrite 0 7]"

lemmas copy_eval =
  new_copy_def openCopy_def loadAnswered_def loadEnds_def new_open_def edit_def base_on_def holdsSending_def copy_root_def open_root_def
  takeDirty_def announceDirty_def copy_dirty_def setOpen_def fireChange_def writeTurn_def startBatch_def requestOut_def
  batch_written_def writesDropped_def onWrite_def settleEdits_def heldWriteOf_def server_sends_def reportsWrites_def

lemma editing_run:
  "copy.run flat_env editing new_copy =
     \<lparr>opens = [\<lparr>snapshot = doc_at 1 1 False, snapshotUnderWrite = False, queued = [], writeBase = None,
        sending = [\<lparr>editId = 0, change = set_two\<rparr>], sendingWrite = Some 7,
        batchBase = Some \<lparr>baseModel = Obj [(''n'', Number 1)], baseVersion = 1, baseEpoch = ''e'', unconfirmed = False, dropped = None, onto = None\<rparr>,
        writing = True, serverDirty = False, snapshotRequests = 1, held = None, holdTimer = False, dirtyVersion = Some 1, dirtyFromEvent = False\<rparr>],
      current = Some 0, editsInFlight = [0], announcedDirty = True, settling = 0, openingLoad = Some 0, closing = False,
      disposed = False, registeredEpoch = None, openAbandoned = False, heardWhileLoading = None, contentChanges = 2,
      dirtyChanges = [True], settledEdits = [], nextEdit = 1, nextLoad = 1, sessionCloses = 0\<rparr>"
  by (simp add: editing_def copy_eval Let_def doc_at_def set_two_def flat_env_def flat_lib_def child_def js_has_def)

subsection \<open>Edits\<close>

text \<open>
  C26: Every edit of a working copy is settled exactly once. Over any interleaving of edits, writes, server
  documents, deletions, reconnects, reopenings, closings and the disposal, each edit ever made is either still
  pending (queued in the open the copy follows, or of the batch some open has out) or was settled, and never
  twice; the guard a host asks before it unloads says that writes are in flight exactly while an edit is pending.
\<close>

theorem edits_settled_once:
  "mset (pendingEdits (copy.run E ops new_copy)) + mset (map fst (settledEdits (copy.run E ops new_copy))) =
     mset [0..<nextEdit (copy.run E ops new_copy)] \<and>
   (hasWritesInFlight (copy.run E ops new_copy) \<longleftrightarrow> pendingEdits (copy.run E ops new_copy) \<noteq> [])"
  using copy_run_parts(1) [of E ops] by (auto simp: edits_owe_def hasWritesInFlight_def)

text \<open>
  C31: No pending edit is stranded. Whatever happened to its copy, an edit that is not settled yet is of a batch
  whose write is out and whose failure alone would already end it, or waits in the open the copy follows, whose
  write loop takes it next or has a batch out before it.
\<close>

theorem edit_never_stranded:
  assumes "i \<in> set (pendingEdits (copy.run E ops new_copy))"
  shows "\<exists>n < length (opens (copy.run E ops new_copy)).
    i \<in> editId ` set (sending (open_at (copy.run E ops new_copy) n)) \<and> writeAnswered E n (Inl err) (copy.run E ops new_copy) \<noteq> None \<or>
    current (copy.run E ops new_copy) = Some n \<and> i \<in> editId ` set (queued (open_at (copy.run E ops new_copy) n)) \<and>
      (writeTurn E n (copy.run E ops new_copy) \<noteq> None \<or> sending (open_at (copy.run E ops new_copy) n) \<noteq> [])"
proof -
  let ?C = "copy.run E ops new_copy"
  note ok = copy_run_parts(4) [of E ops, unfolded loops_open]
  consider n where "current ?C = Some n" "i \<in> editId ` set (queued (open_at ?C n))"
    | n where "n < length (opens ?C)" "i \<in> editId ` set (sending (open_at ?C n))"
  proof (cases "\<exists>P \<in> set (opens ?C). i \<in> editId ` set (sending P)")
    case True
    then show ?thesis using that(2) by (metis in_set_conv_nth)
  next
    case False
    then obtain n where "current ?C = Some n" "i \<in> editId ` set (queued (open_at ?C n))"
      using assms by (cases "current ?C") (auto simp: pendingEdits_def)
    then show ?thesis by (rule that(1))
  qed
  then show ?thesis
  proof cases
    case (1 n)
    then have "n < length (opens ?C)" "writing (open_at ?C n)" using ok by auto
    then have "writeTurn E n ?C \<noteq> None \<or> sending (open_at ?C n) \<noteq> []" using 1 by (auto simp: writeTurn_def)
    then show ?thesis using 1 \<open>n < length (opens ?C)\<close> by blast
  next
    case (2 n)
    then have "sending (open_at ?C n) \<noteq> []" by auto
    then have "writeAnswered E n (Inl err) ?C \<noteq> None" using ok 2(1) by (auto simp: writeAnswered_def)
    then show ?thesis using 2 by blast
  qed
qed

theorem edit_never_stranded_witness:
  "\<exists>n < length (opens (copy.run flat_env editing new_copy)).
    0 \<in> editId ` set (sending (open_at (copy.run flat_env editing new_copy) n)) \<and>
      writeAnswered flat_env n (Inl ''gone'') (copy.run flat_env editing new_copy) \<noteq> None \<or>
    current (copy.run flat_env editing new_copy) = Some n \<and> 0 \<in> editId ` set (queued (open_at (copy.run flat_env editing new_copy) n)) \<and>
      (writeTurn flat_env n (copy.run flat_env editing new_copy) \<noteq> None \<or> sending (open_at (copy.run flat_env editing new_copy) n) \<noteq> [])"
  by (rule edit_never_stranded) (simp add: editing_run pendingEdits_def)

subsection \<open>The dirty flag, the snapshot and saves\<close>

text \<open>
  C30: A host that follows the dirty events is never told wrong. The announcements alternate, starting with dirty,
  and while the copy is not disposed the last of them is what the copy answers: that the server's text differs
  from the file or an edit is pending in the open it follows.
\<close>

theorem dirty_told_truly:
  "(\<forall>i < length (dirtyChanges (copy.run E ops new_copy)). dirtyChanges (copy.run E ops new_copy) ! i \<longleftrightarrow> even i) \<and>
   (\<not> disposed (copy.run E ops new_copy) \<longrightarrow>
      (copy_dirty (copy.run E ops new_copy) \<longleftrightarrow> odd (length (dirtyChanges (copy.run E ops new_copy)))))"
  using copy_run_parts(2) [of E ops] by (auto simp: told_def heard_ok_def)

theorem dirty_told_truly_witness:
  "dirtyChanges (copy.run flat_env editing new_copy) = [True] \<and> copy_dirty (copy.run flat_env editing new_copy)"
  using dirty_told_truly [of flat_env editing] by (simp add: editing_run)

text \<open>
  C29: The document a copy shows never runs backwards. Whichever step comes next after any run, a snapshot of the
  open the copy follows is replaced only by one of another server life or of the same or a later version,
  also where a document was held back for a request or its timer, and where a restore brings one.
\<close>

theorem snapshot_never_older:
  assumes "copy_step E op (copy.run E ops new_copy) = Some C'" and "current (copy.run E ops new_copy) = Some n" and "current C' = Some n"
    and "model (snapshot (open_at (copy.run E ops new_copy) n)) = Some m" and "model (snapshot (open_at C' n)) = Some m'"
    and "epoch (snapshot (open_at C' n)) = epoch (snapshot (open_at (copy.run E ops new_copy) n))"
  shows "tmVersion m \<le> tmVersion m'"
  using copy_step_moves [OF copy_run_parts(3) assms(1)] assms(2-) by (auto simp: moves_def builtBefore_def)

lemma editing_update:
  "copy_step flat_env (CpUpdated (doc_at 2 2 True) False) (copy.run flat_env editing new_copy) =
     Some (offer flat_env 0 (doc_at 2 2 True) True (copy.run flat_env editing new_copy))"
  unfolding editing_run by (simp add: handleDocumentUpdated_def doc_at_def server_sends_def reportsWrites_def flat_env_def)

theorem snapshot_never_older_witness:
  "snapshot (open_at (offer flat_env 0 (doc_at 2 2 True) True (copy.run flat_env editing new_copy)) 0) = doc_at 2 2 True \<and>
   tmVersion (the (model (doc_at 1 1 False))) \<le> tmVersion (the (model (doc_at 2 2 True)))"
proof -
  let ?C = "copy.run flat_env editing new_copy" and ?C' = "offer flat_env 0 (doc_at 2 2 True) True (copy.run flat_env editing new_copy)"
  have new: "snapshot (open_at ?C' 0) = doc_at 2 2 True" "current ?C' = Some 0"
    by (simp_all add: editing_run offer_def builtBefore_def takeDirty_def adopt_def announceDirty_def copy_dirty_def setOpen_def
        fireChange_def reportsWrites_def doc_at_def Let_def)
  have old: "snapshot (open_at ?C 0) = doc_at 1 1 False" "current ?C = Some 0" by (simp_all add: editing_run)
  show ?thesis
    using snapshot_never_older [OF editing_update old(2) new(2), unfolded new(1) old(1)] new(1) by (simp add: doc_at_def)
qed

text \<open>
  A save persists what the copy shows. A save that sends a persist once the edits have answered names the
  version and the server life of the snapshot, and that snapshot's root is the root the copy shows: no
  edit of the user is left out, and no text the copy has not shown is saved on its behalf.
\<close>

theorem save_persists_shown:
  assumes "saveOnce n (\<not> hasWritesInFlight (copy.run E ops new_copy)) may (copy.run E ops new_copy) = Inr (Some (v, e), C')"
  shows "\<exists>m. current (copy.run E ops new_copy) = Some n \<and> model (snapshot (open_at (copy.run E ops new_copy) n)) = Some m \<and>
    tmVersion m = v \<and> epoch (snapshot (open_at (copy.run E ops new_copy) n)) = e \<and> copy_root E (copy.run E ops new_copy) = Some (tmRoot m)"
proof -
  let ?C = "copy.run E ops new_copy"
  obtain m where m: "current ?C = Some n" "model (snapshot (open_at ?C n)) = Some m" "tmVersion m = v"
    "epoch (snapshot (open_at ?C n)) = e" "\<not> hasWritesInFlight ?C"
    using assms by (auto simp: saveOnce_def split: if_splits option.splits)
  then have "pendingEdits ?C = []" "n < length (opens ?C)"
    using copy_run_parts(1) [of E ops] by (auto simp: edits_owe_def hasWritesInFlight_def)
  then have "queued (open_at ?C n) = []" "sending (open_at ?C n) = []" using m(1) by (auto simp: pendingEdits_def)
  then have "copy_root E ?C = Some (tmRoot m)" using m by (simp add: copy_root_def open_root_def)
  then show ?thesis using m by blast
qed

definition opened_dirty :: "int copy_op list" where
  "opened_dirty = [CpOpen, CpLoadAnswered 0 False (Some (doc_at 3 5 True))]"

theorem save_persists_shown_witness:
  "copy_root flat_env (copy.run flat_env opened_dirty new_copy) = Some (Obj [(''n'', Number 5)]) \<and>
   (\<exists>C'. saveOnce 0 (\<not> hasWritesInFlight (copy.run flat_env opened_dirty new_copy)) True (copy.run flat_env opened_dirty new_copy) =
     Inr (Some (3, ''e''), C'))"
proof -
  let ?C = "copy.run flat_env opened_dirty new_copy"
  have run: "saveOnce 0 (\<not> hasWritesInFlight ?C) True ?C = Inr (Some (3, ''e''), requestOut 0 ?C)"
    "model (snapshot (open_at ?C 0)) = Some \<lparr>tmRoot = Obj [(''n'', Number 5)], tmVersion = 3, tmHash = ''h'', tmDiagnostics = Some []\<rparr>"
    by (simp_all add: opened_dirty_def copy_eval saveOnce_def hasWritesInFlight_def doc_at_def flat_env_def Let_def)
  then show ?thesis using save_persists_shown [OF run(1)] by auto
qed

end
