(* ===== verification/CopyWrites.thy ===== *)
theory CopyWrites
  imports CopyProperties ReconcileWrite
begin

section \<open>The writes of a working copy\<close>

text \<open>
  What \<open>writeBatch\<close> of \<open>protocol/src/client/working-copy.ts\<close> awaits: \<open>reconcile\<close>, which runs \<open>reconcileWrite\<close> over
  the session, and \<open>splitConflict\<close>. The session's requests are functions of a world, in which the server, other
  clients and the connection act meanwhile; \<open>followed\<close> is \<open>open === this.current\<close> then. The local variables of
  \<open>reconcile\<close>, which its hooks share, are a record; the writes it sends and the documents it reads are logged in it.
  What the hook \<open>persist\<close> does to the open is in \<open>WorkingCopy\<close> (\<open>onWrite\<close>, \<open>writeLanded\<close>).
\<close>

datatype 'c copy_conflict = RefusedUnsent | ServerConflict 'c

record ('n, 'c, 'w) copy_session =
  updateDocument :: "'n js \<Rightarrow> base_version \<Rightarrow> string option \<Rightarrow> 'w \<Rightarrow> (('c, string) thrown + 'n transfer_document) \<times> 'w"
  getModelDocument :: "'w \<Rightarrow> (string + 'n transfer_document) \<times> 'w"
  followed :: "'w \<Rightarrow> bool"

record 'n reconcile_vars =
  written :: "'n transfer_document option"
  theirDocument :: "'n transfer_document option"
  readAfterWrite :: bool
  landedOn :: "base_version option"
  firstWrite :: bool
  went :: bool
  nextEpoch :: string
  sentWrites :: "('n js \<times> base_version \<times> string option) list"
  readDocuments :: "'n transfer_document list"

definition vars_for :: "'n write_base \<Rightarrow> 'n reconcile_vars" where
  "vars_for b =
     \<lparr>written = None, theirDocument = None, readAfterWrite = False, landedOn = None, firstWrite = True, went = False,
      nextEpoch = baseEpoch b, sentWrites = [], readDocuments = []\<rparr>"

definition gate_epoch :: "base_version \<Rightarrow> string \<Rightarrow> string option" where
  "gate_epoch v e = (case v of BaseVersion n \<Rightarrow> Some e | AnyVersion \<Rightarrow> None)"

definition copy_persist ::
  "('n, 'c, 'w) copy_session \<Rightarrow> 'n write_base \<Rightarrow> 'n js \<Rightarrow> base_version \<Rightarrow> 'w \<times> 'n reconcile_vars \<Rightarrow>
     ('c copy_conflict, string) thrown option \<times> 'w \<times> 'n reconcile_vars" where
  "copy_persist S b m v = (\<lambda>(w, V).
     (let onBase = firstWrite V; V1 = V\<lparr>firstWrite := False, readAfterWrite := False\<rparr>
      in if \<not> followed S w \<or> onBase \<and> unconfirmed b
         then (Some (ConflictError RefusedUnsent), w, V1\<lparr>went := \<not> followed S w\<rparr>)
         else (let V2 = V1\<lparr>sentWrites := sentWrites V1 @ [(m, v, gate_epoch v (nextEpoch V1))]\<rparr>
               in case updateDocument S m v (gate_epoch v (nextEpoch V1)) w of
                    (Inl (ConflictError c), w1) \<Rightarrow> (Some (ConflictError (ServerConflict c)), w1, V2)
                  | (Inl (OtherError e), w1) \<Rightarrow> (Some (OtherError e), w1, V2)
                  | (Inr answer, w1) \<Rightarrow> (None, w1, V2\<lparr>written := Some answer, landedOn := Some v\<rparr>))))"

definition copy_refetch ::
  "('n, 'c, 'w) copy_session \<Rightarrow> (('c copy_conflict, string) thrown, 'w \<times> 'n reconcile_vars, 'n versioned_model option) promise" where
  "copy_refetch S = (\<lambda>(w, V).
     if \<not> followed S w then (Inr None, w, V)
     else (case getModelDocument S w of
             (Inl e, w1) \<Rightarrow> (Inl (OtherError e), w1, V)
           | (Inr d, w1) \<Rightarrow>
               if \<not> followed S w1 then (Inr None, w1, V)
               else (Inr (map_option (\<lambda>m. \<lparr>vm_model = tmRoot m, vm_version = tmVersion m\<rparr>) (model d)),
                     w1, V\<lparr>theirDocument := Some d, nextEpoch := epoch d, readAfterWrite := True, readDocuments := readDocuments V @ [d]\<rparr>)))"

definition copy_hooks ::
  "'n copy_env \<Rightarrow> ('n, 'c, 'w) copy_session \<Rightarrow> int option \<Rightarrow> 'n write_base \<Rightarrow> ('n, 'c copy_conflict, string, 'w \<times> 'n reconcile_vars) hooks" where
  "copy_hooks E S cap b =
     \<lparr>persist = copy_persist S b, refetch = copy_refetch S, base = baseModel b,
      conflictResolver = ReconcilingConflictResolver_resolve (patchLib E) (replayKey E),
      maxWrites = cap, sent = Some (\<lambda>c. c \<noteq> RefusedUnsent), onUnavailable = None\<rparr>"

subsection \<open>The outcome of a reconcile\<close>

fun write_status_of :: "'c write_outcome \<Rightarrow> write_status option" where
  "write_status_of Persisted = None"
| "write_status_of (Settled st c n) = Some st"

fun made_unavailable :: "'c write_outcome \<Rightarrow> 'c write_outcome" where
  "made_unavailable Persisted = Persisted"
| "made_unavailable (Settled st c n) = Settled UnavailableWrite c n"

definition raced_nothing :: "'n copy_env \<Rightarrow> 'n write_base \<Rightarrow> 'n reconcile_vars \<Rightarrow> bool" where
  "raced_nothing E b V \<longleftrightarrow>
     (case Option.bind (theirDocument V) model of
        None \<Rightarrow> False
      | Some m \<Rightarrow>
          landedOn V = Some (BaseVersion (tmVersion m)) \<and>
          compare (patchLib E) (tmRoot m) (case dropped b of Some (keptRoot, seenRoot) \<Rightarrow> seenRoot | None \<Rightarrow> baseModel b) = [])"

definition copy_outcome ::
  "'n copy_env \<Rightarrow> ('n, 'c, 'w) copy_session \<Rightarrow> 'n write_base \<Rightarrow> 'c copy_conflict write_outcome \<Rightarrow> 'w \<times> 'n reconcile_vars \<Rightarrow>
     (string + 'c copy_conflict write_outcome \<times> 'n transfer_document option) \<times> 'w" where
  "copy_outcome E S b outcome = (\<lambda>(w, V).
     (let st = write_status_of outcome
      in if went V \<and> st \<noteq> None then (Inr (made_unavailable outcome, theirDocument V), w)
         else if st = Some Dropped \<and> \<not> readAfterWrite V
         then (case getModelDocument S w of (Inl e, w1) \<Rightarrow> (Inl e, w1) | (Inr d, w1) \<Rightarrow> (Inr (outcome, Some d), w1))
         else if st \<in> {Some Dropped, Some ConflictWrite, Some AlreadyAppliedWrite, Some UnavailableWrite}
         then (Inr (outcome, theirDocument V), w)
         else if st = Some MergedWrite \<and> raced_nothing E b V then (Inr (Persisted, written V), w)
         else (Inr (outcome, written V), w)))"

definition thrown_text :: "('c, string) thrown \<Rightarrow> string" where
  "thrown_text e = (case e of OtherError s \<Rightarrow> s | ConflictError c \<Rightarrow> ''conflict'')"

definition reconcile_with ::
  "'n copy_env \<Rightarrow> ('n, 'c, 'w) copy_session \<Rightarrow> int option \<Rightarrow> 'n write_base \<Rightarrow> 'n js \<Rightarrow> 'w \<Rightarrow>
     (string + 'c copy_conflict write_outcome \<times> 'n transfer_document option) \<times> 'n reconcile_vars \<times> 'w" where
  "reconcile_with E S cap b ours w =
     (case reconcileWrite ours (BaseVersion (baseVersion b)) (copy_hooks E S cap b) (w, vars_for b) of
        (Inl e, log, (w1, V)) \<Rightarrow> (Inl (thrown_text e), V, w1)
      | (Inr outcome, log, (w1, V)) \<Rightarrow> (let (r, w2) = copy_outcome E S b outcome (w1, V) in (r, V, w2)))"

fun toEditOutcome :: "'c write_outcome \<Rightarrow> edit_outcome" where
  "toEditOutcome Persisted = Applied"
| "toEditOutcome (Settled MergedWrite c n) = MergedEdit"
| "toEditOutcome (Settled ConflictWrite c n) = ConflictEdit"
| "toEditOutcome (Settled Dropped c n) = RanOut"
| "toEditOutcome (Settled AlreadyAppliedWrite c n) = UnchangedEdit"
| "toEditOutcome (Settled Unchanged c n) = UnchangedEdit"
| "toEditOutcome (Settled UnavailableWrite c n) = UnavailableEdit"

subsection \<open>Splitting a conflict\<close>

text \<open>The edits replayed one at a time, each as the change from the root before it.\<close>

fun replay_edits :: "'n copy_env \<Rightarrow> 'n js list \<Rightarrow> 'n js \<Rightarrow> 'n reconcile_outcome list \<times> 'n js" where
  "replay_edits E (r0 # r1 # rs) cur =
     (let out = (case fst (ReconcilingConflictResolver_resolve (patchLib E) (replayKey E) r0 r1 (\<lambda>s. (Inr (Some cur), s)) ()) of
                   Inr res \<Rightarrow> res | Inl () \<Rightarrow> Unavailable);
          merged = (case out of Merged m \<Rightarrow> m | _ \<Rightarrow> cur);
          (outs, final) = replay_edits E (r1 # rs) merged
      in (out # outs, final))"
| "replay_edits E rs cur = ([], cur)"

definition is_merged :: "'n reconcile_outcome \<Rightarrow> bool" where
  "is_merged out = (case out of Merged m \<Rightarrow> True | _ \<Rightarrow> False)"

definition split_outcome :: "edit_end \<Rightarrow> 'n reconcile_outcome \<Rightarrow> edit_end" where
  "split_outcome carried out =
     (case out of
        Merged m \<Rightarrow> carried
      | AlreadyApplied t \<Rightarrow> EditResolved UnchangedEdit
      | NoOp \<Rightarrow> EditResolved UnchangedEdit
      | _ \<Rightarrow> EditResolved ConflictEdit)"

definition splitConflict ::
  "'n copy_env \<Rightarrow> ('n, 'c, 'w) copy_session \<Rightarrow> int option \<Rightarrow> 'n js list \<Rightarrow> 'n transfer_document \<Rightarrow> 'n transfer_model \<Rightarrow> 'w \<Rightarrow>
     (edit_end list \<times> 'n transfer_document) \<times> 'n reconcile_vars option \<times> 'w" where
  "splitConflict E S cap roots theirs m w =
     (let (replays, merged) = replay_edits E roots (tmRoot m)
      in if \<not> list_ex is_merged replays then ((map (split_outcome (EditResolved UnchangedEdit)) replays, theirs), None, w)
         else (case reconcile_with E S cap (plain_base theirs m) merged w of
                 (Inl e, V, w1) \<Rightarrow> ((map (split_outcome (EditRejected e)) replays, theirs), Some V, w1)
               | (Inr (outcome, answer), V, w1) \<Rightarrow>
                   (let out = toEditOutcome outcome;
                        carried = EditResolved (if out = Applied then MergedEdit else out)
                    in ((map (split_outcome carried) replays, (case answer of Some d \<Rightarrow> d | None \<Rightarrow> theirs)), Some V, w1))))"

text \<open>
  What the write of a batch comes back with, for \<open>writeAnswered\<close>: the outcomes of its written edits and the last
  answer, with the variables of the reconciles it ran.
\<close>

definition write_batch ::
  "'n copy_env \<Rightarrow> ('n, 'c, 'w) copy_session \<Rightarrow> int option \<Rightarrow> 'n write_base \<Rightarrow> 'n js list \<Rightarrow> 'w \<Rightarrow>
     (string + edit_end list \<times> 'n transfer_document option) \<times> 'n reconcile_vars list \<times> 'w" where
  "write_batch E S cap b roots w =
     (case reconcile_with E S cap b (last roots) w of
        (Inl e, V, w1) \<Rightarrow> (Inl e, [V], w1)
      | (Inr (outcome, answer), V, w1) \<Rightarrow>
          (case (write_status_of outcome, answer) of
             (Some ConflictWrite, Some d) \<Rightarrow>
               (case model d of
                  Some m \<Rightarrow>
                    if 2 < length roots
                    then (let ((outs, d'), V', w2) = splitConflict E S cap roots d m w1
                          in (Inr (outs, Some d'), V # (case V' of Some v \<Rightarrow> [v] | None \<Rightarrow> []), w2))
                    else (Inr (map (\<lambda>_. EditResolved (toEditOutcome outcome)) (tl roots), answer), [V], w1)
                | None \<Rightarrow> (Inr (map (\<lambda>_. EditResolved (toEditOutcome outcome)) (tl roots), answer), [V], w1))
           | _ \<Rightarrow> (Inr (map (\<lambda>_. EditResolved (toEditOutcome outcome)) (tl roots), answer), [V], w1)))"

subsection \<open>A rule for the reconcile loop\<close>

text \<open>
  \<open>I\<close> holds before each write, \<open>J\<close> of what it throws and the world after it, \<open>K\<close> after each call of the resolver.
\<close>

lemma reconcile_loop_rule:
  assumes "reconcile_loop h m candidate v previous writes unsent w = (r, log, w')" and "I candidate v w"
    and persisted: "\<And>x v w. I x v w \<Longrightarrow> J (fst (persist h x v w)) (snd (persist h x v w))"
    and resolved: "\<And>c w1 q w2 rf. J (Some (ConflictError c)) w1 \<Longrightarrow>
      conflictResolver h (base h) m (capture h) (w1, None) = (q, (w2, rf)) \<Longrightarrow>
      K q w2 \<and> (\<forall>x. q = Inr (Merged x) \<longrightarrow> I x (mergedBase rf) w2)"
    and none: "onUnavailable h = None"
  shows "landed_status r \<and> J None w' \<or> \<not> landed_status r \<and> ((\<exists>e. J (Some (OtherError e)) w') \<or> (\<exists>q. K q w'))"
  using assms(1,2)
proof (induction log arbitrary: candidate v previous writes unsent w)
  case Nil
  then show ?case using loop_landed by fastforce
next
  case (Cons e log)
  obtain p w1 where p: "persist h candidate v w = (p, w1)" by (metis surj_pair)
  have J: "J p w1" using persisted [OF Cons.prems(2)] p by simp
  note step = Cons.prems(1) [unfolded reconcile_loop.simps [of h m candidate] persistOrConflict_def p, simplified]
  show ?case
  proof (cases p)
    case None
    then show ?thesis using step J by (auto simp: landed_status_def Let_def split: option.splits)
  next
    case (Some t)
    show ?thesis
    proof (cases t)
      case (OtherError e)
      then show ?thesis using step J Some by (auto simp: landed_status_def)
    next
      case (ConflictError c)
      obtain q w2 rf where q: "conflictResolver h (base h) m (capture h) (w1, None) = (q, (w2, rf))" by (metis surj_pair)
      have K: "K q w2" "\<And>x. q = Inr (Merged x) \<Longrightarrow> I x (mergedBase rf) w2"
        using resolved [OF _ q] J Some ConflictError by auto
      let ?refused = "refusedUnsent h unsent (Some c)"
      show ?thesis
      proof (cases "\<exists>x. q = Inr (Merged x) \<and> \<not> max_writes h \<le> (if ?refused then writes else writes + 1)")
        case True
        then obtain x where x: "q = Inr (Merged x)" "\<not> max_writes h \<le> (if ?refused then writes else writes + 1)" by blast
        have "reconcile_loop h m x (mergedBase rf) (Some c) (if ?refused then writes else writes + 1)
            (if ?refused then unsent + 1 else unsent) w2 = (r, log, w')"
          using step Some ConflictError q x by (auto simp: Let_def split: prod.splits if_splits)
        then show ?thesis using Cons.IH K(2) [OF x(1)] by blast
      next
        case False
        then have "w' = w2 \<and> \<not> landed_status r"
          using step Some ConflictError q none
          by (cases q rule: sum.exhaust [case_names Inl Inr]; cases "projr q")
            (auto simp: Let_def landed_status_def settle_unavailable_def split: if_splits)
        then show ?thesis using K(1) by blast
      qed
    qed
  qed
qed

text \<open>The resolver of a working copy changes the world by its refetch alone, and merges onto what that answered.\<close>

lemma resolver_world:
  assumes "ReconcilingConflictResolver_resolve P key b ours fetch s = (q, s')"
  obtains (same) "s' = s" "\<And>m. q \<noteq> Inr (Merged m)" | (fetched) a where "fetch s = (a, s')" "\<And>m. q = Inr (Merged m) \<Longrightarrow> \<exists>t. a = Inr (Some t)"
  using assms
  by (auto simp: ReconcilingConflictResolver_resolve_def reconcileByPatchReplay_def split: if_splits prod.splits sum.splits option.splits)

lemma copy_hooks_sel [simp]:
  "persist (copy_hooks E S cap b) = copy_persist S b" "refetch (copy_hooks E S cap b) = copy_refetch S"
  "base (copy_hooks E S cap b) = baseModel b" "onUnavailable (copy_hooks E S cap b) = None"
  "conflictResolver (copy_hooks E S cap b) = ReconcilingConflictResolver_resolve (patchLib E) (replayKey E)"
  by (simp_all add: copy_hooks_def)

lemma refetch_vars:
  assumes "copy_refetch S (w, V) = (a, (w', V'))"
  shows "written V' = written V" "sentWrites V' = sentWrites V" "firstWrite V' = firstWrite V" "went V' = went V"
    "set (readDocuments V) \<subseteq> set (readDocuments V')"
    "a = Inr (Some t) \<Longrightarrow> \<exists>d \<in> set (readDocuments V'). \<exists>m. model d = Some m \<and> nextEpoch V' = epoch d \<and>
       t = \<lparr>vm_model = tmRoot m, vm_version = tmVersion m\<rparr>"
  using assms by (auto simp: copy_refetch_def split: if_splits prod.splits sum.splits)

lemma copy_resolved:
  assumes "conflictResolver (copy_hooks E S cap b) (base (copy_hooks E S cap b)) ours (capture (copy_hooks E S cap b)) ((w, V), None) = (q, ((w', V'), rf))"
  obtains (same) "w' = w" "V' = V" "\<And>x. q \<noteq> Inr (Merged x)"
  | (fetched) a where "copy_refetch S (w, V) = (a, (w', V'))"
      "\<And>x. q = Inr (Merged x) \<Longrightarrow> \<exists>t. a = Inr (Some t) \<and> rf = Some t \<and>
         replay_options (patchLib E) (replayKey E) (baseModel b) ours (vm_model t) = Merged x"
proof (rule resolver_world [OF assms [simplified]])
  assume "((w', V'), rf) = ((w, V), None)" "\<And>m. q \<noteq> Inr (Merged m)"
  then show thesis using same by simp
next
  fix a' assume f: "capture (copy_hooks E S cap b) ((w, V), None) = (a', (w', V'), rf)" and "\<And>m. q = Inr (Merged m) \<Longrightarrow> \<exists>t. a' = Inr (Some t)"
  obtain a where a: "copy_refetch S (w, V) = (a, (w', V'))" using f by (auto simp: capture_def split: prod.splits sum.splits)
  have "\<exists>t. a = Inr (Some t) \<and> rf = Some t \<and> replay_options (patchLib E) (replayKey E) (baseModel b) ours (vm_model t) = Merged x"
    if m: "q = Inr (Merged x)" for x
    using reconciling.merged_from [OF assms [simplified, unfolded m]] f a
    by (auto simp: capture_def split: sum.splits)
  then show thesis using fetched a by blast
qed

subsection \<open>What is written, and on what\<close>

text \<open>
  A write that was sent carries the version and epoch of one document: of the base, and then the batch's own
  root on a confirmed base, or of a document read meanwhile, and then the batch merged onto that document's root.
\<close>

definition write_gated :: "'n copy_env \<Rightarrow> 'n write_base \<Rightarrow> 'n js \<Rightarrow> 'n transfer_document list \<Rightarrow> 'n js \<times> base_version \<times> string option \<Rightarrow> bool" where
  "write_gated E b ours docs = (\<lambda>(x, v, e).
     x = ours \<and> v = BaseVersion (baseVersion b) \<and> e = Some (baseEpoch b) \<and> \<not> unconfirmed b \<or>
     (\<exists>d \<in> set docs. \<exists>m. model d = Some m \<and> v = BaseVersion (tmVersion m) \<and> e = Some (epoch d) \<and>
        replay_options (patchLib E) (replayKey E) (baseModel b) ours (tmRoot m) = Merged x))"

lemma write_gated_mono: "write_gated E b ours docs s \<Longrightarrow> set docs \<subseteq> set docs' \<Longrightarrow> write_gated E b ours docs' s"
  by (fastforce simp: write_gated_def)

definition all_gated :: "'n copy_env \<Rightarrow> 'n write_base \<Rightarrow> 'n js \<Rightarrow> 'n reconcile_vars \<Rightarrow> bool" where
  "all_gated E b ours V \<longleftrightarrow> (\<forall>s \<in> set (sentWrites V). write_gated E b ours (readDocuments V) s)"

definition next_gated :: "'n copy_env \<Rightarrow> 'n write_base \<Rightarrow> 'n js \<Rightarrow> 'n js \<Rightarrow> base_version \<Rightarrow> 'n reconcile_vars \<Rightarrow> bool" where
  "next_gated E b ours x v V \<longleftrightarrow>
     firstWrite V \<and> x = ours \<and> v = BaseVersion (baseVersion b) \<and> nextEpoch V = baseEpoch b \<or>
     (\<exists>d \<in> set (readDocuments V). \<exists>m. model d = Some m \<and> v = BaseVersion (tmVersion m) \<and> nextEpoch V = epoch d \<and>
        replay_options (patchLib E) (replayKey E) (baseModel b) ours (tmRoot m) = Merged x)"

lemma persist_gated:
  assumes "all_gated E b ours V" and "next_gated E b ours x v V"
  shows "all_gated E b ours (snd (snd (copy_persist S b x v (w, V))))"
proof -
  have "write_gated E b ours (readDocuments V) (x, v, gate_epoch v (nextEpoch V))" if "\<not> (firstWrite V \<and> unconfirmed b)"
    using assms(2) that by (auto simp: next_gated_def write_gated_def gate_epoch_def)
  then show ?thesis using assms(1)
    by (auto simp: copy_persist_def all_gated_def Let_def split: prod.split sum.split thrown.split)
qed

text \<open>
  C28: A working copy gates what it writes. Every write a reconcile sends carries the version and server life of one
  document: it is the batch itself on the base the user edited, which was confirmed, or the merge of the batch onto
  a document read after a conflict, gated on that document's version and life. No text is sent under
  the version of another text.
\<close>

theorem reconcile_sends_gated:
  assumes "reconcile_with E S cap b ours w = (r, V, w')" and "s \<in> set (sentWrites V)"
  shows "write_gated E b ours (readDocuments V) s"
proof -
  let ?h = "copy_hooks E S cap b"
  obtain r0 log w1 where run: "reconcile_loop ?h ours ours (BaseVersion (baseVersion b)) None 0 0 (w, vars_for b) = (r0, log, (w1, V))"
    using assms(1) by (auto simp: reconcile_with_def reconcileWrite_def Let_def split: prod.splits sum.splits)
  have "all_gated E b ours (snd (w1, V))"
  proof (rule reconcile_loop_rule [OF run, where I = "\<lambda>x v s. all_gated E b ours (snd s) \<and> next_gated E b ours x v (snd s)"
        and J = "\<lambda>p s. all_gated E b ours (snd s)" and K = "\<lambda>q s. all_gated E b ours (snd s)", THEN disjE], goal_cases)
    case 1
    then show ?case by (simp add: vars_for_def all_gated_def next_gated_def)
  next
    case (2 x v s)
    then show ?case using persist_gated by (cases s) auto
  next
    case (3 c s q s' rf)
    obtain w V w' V' where s: "s = (w, V)" "s' = (w', V')" by fastforce
    from 3(2) [unfolded s] show ?case
    proof (cases rule: copy_resolved)
      case (fetched a)
      have "all_gated E b ours V'"
        unfolding all_gated_def refetch_vars(2) [OF fetched(1)]
        using 3(1) write_gated_mono [OF _ refetch_vars(5) [OF fetched(1)]] by (simp add: all_gated_def s)
      moreover have "next_gated E b ours x (mergedBase rf) V'" if "q = Inr (Merged x)" for x
        using fetched(2) [OF that] refetch_vars(6) [OF fetched(1)] by (fastforce simp: next_gated_def mergedBase_def)
      ultimately show ?thesis by (simp add: s)
    qed (use 3(1) s in auto)
  qed auto
  then show ?thesis using assms(2) by (simp add: all_gated_def)
qed

subsection \<open>What an edit is told\<close>

text \<open>
  An open that is no longer the one the copy follows never is again: every open is a fresh object. The requests of
  a session keep that.
\<close>

definition session_ok :: "('n, 'c, 'w) copy_session \<Rightarrow> bool" where
  "session_ok S \<longleftrightarrow>
     (\<forall>m v e w. \<not> followed S w \<longrightarrow> \<not> followed S (snd (updateDocument S m v e w))) \<and>
     (\<forall>w. \<not> followed S w \<longrightarrow> \<not> followed S (snd (getModelDocument S w)))"

definition landed_outcome :: "'c write_outcome \<Rightarrow> bool" where
  "landed_outcome out \<longleftrightarrow> out = Persisted \<or> write_status_of out = Some MergedWrite"

lemma landed_status_outcome: "landed_status (Inr out) \<longleftrightarrow> landed_outcome out"
  by (cases out) (auto simp: landed_status_def landed_outcome_def)

definition unwritten :: "('n, 'c, 'w) copy_session \<Rightarrow> 'w \<times> 'n reconcile_vars \<Rightarrow> bool" where
  "unwritten S = (\<lambda>(w, V). written V = None \<and> (went V \<longrightarrow> \<not> followed S w))"

definition wrote :: "'w \<times> 'n reconcile_vars \<Rightarrow> bool" where
  "wrote = (\<lambda>(w, V). written V \<noteq> None \<and> \<not> went V)"

lemma persist_unwritten:
  assumes "session_ok S" and "unwritten S s"
  shows "case copy_persist S b x v s of (None, s') \<Rightarrow> wrote s' | (Some t, s') \<Rightarrow> unwritten S s'"
proof (cases s)
  case (Pair w V)
  show ?thesis
  proof (cases "\<not> followed S w \<or> firstWrite V \<and> unconfirmed b")
    case True
    then show ?thesis using assms(2) by (auto simp: Pair copy_persist_def unwritten_def Let_def)
  next
    case False
    then have "\<not> went V" using assms(2) by (auto simp: Pair unwritten_def)
    then show ?thesis using False assms(2)
      by (auto simp: Pair copy_persist_def unwritten_def wrote_def Let_def split: prod.split sum.split thrown.split)
  qed
qed

lemma refetch_unwritten:
  assumes "session_ok S" and "unwritten S s" and "copy_refetch S s = (a, s')"
  shows "unwritten S s'"
  using assms
  by (cases s) (auto simp: copy_refetch_def unwritten_def session_ok_def split: if_splits prod.splits sum.splits)

lemma loop_writes:
  assumes "session_ok S"
    and run: "reconcile_loop (copy_hooks E S cap b) ours ours (BaseVersion (baseVersion b)) None 0 0 (w, vars_for b) = (r0, log, (w1, V))"
  shows "landed_status r0 \<and> wrote (w1, V) \<or> \<not> landed_status r0 \<and> unwritten S (w1, V)"
proof -
  let ?h = "copy_hooks E S cap b"
  show ?thesis
  proof (rule reconcile_loop_rule [OF run, where I = "\<lambda>x v s. unwritten S s"
        and J = "\<lambda>p s. case p of None \<Rightarrow> wrote s | Some t \<Rightarrow> unwritten S s" and K = "\<lambda>q s. unwritten S s", THEN disjE], goal_cases)
    case 1
    then show ?case by (simp add: vars_for_def unwritten_def)
  next
    case (2 x v s)
    then show ?case using persist_unwritten [OF assms(1), of s b x v] by (auto split: prod.splits option.splits)
  next
    case (3 c s q s' rf)
    obtain w V w' V' where s: "s = (w, V)" "s' = (w', V')" by fastforce
    from 3(2) [unfolded s] show ?case
      by (cases rule: copy_resolved) (use 3(1) s refetch_unwritten [OF assms(1)] in auto)
  qed auto
qed

text \<open>What a reconcile answers was written, whatever it makes of the loop's outcome.\<close>

lemma reconcile_tells:
  assumes "session_ok S" and "reconcile_with E S cap b ours w = (r, V, w')"
  obtains r0 log w1 where
    "reconcile_loop (copy_hooks E S cap b) ours ours (BaseVersion (baseVersion b)) None 0 0 (w, vars_for b) = (r0, log, (w1, V))"
    "landed_status r0 \<longleftrightarrow> (\<exists>out a. r = Inr (out, a) \<and> landed_outcome out)"
    "w' = w1 \<or> (\<exists>a. getModelDocument S w1 = (a, w') \<and> (\<exists>out. r0 = Inr out))" "(\<exists>e. r0 = Inl e) \<longrightarrow> (\<exists>e. r = Inl e)"
proof -
  let ?h = "copy_hooks E S cap b"
  obtain r0 log w1 where run: "reconcile_loop ?h ours ours (BaseVersion (baseVersion b)) None 0 0 (w, vars_for b) = (r0, log, (w1, V))"
    using assms(2) by (auto simp: reconcile_with_def reconcileWrite_def Let_def split: prod.splits sum.splits)
  have last: "w' = w1 \<or> (\<exists>a. getModelDocument S w1 = (a, w') \<and> (\<exists>out. r0 = Inr out))" "(\<exists>e. r0 = Inl e) \<longrightarrow> (\<exists>e. r = Inl e)"
    using assms(2) run
    by (auto simp: reconcile_with_def reconcileWrite_def copy_outcome_def Let_def split: sum.splits if_splits prod.splits)
  have "landed_status r0 \<longleftrightarrow> (\<exists>out a. r = Inr (out, a) \<and> landed_outcome out)"
    using loop_writes [OF assms(1) run]
  proof
    assume landed: "landed_status r0 \<and> wrote (w1, V)"
    then obtain out where out: "r0 = Inr out" "landed_outcome out" by (cases r0) (auto simp: landed_status_outcome, simp add: landed_status_def)
    then have "r = (if write_status_of out = Some MergedWrite \<and> raced_nothing E b V then Inr (Persisted, written V) else Inr (out, written V))"
      using assms(2) run landed
      by (cases out) (auto simp: reconcile_with_def reconcileWrite_def copy_outcome_def landed_outcome_def wrote_def Let_def)
    then show ?thesis using out(2) landed by (auto simp: landed_outcome_def split: if_splits)
  next
    assume no: "\<not> landed_status r0 \<and> unwritten S (w1, V)"
    have "\<not> landed_outcome out'" if told: "r = Inr (out', a)" for out' a
    proof -
      obtain out where out: "r0 = Inr out" "\<not> landed_outcome out"
        using assms(2) run told no landed_status_outcome
        by (cases r0) (auto simp: reconcile_with_def reconcileWrite_def Let_def)
      then show ?thesis
        using assms(2) run told
        by (cases out) (auto simp: reconcile_with_def reconcileWrite_def copy_outcome_def landed_outcome_def Let_def split: if_splits prod.splits sum.splits)
    qed
    then show ?thesis using no by auto
  qed
  then show thesis using that [OF run] last by blast
qed

text \<open>
  What the server stored of the copy's writes, in a world of the session: one more when it answered a write,
  as many when it refused one for a conflict or read, and either where a request failed otherwise.
\<close>

definition update_counted :: "('w \<Rightarrow> int) \<Rightarrow> 'w \<Rightarrow> (('c, string) thrown + 'n transfer_document) \<times> 'w \<Rightarrow> bool" where
  "update_counted stored w answer \<longleftrightarrow>
     (case answer of
        (Inr d, w1) \<Rightarrow> stored w1 = stored w + 1
      | (Inl (ConflictError c), w1) \<Rightarrow> stored w1 = stored w
      | (Inl (OtherError x), w1) \<Rightarrow> stored w1 = stored w \<or> stored w1 = stored w + 1)"

definition session_counts :: "('w \<Rightarrow> int) \<Rightarrow> ('n, 'c, 'w) copy_session \<Rightarrow> bool" where
  "session_counts stored S \<longleftrightarrow>
     (\<forall>m v e w. update_counted stored w (updateDocument S m v e w)) \<and> (\<forall>w. stored (snd (getModelDocument S w)) = stored w)"

lemma session_countsD:
  assumes "session_counts stored S"
  shows "update_counted stored w (updateDocument S m v e w)"
    and "getModelDocument S w = (a, w1) \<Longrightarrow> stored w1 = stored w"
  using assms by (simp add: session_counts_def, metis session_counts_def snd_conv)

lemma copy_hooks_count:
  assumes "session_counts stored S"
  shows "counts_writes (\<lambda>s. stored (fst s)) (copy_hooks E S cap b)"
proof -
  let ?h = "copy_hooks E S cap b"
  have "persist_counted (\<lambda>s. stored (fst s)) (w, V) (copy_persist S b m v (w, V))" for m v w V
    using session_countsD(1) [OF assms, of w m v "gate_epoch v (nextEpoch V)"]
    by (auto simp: persist_counted_def update_counted_def copy_persist_def Let_def split: prod.splits sum.splits thrown.splits)
  moreover have "stored (fst (fst (snd (conflictResolver ?h (base ?h) ours (capture ?h) ((w, V), None))))) = stored w" for ours w V
  proof -
    obtain q w1 V1 rf where r: "conflictResolver ?h (base ?h) ours (capture ?h) ((w, V), None) = (q, ((w1, V1), rf))" by (metis surj_pair)
    then have "stored w1 = stored w"
    proof (cases rule: copy_resolved)
      case (fetched a)
      then show ?thesis using session_countsD(2) [OF assms] by (auto simp: copy_refetch_def split: if_splits prod.splits sum.splits)
    qed simp
    then show ?thesis using r by simp
  qed
  ultimately show ?thesis by (simp add: counts_writes_def)
qed

lemma reconcile_stored:
  assumes "session_ok S" and "session_counts stored S" and "reconcile_with E S cap b ours w = (r, V, w')"
  shows "case r of Inl e \<Rightarrow> stored w' = stored w \<or> stored w' = stored w + 1
    | Inr (out, a) \<Rightarrow> stored w' = stored w + (if landed_outcome out then 1 else 0)"
proof -
  obtain r0 log w1 where run: "reconcile_loop (copy_hooks E S cap b) ours ours (BaseVersion (baseVersion b)) None 0 0 (w, vars_for b) = (r0, log, (w1, V))"
    and landed: "landed_status r0 \<longleftrightarrow> (\<exists>out a. r = Inr (out, a) \<and> landed_outcome out)"
    and last: "w' = w1 \<or> (\<exists>a. getModelDocument S w1 = (a, w') \<and> (\<exists>out. r0 = Inr out))" "(\<exists>e. r0 = Inl e) \<longrightarrow> (\<exists>e. r = Inl e)"
    by (rule reconcile_tells [OF assms(1,3)])
  note told = loop_told [OF copy_hooks_count [OF assms(2)] run]
  have same: "stored w' = stored w1" using last(1) session_countsD(2) [OF assms(2)] by auto
  show ?thesis
  proof (cases r0)
    case (Inl e)
    then show ?thesis using told same last(2) by (auto simp: landing_told_def)
  next
    case (Inr out)
    then have "stored w' = stored w + (if landed_status r0 then 1 else 0)"
      using told same
      by (cases out) (auto simp: landing_told_def landed_status_def split: write_status.splits)
    then show ?thesis using landed by (auto split: sum.splits)
  qed
qed

definition told_written :: "edit_end \<Rightarrow> bool" where
  "told_written x \<longleftrightarrow> x \<in> {EditResolved Applied, EditResolved MergedEdit}"

lemma toEditOutcome_written: "told_written (EditResolved (toEditOutcome out)) \<longleftrightarrow> landed_outcome out"
  by (cases out rule: toEditOutcome.cases) (auto simp: told_written_def landed_outcome_def)

lemma replay_edits_length: "length (fst (replay_edits E roots cur)) = length roots - 1"
  by (induction E roots cur rule: replay_edits.induct) (auto simp: Let_def split: prod.split)

lemma split_outcome_told: "told_written (split_outcome carried out) \<longleftrightarrow> is_merged out \<and> told_written carried"
  by (cases out) (auto simp: split_outcome_def is_merged_def told_written_def)

lemma split_outcome_written:
  "(\<exists>x \<in> set (map (split_outcome carried) replays). told_written x) \<longleftrightarrow> list_ex is_merged replays \<and> told_written carried"
  by (auto simp: split_outcome_told list_ex_iff)

text \<open>What the ends of a batch's edits say of the number \<open>k\<close> of writes the server stored of it.\<close>

definition ends_true :: "int \<Rightarrow> edit_end list \<Rightarrow> bool" where
  "ends_true k outs \<longleftrightarrow>
     (if \<exists>x. EditRejected x \<in> set outs then (k = 0 \<or> k = 1) \<and> (\<forall>x \<in> set outs. \<not> told_written x)
      else k = (if \<exists>x \<in> set outs. told_written x then 1 else 0))"

lemma split_outcome_rejected: "EditRejected x = split_outcome carried out \<longleftrightarrow> is_merged out \<and> carried = EditRejected x"
  by (cases out) (auto simp: split_outcome_def is_merged_def)

lemma split_ends:
  "list_ex is_merged replays \<Longrightarrow> carried = EditRejected e \<Longrightarrow> k = 0 \<or> k = 1 \<Longrightarrow> ends_true k (map (split_outcome carried) replays)"
  "carried = EditResolved out \<Longrightarrow> k = (if list_ex is_merged replays \<and> told_written carried then 1 else 0) \<Longrightarrow>
     ends_true k (map (split_outcome carried) replays)"
  using split_outcome_written [of carried replays]
  by (auto simp: ends_true_def split_outcome_rejected image_iff list_ex_iff split_outcome_told told_written_def)

lemma split_conflict_stored:
  assumes "session_ok S" and "session_counts stored S" and "splitConflict E S cap roots d m w = ((outs, d'), V', w')"
  shows "ends_true (stored w' - stored w) outs \<and> length outs = length roots - 1"
proof -
  obtain replays merged where rp: "replay_edits E roots (tmRoot m) = (replays, merged)" by fastforce
  then have len: "length replays = length roots - 1" using replay_edits_length [of E roots "tmRoot m"] by simp
  show ?thesis
  proof (cases "list_ex is_merged replays")
    case False
    then have "outs = map (split_outcome (EditResolved UnchangedEdit)) replays" "w' = w"
      using assms(3) rp by (auto simp: splitConflict_def)
    then show ?thesis using split_ends(2) [of "EditResolved UnchangedEdit" _ 0 replays] False len by simp
  next
    case True
    obtain r V w1 where rec: "reconcile_with E S cap (plain_base d m) merged w = (r, V, w1)" by (metis surj_pair)
    note told = reconcile_stored [OF assms(1,2) rec]
    show ?thesis
    proof (cases r)
      case (Inl e)
      then have "outs = map (split_outcome (EditRejected e)) replays" "w' = w1"
        using assms(3) rp True rec by (auto simp: splitConflict_def)
      moreover have "stored w1 - stored w = 0 \<or> stored w1 - stored w = 1" using told Inl by auto
      ultimately show ?thesis using split_ends(1) [OF True refl] len by simp
    next
      case (Inr oa)
      obtain out a where oa: "oa = (out, a)" by fastforce
      define carried where "carried = EditResolved (if toEditOutcome out = Applied then MergedEdit else toEditOutcome out)"
      have "told_written carried \<longleftrightarrow> landed_outcome out"
        using toEditOutcome_written [of out] by (auto simp: carried_def told_written_def)
      moreover have "outs = map (split_outcome carried) replays" "w' = w1"
        using assms(3) rp True rec Inr oa by (auto simp: splitConflict_def carried_def Let_def)
      moreover have "stored w1 - stored w = (if landed_outcome out then 1 else 0)" using told Inr oa by simp
      ultimately show ?thesis using split_ends(2) [OF carried_def, of "stored w1 - stored w" replays] True len by simp
    qed
  qed
qed

lemma ends_true_same:
  "length roots \<noteq> 0 \<Longrightarrow> ends_true (if landed_outcome out then 1 else 0) (map (\<lambda>_. EditResolved (toEditOutcome out)) roots)"
  using toEditOutcome_written [of out] by (cases roots) (auto simp: ends_true_def)

text \<open>
  C27: An edit is told the truth about its write. Where the write of a batch answers, it answers every written edit.
  Unless one of them is rejected, exactly one write of the batch was stored by the server when an edit is told it was
  applied or merged, and none when no edit is, whole or split into its edits after a conflict. Where the write
  rejects, or an edit of the split batch is rejected with it, no edit is told that, and it is left open whether the
  failed request was carried out: at most one write of the batch was stored.
\<close>

theorem edit_outcomes_true:
  assumes "session_ok S" and "session_counts stored S" and "write_batch E S cap b roots w = (r, Vs, w')" and "1 < length roots"
  shows "case r of
      Inl e \<Rightarrow> stored w' = stored w \<or> stored w' = stored w + 1
    | Inr (outs, answer) \<Rightarrow> length outs = length roots - 1 \<and> ends_true (stored w' - stored w) outs"
proof -
  obtain q V w1 where rec: "reconcile_with E S cap b (last roots) w = (q, V, w1)" by (metis surj_pair)
  note told = reconcile_stored [OF assms(1,2) rec]
  show ?thesis
  proof (cases q)
    case (Inl e)
    then show ?thesis using assms(3) rec told by (auto simp: write_batch_def)
  next
    case (Inr oa)
    obtain out a where oa: "oa = (out, a)" by fastforce
    let ?whole = "(Inr (map (\<lambda>_. EditResolved (toEditOutcome out)) (tl roots), a), [V], w1)"
    consider (whole) "(r, Vs, w') = ?whole"
      | (split) d m where "write_status_of out = Some ConflictWrite" "a = Some d" "model d = Some m" "2 < length roots"
      using assms(3) rec Inr oa by (auto simp: write_batch_def split: option.splits write_status.splits if_splits)
    then show ?thesis
    proof cases
      case whole
      have "length (tl roots) \<noteq> 0" using assms(4) by (cases roots) auto
      moreover have "stored w1 - stored w = (if landed_outcome out then 1 else 0)" using told Inr oa by simp
      ultimately show ?thesis using whole ends_true_same [of "tl roots" out] by simp
    next
      case split
      obtain outs d' V' w2 where sp: "splitConflict E S cap roots d m w1 = ((outs, d'), V', w2)" by (metis surj_pair)
      have "\<not> landed_outcome out" using split(1) by (auto simp: landed_outcome_def)
      then have "stored w1 = stored w" using told Inr oa by simp
      moreover have "r = Inr (outs, Some d')" "w' = w2" using assms(3) rec Inr oa split sp by (auto simp: write_batch_def)
      ultimately show ?thesis using split_conflict_stored [OF assms(1,2) sp] by simp
    qed
  qed
qed

subsection \<open>The answer fits the batch\<close>

lemma edit_roots_length: "edit_roots es r = Some rs \<Longrightarrow> length rs = length es + 1"
  by (induction es arbitrary: r rs) (auto split: option.splits)

lemma split_conflict_length:
  "splitConflict E S cap roots d m w = ((outs, d'), V', w') \<Longrightarrow> length outs = length roots - 1"
  using replay_edits_length [of E roots "tmRoot m"]
  by (auto simp: splitConflict_def Let_def split: prod.splits if_splits sum.splits)

lemma write_batch_length:
  assumes "write_batch E S cap b roots w = (Inr (outs, answer), Vs, w')"
  shows "length outs = length roots - 1"
proof -
  obtain q V w1 where rec: "reconcile_with E S cap b (last roots) w = (q, V, w1)" by (metis surj_pair)
  then obtain out a where q: "q = Inr (out, a)" using assms by (cases q) (auto simp: write_batch_def)
  consider "outs = map (\<lambda>_. EditResolved (toEditOutcome out)) (tl roots)"
    | d m where "write_status_of out = Some ConflictWrite" "a = Some d" "model d = Some m" "2 < length roots"
    using assms rec q by (auto simp: write_batch_def split: option.splits write_status.splits if_splits)
  then show ?thesis
  proof cases
    case (2 d m)
    obtain o' d' V' w2 where sp: "splitConflict E S cap roots d m w1 = ((o', d'), V', w2)" by (metis surj_pair)
    then show ?thesis using assms rec q 2 split_conflict_length [OF sp] by (auto simp: write_batch_def)
  qed simp
qed

text \<open>
  C32: The answer of a batch fits the batch. Whatever the session answers to the requests of a write, what the
  write of a batch comes back with has one outcome for each edit the batch wrote, so the copy takes it as the end of the batch,
  whose edits then are no longer out: no answer leaves a batch open.
\<close>

theorem batch_is_answered:
  assumes "n < length (opens (copy.run E ops new_copy))" and "sending (open_at (copy.run E ops new_copy) n) \<noteq> []"
    and "edit_roots (batch_written E (sending (open_at (copy.run E ops new_copy) n)) (the (batchBase (open_at (copy.run E ops new_copy) n))))
      (baseModel (the (batchBase (open_at (copy.run E ops new_copy) n)))) = Some roots"
    and "write_batch E S cap (the (batchBase (open_at (copy.run E ops new_copy) n))) roots w = (answer, Vs, w')"
  shows "\<exists>C'. writeAnswered E n answer (copy.run E ops new_copy) = Some C' \<and>
    (\<forall>e \<in> set (sending (open_at (copy.run E ops new_copy) n)). editId e \<in> fst ` set (settledEdits C'))"
proof -
  let ?C = "copy.run E ops new_copy" and ?P = "open_at (copy.run E ops new_copy) n"
  obtain b where b: "batchBase ?P = Some b" using copy_run_parts(4) [of E ops] assms(1,2) by (auto simp: loops_open)
  define res where "res = (case answer of Inl err \<Rightarrow> BatchThrew err | Inr (outs, a) \<Rightarrow> BatchOutcomes (merge_outcomes (writesDropped E (sending ?P) (dropped b)) outs))"
  define a where "a = (case answer of Inl err \<Rightarrow> None | Inr (outs, a) \<Rightarrow> a)"
  have "writeAnswered E n answer ?C = Some (endBatch E n res a ?C)"
  proof (cases answer)
    case (Inl err)
    then show ?thesis using assms(1,2) b by (simp add: writeAnswered_def res_def a_def)
  next
    case (Inr oa)
    obtain outs d where oa: "oa = (outs, d)" by fastforce
    have "length outs = length (batch_written E (sending ?P) b)"
      using write_batch_length [of E S cap _ roots w outs d Vs w'] edit_roots_length [OF assms(3)] assms(4) b Inr oa by simp
    then show ?thesis using assms(1,2) b Inr oa by (simp add: writeAnswered_def res_def a_def)
  qed
  moreover have "map fst (batch_settlements (sending ?P) res) = map editId (sending ?P)"
    by (rule batch_settlements_ids)
      (simp add: res_def batch_end_fits_def split: sum.split prod.split)
  then have "editId ` set (sending ?P) = fst ` set (batch_settlements (sending ?P) res)" by (metis set_map)
  then have "\<forall>e \<in> set (sending ?P). editId e \<in> fst ` set (settledEdits (endBatch E n res a ?C))"
    by (auto simp: endBatch_def settleEdits_def Let_def image_Un)
  ultimately show ?thesis by blast
qed

subsection \<open>A write that another client raced\<close>

text \<open>
  A server at version 5 with a model another client wrote meanwhile, which gates on its version and holds the
  copy's epoch; the world is its document.
\<close>

definition raced_doc :: "int js \<Rightarrow> int \<Rightarrow> int transfer_document" where
  "raced_doc r v = (doc_at v 0 True)\<lparr>model := Some \<lparr>tmRoot = r, tmVersion = v, tmHash = ''h'', tmDiagnostics = None\<rparr>\<rparr>"

definition raced_session :: "(int, unit, int js \<times> int) copy_session" where
  "raced_session =
     \<lparr>updateDocument = (\<lambda>m bv e (r, v). if bv = BaseVersion v then (Inr (raced_doc m (v + 1)), (m, v + 1)) else (Inl (ConflictError ()), (r, v))),
      getModelDocument = (\<lambda>(r, v). (Inr (raced_doc r v), (r, v))), followed = (\<lambda>w. True)\<rparr>"

definition raced_base :: "int write_base" where
  "raced_base =
     \<lparr>baseModel = Obj [(''n'', Number 1), (''m'', Number 1)], baseVersion = 4, baseEpoch = ''e'', unconfirmed = False, dropped = None, onto = None\<rparr>"

abbreviation raced_roots :: "int js list" where
  "raced_roots \<equiv> [Obj [(''n'', Number 1), (''m'', Number 1)], Obj [(''n'', Number 2), (''m'', Number 1)]]"

abbreviation raced_world :: "int js \<times> int" where
  "raced_world \<equiv> (Obj [(''n'', Number 1), (''m'', Number 5)], 5)"

lemma raced_compare: "compare flat_lib (Obj [(''n'', Number 1), (''m'', Number 1)]) (Obj [(''n'', Number 2), (''m'', Number 1)]) =
    [\<lparr>op_of = OpReplace, path = ''/n'', op_value = Number 2\<rparr>]"
  by (simp add: flat_lib_def child_def)

lemma raced_replay: "replay flat_lib (Obj [(''n'', Number 1), (''m'', Number 1)]) (Obj [(''n'', Number 2), (''m'', Number 1)])
    (Obj [(''n'', Number 1), (''m'', Number 5)]) [\<lparr>op_of = OpReplace, path = ''/n'', op_value = Number 2\<rparr>] =
    Merged (Obj [(''n'', Number 2), (''m'', Number 5)])"
  by (simp add: replay_def withoutAgreed_def insertedArrays_def outermostArrayOn_def object_op_stays_def parent_path_def last_step_def
      addsCollide_def editsMovedElement_def valueAt_def flat_lib_def witness_get_def child_def js_has_def Let_def)

definition raced_vars :: "int reconcile_vars" where
  "raced_vars = (vars_for raced_base)
     \<lparr>written := Some (raced_doc (Obj [(''n'', Number 2), (''m'', Number 5)]) 6), theirDocument := Some (raced_doc (Obj [(''n'', Number 1), (''m'', Number 5)]) 5),
      landedOn := Some (BaseVersion 5), firstWrite := False, readDocuments := [raced_doc (Obj [(''n'', Number 1), (''m'', Number 5)]) 5],
      sentWrites := [(Obj [(''n'', Number 2), (''m'', Number 1)], BaseVersion 4, Some ''e''), (Obj [(''n'', Number 2), (''m'', Number 5)], BaseVersion 5, Some ''e'')]\<rparr>"

lemma raced_run:
  "reconcile_with flat_env raced_session None raced_base (Obj [(''n'', Number 2), (''m'', Number 1)]) raced_world =
     (Inr (Settled MergedWrite (ServerConflict ()) 2, written raced_vars), raced_vars, (Obj [(''n'', Number 2), (''m'', Number 5)], 6))"
proof -
  have "compare flat_lib (Obj [(''n'', Number 1), (''m'', Number 5)]) (Obj [(''n'', Number 1), (''m'', Number 1)]) \<noteq> []"
    by (simp add: flat_lib_def child_def)
  then show ?thesis
    by (simp add: reconcile_with_def reconcileWrite_def copy_hooks_def copy_persist_def copy_refetch_def raced_session_def raced_base_def
        vars_for_def raced_vars_def raced_doc_def doc_at_def flat_env_def gate_epoch_def copy_outcome_def raced_nothing_def
        reconcile_loop.simps persistOrConflict_def refusedUnsent_def max_writes_def DEFAULT_MAX_WRITES_def
        ReconcilingConflictResolver_resolve_def reconcileByPatchReplay_def capture_def replay_options_def mergedBase_def
        raced_compare raced_replay Let_def)
qed

definition failing_session :: "(int, unit, unit) copy_session" where
  "failing_session =
     \<lparr>updateDocument = (\<lambda>m bv e w. (Inl (OtherError ''gone''), w)), getModelDocument = (\<lambda>w. (Inl ''gone'', w)), followed = (\<lambda>w. True)\<rparr>"

theorem batch_is_answered_witness:
  "\<exists>C'. writeAnswered flat_env 0 (Inl ''gone'') (copy.run flat_env editing new_copy) = Some C' \<and> 0 \<in> fst ` set (settledEdits C')"
proof -
  let ?C = "copy.run flat_env editing new_copy"
  let ?roots = "[Obj [(''n'', Number 1)], Obj [(''n'', Number 2)]] :: int js list"
  have out: "0 < length (opens ?C)" "sending (open_at ?C 0) = [\<lparr>editId = 0, change = set_two\<rparr>]" by (simp_all add: editing_run)
  have roots: "edit_roots (batch_written flat_env (sending (open_at ?C 0)) (the (batchBase (open_at ?C 0)))) (baseModel (the (batchBase (open_at ?C 0)))) = Some ?roots"
    by (simp add: editing_run batch_written_def writesDropped_def set_two_def)
  have "fst (write_batch flat_env failing_session None (the (batchBase (open_at ?C 0))) ?roots ()) = Inl ''gone''"
    by (simp add: editing_run write_batch_def reconcile_with_def reconcileWrite_def reconcile_loop.simps persistOrConflict_def
        copy_persist_def failing_session_def vars_for_def thrown_text_def Let_def)
  then obtain Vs w' where "write_batch flat_env failing_session None (the (batchBase (open_at ?C 0))) ?roots () = (Inl ''gone'', Vs, w')"
    by (metis prod.collapse)
  then show ?thesis using batch_is_answered [OF out(1) _ roots] out(2) by fastforce
qed

theorem reconcile_sends_gated_witness:
  "write_gated flat_env raced_base (Obj [(''n'', Number 2), (''m'', Number 1)]) (readDocuments raced_vars)
     (Obj [(''n'', Number 2), (''m'', Number 5)], BaseVersion 5, Some ''e'')"
  by (rule reconcile_sends_gated [OF raced_run]) (simp add: raced_vars_def)

theorem edit_outcomes_true_witness:
  "ends_true (snd (Obj [(''n'', Number 2), (''m'', Number 5)], 6 :: int) - snd raced_world) [EditResolved MergedEdit] \<and>
   told_written (EditResolved MergedEdit)"
proof -
  have ok: "session_ok raced_session" by (simp add: session_ok_def raced_session_def)
  have counts: "session_counts snd raced_session"
    by (simp add: session_counts_def update_counted_def raced_session_def split: prod.split)
  have run: "write_batch flat_env raced_session None raced_base raced_roots raced_world =
      (Inr ([EditResolved MergedEdit], written raced_vars), [raced_vars], (Obj [(''n'', Number 2), (''m'', Number 5)], 6))"
    using raced_run by (simp add: write_batch_def)
  show ?thesis using edit_outcomes_true [OF ok counts run] by (simp add: told_written_def)
qed

end
