(* ===== verification/AstDocuments.thy ===== *)
theory AstDocuments
  imports VersionSync TaskQueue
begin

section \<open>The AST document manager\<close>

text \<open>
  \<open>DefaultAstDocumentManager\<close> of \<open>core/src/documents/ast-document-manager.ts\<close>, over the text store, the
  documents and the version sync of \<open>VersionSync\<close> and the task queue of files. An asynchronous operation
  is split at its awaits: \<open>open\<close> at the read of the file, \<open>save\<close> at its turn in the queue, its read and its write,
  \<open>delete\<close> at the builds and the queue. A save is known by the number of its task. The files are part of the state,
  since saves compare with them; a step may change one from outside. \<open>announcedSaves\<close> logs which save was
  announced, with the text its file held then. Of the workspace lock, what a wait inside a read is refused with is an
  argument. \<open>UriUtils.equals\<close> is a function of the environment.
\<close>

record manager_env =
  storeEnv :: env
  uriEquals :: "uri \<Rightarrow> uri \<Rightarrow> bool"
  coalesceSaves :: bool
  buildsValidate :: bool

datatype delete_stage = DeleteRegisters | DeleteQueued nat | DeleteBuilds | DeleteRefused

record ast_manager =
  lastUpdate :: "(uri list \<times> uri list) option"
  trackedUris :: "uri list"
  deliveredVersions :: "(uri, version) js_map"
  buildCauses :: "client_id list"
  deletions :: "(uri, client_id) js_map"
  deleteStages :: "(uri, delete_stage) js_map"
  newestSaves :: "(uri, nat) js_map"

datatype save_state = SaveQueued | SaveReads | SaveWrites | SaveReturned bool

datatype save_end = SavePending | SaveRejected | SavedAs version

record save_task =
  saveUri :: uri
  saveText :: text_body
  saveVersion :: version
  saveClient :: client_id
  saveState :: save_state
  supersededBy :: "nat option"
  saveEnd :: save_end

record 'e workspace =
  inSync :: "'e sync"
  manager :: ast_manager
  fileQueue :: task_queue
  saveCalls :: "(nat, save_task) js_map"
  files :: "(uri, text_body) js_map"
  announcedSaves :: "(nat \<times> text_body option) list"

definition new_manager :: ast_manager where
  "new_manager =
     \<lparr>lastUpdate = None, trackedUris = [], deliveredVersions = [], buildCauses = [], deletions = [], deleteStages = [], newestSaves = []\<rparr>"

definition new_workspace :: "'e sync \<Rightarrow> (uri, text_body) js_map \<Rightarrow> 'e workspace" where
  "new_workspace Y fs =
     \<lparr>inSync = Y, manager = new_manager, fileQueue = new_task_queue, saveCalls = [], files = fs, announcedSaves = []\<rparr>"

datatype manager_error =
    StoreRefused store_error
  | NotOpenedYet uri
  | ReadFailed uri
  | ReentrantDelete uri
  | DeleteUnderWay uri

abbreviation ws_store :: "'e workspace \<Rightarrow> store" where
  "ws_store W \<equiv> textStore (inSync W)"

definition with_manager :: "(ast_manager \<Rightarrow> ast_manager) \<Rightarrow> 'e workspace \<Rightarrow> 'e workspace" where
  "with_manager f W = W\<lparr>manager := f (manager W)\<rparr>"

text \<open>
  An operation of the store, and the manager's listener on its \<open>onDidOpen\<close>, which tracks the URI. The open
  that listener makes finds the client holding the document, as the close of its listener on \<open>onDidClose\<close> finds none.
\<close>

fun opened_uri :: "store_event \<Rightarrow> uri option" where
  "opened_uri (EvOpen u v txt c) = Some u"
| "opened_uri ev = None"

definition with_store :: "manager_env \<Rightarrow> (store \<Rightarrow> store) \<Rightarrow> 'e workspace \<Rightarrow> 'e workspace" where
  "with_store M f W =
     (let S = ws_store W; S' = f S;
          opened = map (canonical (storeEnv M)) (List.map_filter opened_uri (drop (length (storeLog S)) (storeLog S')))
      in with_manager (\<lambda>A. A\<lparr>trackedUris := fold set_add opened (trackedUris A)\<rparr>) (W\<lparr>inSync := (inSync W)\<lparr>textStore := S'\<rparr>\<rparr>))"

subsection \<open>Whose writes an update carries\<close>

definition manager_isOpen :: "manager_env \<Rightarrow> uri \<Rightarrow> 'e workspace \<Rightarrow> bool" where
  "manager_isOpen M u W \<longleftrightarrow> store_get (storeEnv M) u (ws_store W) \<noteq> None"

definition keepsVersion :: "manager_env \<Rightarrow> uri \<Rightarrow> 'e workspace \<Rightarrow> bool" where
  "keepsVersion M u W \<longleftrightarrow> u \<in> set (trackedUris (manager W)) \<or> store_isOpen (storeEnv M) u (ws_store W)"

definition isTracked :: "manager_env \<Rightarrow> uri \<Rightarrow> 'e workspace \<Rightarrow> bool" where
  "isTracked M u W \<longleftrightarrow> keepsVersion M u W \<and> buildsValidate M"

definition isDelivered :: "manager_env \<Rightarrow> uri \<Rightarrow> version \<Rightarrow> ast_manager \<Rightarrow> bool" where
  "isDelivered M u v A \<longleftrightarrow> js_get (deliveredVersions A) (canonical (storeEnv M) u) = Some v"

definition markDelivered :: "manager_env \<Rightarrow> uri \<Rightarrow> version \<Rightarrow> 'e workspace \<Rightarrow> 'e workspace" where
  "markDelivered M u v W =
     (let key = canonical (storeEnv M) u
      in if keepsVersion M key W
         then with_manager (\<lambda>A. A\<lparr>deliveredVersions := js_set key v (deliveredVersions A)\<rparr>) W else W)"

definition attributeDeletion :: "manager_env \<Rightarrow> uri \<Rightarrow> ast_manager \<Rightarrow> client_id" where
  "attributeDeletion M u A =
     (case js_get (deletions A) (canonical (storeEnv M) u) of Some c \<Rightarrow> c | None \<Rightarrow> UNKNOWN_CLIENT_ID)"

definition isDeleting :: "manager_env \<Rightarrow> uri \<Rightarrow> 'e workspace \<Rightarrow> bool" where
  "isDeleting M u W \<longleftrightarrow> js_has (deletions (manager W)) (canonical (storeEnv M) u)"

datatype update_reason = ReasonChanged | ReasonRebuilt

record update_attribution =
  reason :: update_reason
  sourceClientId :: client_id
  causedBy :: client_id

text \<open>A document of a build: the URI it is registered under, and the URI and version of its text document.\<close>

definition manager_getAuthor :: "manager_env \<Rightarrow> uri \<Rightarrow> version \<Rightarrow> 'e workspace \<Rightarrow> client_id option" where
  "manager_getAuthor M textUri v W = getAuthor (storeEnv M) textUri (Some v) (ws_store W)"

definition attributeUpdate :: "manager_env \<Rightarrow> uri \<Rightarrow> uri \<Rightarrow> version \<Rightarrow> 'e workspace \<Rightarrow> update_attribution" where
  "attributeUpdate M u textUri v W =
     (let key = canonical (storeEnv M) u; A = manager W;
          changed = (if isTracked M key W then js_get (deliveredVersions A) key \<noteq> Some v
                     else (case lastUpdate A of None \<Rightarrow> False | Some (ch, del) \<Rightarrow> list_ex (\<lambda>x. uriEquals M x u) ch))
      in if changed
         then (let author = (case manager_getAuthor M textUri v W of Some c \<Rightarrow> c | None \<Rightarrow> UNKNOWN_CLIENT_ID)
               in \<lparr>reason = ReasonChanged, sourceClientId = author, causedBy = author\<rparr>)
         else \<lparr>reason = ReasonRebuilt, sourceClientId = UNKNOWN_CLIENT_ID,
               causedBy = (case buildCauses A of [c] \<Rightarrow> c | _ \<Rightarrow> UNKNOWN_CLIENT_ID)\<rparr>)"

text \<open>The listener on \<open>DocumentBuilder.onUpdate\<close>: the causes first, then the deletions.\<close>

definition update_causes :: "manager_env \<Rightarrow> uri list \<Rightarrow> uri list \<Rightarrow> 'e workspace \<Rightarrow> client_id list" where
  "update_causes M changed gone W =
     (let E = storeEnv M; S = ws_store W; A = manager W;
          authors = map (\<lambda>d. case getAuthor E (docUri d) (Some (docVersion d)) S of Some c \<Rightarrow> c | None \<Rightarrow> UNKNOWN_CLIENT_ID)
                      (filter (\<lambda>d. \<not> isDelivered M (docUri d) (docVersion d) A) (map snd (synced S)));
          unexplained = list_ex (\<lambda>u. case store_get E u S of None \<Rightarrow> True | Some d \<Rightarrow> isDelivered M (docUri d) (docVersion d) A) changed
      in fold set_add
           (authors @ (if unexplained then [UNKNOWN_CLIENT_ID] else []) @ map (\<lambda>u. attributeDeletion M u A) gone) [])"

definition forget_deleted :: "manager_env \<Rightarrow> time \<Rightarrow> uri \<Rightarrow> 'e workspace \<Rightarrow> 'e workspace" where
  "forget_deleted M now u W =
     (let key = canonical (storeEnv M) u
      in with_store M (notifyDocumentDeleted (storeEnv M) now u)
           (with_manager (\<lambda>A. A\<lparr>trackedUris := set_delete key (trackedUris A), deliveredVersions := js_delete key (deliveredVersions A)\<rparr>) W))"

definition buildUpdate :: "manager_env \<Rightarrow> time \<Rightarrow> uri list \<Rightarrow> uri list \<Rightarrow> 'e workspace \<Rightarrow> 'e workspace" where
  "buildUpdate M now changed gone W =
     fold (forget_deleted M now) gone
       (with_manager (\<lambda>A. A\<lparr>lastUpdate := Some (changed, gone), buildCauses := update_causes M changed gone W\<rparr>) W)"

subsection \<open>Opening, closing and updating\<close>

definition holdsParsedText :: "manager_env \<Rightarrow> uri \<Rightarrow> lang_document \<Rightarrow> 'e workspace \<Rightarrow> bool" where
  "holdsParsedText M u built W \<longleftrightarrow>
     \<not> isPlaceholder (ldRoot built) (modelLedger (inSync W)) \<and>
     Some (parsedText built (inSync W)) = map_option docText (store_get (storeEnv M) u (ws_store W))"

definition manager_getDocument :: "manager_env \<Rightarrow> uri \<Rightarrow> 'e workspace \<Rightarrow> lang_document option" where
  "manager_getDocument M u W = js_get (docs (inSync W)) (canonical (storeEnv M) u)"

text \<open>
  \<open>open\<close> up to the read: an open document is only attached to, and \<open>True\<close> says that the text is read next.
\<close>

definition openBegins :: "manager_env \<Rightarrow> time \<Rightarrow> uri \<Rightarrow> client_id \<Rightarrow> 'e workspace \<Rightarrow> manager_error + bool \<times> 'e workspace" where
  "openBegins M now u c W =
     (if manager_isOpen M u W
      then (case attachClient (storeEnv M) now u c (ws_store W) of
              Inl e \<Rightarrow> Inl (StoreRefused e)
            | Inr (attached, S) \<Rightarrow> (let W1 = with_store M (\<lambda>_. S) W in Inr (\<not> manager_isOpen M u W1, W1)))
      else Inr (True, W))"

text \<open>What the store finds as the built root of a document it opens: the one registered, unless its parse is behind.\<close>

definition built_root :: "manager_env \<Rightarrow> uri \<Rightarrow> 'e workspace \<Rightarrow> (model_root \<times> text_body) option" where
  "built_root M u W = map_option (\<lambda>doc. (ldRoot doc, ldText doc)) (js_get (docs (inSync W)) (documentKey (storeEnv M) u))"

text \<open>
  \<open>open\<close> once it has the text: \<open>supplied\<close> when the caller brought it. A build the version sync then asks for is a
  request of its queue.
\<close>

definition openTakes ::
  "manager_env \<Rightarrow> time \<Rightarrow> uri \<Rightarrow> string \<Rightarrow> int \<Rightarrow> text_body \<Rightarrow> bool \<Rightarrow> client_id \<Rightarrow> 'e workspace \<Rightarrow> manager_error + 'e workspace" where
  "openTakes M now u lang v txt supplied c W =
     (let E = storeEnv M; creates = (\<not> manager_isOpen M u W)
      in case notifyDidOpenTextDocument E now (built_root M u W) (modelLedger (inSync W)) u lang v txt c (ws_store W) of
           Inl e \<Rightarrow> Inl (StoreRefused e)
         | Inr S \<Rightarrow>
             (let W1 = with_store M (\<lambda>_. S) W;
                  W2 = (if creates \<and> supplied then with_store M (store_markCreated E u) W1 else W1);
                  version = store_version E u (ws_store W2)
              in case (creates, manager_getDocument M u W2) of
                   (True, Some built) \<Rightarrow>
                     (let W3 = (if \<not> supplied \<and> holdsParsedText M u built W2 then markDelivered M (ldUri built) version W2 else W2)
                      in Inr (W3\<lparr>inSync := snd (syncTo (ldUri built) version (inSync W3))\<rparr>))
                 | _ \<Rightarrow> Inr W2))"

definition manager_close :: "manager_env \<Rightarrow> time \<Rightarrow> uri \<Rightarrow> client_id \<Rightarrow> 'e workspace \<Rightarrow> 'e workspace" where
  "manager_close M now u c = with_store M (\<lambda>S. notifyDidCloseTextDocument (storeEnv M) now u c Closed S)"

definition manager_update :: "manager_env \<Rightarrow> uri \<Rightarrow> text_body \<Rightarrow> client_id \<Rightarrow> 'e workspace \<Rightarrow> manager_error + version \<times> 'e workspace" where
  "manager_update M u txt c W =
     (if \<not> manager_isOpen M u W then Inl (NotOpenedYet u)
      else case applyContentChange (storeEnv M) u txt c (ws_store W) of
             Inl e \<Rightarrow> Inl (StoreRefused e)
           | Inr (v, S) \<Rightarrow> Inr (v, with_store M (\<lambda>_. S) W))"

subsection \<open>Saving\<close>

text \<open>
  \<open>save\<close> takes the text and queues its task. The task runs at its turn: a superseded save returns at once where
  saves coalesce, another reads the file and writes it where it differs.
\<close>

definition saveCalled :: "manager_env \<Rightarrow> uri \<Rightarrow> client_id \<Rightarrow> 'e workspace \<Rightarrow> manager_error + nat \<times> 'e workspace" where
  "saveCalled M u c W =
     (let key = canonical (storeEnv M) u
      in case store_get (storeEnv M) key (ws_store W) of
           None \<Rightarrow> Inl (NotOpenedYet u)
         | Some d \<Rightarrow>
             (let (n, Q) = enqueue (canonical (storeEnv M)) key (fileQueue W);
                  call = \<lparr>saveUri = key, saveText = docText d, saveVersion = docVersion d, saveClient = c,
                          saveState = SaveQueued, supersededBy = None, saveEnd = SavePending\<rparr>
              in Inr (n, with_manager (\<lambda>A. A\<lparr>newestSaves := js_set key n (newestSaves A)\<rparr>)
                           (W\<lparr>fileQueue := Q, saveCalls := js_set n call (saveCalls W)\<rparr>))))"

definition set_save :: "nat \<Rightarrow> (save_task \<Rightarrow> save_task) \<Rightarrow> 'e workspace \<Rightarrow> 'e workspace" where
  "set_save n f W =
     (case js_get (saveCalls W) n of None \<Rightarrow> W | Some s \<Rightarrow> W\<lparr>saveCalls := js_set n (f s) (saveCalls W)\<rparr>)"

definition saveTurn :: "manager_env \<Rightarrow> nat \<Rightarrow> 'e workspace \<Rightarrow> 'e workspace option" where
  "saveTurn M n W =
     (case (js_get (saveCalls W) n, startTask n (fileQueue W)) of
        (Some s, Some Q) \<Rightarrow>
          (let newest = js_get (newestSaves (manager W)) (saveUri s)
           in Some (set_save n (\<lambda>s. if coalesceSaves M \<and> newest \<noteq> Some n
                                   then s\<lparr>saveState := SaveReturned True, supersededBy := newest\<rparr>
                                   else s\<lparr>saveState := SaveReads\<rparr>) (W\<lparr>fileQueue := Q\<rparr>)))
      | _ \<Rightarrow> None)"

definition announce_save :: "manager_env \<Rightarrow> nat \<Rightarrow> save_task \<Rightarrow> 'e workspace \<Rightarrow> 'e workspace" where
  "announce_save M n s W =
     (let W1 = with_store M (notifyDidSaveTextDocument (storeEnv M) (saveUri s) (Some (saveText s)) (saveClient s)) W
      in set_save n (\<lambda>s. s\<lparr>saveState := SaveReturned True\<rparr>)
           (W1\<lparr>announcedSaves := announcedSaves W1 @ [(n, js_get (files W1) (saveUri s))]\<rparr>))"

text \<open>
  \<open>writeSave\<close>: \<open>matchesDisk\<close> is false for a file that cannot be read. The answer of the read, its comparison and the
  announcement are one step: what changes the file from outside comes before the read or after the announcement.
\<close>

definition matchesDisk :: "bool \<Rightarrow> uri \<Rightarrow> text_body \<Rightarrow> 'e workspace \<Rightarrow> bool" where
  "matchesDisk readable u txt W \<longleftrightarrow> readable \<and> js_get (files W) u = Some txt"

definition saveRead :: "manager_env \<Rightarrow> nat \<Rightarrow> bool \<Rightarrow> 'e workspace \<Rightarrow> 'e workspace option" where
  "saveRead M n readable W =
     (case js_get (saveCalls W) n of
        None \<Rightarrow> None
      | Some s \<Rightarrow>
          if saveState s \<noteq> SaveReads then None
          else if matchesDisk readable (saveUri s) (saveText s) W then Some (announce_save M n s W)
          else Some (set_save n (\<lambda>s. s\<lparr>saveState := SaveWrites\<rparr>) W))"

definition saveWritten :: "manager_env \<Rightarrow> nat \<Rightarrow> bool \<Rightarrow> 'e workspace \<Rightarrow> 'e workspace option" where
  "saveWritten M n written W =
     (case js_get (saveCalls W) n of
        None \<Rightarrow> None
      | Some s \<Rightarrow>
          if saveState s \<noteq> SaveWrites then None
          else if written then Some (announce_save M n s (W\<lparr>files := js_set (saveUri s) (saveText s) (files W)\<rparr>))
          else Some (set_save n (\<lambda>s. s\<lparr>saveState := SaveReturned False\<rparr>) W))"

definition saveTaskSettles :: "nat \<Rightarrow> 'e workspace \<Rightarrow> 'e workspace option" where
  "saveTaskSettles n W =
     (case js_get (saveCalls W) n of
        None \<Rightarrow> None
      | Some s \<Rightarrow>
          (case (saveState s, settleTask n (fileQueue W)) of
             (SaveReturned ok, Some Q) \<Rightarrow> Some (W\<lparr>fileQueue := Q\<rparr>)
           | _ \<Rightarrow> None))"

text \<open>The promise of a save, once its task settled: a superseded save takes the end of the newer one.\<close>

definition save_outcome :: "save_task \<Rightarrow> 'e workspace \<Rightarrow> save_end" where
  "save_outcome s W =
     (if saveState s = SaveReturned False then SaveRejected
      else case supersededBy s of
             None \<Rightarrow> SavedAs (saveVersion s)
           | Some j \<Rightarrow> (case js_get (saveCalls W) j of None \<Rightarrow> SavePending | Some t \<Rightarrow> saveEnd t))"

definition saveResolves :: "nat \<Rightarrow> 'e workspace \<Rightarrow> 'e workspace option" where
  "saveResolves n W =
     (case js_get (saveCalls W) n of
        None \<Rightarrow> None
      | Some s \<Rightarrow>
          if \<not> (n < length (tasks (fileQueue W)) \<and> status (tasks (fileQueue W) ! n) = task_status.Settled \<and>
                saveEnd s = SavePending \<and> save_outcome s W \<noteq> SavePending) then None
          else Some (with_manager (\<lambda>A. if js_get (newestSaves A) (saveUri s) = Some n
                                      then A\<lparr>newestSaves := js_delete (saveUri s) (newestSaves A)\<rparr> else A)
                       (set_save n (\<lambda>t. t\<lparr>saveEnd := save_outcome s W\<rparr>) W)))"

subsection \<open>Deleting\<close>

text \<open>
  \<open>delete\<close> marks the URI until its build has ended. A document no build has reached is registered first; the file
  goes in its queue; then the deletion build runs (its listener is \<open>buildUpdate\<close>), and an open of the
  deleting client left after it is closed. A wait refused inside a read leaves the mark until the build ends.
\<close>

definition set_stage :: "uri \<Rightarrow> delete_stage option \<Rightarrow> 'e workspace \<Rightarrow> 'e workspace" where
  "set_stage key stage =
     with_manager (\<lambda>A. case stage of
         Some x \<Rightarrow> A\<lparr>deleteStages := js_set key x (deleteStages A)\<rparr>
       | None \<Rightarrow> A\<lparr>deleteStages := js_delete key (deleteStages A), deletions := js_delete key (deletions A)\<rparr>)"

definition queueDeleteFile :: "manager_env \<Rightarrow> uri \<Rightarrow> 'e workspace \<Rightarrow> 'e workspace" where
  "queueDeleteFile M key W =
     (let (n, Q) = enqueue (canonical (storeEnv M)) key (fileQueue W) in set_stage key (Some (DeleteQueued n)) (W\<lparr>fileQueue := Q\<rparr>))"

definition deleteBegins :: "manager_env \<Rightarrow> bool \<Rightarrow> uri \<Rightarrow> client_id \<Rightarrow> 'e workspace \<Rightarrow> manager_error + 'e workspace" where
  "deleteBegins M insideWriteLock u c W =
     (let key = canonical (storeEnv M) u
      in if insideWriteLock then Inl (ReentrantDelete key)
         else if js_has (deletions (manager W)) key then Inl (DeleteUnderWay u)
         else (let W1 = with_manager (\<lambda>A. A\<lparr>deletions := js_set key c (deletions A)\<rparr>) W
               in Inr (if js_get (docs (inSync W1)) key = None then set_stage key (Some DeleteRegisters) W1
                       else queueDeleteFile M key W1)))"

definition deleteRegistered :: "manager_env \<Rightarrow> uri \<Rightarrow> bool \<Rightarrow> 'e workspace \<Rightarrow> 'e workspace option" where
  "deleteRegistered M key ok W =
     (if js_get (deleteStages (manager W)) key \<noteq> Some DeleteRegisters then None
      else Some (if ok then queueDeleteFile M key W else set_stage key None W))"

text \<open>The task that deletes the file runs and settles.\<close>

definition deleteFileStarts :: "uri \<Rightarrow> 'e workspace \<Rightarrow> 'e workspace option" where
  "deleteFileStarts key W =
     (case js_get (deleteStages (manager W)) key of
        Some (DeleteQueued n) \<Rightarrow> (case startTask n (fileQueue W) of Some Q \<Rightarrow> Some (W\<lparr>fileQueue := Q\<rparr>) | None \<Rightarrow> None)
      | _ \<Rightarrow> None)"

definition deleteFileEnds :: "uri \<Rightarrow> bool \<Rightarrow> 'e workspace \<Rightarrow> 'e workspace option" where
  "deleteFileEnds key ok W =
     (case js_get (deleteStages (manager W)) key of
        Some (DeleteQueued n) \<Rightarrow>
          (case settleTask n (fileQueue W) of
             None \<Rightarrow> None
           | Some Q \<Rightarrow>
               (let W1 = W\<lparr>fileQueue := Q\<rparr>
                in Some (if ok then set_stage key (Some DeleteBuilds) (W1\<lparr>files := js_delete key (files W1)\<rparr>)
                         else set_stage key None W1)))
      | _ \<Rightarrow> None)"

definition closeDeletingOpen :: "manager_env \<Rightarrow> time \<Rightarrow> uri \<Rightarrow> client_id \<Rightarrow> 'e workspace \<Rightarrow> 'e workspace" where
  "closeDeletingOpen M now key c W =
     (if isOpenInClient (storeEnv M) key c (ws_store W) then manager_close M now key c W else W)"

definition deleteBuilt :: "manager_env \<Rightarrow> time \<Rightarrow> uri \<Rightarrow> bool \<Rightarrow> 'e workspace \<Rightarrow> 'e workspace option" where
  "deleteBuilt M now key refused W =
     (if js_get (deleteStages (manager W)) key \<noteq> Some DeleteBuilds then None
      else (let W1 = closeDeletingOpen M now key (attributeDeletion M key (manager W)) W
            in Some (if refused then set_stage key (Some DeleteRefused) W1 else set_stage key None W1)))"

definition deleteRefusedEnds :: "uri \<Rightarrow> 'e workspace \<Rightarrow> 'e workspace option" where
  "deleteRefusedEnds key W =
     (if js_get (deleteStages (manager W)) key \<noteq> Some DeleteRefused then None else Some (set_stage key None W))"

subsection \<open>Steps\<close>

text \<open>
  Every step of the workspace: what the manager is called for, the turns of its tasks, builds, other operations of
  the store and of the version sync, other tasks of the file queue, and files changed from outside.
\<close>

datatype workspace_op =
    WsOpenBegins time uri client_id
  | WsOpenTakes time uri string int text_body bool client_id
  | WsClose time uri client_id
  | WsUpdate uri text_body client_id
  | WsSave uri client_id
  | WsSaveTurn nat
  | WsSaveRead nat bool
  | WsSaveWritten nat bool
  | WsSaveTaskSettles nat
  | WsSaveResolves nat
  | WsDelete bool uri client_id
  | WsDeleteRegistered uri bool
  | WsDeleteFileStarts uri
  | WsDeleteFileEnds uri bool
  | WsDeleteBuilt time uri bool
  | WsDeleteRefusedEnds uri
  | WsBuild time "uri list" "uri list"
  | WsDelivered uri version
  | WsProduced lang_document "int option" "text_body option"
  | WsRegistered "(uri, lang_document) js_map"
  | WsStore store_op
  | WsFileTask uri
  | WsTaskStarts nat
  | WsTaskSettles nat
  | WsTaskCleanup nat
  | WsFile uri "text_body option"

definition other_task :: "nat \<Rightarrow> 'e workspace \<Rightarrow> bool" where
  "other_task n W \<longleftrightarrow> \<not> js_has (saveCalls W) n \<and> DeleteQueued n \<notin> snd ` set (deleteStages (manager W))"

fun workspace_step :: "manager_env \<Rightarrow> workspace_op \<Rightarrow> 'e workspace \<Rightarrow> 'e workspace option" where
  "workspace_step M (WsOpenBegins now u c) W = (case openBegins M now u c W of Inl _ \<Rightarrow> None | Inr (_, W') \<Rightarrow> Some W')"
| "workspace_step M (WsOpenTakes now u lang v txt supplied c) W =
     (case openTakes M now u lang v txt supplied c W of Inl _ \<Rightarrow> None | Inr W' \<Rightarrow> Some W')"
| "workspace_step M (WsClose now u c) W = Some (manager_close M now u c W)"
| "workspace_step M (WsUpdate u txt c) W = (case manager_update M u txt c W of Inl _ \<Rightarrow> None | Inr (_, W') \<Rightarrow> Some W')"
| "workspace_step M (WsSave u c) W = (case saveCalled M u c W of Inl _ \<Rightarrow> None | Inr (_, W') \<Rightarrow> Some W')"
| "workspace_step M (WsSaveTurn n) W = saveTurn M n W"
| "workspace_step M (WsSaveRead n readable) W = saveRead M n readable W"
| "workspace_step M (WsSaveWritten n written) W = saveWritten M n written W"
| "workspace_step M (WsSaveTaskSettles n) W = saveTaskSettles n W"
| "workspace_step M (WsSaveResolves n) W = saveResolves n W"
| "workspace_step M (WsDelete inside u c) W = (case deleteBegins M inside u c W of Inl _ \<Rightarrow> None | Inr W' \<Rightarrow> Some W')"
| "workspace_step M (WsDeleteRegistered key ok) W = deleteRegistered M key ok W"
| "workspace_step M (WsDeleteFileStarts key) W = deleteFileStarts key W"
| "workspace_step M (WsDeleteFileEnds key ok) W = deleteFileEnds key ok W"
| "workspace_step M (WsDeleteBuilt now key refused) W = deleteBuilt M now key refused W"
| "workspace_step M (WsDeleteRefusedEnds key) W = deleteRefusedEnds key W"
| "workspace_step M (WsBuild now changed gone) W = Some (buildUpdate M now changed gone W)"
| "workspace_step M (WsDelivered u v) W = Some (markDelivered M u v W)"
| "workspace_step M (WsProduced doc v txt) W = Some (W\<lparr>inSync := modelProduced (storeEnv M) doc v txt (inSync W)\<rparr>)"
| "workspace_step M (WsRegistered registered) W = Some (W\<lparr>inSync := (inSync W)\<lparr>docs := registered\<rparr>\<rparr>)"
| "workspace_step M (WsStore op) W =
     (case store_step (storeEnv M) op (ws_store W) of None \<Rightarrow> None | Some S \<Rightarrow> Some (with_store M (\<lambda>_. S) W))"
| "workspace_step M (WsFileTask u) W = Some (W\<lparr>fileQueue := snd (enqueue (canonical (storeEnv M)) u (fileQueue W))\<rparr>)"
| "workspace_step M (WsTaskStarts n) W =
     (if other_task n W then map_option (\<lambda>Q. W\<lparr>fileQueue := Q\<rparr>) (startTask n (fileQueue W)) else None)"
| "workspace_step M (WsTaskSettles n) W =
     (if other_task n W then map_option (\<lambda>Q. W\<lparr>fileQueue := Q\<rparr>) (settleTask n (fileQueue W)) else None)"
| "workspace_step M (WsTaskCleanup n) W = map_option (\<lambda>Q. W\<lparr>fileQueue := Q\<rparr>) (cleanupTask n (fileQueue W))"
| "workspace_step M (WsFile u txt) W =
     Some (W\<lparr>files := (case txt of Some t \<Rightarrow> js_set u t (files W) | None \<Rightarrow> js_delete u (files W))\<rparr>)"

end
