(* ===== verification/AstSaves.thy ===== *)
theory AstSaves
  imports AstDocuments
begin

section \<open>Saves reach their files\<close>

text \<open>
  The invariant of the saves of a workspace, over the state machine of \<open>AstDocuments\<close>, and what it says of every
  run: which text a save's promise stands for, and in which order the texts of a file are written. The store of a
  workspace moves by operations of the store alone, so its invariant and the order of versions carry over.
\<close>

subsection \<open>The store of a workspace\<close>

definition reaches :: "env \<Rightarrow> store \<Rightarrow> store \<Rightarrow> bool" where
  "reaches E S S' \<longleftrightarrow> (\<exists>ops. S' = store.run E ops S)"

lemma reaches_refl [simp, intro]: "reaches E S S"
  unfolding reaches_def by (rule exI [of _ "[]"]) simp

lemma reaches_step: "store_step E op S = Some S' \<Longrightarrow> reaches E S S'"
  unfolding reaches_def by (rule exI [of _ "[op]"]) simp

lemma reaches_trans: "reaches E S T \<Longrightarrow> reaches E T U \<Longrightarrow> reaches E S U"
  unfolding reaches_def using store.run_append by metis

lemma reaches_into: "store_step E op T = Some U \<Longrightarrow> reaches E S T \<Longrightarrow> reaches E S U"
  by (rule reaches_trans [OF _ reaches_step])

lemma reaches_ok: "env_ok E \<Longrightarrow> store_ok E S \<Longrightarrow> reaches E S S' \<Longrightarrow> store_ok E S' \<and> sequences_progress S S'"
  unfolding reaches_def using store.run_inv [of E S] store.run_progress [of E S] by auto

lemma with_store_simps [simp]:
  "ws_store (with_store M f W) = f (ws_store W)" "ws_store (with_manager g W) = ws_store W"
  "docs (inSync (with_store M f W)) = docs (inSync W)" "docs (inSync (with_manager g W)) = docs (inSync W)"
  by (simp_all add: with_store_def with_manager_def Let_def)

lemma with_frame [simp]:
  "fileQueue (with_store M f W) = fileQueue W" "saveCalls (with_store M f W) = saveCalls W" "files (with_store M f W) = files W"
  "announcedSaves (with_store M f W) = announcedSaves W" "fileQueue (with_manager g W) = fileQueue W"
  "saveCalls (with_manager g W) = saveCalls W" "files (with_manager g W) = files W" "announcedSaves (with_manager g W) = announcedSaves W"
  "manager (with_manager g W) = g (manager W)"
  by (simp_all add: with_store_def with_manager_def Let_def)

lemma with_store_manager [simp]:
  "newestSaves (manager (with_store M f W)) = newestSaves (manager W)" "deleteStages (manager (with_store M f W)) = deleteStages (manager W)"
  "deletions (manager (with_store M f W)) = deletions (manager W)" "deliveredVersions (manager (with_store M f W)) = deliveredVersions (manager W)"
  by (simp_all add: with_store_def with_manager_def Let_def)

lemma set_save_frame [simp]:
  "ws_store (set_save n f W) = ws_store W" "fileQueue (set_save n f W) = fileQueue W" "manager (set_save n f W) = manager W"
  "announcedSaves (set_save n f W) = announcedSaves W" "files (set_save n f W) = files W"
  by (auto simp: set_save_def split: option.split)

lemma set_stage_frame [simp]:
  "ws_store (set_stage k x W) = ws_store W" "fileQueue (set_stage k x W) = fileQueue W" "saveCalls (set_stage k x W) = saveCalls W"
  "announcedSaves (set_stage k x W) = announcedSaves W" "newestSaves (manager (set_stage k x W)) = newestSaves (manager W)"
  by (auto simp: set_stage_def split: option.split)

lemma markDelivered_frame [simp]:
  "ws_store (markDelivered M u v W) = ws_store W" "fileQueue (markDelivered M u v W) = fileQueue W"
  "saveCalls (markDelivered M u v W) = saveCalls W" "announcedSaves (markDelivered M u v W) = announcedSaves W"
  "newestSaves (manager (markDelivered M u v W)) = newestSaves (manager W)"
  "deleteStages (manager (markDelivered M u v W)) = deleteStages (manager W)"
  by (auto simp: markDelivered_def Let_def)

lemma syncTo_store: "textStore (snd (syncTo u v Y)) = textStore Y"
  by (simp add: syncTo_def split: prod.split)

lemma forget_deleted_reaches:
  "reaches (storeEnv M) (ws_store W) (ws_store (fold (forget_deleted M now) us W))"
proof (induction us arbitrary: W)
  case (Cons u us)
  have "store_step (storeEnv M) (StDeleted now u) (ws_store W) = Some (ws_store (forget_deleted M now u W))"
    by (simp add: forget_deleted_def Let_def)
  from reaches_trans [OF reaches_step [OF this] Cons.IH] show ?case by simp
qed simp

lemma close_reaches: "reaches (storeEnv M) (ws_store W) (ws_store (manager_close M now u c W))"
  by (rule reaches_step [where op = "StClose now u c Closed"]) (simp add: manager_close_def)

lemma announce_reaches: "reaches (storeEnv M) (ws_store W) (ws_store (announce_save M n s W))"
  by (rule reaches_step [where op = "StDidSave (saveUri s) (Some (saveText s)) (saveClient s)"]) (simp add: announce_save_def Let_def)

lemma open_takes_reaches:
  assumes "openTakes M now u lang v tx supplied c W = Inr W'"
  shows "reaches (storeEnv M) (ws_store W) (ws_store W')"
proof -
  let ?E = "storeEnv M" and ?creates = "\<not> manager_isOpen M u W \<and> supplied"
  obtain S where S: "notifyDidOpenTextDocument ?E now (built_root M u W) (modelLedger (inSync W)) u lang v tx c (ws_store W) = Inr S"
    using assms by (auto simp: openTakes_def Let_def split: sum.splits)
  have end_store: "ws_store W' = (if ?creates then store_markCreated ?E u S else S)"
    using assms S by (auto simp: openTakes_def Let_def syncTo_store split: option.splits if_splits bool.splits)
  have opened: "reaches ?E (ws_store W) S"
    by (rule reaches_step [where op = "StOpen now (built_root M u W) (modelLedger (inSync W)) u lang v tx c"]) (simp add: S)
  show ?thesis
  proof (cases ?creates)
    case True
    then show ?thesis using end_store reaches_into [of ?E "StCreated u" S "store_markCreated ?E u S", OF _ opened] by simp
  next
    case False
    then have "ws_store W' = S" using end_store by (simp only: if_False)
    then show ?thesis using opened by simp
  qed
qed

lemma produced_store:
  "textStore (modelProduced E doc v tx Y) = textStore Y \<or> (\<exists>t. textStore (modelProduced E doc v tx Y) = snd (reconcileExternalContent E (ldUri doc) t (textStore Y)))"
  by (auto simp: modelProduced_def Let_def syncTo_store split: prod.split option.split) (metis snd_conv)+

lemma produced_reaches:
  "reaches (storeEnv M) (ws_store W) (textStore (modelProduced (storeEnv M) doc v tx (inSync W)))"
  using produced_store [of "storeEnv M" doc v tx "inSync W"] reaches_step [of "storeEnv M" "StReconcile (ldUri doc) t" for t] by auto

lemma workspace_reaches:
  assumes "workspace_step M op W = Some W'"
  shows "reaches (storeEnv M) (ws_store W) (ws_store W')"
proof (cases op)
  case (WsOpenBegins now u c)
  then show ?thesis using assms reaches_step [of "storeEnv M" "StAttach now u c" "ws_store W"]
    by (auto simp: openBegins_def Let_def split: if_splits sum.splits)
next
  case (WsOpenTakes now u lang v tx supplied c)
  then show ?thesis using assms open_takes_reaches by (auto split: sum.splits)
next
  case (WsUpdate u tx c)
  then show ?thesis using assms reaches_step [of "storeEnv M" "StApply u tx c" "ws_store W"]
    by (auto simp: manager_update_def split: if_splits sum.splits)
next
  case (WsStore sop)
  then show ?thesis using assms reaches_step [of "storeEnv M" sop "ws_store W"] by (auto split: option.splits)
next
  case (WsBuild now changed gone)
  then show ?thesis using assms forget_deleted_reaches [of M "with_manager g W" now gone for g] by (auto simp: buildUpdate_def)
next
  case (WsSaveRead n readable)
  then show ?thesis using assms announce_reaches [of M W n] by (auto simp: saveRead_def split: option.splits if_splits)
next
  case (WsSaveWritten n written)
  then show ?thesis using assms announce_reaches [of M "W\<lparr>files := fs\<rparr>" n for fs] by (auto simp: saveWritten_def split: option.splits if_splits)
qed (use assms in \<open>auto simp: close_reaches produced_reaches saveCalled_def saveTurn_def saveTaskSettles_def saveResolves_def
      deleteBegins_def queueDeleteFile_def deleteRegistered_def deleteFileStarts_def deleteFileEnds_def deleteBuilt_def closeDeletingOpen_def
      deleteRefusedEnds_def Let_def split: sum.splits option.splits prod.splits if_splits save_state.splits delete_stage.splits\<close>)

subsection \<open>The invariant of the saves\<close>

text \<open>
  A save's state is that of its task. One that returned, not superseded, was announced with its own text
  in the file; a superseded one names a later save of the file. The newest save of a file is the last called whose promise has not
  ended, and without one every task of the file's saves has settled. Announcements come in the order of the calls.
\<close>

definition stored :: "(nat, save_task) js_map \<Rightarrow> (nat \<times> text_body option) list \<Rightarrow> nat \<Rightarrow> save_task \<Rightarrow> version \<Rightarrow> bool" where
  "stored C L n s v \<longleftrightarrow>
     (\<exists>j t. js_get C j = Some t \<and> n \<le> j \<and> saveUri t = saveUri s \<and> saveVersion t = v \<and> (j, Some (saveText t)) \<in> set L)"

definition save_ok :: "task_queue \<Rightarrow> (nat, save_task) js_map \<Rightarrow> (nat \<times> text_body option) list \<Rightarrow> nat \<Rightarrow> save_task \<Rightarrow> bool" where
  "save_ok Q C L n s \<longleftrightarrow>
     n < length (tasks Q) \<and> taskKey (tasks Q ! n) = saveUri s \<and>
     (case saveState s of SaveQueued \<Rightarrow> status (tasks Q ! n) = Waiting | SaveReturned ok \<Rightarrow> status (tasks Q ! n) \<noteq> Waiting
        | _ \<Rightarrow> status (tasks Q ! n) = Running) \<and>
     (saveEnd s \<noteq> SavePending \<longrightarrow> status (tasks Q ! n) = task_status.Settled) \<and>
     (saveState s = SaveReturned True \<and> supersededBy s = None \<longrightarrow> (n, Some (saveText s)) \<in> set L) \<and>
     (\<forall>j. supersededBy s = Some j \<longrightarrow>
        n < j \<and> saveState s = SaveReturned True \<and> (\<exists>t. js_get C j = Some t \<and> saveUri t = saveUri s)) \<and>
     (\<forall>v. saveEnd s = SavedAs v \<longrightarrow> stored C L n s v)"

definition newest_ok :: "task_queue \<Rightarrow> (nat, save_task) js_map \<Rightarrow> uri \<Rightarrow> nat option \<Rightarrow> bool" where
  "newest_ok Q C u newest \<longleftrightarrow>
     (case newest of
        None \<Rightarrow> \<forall>n s. js_get C n = Some s \<and> saveUri s = u \<longrightarrow> status (tasks Q ! n) = task_status.Settled
      | Some j \<Rightarrow> (\<exists>t. js_get C j = Some t \<and> saveUri t = u) \<and> (\<forall>n s. js_get C n = Some s \<and> saveUri s = u \<longrightarrow> n \<le> j))"

definition announced_of :: "uri \<Rightarrow> (nat, save_task) js_map \<Rightarrow> (nat \<times> text_body option) list \<Rightarrow> nat list" where
  "announced_of u C L = map fst (filter (\<lambda>(n, t). map_option saveUri (js_get C n) = Some u) L)"

definition announced_ok :: "(nat, save_task) js_map \<Rightarrow> nat \<times> text_body option \<Rightarrow> bool" where
  "announced_ok C = (\<lambda>(n, t). \<exists>s. js_get C n = Some s \<and> saveState s = SaveReturned True \<and> supersededBy s = None \<and> t = Some (saveText s))"

definition saves_ok :: "task_queue \<Rightarrow> (nat, save_task) js_map \<Rightarrow> (uri, nat) js_map \<Rightarrow> (nat \<times> text_body option) list \<Rightarrow> bool" where
  "saves_ok Q C N L \<longleftrightarrow>
     tasks_ok Q \<and> (\<forall>n s. js_get C n = Some s \<longrightarrow> save_ok Q C L n s) \<and> (\<forall>u. newest_ok Q C u (js_get N u)) \<and>
     (\<forall>x \<in> set L. announced_ok C x) \<and> (\<forall>u. sorted_wrt (<) (announced_of u C L))"

lemma saves_okD:
  assumes "saves_ok Q C N L"
  shows "tasks_ok Q" and "js_get C n = Some s \<Longrightarrow> save_ok Q C L n s" and "newest_ok Q C u (js_get N u)"
    and "x \<in> set L \<Longrightarrow> announced_ok C x" and "sorted_wrt (<) (announced_of u C L)"
  using assms by (simp_all add: saves_ok_def)

lemma save_okD:
  assumes "save_ok Q C L n s"
  shows "n < length (tasks Q)" and "taskKey (tasks Q ! n) = saveUri s"
  using assms by (simp_all add: save_ok_def)

text \<open>Other tasks of the queue leave the saves as they are.\<close>

lemma saves_ok_queue:
  assumes ok: "saves_ok Q C N L" and "tasks_ok Q'" and "length (tasks Q) \<le> length (tasks Q')"
    and same: "\<And>n s. js_get C n = Some s \<Longrightarrow> tasks Q' ! n = tasks Q ! n"
  shows "saves_ok Q' C N L"
proof -
  have "save_ok Q' C L n s" if "js_get C n = Some s" for n s
    using saves_okD(2) [OF ok that] assms(3) unfolding save_ok_def same [OF that] by auto
  moreover have "newest_ok Q' C u (js_get N u)" for u
    using saves_okD(3) [OF ok, of u] same by (auto simp: newest_ok_def split: option.splits)
  ultimately show ?thesis using assms(2) saves_okD(4,5) [OF ok] by (simp add: saves_ok_def)
qed

text \<open>An update of one save that keeps what it took.\<close>

definition same_call :: "save_task \<Rightarrow> save_task \<Rightarrow> bool" where
  "same_call s t \<longleftrightarrow> saveUri s = saveUri t \<and> saveText s = saveText t \<and> saveVersion s = saveVersion t"

lemma stored_update:
  assumes "js_get C n = Some s" and "same_call s s'"
  shows "stored (js_set n s' C) L m r v \<longleftrightarrow> stored C L m r v"
proof -
  have "(\<exists>t. js_get (js_set n s' C) j = Some t \<and> P (saveUri t) (saveText t) (saveVersion t)) \<longleftrightarrow>
      (\<exists>t. js_get C j = Some t \<and> P (saveUri t) (saveText t) (saveVersion t))" for j P
    using assms by (auto simp: js_get_set same_call_def)
  from this [of _ "\<lambda>u tx v'. m \<le> j \<and> u = saveUri r \<and> v' = v \<and> (j, Some tx) \<in> set L" for j]
  show ?thesis unfolding stored_def by (simp add: conj_ac)
qed

lemma newest_update:
  assumes "js_get C n = Some s" and "same_call s s'"
  shows "newest_ok Q (js_set n s' C) u x \<longleftrightarrow> newest_ok Q C u x"
  using assms by (auto simp: newest_ok_def js_get_set same_call_def split: option.split)

lemma announced_of_update:
  assumes "js_get C n = Some s" and "same_call s s'"
  shows "announced_of u (js_set n s' C) L = announced_of u C L"
proof -
  have "map_option saveUri (js_get (js_set n s' C) k) = map_option saveUri (js_get C k)" for k
    using assms by (simp add: js_get_set same_call_def)
  then show ?thesis by (simp add: announced_of_def)
qed

lemma save_ok_others:
  assumes "save_ok Q C L m r" and "js_get C n = Some s" and "same_call s s'"
  shows "save_ok Q (js_set n s' C) L m r"
  using assms stored_update [OF assms(2,3)] by (auto simp: save_ok_def js_get_set same_call_def)

lemma save_ok_more: "save_ok Q C L m r \<Longrightarrow> save_ok Q C (L @ L') m r"
  by (auto simp: save_ok_def stored_def) blast

lemma saves_ok_update:
  assumes ok: "saves_ok Q C N L" and s: "js_get C n = Some s" "same_call s s'" and "save_ok Q (js_set n s' C) L n s'"
    and "\<And>t. (n, t) \<in> set L \<Longrightarrow> announced_ok (js_set n s' C) (n, t)"
  shows "saves_ok Q (js_set n s' C) N L"
proof -
  have "save_ok Q (js_set n s' C) L m r" if "js_get (js_set n s' C) m = Some r" for m r
    using that assms(4) save_ok_others [OF saves_okD(2) [OF ok] s] by (cases "m = n") (auto simp: js_get_set)
  moreover have "announced_ok (js_set n s' C) (k, t)" if "(k, t) \<in> set L" for k t
    using that assms(5) saves_okD(4) [OF ok that] by (cases "k = n") (auto simp: announced_ok_def js_get_set)
  ultimately show ?thesis
    using saves_okD(1,3,5) [OF ok] by (auto simp: saves_ok_def newest_update [OF s] announced_of_update [OF s])
qed

lemma saves_ok_cong:
  assumes "js_get C = js_get C'"
  shows "saves_ok Q C N L = saves_ok Q C' N L"
  unfolding saves_ok_def save_ok_def stored_def newest_ok_def announced_of_def announced_ok_def assms ..

subsection \<open>Steps of a save\<close>

text \<open>The task of a save starts or settles.\<close>

lemma saves_ok_task:
  assumes ok: "saves_ok Q C N L" and s: "js_get C n = Some s" "same_call s s'" and "tasks_ok (setStatus n st Q)"
    and unsettled: "status (tasks Q ! n) \<noteq> task_status.Settled" and here: "save_ok (setStatus n st Q) (js_set n s' C) L n s'"
    and "\<And>t. (n, t) \<in> set L \<Longrightarrow> announced_ok (js_set n s' C) (n, t)"
  shows "saves_ok (setStatus n st Q) (js_set n s' C) N L"
proof -
  let ?Q = "setStatus n st Q"
  have n: "n < length (tasks Q)" using save_okD(1) [OF saves_okD(2) [OF ok s(1)]] .
  have same: "tasks ?Q ! m = tasks Q ! m" if "m \<noteq> n" for m using that by (simp add: setStatus_def)
  have "save_ok ?Q (js_set n s' C) L m r" if "js_get (js_set n s' C) m = Some r" for m r
  proof (cases "m = n")
    case True
    then show ?thesis using that here by (simp add: js_get_set)
  next
    case False
    then have "save_ok Q (js_set n s' C) L m r" using that save_ok_others [OF saves_okD(2) [OF ok] s] by (simp add: js_get_set)
    then show ?thesis unfolding save_ok_def same [OF False] by simp
  qed
  moreover have "announced_ok (js_set n s' C) (k, t)" if "(k, t) \<in> set L" for k t
    using that assms(7) saves_okD(4) [OF ok that] by (cases "k = n") (auto simp: announced_ok_def js_get_set)
  moreover have "newest_ok ?Q (js_set n s' C) u (js_get N u)" for u
    using saves_okD(3) [OF ok, of u] unsettled n s(1) unfolding newest_update [OF s]
    by (auto simp: newest_ok_def split: option.splits)
  ultimately show ?thesis using assms(4) saves_okD(5) [OF ok] by (auto simp: saves_ok_def announced_of_update [OF s])
qed

lemma started:
  assumes "tasks_ok Q" and "startTask n Q = Some Q'"
  shows "Q' = setStatus n Running Q" "n < length (tasks Q)" "status (tasks Q ! n) = Waiting" "tasks_ok Q'"
  using assms task_step_ok [of Q canonical "StartTask n" Q' for canonical] by (auto simp: startTask_def split: if_splits)

lemma settled:
  assumes "tasks_ok Q" and "settleTask n Q = Some Q'"
  shows "Q' = setStatus n task_status.Settled Q" "n < length (tasks Q)" "status (tasks Q ! n) = Running" "tasks_ok Q'"
  using assms task_step_ok [of Q canonical "SettleTask n" Q' for canonical] by (auto simp: settleTask_def split: if_splits)

lemma saves_ok_called:
  assumes ok: "saves_ok Q C N L" and Q': "enqueue can key Q = (n, Q')" and "can key = key"
    and call: "saveUri s = key" "saveState s = SaveQueued" "supersededBy s = None" "saveEnd s = SavePending"
  shows "saves_ok Q' (js_set n s C) (js_set key n N) L"
proof -
  have n: "n = length (tasks Q)" "tasks Q' = tasks Q @ [\<lparr>taskKey = key, chainedBehind = js_get (queues Q) key, status = Waiting\<rparr>]"
    using Q' assms(3) by (auto simp: enqueue_def Let_def)
  have below: "m < n" if "js_get C m = Some r" for m r using save_okD(1) [OF saves_okD(2) [OF ok that]] n by simp
  then have fresh: "js_get C n = None" by (metis less_irrefl not_None_eq)
  have "tasks_ok Q'" using enqueue_ok [OF saves_okD(1) [OF ok], of can key] Q' by simp
  then have ok': "saves_ok Q' C N L"
    by (rule saves_ok_queue [OF ok]) (use n below in \<open>auto simp: nth_append\<close>)
  have "save_ok Q' (js_set n s C) L m r" if "js_get (js_set n s C) m = Some r" for m r
  proof (cases "m = n")
    case True
    then show ?thesis using that call n by (auto simp: js_get_set save_ok_def)
  next
    case False
    then have "save_ok Q' C L m r" using that saves_okD(2) [OF ok'] by (simp add: js_get_set)
    then show ?thesis using fresh by (auto simp: save_ok_def stored_def js_get_set) (metis option.distinct(1))+
  qed
  moreover have "newest_ok Q' (js_set n s C) u (js_get (js_set key n N) u)" for u
    using saves_okD(3) [OF ok', of u] below call(1) fresh
    by (auto simp: newest_ok_def js_get_set less_imp_le split: option.splits)
  moreover have "announced_ok (js_set n s C) x" if "x \<in> set L" for x
    using saves_okD(4) [OF ok' that] fresh by (cases x) (auto simp: announced_ok_def js_get_set)
  moreover have "announced_of u (js_set n s C) L = announced_of u C L" for u
  proof -
    have "k \<noteq> n" if "(k, t) \<in> set L" for k t using saves_okD(4) [OF ok' that] fresh by (auto simp: announced_ok_def)
    then show ?thesis unfolding announced_of_def by (intro arg_cong [of _ _ "map fst"] filter_cong) (auto simp: js_get_set)
  qed
  ultimately show ?thesis using saves_okD(1,5) [OF ok'] by (simp add: saves_ok_def)
qed

lemma saves_ok_turn:
  assumes ok: "saves_ok Q C N L" and s: "js_get C n = Some s" and "startTask n Q = Some Q'"
    and s': "s' = (if coalesce \<and> js_get N (saveUri s) \<noteq> Some n
                   then s\<lparr>saveState := SaveReturned True, supersededBy := js_get N (saveUri s)\<rparr> else s\<lparr>saveState := SaveReads\<rparr>)"
  shows "saves_ok Q' (js_set n s' C) N L"
proof -
  note st = started [OF saves_okD(1) [OF ok] assms(3)] and here = saves_okD(2) [OF ok s]
  have fresh: "saveState s = SaveQueued" using here st(3) by (cases "saveState s") (auto simp: save_ok_def)
  then have s0: "saveEnd s = SavePending" "supersededBy s = None" using here st(3) by (auto simp: save_ok_def)
  obtain j t where j: "js_get N (saveUri s) = Some j" "js_get C j = Some t" "saveUri t = saveUri s" "n \<le> j"
    using saves_okD(3) [OF ok, of "saveUri s"] s st(3) by (auto simp: newest_ok_def split: option.splits)
  have "save_ok Q' (js_set n s' C) L n s'"
    using here st(1,2) s0 s j by (auto simp: save_ok_def s' js_get_set)
  moreover have "(n, tx) \<notin> set L" for tx using saves_okD(4) [OF ok, of "(n, tx)"] s fresh by (auto simp: announced_ok_def)
  ultimately show ?thesis
    using saves_ok_task [OF ok s, of s' Running] st by (auto simp: s' same_call_def)
qed

lemma saves_ok_returns:
  assumes ok: "saves_ok Q C N L" and s: "js_get C n = Some s" and "saveState s = SaveReads \<or> saveState s = SaveWrites"
    and "x = SaveWrites \<or> x = SaveReturned False"
  shows "saves_ok Q (js_set n (s\<lparr>saveState := x\<rparr>) C) N L"
proof (rule saves_ok_update [OF ok s])
  show "save_ok Q (js_set n (s\<lparr>saveState := x\<rparr>) C) L n (s\<lparr>saveState := x\<rparr>)"
    using saves_okD(2) [OF ok s] assms(3,4) by (auto simp: save_ok_def)
  show "announced_ok (js_set n (s\<lparr>saveState := x\<rparr>) C) (n, t)" if "(n, t) \<in> set L" for t
    using saves_okD(4) [OF ok that] s assms(3) by (auto simp: announced_ok_def)
qed (simp add: same_call_def)

lemma saves_ok_announced:
  assumes ok: "saves_ok Q C N L" and s: "js_get C n = Some s" and "saveState s = SaveReads \<or> saveState s = SaveWrites"
  shows "saves_ok Q (js_set n (s\<lparr>saveState := SaveReturned True\<rparr>) C) N (L @ [(n, Some (saveText s))])"
proof -
  let ?s = "s\<lparr>saveState := SaveReturned True\<rparr>"
  let ?C = "js_set n ?s C" and ?L = "L @ [(n, Some (saveText s))]"
  have same: "same_call s ?s" by (simp add: same_call_def)
  note here = saves_okD(2) [OF ok s]
  have run: "status (tasks Q ! n) = Running" "supersededBy s = None" "saveEnd s = SavePending"
    using here assms(3) by (auto simp: save_ok_def)
  have old: "k < n" if "(k, t) \<in> set L" "js_get C k = Some r" "saveUri r = saveUri s" for k t r
  proof (rule ccontr)
    assume "\<not> k < n"
    moreover have "saveState r = SaveReturned True" using saves_okD(4) [OF ok that(1)] that(2) by (auto simp: announced_ok_def)
    moreover from this have "k \<noteq> n" using s that(2) assms(3) by auto
    moreover have k: "k < length (tasks Q)" "taskKey (tasks Q ! k) = taskKey (tasks Q ! n)" "status (tasks Q ! k) \<noteq> Waiting"
      using saves_okD(2) [OF ok that(2)] here that(3) calculation(2) by (auto simp: save_ok_def)
    ultimately have "status (tasks Q ! n) = task_status.Settled"
      using tasks_okD(1) [OF saves_okD(1) [OF ok] k(1,3)] by (auto simp: earlier_settled_def)
    then show False using run by simp
  qed
  have "save_ok Q ?C ?L m r" if "js_get ?C m = Some r" for m r
  proof (cases "m = n")
    case True
    then show ?thesis using that here run by (auto simp: js_get_set save_ok_def)
  next
    case False
    then show ?thesis using that save_ok_more [OF save_ok_others [OF saves_okD(2) [OF ok] s same]] by (simp add: js_get_set)
  qed
  moreover have "announced_ok ?C (k, t)" if "(k, t) \<in> set ?L" for k t
    using that saves_okD(4) [OF ok, of "(k, t)"] s run assms(3) by (auto simp: announced_ok_def js_get_set)
  moreover have "sorted_wrt (<) (announced_of u ?C ?L)" for u
  proof -
    have "announced_of u ?C ?L = announced_of u C L @ (if u = saveUri s then [n] else [])"
      unfolding announced_of_update [OF s same] using s by (auto simp: announced_of_def)
    moreover have "k < n" if "k \<in> set (announced_of (saveUri s) C L)" for k
      using that old by (auto simp: announced_of_def)
    ultimately show ?thesis using saves_okD(5) [OF ok, of u] by (auto simp: sorted_wrt_append)
  qed
  ultimately show ?thesis using saves_okD(1,3) [OF ok] by (auto simp: saves_ok_def newest_update [OF s same])
qed

lemma saves_ok_settles:
  assumes ok: "saves_ok Q C N L" and s: "js_get C n = Some s" "saveState s = SaveReturned r" and "settleTask n Q = Some Q'"
  shows "saves_ok Q' C N L"
proof -
  note st = settled [OF saves_okD(1) [OF ok] assms(4)]
  have same: "same_call s s" by (simp add: same_call_def)
  have get: "js_get (js_set n s C) = js_get C" using s(1) by (auto simp: js_get_set)
  have "save_ok Q' (js_set n s C) L n s"
    using saves_okD(2) [OF ok s(1)] s(2) st(1,2) unfolding save_ok_def stored_def get by auto
  moreover have "announced_ok (js_set n s C) (n, t)" if "(n, t) \<in> set L" for t
    using saves_okD(4) [OF ok that] unfolding announced_ok_def get .
  ultimately have "saves_ok Q' (js_set n s C) N L"
    using saves_ok_task [OF ok s(1) same, of task_status.Settled] st by simp
  then show ?thesis using saves_ok_cong [OF get] by blast
qed

lemma saves_ok_resolves:
  assumes ok: "saves_ok Q C N L" and s: "js_get C n = Some s" "status (tasks Q ! n) = task_status.Settled"
    and e: "e = (if saveState s = SaveReturned False then SaveRejected
         else case supersededBy s of None \<Rightarrow> SavedAs (saveVersion s)
           | Some j \<Rightarrow> (case js_get C j of None \<Rightarrow> SavePending | Some t \<Rightarrow> saveEnd t))"
    and N': "N' = (if js_get N (saveUri s) = Some n then js_delete (saveUri s) N else N)"
  shows "saves_ok Q (js_set n (s\<lparr>saveEnd := e\<rparr>) C) N' L"
proof -
  let ?s = "s\<lparr>saveEnd := e\<rparr>"
  have same: "same_call s ?s" by (simp add: same_call_def)
  note here = saves_okD(2) [OF ok s(1)]
  obtain ret where ret: "saveState s = SaveReturned ret" using here s(2) by (cases "saveState s") (auto simp: save_ok_def)
  have "stored C L n s v" if "e = SavedAs v" for v
  proof (cases "supersededBy s")
    case None
    then have "(n, Some (saveText s)) \<in> set L" "v = saveVersion s" using that e ret here by (auto simp: save_ok_def split: if_splits)
    then show ?thesis using s(1) by (auto simp: stored_def)
  next
    case (Some j)
    then obtain t where t: "js_get C j = Some t" "saveUri t = saveUri s" "n < j" using here by (auto simp: save_ok_def)
    then have "stored C L j t v" using that e ret Some saves_okD(2) [OF ok t(1)] by (auto simp: save_ok_def split: if_splits)
    then obtain k r where "js_get C k = Some r" "j \<le> k" "saveUri r = saveUri t" "saveVersion r = v" "(k, Some (saveText r)) \<in> set L"
      unfolding stored_def by blast
    then show ?thesis using t(2,3) unfolding stored_def by (intro exI [of _ k] exI [of _ r]) simp
  qed
  then have "stored (js_set n ?s C) L n ?s v" if "e = SavedAs v" for v
    unfolding stored_update [OF s(1) same] using that by (simp add: stored_def)
  then have "save_ok Q (js_set n ?s C) L n ?s"
    using save_ok_others [OF here s(1) same] s(2) by (simp add: save_ok_def)
  moreover have "announced_ok (js_set n ?s C) (n, t)" if "(n, t) \<in> set L" for t
    using saves_okD(4) [OF ok that] s(1) by (auto simp: announced_ok_def js_get_set)
  ultimately have ok': "saves_ok Q (js_set n ?s C) N L" by (rule saves_ok_update [OF ok s(1) same])
  have "newest_ok Q (js_set n ?s C) u (js_get N' u)" for u
  proof (cases "u = saveUri s \<and> js_get N u = Some n")
    case True
    have "status (tasks Q ! m) = task_status.Settled" if "js_get C m = Some r" "saveUri r = saveUri s" for m r
    proof -
      have "m \<le> n" using saves_okD(3) [OF ok, of "saveUri s"] True that by (auto simp: newest_ok_def)
      moreover have "earlier_settled n Q" using tasks_okD(1) [OF saves_okD(1) [OF ok] save_okD(1) [OF here]] s(2) by simp
      moreover have "taskKey (tasks Q ! m) = taskKey (tasks Q ! n)"
        using save_okD(2) [OF here] save_okD(2) [OF saves_okD(2) [OF ok that(1)]] that(2) by simp
      ultimately show ?thesis using s(2) by (cases "m = n") (auto simp: earlier_settled_def)
    qed
    then show ?thesis using True unfolding newest_update [OF s(1) same] by (auto simp: N' newest_ok_def js_get_delete)
  next
    case False
    then have "js_get N' u = js_get N u" by (auto simp: N' js_get_delete)
    then show ?thesis using saves_okD(3) [OF ok', of u] by simp
  qed
  then show ?thesis using ok' by (simp add: saves_ok_def)
qed

subsection \<open>Versions, and the invariant of a workspace\<close>

text \<open>A save took a version its document has since only moved past, and later saves of a file took later ones.\<close>

definition took :: "(nat, save_task) js_map \<Rightarrow> nat \<Rightarrow> (uri \<times> version) option" where
  "took C n = map_option (\<lambda>s. (saveUri s, saveVersion s)) (js_get C n)"

definition versions_ok :: "store \<Rightarrow> (nat, save_task) js_map \<Rightarrow> bool" where
  "versions_ok S C \<longleftrightarrow>
     (\<forall>n u v. took C n = Some (u, v) \<longrightarrow> (\<exists>v' h. standing S u = Some (v', h) \<and> v \<le> v')) \<and>
     (\<forall>n m u v v'. took C n = Some (u, v) \<and> took C m = Some (u, v') \<and> n < m \<longrightarrow> v \<le> v')"

definition stages_ok :: "task_queue \<Rightarrow> (nat, save_task) js_map \<Rightarrow> (uri, delete_stage) js_map \<Rightarrow> bool" where
  "stages_ok Q C D \<longleftrightarrow> (\<forall>k n. js_get D k = Some (DeleteQueued n) \<longrightarrow> n < length (tasks Q) \<and> js_get C n = None)"

definition workspace_ok :: "manager_env \<Rightarrow> 'e workspace \<Rightarrow> bool" where
  "workspace_ok M W \<longleftrightarrow>
     env_ok (storeEnv M) \<and> store_ok (storeEnv M) (ws_store W) \<and> versions_ok (ws_store W) (saveCalls W) \<and>
     saves_ok (fileQueue W) (saveCalls W) (newestSaves (manager W)) (announcedSaves W) \<and>
     stages_ok (fileQueue W) (saveCalls W) (deleteStages (manager W))"

lemma moved_past:
  assumes "sequences_progress S S'" and "standing S k = Some (v, h)"
  shows "\<exists>v' h'. standing S' k = Some (v', h') \<and> v \<le> v'"
proof -
  have "moved_on (standing S k) (standing S' k)" using assms(1) by (simp add: sequences_progress_def)
  then show ?thesis using assms(2) by (auto simp: moved_on_def split: option.splits)
qed

lemma versions_ok_moved:
  assumes "versions_ok S C" and "sequences_progress S S'"
  shows "versions_ok S' C"
proof -
  have "\<exists>v' h. standing S' u = Some (v', h) \<and> v \<le> v'" if t: "took C n = Some (u, v)" for n u v
  proof -
    obtain v1 h where "standing S u = Some (v1, h)" "v \<le> v1" using assms(1) t unfolding versions_ok_def by blast
    then show ?thesis using moved_past [OF assms(2)] by (meson order_trans)
  qed
  then show ?thesis using assms(1) unfolding versions_ok_def by blast
qed

lemma versions_ok_update:
  assumes "versions_ok S C" and "js_get C n = Some s" and "same_call s s'"
  shows "versions_ok S (js_set n s' C)"
proof -
  have "took (js_set n s' C) = took C" using assms(2,3) by (auto simp: took_def js_get_set same_call_def)
  then show ?thesis using assms(1) by (simp add: versions_ok_def)
qed

lemma versions_ok_called:
  assumes ok: "versions_ok S C" and E: "env_ok E" "store_ok E S" and d: "store_get E key S = Some d" "documentKey E key = key"
    and below: "\<And>m r. js_get C m = Some r \<Longrightarrow> m < n" and s: "saveUri s = key" "saveVersion s = docVersion d"
  shows "versions_ok S (js_set n s C)"
proof -
  have st: "standing S key = Some (docVersion d, textHash (docText d))"
  proof -
    have "js_get (synced S) key = Some d" using store_get_key [OF E, of key] d by simp
    then show ?thesis by (simp add: standing_def)
  qed
  have new: "took (js_set n s C) m = (if m = n then Some (key, docVersion d) else took C m)" for m
    using s by (simp add: took_def js_get_set)
  have low: "m < n" if "took C m = Some x" for m x using that below by (auto simp: took_def)
  have old: "v \<le> docVersion d" if "took C m = Some (key, v)" for m v using ok that st unfolding versions_ok_def by fastforce
  show ?thesis unfolding versions_ok_def
  proof (intro conjI allI impI)
    show "\<exists>v' h. standing S u = Some (v', h) \<and> v \<le> v'" if "took (js_set n s C) m = Some (u, v)" for m u v
    proof (cases "m = n")
      case True
      then show ?thesis using that st new by simp
    next
      case False
      then show ?thesis using that new ok unfolding versions_ok_def by auto
    qed
    show "v \<le> v'" if h: "took (js_set n s C) k = Some (u, v) \<and> took (js_set n s C) m = Some (u, v') \<and> k < m" for k m u v v'
    proof -
      have "k \<noteq> n" using h new low [of m] by (auto split: if_splits)
      then have k: "took C k = Some (u, v)" using h new by simp
      show ?thesis
      proof (cases "m = n")
        case True
        then show ?thesis using h new old k by auto
      next
        case False
        then show ?thesis using h k new ok unfolding versions_ok_def by fastforce
      qed
    qed
  qed
qed

text \<open>Operations that leave the saves, the queue and the deletions alone keep the invariant.\<close>

lemma workspace_ok_frame:
  assumes "workspace_ok M W" and "reaches (storeEnv M) (ws_store W) (ws_store W')"
    and "fileQueue W' = fileQueue W" "saveCalls W' = saveCalls W" "newestSaves (manager W') = newestSaves (manager W)"
    "announcedSaves W' = announcedSaves W" "deleteStages (manager W') = deleteStages (manager W)"
  shows "workspace_ok M W'"
  using assms reaches_ok [of "storeEnv M" "ws_store W" "ws_store W'"] versions_ok_moved by (auto simp: workspace_ok_def)

lemma workspace_ok_queue:
  assumes ok: "workspace_ok M W" and "tasks_ok Q'" and "length (tasks (fileQueue W)) \<le> length (tasks Q')"
    and "\<And>n s. js_get (saveCalls W) n = Some s \<Longrightarrow> tasks Q' ! n = tasks (fileQueue W) ! n"
  shows "workspace_ok M (W\<lparr>fileQueue := Q'\<rparr>)"
  using ok saves_ok_queue [OF _ assms(2,3)] assms(4) assms(3) unfolding workspace_ok_def stages_ok_def by fastforce

lemma workspace_ok_stage:
  assumes "workspace_ok M W" and "\<And>n. x = Some (DeleteQueued n) \<Longrightarrow> n < length (tasks (fileQueue W)) \<and> js_get (saveCalls W) n = None"
  shows "workspace_ok M (set_stage key x W)"
  using assms by (auto simp: workspace_ok_def stages_ok_def set_stage_def js_get_set js_get_delete split: option.splits if_splits)

lemma workspace_okD:
  assumes "workspace_ok M W"
  shows "env_ok (storeEnv M)" "store_ok (storeEnv M) (ws_store W)" "tasks_ok (fileQueue W)"
    and "saves_ok (fileQueue W) (saveCalls W) (newestSaves (manager W)) (announcedSaves W)"
    and "js_get (saveCalls W) n = Some s \<Longrightarrow> n < length (tasks (fileQueue W))"
  using assms saves_okD(1,2) save_okD(1) by (auto simp: workspace_ok_def) blast+

lemma workspace_ok_enqueue:
  assumes "workspace_ok M W"
  shows "workspace_ok M (W\<lparr>fileQueue := snd (enqueue can key (fileQueue W))\<rparr>)"
  by (rule workspace_ok_queue [OF assms enqueue_ok [OF workspace_okD(3) [OF assms]]])
    (auto simp: enqueue_def Let_def nth_append dest: workspace_okD(5) [OF assms])

text \<open>A task that is no save's starts, settles or is cleaned up.\<close>

lemma workspace_ok_task:
  assumes ok: "workspace_ok M W" and "task_step can op (fileQueue W) = Some Q'" and op: "op \<in> {StartTask n, SettleTask n, CleanupTask n}"
    and "op = CleanupTask n \<or> js_get (saveCalls W) n = None"
  shows "workspace_ok M (W\<lparr>fileQueue := Q'\<rparr>)"
proof (rule workspace_ok_queue [OF ok task_step_ok [OF workspace_okD(3) [OF ok] assms(2)]])
  show "length (tasks (fileQueue W)) \<le> length (tasks Q')"
    using assms(2) op by (auto simp: startTask_def settleTask_def cleanupTask_def setStatus_def split: if_splits)
  show "tasks Q' ! m = tasks (fileQueue W) ! m" if "js_get (saveCalls W) m = Some s" for m s
    using assms(2,4) op that by (auto simp: startTask_def settleTask_def cleanupTask_def setStatus_def nth_list_update split: if_splits)
qed

lemma set_save_update: "js_get (saveCalls W) n = Some s \<Longrightarrow> set_save n f W = W\<lparr>saveCalls := js_set n (f s) (saveCalls W)\<rparr>"
  by (simp add: set_save_def)

text \<open>The steps of a save change its call and its task alone.\<close>

lemma workspace_ok_save:
  assumes ok: "workspace_ok M W" and "reaches (storeEnv M) (ws_store W) (ws_store W')"
    and s: "js_get (saveCalls W) n = Some s" "same_call s s'" "saveCalls W' = js_set n s' (saveCalls W)"
    and "saves_ok (fileQueue W') (saveCalls W') (newestSaves (manager W')) (announcedSaves W')"
    and "length (tasks (fileQueue W')) = length (tasks (fileQueue W))" "deleteStages (manager W') = deleteStages (manager W)"
  shows "workspace_ok M W'"
proof -
  have "store_ok (storeEnv M) (ws_store W') \<and> sequences_progress (ws_store W) (ws_store W')"
    by (rule reaches_ok [OF workspace_okD(1,2) [OF ok] assms(2)])
  moreover from this have "versions_ok (ws_store W') (saveCalls W')"
    using ok versions_ok_moved versions_ok_update [OF _ s(1,2)] unfolding s(3) workspace_ok_def by blast
  moreover have "stages_ok (fileQueue W') (saveCalls W') (deleteStages (manager W'))"
    using ok s(1) unfolding workspace_ok_def stages_ok_def s(3) assms(7,8) by (auto simp: js_get_set)
  ultimately show ?thesis using workspace_okD(1) [OF ok] assms(6) by (simp add: workspace_ok_def)
qed

lemma same_call_state [simp]:
  "same_call s (s\<lparr>saveState := x\<rparr>)" "same_call s (s\<lparr>saveState := x, supersededBy := j\<rparr>)" "same_call s (s\<lparr>saveEnd := e\<rparr>)"
  by (simp_all add: same_call_def)

lemma announce_save_ok:
  assumes ok: "workspace_ok M W" and s: "js_get (saveCalls W) n = Some s" "saveState s = SaveReads \<or> saveState s = SaveWrites"
    and "js_get (files W) (saveUri s) = Some (saveText s)"
  shows "workspace_ok M (announce_save M n s W)"
proof -
  let ?W = "announce_save M n s W" and ?s = "s\<lparr>saveState := SaveReturned True\<rparr>"
  have frame: "fileQueue ?W = fileQueue W" "saveCalls ?W = js_set n ?s (saveCalls W)" "newestSaves (manager ?W) = newestSaves (manager W)"
    "announcedSaves ?W = announcedSaves W @ [(n, Some (saveText s))]" "deleteStages (manager ?W) = deleteStages (manager W)"
    using s(1) assms(4) by (simp_all add: announce_save_def Let_def set_save_def)
  show ?thesis
    by (rule workspace_ok_save [OF ok announce_reaches s(1), where s' = ?s])
      (simp_all add: frame saves_ok_announced [OF workspace_okD(4) [OF ok] s])
qed

lemma saveCalled_ok:
  assumes ok: "workspace_ok M W" and "saveCalled M u c W = Inr (n, W')"
  shows "workspace_ok M W'"
proof -
  let ?E = "storeEnv M" and ?key = "canonical (storeEnv M) u"
  obtain d Q where d: "store_get ?E ?key (ws_store W) = Some d" and Q: "enqueue (canonical ?E) ?key (fileQueue W) = (n, Q)"
    and W': "W' = with_manager (\<lambda>A. A\<lparr>newestSaves := js_set ?key n (newestSaves A)\<rparr>)
        (W\<lparr>fileQueue := Q, saveCalls := js_set n \<lparr>saveUri = ?key, saveText = docText d, saveVersion = docVersion d, saveClient = c,
           saveState = SaveQueued, supersededBy = None, saveEnd = SavePending\<rparr> (saveCalls W)\<rparr>)"
    using assms(2) by (auto simp: saveCalled_def Let_def split: option.splits prod.splits)
  have can: "canonical ?E ?key = ?key" using workspace_okD(1) [OF ok] by (simp add: env_ok_def)
  have n: "n = length (tasks (fileQueue W))" "length (tasks Q) = Suc (length (tasks (fileQueue W)))"
    using Q by (auto simp: enqueue_def Let_def)
  have low: "m < n" if "js_get (saveCalls W) m = Some r" for m r using workspace_okD(5) [OF ok that] n by simp
  have "stages_ok Q (js_set n t (saveCalls W)) (deleteStages (manager W))" for t
    using ok n unfolding workspace_ok_def stages_ok_def by (fastforce simp: js_get_set)
  moreover have "versions_ok (ws_store W) (saveCalls W)" using ok by (simp add: workspace_ok_def)
  ultimately show ?thesis
    using workspace_okD(1,2) [OF ok] saves_ok_called [OF workspace_okD(4) [OF ok] Q can]
      versions_ok_called [OF _ workspace_okD(1,2) [OF ok] d] low can
    by (simp add: workspace_ok_def W' documentKey_def)
qed

lemma save_steps_ok:
  assumes ok: "workspace_ok M W" and "workspace_step M op W = Some W'"
    and op: "op \<in> {WsSaveTurn n, WsSaveRead n readable, WsSaveWritten n readable, WsSaveTaskSettles n, WsSaveResolves n}"
  shows "workspace_ok M W'"
proof -
  note sv = workspace_okD(4) [OF ok] and reach = workspace_reaches [OF assms(2)]
  obtain s where s: "js_get (saveCalls W) n = Some s"
    using assms(2) op by (auto simp: saveTurn_def saveRead_def saveWritten_def saveTaskSettles_def saveResolves_def split: option.splits)
  have keep: "workspace_ok M W'"
    if "saveCalls W' = js_set n s' (saveCalls W)" "same_call s s'" "saves_ok (fileQueue W') (saveCalls W') (newestSaves (manager W')) (announcedSaves W')"
      "length (tasks (fileQueue W')) = length (tasks (fileQueue W))" "deleteStages (manager W') = deleteStages (manager W)" for s'
    using workspace_ok_save [OF ok reach s that(2,1,3)] that(4,5) by blast
  consider "op = WsSaveTurn n" | "op = WsSaveRead n readable" | "op = WsSaveWritten n readable" | "op = WsSaveTaskSettles n" | "op = WsSaveResolves n"
    using op by auto
  then show ?thesis
  proof cases
    case 1
    let ?newest = "js_get (newestSaves (manager W)) (saveUri s)"
    let ?s = "if coalesceSaves M \<and> ?newest \<noteq> Some n then s\<lparr>saveState := SaveReturned True, supersededBy := ?newest\<rparr>
      else s\<lparr>saveState := SaveReads\<rparr>"
    obtain Q where Q: "startTask n (fileQueue W) = Some Q" using assms(2) 1 s by (auto simp: saveTurn_def split: option.splits)
    then have W': "W' = W\<lparr>fileQueue := Q, saveCalls := js_set n ?s (saveCalls W)\<rparr>"
      using assms(2) 1 s by (auto simp: saveTurn_def set_save_def Let_def)
    have "length (tasks Q) = length (tasks (fileQueue W))" using started [OF workspace_okD(3) [OF ok] Q] by simp
    then show ?thesis using keep [of ?s] saves_ok_turn [OF sv s Q refl] by (simp add: W')
  next
    case 2
    then show ?thesis
      using assms(2) s keep [of "s\<lparr>saveState := SaveWrites\<rparr>"] saves_ok_returns [OF sv s, of SaveWrites] announce_save_ok [OF ok s]
      by (auto simp: saveRead_def set_save_update matchesDisk_def split: if_splits)
  next
    case 3
    let ?W = "W\<lparr>files := js_set (saveUri s) (saveText s) (files W)\<rparr>"
    have "workspace_ok M ?W" by (rule workspace_ok_frame [OF ok]) simp_all
    then show ?thesis
      using 3 assms(2) s keep [of "s\<lparr>saveState := SaveReturned False\<rparr>"] saves_ok_returns [OF sv s, of "SaveReturned False"]
        announce_save_ok [of M ?W n s]
      by (auto simp: saveWritten_def set_save_update js_get_set split: if_splits)
  next
    case 4
    then obtain r Q where r: "saveState s = SaveReturned r" "settleTask n (fileQueue W) = Some Q" and W': "W' = W\<lparr>fileQueue := Q\<rparr>"
      using assms(2) s by (auto simp: saveTaskSettles_def split: save_state.splits option.splits)
    have "saves_ok Q (saveCalls W) (newestSaves (manager W)) (announcedSaves W)" by (rule saves_ok_settles [OF sv s r])
    moreover have "length (tasks Q) = length (tasks (fileQueue W))" using settled [OF workspace_okD(3) [OF ok] r(2)] by simp
    ultimately show ?thesis using ok by (simp add: W' workspace_ok_def stages_ok_def)
  next
    case 5
    let ?s = "s\<lparr>saveEnd := save_outcome s W\<rparr>"
    have W': "W' = with_manager (\<lambda>A. if js_get (newestSaves A) (saveUri s) = Some n then A\<lparr>newestSaves := js_delete (saveUri s) (newestSaves A)\<rparr> else A)
        (W\<lparr>saveCalls := js_set n ?s (saveCalls W)\<rparr>)" and st: "status (tasks (fileQueue W) ! n) = task_status.Settled"
      using assms(2) 5 s by (auto simp: saveResolves_def set_save_update split: if_splits)
    have "newestSaves (manager W') = (if js_get (newestSaves (manager W)) (saveUri s) = Some n
        then js_delete (saveUri s) (newestSaves (manager W)) else newestSaves (manager W))"
      by (simp add: W')
    from saves_ok_resolves [OF sv s st refl this] show ?thesis
      using keep [of ?s] by (simp add: W' save_outcome_def if_distrib [of deleteStages])
  qed
qed

lemma forget_deleted_frame [simp]:
  "fileQueue (fold (forget_deleted M now) us W) = fileQueue W" "saveCalls (fold (forget_deleted M now) us W) = saveCalls W"
  "newestSaves (manager (fold (forget_deleted M now) us W)) = newestSaves (manager W)"
  "announcedSaves (fold (forget_deleted M now) us W) = announcedSaves W"
  "deleteStages (manager (fold (forget_deleted M now) us W)) = deleteStages (manager W)"
  by (induction us arbitrary: W) (simp_all add: forget_deleted_def Let_def)

lemma queueDeleteFile_ok:
  assumes "workspace_ok M W"
  shows "workspace_ok M (queueDeleteFile M key W)"
proof -
  obtain n Q where Q: "enqueue (canonical (storeEnv M)) key (fileQueue W) = (n, Q)" by fastforce
  have "workspace_ok M (W\<lparr>fileQueue := Q\<rparr>)" using workspace_ok_enqueue [OF assms, of "canonical (storeEnv M)" key] Q by simp
  moreover have "n < length (tasks Q) \<and> js_get (saveCalls W) n = None"
    using Q workspace_okD(5) [OF assms, of n] by (cases "js_get (saveCalls W) n") (auto simp: enqueue_def Let_def)
  ultimately show ?thesis using workspace_ok_stage [of M "W\<lparr>fileQueue := Q\<rparr>" "Some (DeleteQueued n)" key] Q by (simp add: queueDeleteFile_def)
qed

lemma workspace_ok_deletions:
  "workspace_ok M (with_manager (\<lambda>A. A\<lparr>deletions := g A\<rparr>) W) = workspace_ok M W"
  by (simp add: workspace_ok_def)

lemma delete_task_ok:
  assumes "workspace_ok M W" and "js_get (deleteStages (manager W)) key = Some (DeleteQueued n)"
    and "task_step can op (fileQueue W) = Some Q" and "op \<in> {StartTask n, SettleTask n}"
  shows "workspace_ok M (W\<lparr>fileQueue := Q\<rparr>)"
proof -
  have "js_get (saveCalls W) n = None" using assms(1,2) by (simp add: workspace_ok_def stages_ok_def)
  then show ?thesis using workspace_ok_task [OF assms(1,3)] assms(4) by blast
qed

lemma workspace_step_ok:
  assumes ok: "workspace_ok M W" and step: "workspace_step M op W = Some W'"
  shows "workspace_ok M W'"
proof -
  note frame = workspace_ok_frame [OF ok workspace_reaches [OF step]]
  show ?thesis
  proof (cases op)
    case (WsOpenBegins now u c)
    show ?thesis
      by (rule frame) (use step WsOpenBegins in \<open>auto simp: openBegins_def Let_def split: if_splits sum.splits\<close>)
  next
    case (WsOpenTakes now u lang v tx supplied c)
    show ?thesis
      by (rule frame)
        (use step WsOpenTakes in \<open>auto simp: openTakes_def Let_def split: sum.splits option.splits if_splits bool.splits\<close>)
  next
    case (WsUpdate u tx c)
    show ?thesis by (rule frame) (use step WsUpdate in \<open>auto simp: manager_update_def split: if_splits sum.splits\<close>)
  next
    case (WsSave u c)
    then show ?thesis using step saveCalled_ok [OF ok, of u c] by (auto split: sum.splits)
  next
    case (WsDelete inside u c)
    then show ?thesis
      using step workspace_ok_stage [of M "with_manager (\<lambda>A. A\<lparr>deletions := g A\<rparr>) W" "Some DeleteRegisters" for g]
        queueDeleteFile_ok [of M "with_manager (\<lambda>A. A\<lparr>deletions := g A\<rparr>) W" for g] workspace_ok_deletions [of M _ W] ok
      by (auto simp: deleteBegins_def Let_def split: sum.splits if_splits)
  next
    case (WsDeleteRegistered key good)
    then show ?thesis
      using step queueDeleteFile_ok [OF ok] workspace_ok_stage [OF ok, of None] by (auto simp: deleteRegistered_def split: if_splits)
  next
    case (WsDeleteFileStarts key)
    then show ?thesis
      using step delete_task_ok [OF ok, where op = "StartTask n" and n = n for n]
      by (auto simp: deleteFileStarts_def split: option.splits delete_stage.splits)
  next
    case (WsDeleteFileEnds key good)
    then obtain n Q where n: "js_get (deleteStages (manager W)) key = Some (DeleteQueued n)" "settleTask n (fileQueue W) = Some Q"
      and W': "W' = (if good then set_stage key (Some DeleteBuilds) (W\<lparr>fileQueue := Q, files := js_delete key (files W)\<rparr>)
         else set_stage key None (W\<lparr>fileQueue := Q\<rparr>))"
      using step by (auto simp: deleteFileEnds_def Let_def split: option.splits delete_stage.splits)
    have Q: "workspace_ok M (W\<lparr>fileQueue := Q\<rparr>)" using delete_task_ok [OF ok n(1), where op = "SettleTask n"] n(2) by simp
    have "workspace_ok M (W\<lparr>fileQueue := Q, files := js_delete key (files W)\<rparr>)" by (rule workspace_ok_frame [OF Q]) simp_all
    from workspace_ok_stage [OF this, of "Some DeleteBuilds" key] workspace_ok_stage [OF Q, of None key] show ?thesis by (simp add: W')
  next
    case (WsDeleteBuilt now key refused)
    have "workspace_ok M (closeDeletingOpen M now key c W)" for c
    proof (cases "isOpenInClient (storeEnv M) key c (ws_store W)")
      case True
      have "workspace_ok M (manager_close M now key c W)"
        by (rule workspace_ok_frame [OF ok close_reaches]) (simp_all add: manager_close_def)
      then show ?thesis using True by (simp add: closeDeletingOpen_def)
    qed (use ok in \<open>simp add: closeDeletingOpen_def\<close>)
    from workspace_ok_stage [OF this, of None] workspace_ok_stage [OF this, of "Some DeleteRefused"] show ?thesis
      using step WsDeleteBuilt by (auto simp: deleteBuilt_def Let_def split: if_splits)
  next
    case (WsDeleteRefusedEnds key)
    then show ?thesis using step workspace_ok_stage [OF ok, of None] by (auto simp: deleteRefusedEnds_def split: if_splits)
  next
    case (WsBuild now changed gone)
    show ?thesis by (rule frame) (use step WsBuild in \<open>auto simp: buildUpdate_def\<close>)
  next
    case (WsStore sop)
    show ?thesis by (rule frame) (use step WsStore in \<open>auto split: option.splits\<close>)
  next
    case (WsFileTask u)
    then show ?thesis using step workspace_ok_enqueue [OF ok] by auto
  next
    case (WsTaskStarts n)
    then show ?thesis
      using step workspace_ok_task [OF ok, where op = "StartTask n" and n = n]
      by (auto simp: other_task_def js_has_get split: if_splits)
  next
    case (WsTaskSettles n)
    then show ?thesis
      using step workspace_ok_task [OF ok, where op = "SettleTask n" and n = n]
      by (auto simp: other_task_def js_has_get split: if_splits)
  next
    case (WsTaskCleanup n)
    then show ?thesis using step workspace_ok_task [OF ok, where op = "CleanupTask n" and n = n] by auto
  next
    case (WsSaveTurn n)
    then show ?thesis using save_steps_ok [OF ok step, of n] by blast
  next
    case (WsSaveRead n r)
    then show ?thesis using save_steps_ok [OF ok step, of n r] by blast
  next
    case (WsSaveWritten n r)
    then show ?thesis using save_steps_ok [OF ok step, of n r] by blast
  next
    case (WsSaveTaskSettles n)
    then show ?thesis using save_steps_ok [OF ok step, of n] by blast
  next
    case (WsSaveResolves n)
    then show ?thesis using save_steps_ok [OF ok step, of n] by blast
  next
    case (WsClose now u c)
    show ?thesis by (rule frame) (use step WsClose in \<open>auto simp: manager_close_def\<close>)
  next
    case (WsDelivered u v)
    show ?thesis by (rule frame) (use step WsDelivered in \<open>auto simp: manager_close_def\<close>)
  next
    case (WsProduced doc v tx)
    show ?thesis by (rule frame) (use step WsProduced in \<open>auto simp: manager_close_def\<close>)
  next
    case (WsRegistered ds)
    show ?thesis by (rule frame) (use step WsRegistered in \<open>auto simp: manager_close_def\<close>)
  next
    case (WsFile u tx)
    show ?thesis by (rule frame) (use step WsFile in \<open>auto simp: manager_close_def\<close>)
  qed
qed

interpretation ws: component "workspace_step M" "workspace_ok M" for M :: manager_env
  by unfold_locales (rule workspace_step_ok)

lemma new_workspace_ok:
  assumes "env_ok (storeEnv M)" and "store_ok (storeEnv M) (textStore Y)"
  shows "workspace_ok M (new_workspace Y fs)"
  using assms queue_run_ok [of canonical "[]" for canonical]
  by (simp add: workspace_ok_def new_workspace_def new_manager_def versions_ok_def took_def saves_ok_def newest_ok_def announced_of_def stages_ok_def)

subsection \<open>Properties\<close>

lemma ws_run_ok:
  assumes "env_ok (storeEnv M)" and "store_ok (storeEnv M) (textStore Y)"
  shows "workspace_ok M (ws.run M ops (new_workspace Y fs))"
  by (rule ws.run_inv [OF new_workspace_ok [OF assms]])

lemma saved_stored:
  assumes ok: "workspace_ok M W" and s: "js_get (saveCalls W) n = Some s" "saveEnd s = SavedAs v"
  shows "saveVersion s \<le> v \<and>
    (\<exists>j t. js_get (saveCalls W) j = Some t \<and> n \<le> j \<and> saveUri t = saveUri s \<and> saveVersion t = v \<and>
       (j, Some (saveText t)) \<in> set (announcedSaves W))"
proof -
  have "stored (saveCalls W) (announcedSaves W) n s v"
    using saves_okD(2) [OF workspace_okD(4) [OF ok] s(1)] s(2) by (simp add: save_ok_def)
  then obtain j t where j: "js_get (saveCalls W) j = Some t" "n \<le> j" "saveUri t = saveUri s" "saveVersion t = v"
    "(j, Some (saveText t)) \<in> set (announcedSaves W)"
    unfolding stored_def by blast
  have "saveVersion s \<le> v"
  proof (cases "j = n")
    case True
    then show ?thesis using j s(1) by simp
  next
    case False
    moreover have "took (saveCalls W) n = Some (saveUri s, saveVersion s)" "took (saveCalls W) j = Some (saveUri s, v)"
      using j s(1) by (simp_all add: took_def)
    moreover have "versions_ok (ws_store W) (saveCalls W)" using ok by (simp add: workspace_ok_def)
    moreover have "n < j" using j(2) False by simp
    ultimately show ?thesis unfolding versions_ok_def by blast
  qed
  then show ?thesis using j by blast
qed

text \<open>
  C4: A save that resolves was stored. Over any interleaving of saves, edits, deletions, builds and changes of files from
  outside, and whether or not saves coalesce: when the promise of a save resolves to a version, the manager has
  found or written in the file exactly the text of that version, taken by this save or by a later one of the file that it
  deferred to; and that version is not before the one this save took, so no saved edit is lost behind an older text.
\<close>

theorem save_resolves_stored:
  assumes "env_ok (storeEnv M)" and "store_ok (storeEnv M) (textStore Y)"
    and "js_get (saveCalls (ws.run M ops (new_workspace Y fs))) n = Some s" and "saveEnd s = SavedAs v"
  shows "saveVersion s \<le> v \<and>
    (\<exists>j t. js_get (saveCalls (ws.run M ops (new_workspace Y fs))) j = Some t \<and> n \<le> j \<and> saveUri t = saveUri s \<and> saveVersion t = v \<and>
       (j, Some (saveText t)) \<in> set (announcedSaves (ws.run M ops (new_workspace Y fs))))"
  by (rule saved_stored [OF ws_run_ok [OF assms(1,2)] assms(3,4)])

text \<open>
  C35: The texts of a file are stored in the order their saves were called: the announced saves of one file never run
  backwards, however the reads, the writes and the other tasks of the queue interleave, and each names the text
  its file held then.
\<close>

theorem saves_in_call_order:
  assumes "env_ok (storeEnv M)" and "store_ok (storeEnv M) (textStore Y)"
  shows "sorted_wrt (<) (announced_of u (saveCalls (ws.run M ops (new_workspace Y fs))) (announcedSaves (ws.run M ops (new_workspace Y fs)))) \<and>
    (\<forall>(n, found) \<in> set (announcedSaves (ws.run M ops (new_workspace Y fs))).
       \<exists>s. js_get (saveCalls (ws.run M ops (new_workspace Y fs))) n = Some s \<and> found = Some (saveText s))"
  using saves_okD(4,5) [OF workspace_okD(4) [OF ws_run_ok [OF assms]]] unfolding announced_ok_def by fastforce

subsection \<open>A run to apply them to\<close>

definition plain_manager :: manager_env where
  "plain_manager = \<lparr>storeEnv = witness_env, uriEquals = (=), coalesceSaves = True, buildsValidate = True\<rparr>"

definition empty_sync :: "unit sync" where
  "empty_sync = \<lparr>docs = [], modelLedger = new_model_ledger, textStore = new_store 10, buildQueue = new_build_queue, recorded = []\<rparr>"

text \<open>Open, save, edit, save: the first save is still queued when the second is called, and defers to it.\<close>

definition deferred_save :: "workspace_op list" where
  "deferred_save =
     [WsOpenTakes 0 ''a'' ''x'' 1 [7] False ''form'', WsSave ''a'' ''form'', WsUpdate ''a'' [8] ''form'', WsSave ''a'' ''form'',
      WsSaveTurn 0, WsSaveTaskSettles 0, WsSaveTurn 1, WsSaveRead 1 True, WsSaveWritten 1 True, WsSaveTaskSettles 1, WsSaveResolves 1, WsSaveResolves 0]"

lemmas workspace_eval = openTakes_def manager_isOpen_def manager_getDocument_def with_store_def with_manager_def built_root_def
  saveCalled_def manager_update_def saveTurn_def saveRead_def saveWritten_def saveTaskSettles_def saveResolves_def save_outcome_def announce_save_def
  matchesDisk_def set_save_def new_workspace_def new_manager_def empty_sync_def enqueue_def startTask_def settleTask_def setStatus_def
  new_task_queue_def notifyDidSaveTextDocument_def store_setDiskBaseline_def setDiskBaseline_def announceSave_def

lemma deferred_save_run:
  "js_get (saveCalls (ws.run plain_manager deferred_save (new_workspace empty_sync []))) 0 =
     Some \<lparr>saveUri = ''a'', saveText = [7], saveVersion = 1, saveClient = ''form'', saveState = SaveReturned True,
       supersededBy = Some 1, saveEnd = SavedAs 2\<rparr> \<and>
   announcedSaves (ws.run plain_manager deferred_save (new_workspace empty_sync [])) = [(1, Some [8])]"
  by (simp add: deferred_save_def workspace_eval plain_manager_def store_eval applyContentChange_def commitChange_def update_doc_def
      witness_lib_def witness_env_def documentKey_def task_status.simps Let_def split del: if_split)

lemma plain_manager_ok: "env_ok (storeEnv plain_manager)" "store_ok (storeEnv plain_manager) (textStore empty_sync)"
  by (simp_all add: plain_manager_def empty_sync_def)

theorem save_resolves_stored_witness:
  "\<exists>j t. js_get (saveCalls (ws.run plain_manager deferred_save (new_workspace empty_sync []))) j = Some t \<and> saveVersion t = 2 \<and>
     (j, Some (saveText t)) \<in> set (announcedSaves (ws.run plain_manager deferred_save (new_workspace empty_sync [])))"
  using save_resolves_stored [OF plain_manager_ok conjunct1 [OF deferred_save_run]] by auto

theorem saves_in_call_order_witness:
  "sorted_wrt (<) (announced_of ''a'' (saveCalls (ws.run plain_manager deferred_save (new_workspace empty_sync [])))
     (announcedSaves (ws.run plain_manager deferred_save (new_workspace empty_sync []))))"
  using saves_in_call_order [OF plain_manager_ok] by blast

end
