(* ===== verification/AstEvents.thy ===== *)
theory AstEvents
  imports AstSaves
begin

section \<open>Whose change an update event reports\<close>

text \<open>
  What the AST document manager says of the updates it delivers, on which a client decides whether an event echoes
  its own write: \<open>attributeUpdate\<close> over the builds and deliveries of a workspace.
\<close>

lemma set_fold_add [simp]: "set (fold set_add xs ys) = set xs \<union> set ys"
  by (induction xs arbitrary: ys) auto





text \<open>One client edits the document it opened; the build relinks another document.\<close>

abbreviation edited_workspace :: "unit workspace" where
  "edited_workspace \<equiv> ws.run plain_manager
     [WsOpenTakes 0 ''a'' ''x'' 1 [7] False ''form'', WsUpdate ''a'' [8] ''form''] (new_workspace empty_sync [])"

lemmas edited_eval = buildUpdate_def update_causes_def attributeUpdate_def isTracked_def keepsVersion_def store_isOpen_def isDelivered_def
  getAuthor_def authorOf_def latest_author_def UNKNOWN_CLIENT_ID_def List.map_filter_simps workspace_eval plain_manager_def store_eval
  applyContentChange_def commitChange_def update_doc_def witness_lib_def witness_env_def documentKey_def Let_def


lemma edited_document:
  "synced (ws_store edited_workspace) = [(''a'', \<lparr>docId = 0, docUri = ''a'', docLanguage = ''x'', docVersion = 2, docText = [8]\<rparr>)]"
  "\<not> isDelivered plain_manager ''a'' 2 (manager edited_workspace)"
  by (simp_all add: edited_eval split del: if_split)


end
