(* ===== verification/ClientSessions.thy ===== *)
theory ClientSessions
  imports AstSaves
begin

section \<open>Client sessions\<close>

text \<open>
  \<open>DefaultClientSession\<close> of \<open>core/src/langium/model-service/client-session.ts\<close>, with \<open>createSession\<close> of \<open>model-service.ts\<close>,
  over the workspace of \<open>AstDocuments\<close>. Sessions are objects: an id may be used again, and a call under way
  belongs to the session it was made on. Calls are split at their awaits: an open waits for the workspace, reads,
  and ends; a write is checked at the door, serialised by adopter code, and checked and applied in one step. The text
  a model is serialised to, whether the last build parsed the whole text and whether a build may run are arguments; so is the
  rebuild, whose answer no state depends on. \<open>appliedWrites\<close> logs the numbered writes of a
  session with the versions their updates answer.
\<close>

datatype session_refusal =
    SessionEnded client_id
  | NotOpenInSession uri client_id
  | StaleBase uri version version
  | SkippedText uri
  | BuildRefused uri
  | NamedTwice "uri list"
  | FileExists uri
  | HeldForLostClient uri
  | OpenInClient uri
  | ManagerRefused manager_error
  | IdRefused store_error

datatype base_version = AnyVersion | BaseVersion version

definition WRITE_RECORDS_KEPT :: nat where "WRITE_RECORDS_KEPT = 64"

datatype open_stage = OpenWaits | OpenReads bool | OpenStands bool | OpenDone | OpenFailed

text \<open>An open under way or done. A create brings its text; \<open>createdAt\<close> is the version its own document opened at.\<close>

record 'o open_run =
  runSession :: nat
  runUri :: uri
  runOptions :: "'o option"
  runText :: "text_body option"
  runStage :: open_stage
  byOpen :: bool
  createdAt :: "version option"

record 'o session =
  sessionId :: client_id
  sessionDisposed :: bool
  listening :: bool
  pendingOpens :: "(uri, nat) js_map"
  withOpenHolds :: "(uri, nat) js_map"
  heldByOpen :: "uri list"
  openOptionsByUri :: "(uri, 'o option) js_map"
  writeNumbers :: "(uri, (int \<times> version) list) js_map"
  appliedWrites :: "(uri \<times> int \<times> version) list"

text \<open>A call of \<open>withOpen\<close> whose function runs: its URI, the open it waits for, and whether it joined one under way.\<close>

record with_open =
  holdSession :: nat
  holdUri :: uri
  holdRun :: nat
  holdJoined :: bool
  holdOpened :: bool

record ('e, 'o) service =
  workspace :: "'e workspace"
  sessionObjects :: "'o session list"
  liveSessions :: "(client_id, nat) js_map"
  resumeTokens :: "(client_id, string) js_map"
  openRuns :: "'o open_run list"
  withOpens :: "(nat, with_open) js_map"
  nextHold :: nat

definition new_service :: "'e workspace \<Rightarrow> ('e, 'o) service" where
  "new_service W =
     \<lparr>workspace = W, sessionObjects = [], liveSessions = [], resumeTokens = [], openRuns = [], withOpens = [], nextHold = 0\<rparr>"

abbreviation session_at :: "('e, 'o) service \<Rightarrow> nat \<Rightarrow> 'o session" where
  "session_at V n \<equiv> sessionObjects V ! n"

abbreviation sv_store :: "('e, 'o) service \<Rightarrow> store" where
  "sv_store V \<equiv> ws_store (workspace V)"

definition set_session :: "nat \<Rightarrow> ('o session \<Rightarrow> 'o session) \<Rightarrow> ('e, 'o) service \<Rightarrow> ('e, 'o) service" where
  "set_session n f V = V\<lparr>sessionObjects := (sessionObjects V)[n := f (session_at V n)]\<rparr>"

definition set_run :: "nat \<Rightarrow> ('o open_run \<Rightarrow> 'o open_run) \<Rightarrow> ('e, 'o) service \<Rightarrow> ('e, 'o) service" where
  "set_run r f V = V\<lparr>openRuns := (openRuns V)[r := f (openRuns V ! r)]\<rparr>"

subsection \<open>What the sessions hear\<close>

text \<open>
  After an operation of the workspace the sessions have heard its closes (\<open>closeListener\<close>), the creates under way its
  opens, and the model service which sessions the store ended (\<open>sessionCloseListener\<close>): their handles are disposed.
\<close>

fun heard_close :: "store_event \<Rightarrow> 'o session \<Rightarrow> 'o session" where
  "heard_close (EvClose u v c) s =
     (if listening s \<and> c = sessionId s
      then s\<lparr>openOptionsByUri := js_delete u (openOptionsByUri s), writeNumbers := js_delete u (writeNumbers s),
             heldByOpen := set_delete u (heldByOpen s)\<rparr>
      else s)"
| "heard_close ev s = s"

fun under_way :: "open_stage \<Rightarrow> bool" where
  "under_way (OpenReads wasOpen) = True"
| "under_way (OpenStands wasOpen) = True"
| "under_way stage = False"

definition canonicalKey :: "manager_env \<Rightarrow> uri \<Rightarrow> uri" where
  "canonicalKey M u = canonical (storeEnv M) u"

definition hears_open :: "manager_env \<Rightarrow> uri \<Rightarrow> client_id \<Rightarrow> ('e, 'o) service \<Rightarrow> 'o open_run \<Rightarrow> bool" where
  "hears_open M u c V run \<longleftrightarrow>
     runText run \<noteq> None \<and> under_way (runStage run) \<and> c = sessionId (session_at V (runSession run)) \<and> u = canonicalKey M (runUri run)"

fun heard :: "manager_env \<Rightarrow> store_event \<Rightarrow> ('e, 'o) service \<Rightarrow> ('e, 'o) service" where
  "heard M (EvClose u v c) V = V\<lparr>sessionObjects := map (heard_close (EvClose u v c)) (sessionObjects V)\<rparr>"
| "heard M (EvOpen u v txt c) V =
     fold (\<lambda>run. set_session (runSession run) (\<lambda>s. s\<lparr>heldByOpen := set_add u (heldByOpen s)\<rparr>)) (filter (hears_open M u c V) (openRuns V))
       (V\<lparr>openRuns := map (\<lambda>run. if hears_open M u c V run then run\<lparr>createdAt := Some v\<rparr> else run) (openRuns V)\<rparr>)"
| "heard M ev V = V"

definition dispose_handle :: "'o session \<Rightarrow> 'o session" where
  "dispose_handle s = (if sessionDisposed s then s else s\<lparr>sessionDisposed := True, writeNumbers := [], listening := False\<rparr>)"

definition heard_end :: "client_id \<times> end_cause \<Rightarrow> ('e, 'o) service \<Rightarrow> ('e, 'o) service" where
  "heard_end ended V =
     (let c = fst ended; V1 = V\<lparr>liveSessions := js_delete c (liveSessions V), resumeTokens := js_delete c (resumeTokens V)\<rparr>
      in case js_get (liveSessions V) c of None \<Rightarrow> V1 | Some n \<Rightarrow> set_session n dispose_handle V1)"

definition in_workspace :: "manager_env \<Rightarrow> 'e workspace \<Rightarrow> ('e, 'o) service \<Rightarrow> ('e, 'o) service" where
  "in_workspace M W' V =
     (let S = sv_store V; S' = ws_store W'; V1 = V\<lparr>workspace := W'\<rparr>
      in fold heard_end (drop (length (closedEvents (sessionReg S))) (closedEvents (sessionReg S')))
           (fold (heard M) (drop (length (storeLog S)) (storeLog S')) V1))"

subsection \<open>Sessions\<close>

definition openIn :: "manager_env \<Rightarrow> uri \<Rightarrow> client_id \<Rightarrow> ('e, 'o) service \<Rightarrow> bool" where
  "openIn M u c V \<longleftrightarrow> isOpenInClient (storeEnv M) u c (sv_store V)"

definition getSession :: "client_id \<Rightarrow> ('e, 'o) service \<Rightarrow> nat option" where
  "getSession c V = js_get (liveSessions V) c"

definition disposeSession :: "manager_env \<Rightarrow> time \<Rightarrow> nat \<Rightarrow> end_cause \<Rightarrow> ('e, 'o) service \<Rightarrow> ('e, 'o) service" where
  "disposeSession M now n cause V =
     (if sessionDisposed (session_at V n) then V
      else (let V1 = set_session n (\<lambda>s. s\<lparr>sessionDisposed := True, writeNumbers := []\<rparr>) V;
                V2 = in_workspace M (with_store M (closeSession (storeEnv M) now (sessionId (session_at V n)) cause) (workspace V1)) V1
            in set_session n (\<lambda>s. s\<lparr>listening := False\<rparr>) V2))"

definition new_session :: "client_id \<Rightarrow> 'o session" where
  "new_session c =
     \<lparr>sessionId = c, sessionDisposed = False, listening = True, pendingOpens = [], withOpenHolds = [], heldByOpen = [],
      openOptionsByUri = [], writeNumbers = [], appliedWrites = []\<rparr>"

text \<open>A client that brings the token of the session that holds its id ends that session as lost first.\<close>

definition takeOver :: "manager_env \<Rightarrow> time \<Rightarrow> client_id \<Rightarrow> string option \<Rightarrow> ('e, 'o) service \<Rightarrow> ('e, 'o) service" where
  "takeOver M now c token V =
     (case (token, js_get (liveSessions V) c) of
        (Some t, Some n) \<Rightarrow> if js_get (resumeTokens V) c = Some t then disposeSession M now n Lost V else V
      | _ \<Rightarrow> V)"

definition createSession ::
  "manager_env \<Rightarrow> time \<Rightarrow> client_id \<Rightarrow> string option \<Rightarrow> ('e, 'o) service \<Rightarrow> (store_error \<times> ('e, 'o) service) + nat \<times> ('e, 'o) service" where
  "createSession M now c token V =
     (let V1 = takeOver M now c token V
      in case registerSession c (sv_store V1) of
           Inl e \<Rightarrow> Inl (e, V1)
         | Inr S \<Rightarrow>
             (let n = length (sessionObjects V1);
                  V2 = in_workspace M (with_store M (\<lambda>_. S) (workspace V1)) V1;
                  V3 = V2\<lparr>sessionObjects := sessionObjects V2 @ [new_session c], liveSessions := js_set c n (liveSessions V2)\<rparr>
              in Inr (n, case token of Some t \<Rightarrow> V3\<lparr>resumeTokens := js_set c t (resumeTokens V3)\<rparr> | None \<Rightarrow> V3)))"

definition session_openOptions :: "manager_env \<Rightarrow> nat \<Rightarrow> uri \<Rightarrow> ('e, 'o) service \<Rightarrow> 'o option" where
  "session_openOptions M n u V =
     (let s = session_at V n
      in if openIn M u (sessionId s) V then Option.bind (js_get (openOptionsByUri s) (canonicalKey M u)) id else None)"

subsection \<open>Checks\<close>

definition assertLive :: "nat \<Rightarrow> ('e, 'o) service \<Rightarrow> session_refusal option" where
  "assertLive n V = (if sessionDisposed (session_at V n) then Some (SessionEnded (sessionId (session_at V n))) else None)"

definition assertOpen :: "manager_env \<Rightarrow> nat \<Rightarrow> uri \<Rightarrow> ('e, 'o) service \<Rightarrow> session_refusal option" where
  "assertOpen M n u V =
     (if \<not> openIn M u (sessionId (session_at V n)) V \<or> isDeleting M u (workspace V)
      then Some (NotOpenInSession u (sessionId (session_at V n))) else None)"

definition assertBaseVersion :: "manager_env \<Rightarrow> uri \<Rightarrow> base_version \<Rightarrow> ('e, 'o) service \<Rightarrow> session_refusal option" where
  "assertBaseVersion M u base V =
     (case base of
        AnyVersion \<Rightarrow> None
      | BaseVersion b \<Rightarrow>
          (let now = store_version (storeEnv M) u (sv_store V) in if now \<noteq> b then Some (StaleBase u b now) else None))"

definition orElse :: "'a option \<Rightarrow> 'a option \<Rightarrow> 'a option" where
  "orElse x y = (case x of Some a \<Rightarrow> Some a | None \<Rightarrow> y)"

text \<open>
  What a write is called with, less the model itself: the text that it is serialised to is an argument of the apply.
  A write of a model is refused while the last build's parse lacks some of the text; \<open>skips\<close> lists the documents of
  which this holds. \<open>unbuilt\<close> lists those that \<open>assertCanBuild\<close> refuses.
\<close>

record write_args =
  writeUri :: uri
  writeBase :: base_version
  isModel :: bool
  restores :: bool
  writeNumber :: "int option"

definition assertParses :: "manager_env \<Rightarrow> uri list \<Rightarrow> uri \<Rightarrow> ('e, 'o) service \<Rightarrow> session_refusal option" where
  "assertParses M skips u V =
     (if manager_getDocument M u (workspace V) \<noteq> None \<and> u \<in> set skips then Some (SkippedText u) else None)"

definition write_check :: "manager_env \<Rightarrow> uri list \<Rightarrow> nat \<Rightarrow> write_args \<Rightarrow> ('e, 'o) service \<Rightarrow> session_refusal option" where
  "write_check M skips n a V =
     (let key = canonicalKey M (writeUri a)
      in orElse (assertOpen M n key V)
           (orElse (assertBaseVersion M key (writeBase a) V)
              (if isModel a \<and> \<not> restores a then assertParses M skips key V else None)))"

definition assertCanBuild :: "uri list \<Rightarrow> uri \<Rightarrow> session_refusal option" where
  "assertCanBuild unbuilt u = (if u \<in> set unbuilt then Some (BuildRefused u) else None)"

subsection \<open>Writes\<close>

definition numbers_of :: "'o session \<Rightarrow> uri \<Rightarrow> (int \<times> version) list" where
  "numbers_of s key = (case js_get (writeNumbers s) key of None \<Rightarrow> [] | Some rs \<Rightarrow> rs)"

definition highest_held :: "version \<Rightarrow> (int \<times> version) list \<Rightarrow> int option \<Rightarrow> int option" where
  "highest_held v = fold (\<lambda>r most. if snd r \<le> v \<and> (case most of None \<Rightarrow> True | Some h \<Rightarrow> h < fst r) then Some (fst r) else most)"

definition heldWrite :: "manager_env \<Rightarrow> nat \<Rightarrow> uri \<Rightarrow> version \<Rightarrow> ('e, 'o) service \<Rightarrow> int option" where
  "heldWrite M n u v V = highest_held v (numbers_of (session_at V n) (canonicalKey M u)) None"

definition recordWriteNumber :: "manager_env \<Rightarrow> nat \<Rightarrow> uri \<Rightarrow> int option \<Rightarrow> ('e, 'o) service \<Rightarrow> ('e, 'o) service" where
  "recordWriteNumber M n u write V =
     (case write of
        None \<Rightarrow> V
      | Some w \<Rightarrow>
          (let v = store_version (storeEnv M) u (sv_store V);
               rs = numbers_of (session_at V n) u @ [(w, v)];
               few = drop (length rs - WRITE_RECORDS_KEPT) rs
           in set_session n (\<lambda>s. s\<lparr>writeNumbers := js_set u few (writeNumbers s)\<rparr>) V))"

definition log_write :: "nat \<Rightarrow> uri \<Rightarrow> int option \<Rightarrow> version \<Rightarrow> ('e, 'o) service \<Rightarrow> ('e, 'o) service" where
  "log_write n u write v V =
     (case write of None \<Rightarrow> V | Some w \<Rightarrow> set_session n (\<lambda>s. s\<lparr>appliedWrites := appliedWrites s @ [(u, w, v)]\<rparr>) V)"

text \<open>\<open>update\<close> up to the serialiser, and the step that applies its text, which answers the version it took.\<close>

definition updateDoor :: "manager_env \<Rightarrow> uri list \<Rightarrow> uri list \<Rightarrow> nat \<Rightarrow> write_args \<Rightarrow> ('e, 'o) service \<Rightarrow> session_refusal option" where
  "updateDoor M skips unbuilt n a V =
     orElse (assertLive n V) (orElse (write_check M skips n a V) (assertCanBuild unbuilt (canonicalKey M (writeUri a))))"

definition updateApply ::
  "manager_env \<Rightarrow> uri list \<Rightarrow> nat \<Rightarrow> write_args \<Rightarrow> text_body \<Rightarrow> ('e, 'o) service \<Rightarrow> session_refusal + version \<times> ('e, 'o) service" where
  "updateApply M skips n a txt V =
     (let key = canonicalKey M (writeUri a)
      in case write_check M skips n a V of
           Some e \<Rightarrow> Inl e
         | None \<Rightarrow>
             (case manager_update M key txt (sessionId (session_at V n)) (workspace V) of
                Inl e \<Rightarrow> Inl (ManagerRefused e)
              | Inr (v, W) \<Rightarrow> Inr (v, recordWriteNumber M n key (writeNumber a) (log_write n key (writeNumber a) v (in_workspace M W V)))))"

text \<open>
  \<open>updateAll\<close>: the checks of all documents, then every text, then every number. Where the manager refuses one text
  the others are applied all the same, as its promises are only awaited afterwards; the checks leave it nothing to refuse.
\<close>

fun first_refusal :: "('a \<Rightarrow> session_refusal option) \<Rightarrow> 'a list \<Rightarrow> session_refusal option" where
  "first_refusal f [] = None"
| "first_refusal f (x # xs) = orElse (f x) (first_refusal f xs)"

definition updates_check :: "manager_env \<Rightarrow> uri list \<Rightarrow> uri list \<Rightarrow> nat \<Rightarrow> write_args list \<Rightarrow> ('e, 'o) service \<Rightarrow> session_refusal option" where
  "updates_check M skips unbuilt n as V =
     first_refusal (\<lambda>a. orElse (write_check M skips n a V) (assertCanBuild unbuilt (canonicalKey M (writeUri a)))) as"

definition updateAllDoor :: "manager_env \<Rightarrow> uri list \<Rightarrow> uri list \<Rightarrow> nat \<Rightarrow> write_args list \<Rightarrow> ('e, 'o) service \<Rightarrow> session_refusal option" where
  "updateAllDoor M skips unbuilt n as V =
     (let keys = map (\<lambda>a. canonicalKey M (writeUri a)) as
      in orElse (assertLive n V) (if \<not> distinct keys then Some (NamedTwice keys) else updates_check M skips unbuilt n as V))"

fun apply_texts ::
  "manager_env \<Rightarrow> nat \<Rightarrow> int option \<Rightarrow> (uri \<times> text_body) list \<Rightarrow> ('e, 'o) service \<Rightarrow> (manager_error + version) list \<times> ('e, 'o) service" where
  "apply_texts M n write [] V = ([], V)"
| "apply_texts M n write ((u, txt) # rest) V =
     (case manager_update M u txt (sessionId (session_at V n)) (workspace V) of
        Inl e \<Rightarrow> (let (answers, V') = apply_texts M n write rest V in (Inl e # answers, V'))
      | Inr (v, W) \<Rightarrow> (let (answers, V') = apply_texts M n write rest (log_write n u write v (in_workspace M W V)) in (Inr v # answers, V')))"

definition updateAllApply ::
  "manager_env \<Rightarrow> uri list \<Rightarrow> uri list \<Rightarrow> nat \<Rightarrow> write_args list \<Rightarrow> text_body list \<Rightarrow> int option \<Rightarrow> ('e, 'o) service
   \<Rightarrow> session_refusal + (manager_error + version) list \<times> ('e, 'o) service" where
  "updateAllApply M skips unbuilt n as txts write V =
     (let keys = map (\<lambda>a. canonicalKey M (writeUri a)) as
      in case updates_check M skips unbuilt n as V of
           Some e \<Rightarrow> Inl e
         | None \<Rightarrow> (let (answers, V1) = apply_texts M n write (zip keys txts) V
                   in Inr (answers, fold (\<lambda>u. recordWriteNumber M n u write) keys V1)))"

text \<open>A \<open>save\<close> is an update that never restores, then a \<open>persistDocument\<close> at any version; \<open>persist\<close> is the latter alone.\<close>

definition saveArgs :: "write_args \<Rightarrow> write_args" where
  "saveArgs a = a\<lparr>restores := False\<rparr>"

definition persistDocument :: "manager_env \<Rightarrow> nat \<Rightarrow> uri \<Rightarrow> base_version \<Rightarrow> ('e, 'o) service \<Rightarrow> session_refusal + nat \<times> ('e, 'o) service" where
  "persistDocument M n u base V =
     (let key = canonicalKey M u
      in case orElse (assertOpen M n key V) (assertBaseVersion M key base V) of
           Some e \<Rightarrow> Inl e
         | None \<Rightarrow> (case saveCalled M key (sessionId (session_at V n)) (workspace V) of
                      Inl e \<Rightarrow> Inl (ManagerRefused e)
                    | Inr (task, W) \<Rightarrow> Inr (task, in_workspace M W V)))"

definition deleteDocument :: "manager_env \<Rightarrow> bool \<Rightarrow> nat \<Rightarrow> uri \<Rightarrow> base_version \<Rightarrow> ('e, 'o) service \<Rightarrow> session_refusal + ('e, 'o) service" where
  "deleteDocument M insideWriteLock n u base V =
     (let key = canonicalKey M u
      in case orElse (assertOpen M n key V) (assertBaseVersion M key base V) of
           Some e \<Rightarrow> Inl e
         | None \<Rightarrow> (case deleteBegins M insideWriteLock key (sessionId (session_at V n)) (workspace V) of
                      Inl e \<Rightarrow> Inl (ManagerRefused e)
                    | Inr W \<Rightarrow> Inr (in_workspace M W V)))"

definition closeDocument :: "manager_env \<Rightarrow> time \<Rightarrow> nat \<Rightarrow> uri \<Rightarrow> ('e, 'o) service \<Rightarrow> ('e, 'o) service" where
  "closeDocument M now n u V = in_workspace M (manager_close M now u (sessionId (session_at V n)) (workspace V)) V"

subsection \<open>Opens\<close>

definition openDocument :: "manager_env \<Rightarrow> nat \<Rightarrow> uri \<Rightarrow> 'o option \<Rightarrow> bool \<Rightarrow> ('e, 'o) service \<Rightarrow> nat \<times> ('e, 'o) service" where
  "openDocument M n u options isOpenCall V =
     (let key = canonicalKey M u; r = length (openRuns V);
          run = \<lparr>runSession = n, runUri = u, runOptions = options, runText = None, runStage = OpenWaits, byOpen = isOpenCall, createdAt = None\<rparr>
      in case js_get (pendingOpens (session_at V n)) key of
           Some p \<Rightarrow> (p, set_run p (\<lambda>run. run\<lparr>byOpen := byOpen run \<or> isOpenCall\<rparr>) V)
         | None \<Rightarrow> (r, set_session n (\<lambda>s. s\<lparr>pendingOpens := js_set key r (pendingOpens s)\<rparr>) (V\<lparr>openRuns := openRuns V @ [run]\<rparr>)))"

definition openCalled :: "manager_env \<Rightarrow> nat \<Rightarrow> uri \<Rightarrow> 'o option \<Rightarrow> ('e, 'o) service \<Rightarrow> session_refusal + nat \<times> ('e, 'o) service" where
  "openCalled M n u options V =
     (case assertLive n V of
        Some e \<Rightarrow> Inl e
      | None \<Rightarrow> Inr (openDocument M n u options True
                       (set_session n (\<lambda>s. s\<lparr>heldByOpen := set_add (canonicalKey M u) (heldByOpen s)\<rparr>) V)))"

text \<open>The end of an open: what waits on it goes on, and the \<open>catch\<close> of an \<open>open\<close> that failed lets the URI go.\<close>

definition settleOpen :: "manager_env \<Rightarrow> nat \<Rightarrow> bool \<Rightarrow> ('e, 'o) service \<Rightarrow> ('e, 'o) service" where
  "settleOpen M r good V =
     (let run = openRuns V ! r; n = runSession run; key = canonicalKey M (runUri run);
          V1 = set_run r (\<lambda>run. run\<lparr>runStage := (if good then OpenDone else OpenFailed)\<rparr>) V;
          V2 = set_session n (\<lambda>s. if js_get (pendingOpens s) key = Some r
                                  then s\<lparr>pendingOpens := js_delete key (pendingOpens s)\<rparr> else s) V1
      in if \<not> good \<and> byOpen run \<and> \<not> openIn M (runUri run) (sessionId (session_at V2 n)) V2
         then set_session n (\<lambda>s. s\<lparr>heldByOpen := set_delete key (heldByOpen s)\<rparr>) V2 else V2)"

text \<open>The manager's \<open>open\<close> is called: where a client has the document open this only attaches.\<close>

definition managerOpens :: "manager_env \<Rightarrow> time \<Rightarrow> nat \<Rightarrow> bool \<Rightarrow> ('e, 'o) service \<Rightarrow> ('e, 'o) service" where
  "managerOpens M now r wasOpen V =
     (let run = openRuns V ! r
      in case openBegins M now (runUri run) (sessionId (session_at V (runSession run))) (workspace V) of
           Inl e \<Rightarrow> settleOpen M r False V
         | Inr (reads, W) \<Rightarrow>
             set_run r (\<lambda>run. run\<lparr>runStage := (if reads then OpenReads wasOpen else OpenStands wasOpen)\<rparr>) (in_workspace M W V))"

text \<open>\<open>registerOpen\<close> once the workspace is ready.\<close>

definition openReady :: "manager_env \<Rightarrow> time \<Rightarrow> nat \<Rightarrow> ('e, 'o) service \<Rightarrow> ('e, 'o) service option" where
  "openReady M now r V =
     (if \<not> (r < length (openRuns V) \<and> runStage (openRuns V ! r) = OpenWaits \<and> runText (openRuns V ! r) = None) then None
      else (let run = openRuns V ! r; n = runSession run; wasOpen = openIn M (runUri run) (sessionId (session_at V n)) V
            in Some (case assertLive n V of
                       Some e \<Rightarrow> settleOpen M r False V
                     | None \<Rightarrow> managerOpens M now r wasOpen
                         (if wasOpen then V
                          else set_session n (\<lambda>s. s\<lparr>openOptionsByUri := js_set (canonicalKey M (runUri run)) (runOptions run) (openOptionsByUri s)\<rparr>) V))))"

text \<open>The text is there, or cannot be read: a create brought its own.\<close>

definition openRead :: "manager_env \<Rightarrow> time \<Rightarrow> nat \<Rightarrow> string \<Rightarrow> int \<Rightarrow> text_body option \<Rightarrow> ('e, 'o) service \<Rightarrow> ('e, 'o) service option" where
  "openRead M now r lang declared fileText V =
     (if \<not> r < length (openRuns V) then None
      else (let run = openRuns V ! r
            in case (runStage run, if runText run = None then fileText else runText run) of
                 (OpenReads wasOpen, Some txt) \<Rightarrow>
                   Some (case openTakes M now (runUri run) lang declared txt (runText run \<noteq> None)
                                (sessionId (session_at V (runSession run))) (workspace V) of
                           Inl e \<Rightarrow> settleOpen M r False V
                         | Inr W \<Rightarrow> set_run r (\<lambda>run. run\<lparr>runStage := OpenStands wasOpen\<rparr>) (in_workspace M W V))
               | (OpenReads wasOpen, None) \<Rightarrow> Some (settleOpen M r False V)
               | _ \<Rightarrow> None))"

text \<open>\<open>rejectIfEnded\<close>, and the end of a create whose document another client opened first.\<close>

definition openEnds :: "manager_env \<Rightarrow> time \<Rightarrow> nat \<Rightarrow> ('e, 'o) service \<Rightarrow> ('e, 'o) service option" where
  "openEnds M now r V =
     (if \<not> r < length (openRuns V) then None
      else (let run = openRuns V ! r; n = runSession run; s = session_at V n
            in case runStage run of
                 OpenStands wasOpen \<Rightarrow>
                   Some (if sessionDisposed s
                         then settleOpen M r False
                                (if \<not> wasOpen \<and> getSession (sessionId s) V = None then closeDocument M now n (runUri run) V else V)
                         else if runText run \<noteq> None \<and> createdAt run = None
                         then settleOpen M r False (closeDocument M now n (runUri run) V)
                         else settleOpen M r True V)
               | _ \<Rightarrow> None))"

subsection \<open>Creates\<close>

definition createCalled :: "nat \<Rightarrow> uri \<Rightarrow> text_body \<Rightarrow> ('e, 'o) service \<Rightarrow> session_refusal + nat \<times> ('e, 'o) service" where
  "createCalled n u txt V =
     (case assertLive n V of
        Some e \<Rightarrow> Inl e
      | None \<Rightarrow> Inr (length (openRuns V),
          V\<lparr>openRuns := openRuns V @
              [\<lparr>runSession = n, runUri = u, runOptions = None, runText = Some txt, runStage = OpenWaits, byOpen = False, createdAt = None\<rparr>]\<rparr>))"

definition create_check :: "manager_env \<Rightarrow> bool \<Rightarrow> nat \<Rightarrow> uri \<Rightarrow> ('e, 'o) service \<Rightarrow> session_refusal option" where
  "create_check M fileExists n u V =
     orElse (if fileExists then Some (FileExists u) else None)
       (orElse (assertLive n V)
          (orElse (if isReleaseDeferred (storeEnv M) u (sv_store V) then Some (HeldForLostClient u) else None)
             (if manager_isOpen M u (workspace V) then Some (OpenInClient u) else None)))"

definition createReady :: "manager_env \<Rightarrow> time \<Rightarrow> nat \<Rightarrow> bool \<Rightarrow> ('e, 'o) service \<Rightarrow> ('e, 'o) service option" where
  "createReady M now r fileExists V =
     (if \<not> (r < length (openRuns V) \<and> runStage (openRuns V ! r) = OpenWaits \<and> runText (openRuns V ! r) \<noteq> None) then None
      else (let run = openRuns V ! r
            in Some (case create_check M fileExists (runSession run) (runUri run) V of
                       Some e \<Rightarrow> settleOpen M r False V
                     | None \<Rightarrow> managerOpens M now r False V)))"

subsection \<open>With open\<close>

definition withOpenCalled :: "manager_env \<Rightarrow> nat \<Rightarrow> uri \<Rightarrow> ('e, 'o) service \<Rightarrow> session_refusal + nat \<times> ('e, 'o) service" where
  "withOpenCalled M n u V =
     (case assertLive n V of
        Some e \<Rightarrow> Inl e
      | None \<Rightarrow>
          (let key = canonicalKey M u; s = session_at V n;
               holds = (case js_get (withOpenHolds s) key of None \<Rightarrow> 0 | Some h \<Rightarrow> h);
               V1 = set_session n (\<lambda>s. s\<lparr>heldByOpen := (if holds = 0 \<and> openIn M u (sessionId s) V then set_add key (heldByOpen s) else heldByOpen s),
                                         withOpenHolds := js_set key (holds + 1) (withOpenHolds s)\<rparr>) V;
               (r, V2) = openDocument M n u None False V1;
               hold = \<lparr>holdSession = n, holdUri = u, holdRun = r, holdJoined = (holds = 0 \<and> js_has (pendingOpens s) key), holdOpened = False\<rparr>
           in Inr (nextHold V2, V2\<lparr>withOpens := js_set (nextHold V2) hold (withOpens V2), nextHold := nextHold V2 + 1\<rparr>)))"

definition withOpenOpened :: "manager_env \<Rightarrow> nat \<Rightarrow> ('e, 'o) service \<Rightarrow> ('e, 'o) service option" where
  "withOpenOpened M h V =
     (case js_get (withOpens V) h of
        None \<Rightarrow> None
      | Some hold \<Rightarrow>
          if holdOpened hold \<or> runStage (openRuns V ! holdRun hold) \<noteq> OpenDone then None
          else (let n = holdSession hold; u = holdUri hold; V1 = V\<lparr>withOpens := js_set h (hold\<lparr>holdOpened := True\<rparr>) (withOpens V)\<rparr>
                in Some (if holdJoined hold \<and> openIn M u (sessionId (session_at V n)) V
                         then set_session n (\<lambda>s. s\<lparr>heldByOpen := set_add (canonicalKey M u) (heldByOpen s)\<rparr>) V1 else V1)))"

definition withOpenEnds :: "manager_env \<Rightarrow> time \<Rightarrow> nat \<Rightarrow> ('e, 'o) service \<Rightarrow> ('e, 'o) service option" where
  "withOpenEnds M now h V =
     (case js_get (withOpens V) h of
        None \<Rightarrow> None
      | Some hold \<Rightarrow>
          if \<not> holdOpened hold \<and> runStage (openRuns V ! holdRun hold) \<noteq> OpenFailed then None
          else (let n = holdSession hold; key = canonicalKey M (holdUri hold); s = session_at V n;
                    left = (case js_get (withOpenHolds s) key of None \<Rightarrow> 1 | Some k \<Rightarrow> k) - 1;
                    V1 = V\<lparr>withOpens := js_delete h (withOpens V)\<rparr>
                in Some (if 0 < left then set_session n (\<lambda>s. s\<lparr>withOpenHolds := js_set key left (withOpenHolds s)\<rparr>) V1
                         else (let V2 = set_session n (\<lambda>s. s\<lparr>withOpenHolds := js_delete key (withOpenHolds s)\<rparr>) V1
                               in if key \<notin> set (heldByOpen s) \<and> \<not> sessionDisposed s
                                  then closeDocument M now n (holdUri hold) V2 else V2))))"

subsection \<open>Steps\<close>

text \<open>
  The calls on sessions, their continuations, and the steps of the workspace from elsewhere. \<open>SvUpdate\<close> is the
  step that applies a text, and \<open>SvUpdateAll\<close> the one that applies a set which its door let pass; \<open>SvSavePersists\<close>
  is the second half of a save, which does not ask whether the session lives.
\<close>

datatype 'o service_op =
    SvCreateSession time client_id "string option"
  | SvDispose time nat end_cause
  | SvOpen nat uri "'o option"
  | SvOpenReady time nat
  | SvOpenRead time nat string int "text_body option"
  | SvOpenEnds time nat
  | SvCreate nat uri text_body
  | SvCreateReady time nat bool
  | SvWithOpen nat uri
  | SvWithOpenOpened nat
  | SvWithOpenEnds time nat
  | SvUpdate "uri list" nat write_args text_body
  | SvUpdateAll "uri list" "uri list" nat "write_args list" "text_body list" "int option"
  | SvPersist nat uri base_version
  | SvSavePersists nat uri
  | SvDelete bool nat uri base_version
  | SvClose time nat uri
  | SvWorkspace workspace_op

text \<open>Steps from elsewhere open nothing, and register nobody, under the id of a session of this service.\<close>

fun acts_as :: "workspace_op \<Rightarrow> client_id option" where
  "acts_as (WsOpenBegins now u c) = Some c"
| "acts_as (WsOpenTakes now u lang v txt supplied c) = Some c"
| "acts_as (WsStore (StOpen now built L u lang v txt c)) = Some c"
| "acts_as (WsStore (StAttach now u c)) = Some c"
| "acts_as (WsStore (StRegister c)) = Some c"
| "acts_as op = None"

definition if_live :: "nat \<Rightarrow> ('e, 'o) service \<Rightarrow> ('e, 'o) service option \<Rightarrow> ('e, 'o) service option" where
  "if_live n V next = (if assertLive n V = None then next else None)"

fun called_on :: "'o service_op \<Rightarrow> nat option" where
  "called_on (SvDispose now n cause) = Some n"
| "called_on (SvOpen n u options) = Some n"
| "called_on (SvCreate n u txt) = Some n"
| "called_on (SvWithOpen n u) = Some n"
| "called_on (SvUpdate skips n a txt) = Some n"
| "called_on (SvUpdateAll skips unbuilt n as txts write) = Some n"
| "called_on (SvPersist n u base) = Some n"
| "called_on (SvSavePersists n u) = Some n"
| "called_on (SvDelete inside n u base) = Some n"
| "called_on (SvClose now n u) = Some n"
| "called_on op = None"

fun session_step :: "manager_env \<Rightarrow> 'o service_op \<Rightarrow> ('e, 'o) service \<Rightarrow> ('e, 'o) service option" where
  "session_step M (SvCreateSession now c token) V =
     (case createSession M now c token V of Inl (e, V') \<Rightarrow> Some V' | Inr (n, V') \<Rightarrow> Some V')"
| "session_step M (SvDispose now n cause) V = Some (disposeSession M now n cause V)"
| "session_step M (SvOpen n u options) V = (case openCalled M n u options V of Inl _ \<Rightarrow> None | Inr (_, V') \<Rightarrow> Some V')"
| "session_step M (SvOpenReady now r) V = openReady M now r V"
| "session_step M (SvOpenRead now r lang v txt) V = openRead M now r lang v txt V"
| "session_step M (SvOpenEnds now r) V = openEnds M now r V"
| "session_step M (SvCreate n u txt) V = (case createCalled n u txt V of Inl _ \<Rightarrow> None | Inr (_, V') \<Rightarrow> Some V')"
| "session_step M (SvCreateReady now r fileExists) V = createReady M now r fileExists V"
| "session_step M (SvWithOpen n u) V = (case withOpenCalled M n u V of Inl _ \<Rightarrow> None | Inr (_, V') \<Rightarrow> Some V')"
| "session_step M (SvWithOpenOpened h) V = withOpenOpened M h V"
| "session_step M (SvWithOpenEnds now h) V = withOpenEnds M now h V"
| "session_step M (SvUpdate skips n a txt) V = (case updateApply M skips n a txt V of Inl _ \<Rightarrow> None | Inr (_, V') \<Rightarrow> Some V')"
| "session_step M (SvUpdateAll skips unbuilt n as txts write) V =
     (if \<not> (distinct (map (\<lambda>a. canonicalKey M (writeUri a)) as) \<and> length txts = length as) then None
      else case updateAllApply M skips unbuilt n as txts write V of Inl _ \<Rightarrow> None | Inr (_, V') \<Rightarrow> Some V')"
| "session_step M (SvPersist n u base) V =
     if_live n V (case persistDocument M n u base V of Inl _ \<Rightarrow> None | Inr (_, V') \<Rightarrow> Some V')"
| "session_step M (SvSavePersists n u) V = (case persistDocument M n u AnyVersion V of Inl _ \<Rightarrow> None | Inr (_, V') \<Rightarrow> Some V')"
| "session_step M (SvDelete inside n u base) V =
     if_live n V (case deleteDocument M inside n u base V of Inl _ \<Rightarrow> None | Inr V' \<Rightarrow> Some V')"
| "session_step M (SvClose now n u) V = if_live n V (Some (closeDocument M now n u V))"
| "session_step M (SvWorkspace op) V =
     (if (case acts_as op of None \<Rightarrow> False | Some c \<Rightarrow> c \<in> sessionId ` set (sessionObjects V)) then None
      else case workspace_step M op (workspace V) of None \<Rightarrow> None | Some W \<Rightarrow> Some (in_workspace M W V))"

definition service_step :: "manager_env \<Rightarrow> 'o service_op \<Rightarrow> ('e, 'o) service \<Rightarrow> ('e, 'o) service option" where
  "service_step M op V =
     (case called_on op of
        None \<Rightarrow> session_step M op V
      | Some n \<Rightarrow> if n < length (sessionObjects V) then session_step M op V else None)"

end
