(* ===== verification/SessionRuns.thy ===== *)
theory SessionRuns
  imports ClientSessions
begin

section \<open>Runs of client sessions\<close>

text \<open>
  What the steps of \<open>ClientSessions\<close> keep. A call on a session moves the workspace by steps of \<open>AstDocuments\<close>
  alone, so the invariants of its store and its saves hold under every run; and no step but a numbered write adds to
  what a session remembers of its writes.
\<close>

subsection \<open>Frames\<close>

lemma set_session_frame [simp]:
  "workspace (set_session n f V) = workspace V" "openRuns (set_session n f V) = openRuns V"
  "liveSessions (set_session n f V) = liveSessions V" "withOpens (set_session n f V) = withOpens V" "nextHold (set_session n f V) = nextHold V"
  "length (sessionObjects (set_session n f V)) = length (sessionObjects V)"
  "sessionObjects (set_session n f V) = (sessionObjects V)[n := f (session_at V n)]"
  by (simp_all add: set_session_def)

lemma set_run_frame [simp]:
  "workspace (set_run r f V) = workspace V" "sessionObjects (set_run r f V) = sessionObjects V" "liveSessions (set_run r f V) = liveSessions V"
  "withOpens (set_run r f V) = withOpens V" "openRuns (set_run r f V) = (openRuns V)[r := f (openRuns V ! r)]"
  by (simp_all add: set_run_def)

lemma fold_frame: "(\<And>x X. g (f x X) = g X) \<Longrightarrow> g (fold f xs X) = g X"
  by (induction xs arbitrary: X) auto

lemma heard_workspace [simp]: "workspace (heard M ev V) = workspace V"
  by (cases "(M, ev, V)" rule: heard.cases) (simp_all add: fold_frame [where g = workspace])

lemma heard_end_workspace [simp]: "workspace (heard_end e V) = workspace V"
  by (simp add: heard_end_def Let_def split: option.split)

lemma in_workspace_workspace [simp]: "workspace (in_workspace M W V) = W"
  by (simp add: in_workspace_def Let_def fold_frame [where g = workspace])

subsection \<open>The workspace under the sessions\<close>

definition follows :: "manager_env \<Rightarrow> 'e workspace \<Rightarrow> 'e workspace \<Rightarrow> bool" where
  "follows M W W' \<longleftrightarrow> (\<exists>ops. W' = ws.run M ops W)"

lemma follows_refl [simp, intro]: "follows M W W"
  unfolding follows_def by (rule exI [of _ "[]"]) simp

lemma follows_step: "workspace_step M op W = Some W' \<Longrightarrow> follows M W W'"
  unfolding follows_def by (rule exI [of _ "[op]"]) simp

lemma follows_trans: "follows M W X \<Longrightarrow> follows M X Y \<Longrightarrow> follows M W Y"
  unfolding follows_def using ws.run_append by metis

lemma follows_ok: "workspace_ok M W \<Longrightarrow> follows M W W' \<Longrightarrow> workspace_ok M W'"
  unfolding follows_def using ws.run_inv by blast

lemma follows_reaches:
  assumes "follows M W W'"
  shows "reaches (storeEnv M) (ws_store W) (ws_store W')"
proof -
  have "reaches (storeEnv M) (ws_store W) (ws_store (ws.run M ops W))" for ops
  proof (induction ops arbitrary: W)
    case (Cons op ops)
    then show ?case using workspace_reaches [of M op W] by (auto split: option.split intro: reaches_trans)
  qed simp
  then show ?thesis using assms by (auto simp: follows_def)
qed

lemma follows_with_store: "store_step (storeEnv M) op (ws_store W) = Some (f (ws_store W)) \<Longrightarrow> follows M W (with_store M f W)"
  by (rule follows_step [where op = "WsStore op"]) (simp add: with_store_def Let_def)

lemma follows_close: "follows M W (manager_close M now u c W)"
  by (rule follows_step [where op = "WsClose now u c"]) simp

lemma follows_calls:
  "manager_update M u tx c W = Inr (v, W') \<Longrightarrow> follows M W W'"
  "saveCalled M u c W = Inr (task, W') \<Longrightarrow> follows M W W'"
  "deleteBegins M inside u c W = Inr W' \<Longrightarrow> follows M W W'"
  "openBegins M now u c W = Inr (reads, W') \<Longrightarrow> follows M W W'"
  "openTakes M now u lang d tx supplied c W = Inr W' \<Longrightarrow> follows M W W'"
  using follows_step [of M "WsUpdate u tx c" W W'] follows_step [of M "WsSave u c" W W'] follows_step [of M "WsDelete inside u c" W W']
    follows_step [of M "WsOpenBegins now u c" W W'] follows_step [of M "WsOpenTakes now u lang d tx supplied c" W W']
  by simp_all

lemma record_workspace [simp]:
  "workspace (recordWriteNumber M n u w V) = workspace V" "workspace (log_write n u w v V) = workspace V"
  "workspace (settleOpen M r good V) = workspace V"
  by (simp_all add: recordWriteNumber_def log_write_def settleOpen_def Let_def split: option.split)

lemma fold_record_workspace [simp]: "workspace (fold (\<lambda>u. recordWriteNumber M n u w) us V) = workspace V"
  by (rule fold_frame) simp

lemma openDocument_workspace [simp]: "workspace (snd (openDocument M n u options b V)) = workspace V"
  by (simp add: openDocument_def Let_def split: option.split)

lemma openDocument_same: "openDocument M n u options b V = (r, V') \<Longrightarrow> workspace V' = workspace V"
  using openDocument_workspace [of M n u options b V] by simp

lemma closeDocument_follows: "follows M (workspace V) (workspace (closeDocument M now n u V))"
  by (simp add: closeDocument_def follows_close)

lemma disposeSession_follows: "follows M (workspace V) (workspace (disposeSession M now n cause V))"
  using follows_with_store [of M "StCloseSession now (sessionId (session_at V n)) cause" "workspace V"
      "closeSession (storeEnv M) now (sessionId (session_at V n)) cause"]
  by (simp add: disposeSession_def Let_def)

lemma takeOver_follows: "follows M (workspace V) (workspace (takeOver M now c token V))"
  by (simp add: takeOver_def disposeSession_follows split: option.split)

lemma createSession_follows:
  "follows M (workspace V) (workspace (case createSession M now c token V of Inl (e, V') \<Rightarrow> V' | Inr (n, V') \<Rightarrow> V'))"
proof (cases "registerSession c (sv_store (takeOver M now c token V))")
  case (Inl e)
  then show ?thesis using takeOver_follows by (simp add: createSession_def Let_def)
next
  case (Inr S)
  then have "follows M (workspace (takeOver M now c token V)) (with_store M (\<lambda>_. S) (workspace (takeOver M now c token V)))"
    by (intro follows_with_store [where op = "StRegister c"]) simp
  from follows_trans [OF takeOver_follows this] Inr show ?thesis
    by (auto simp: createSession_def Let_def split: option.split)
qed

lemma managerOpens_follows: "follows M (workspace V) (workspace (managerOpens M now r b V))"
  by (auto simp: managerOpens_def Let_def split: sum.split dest: follows_calls)

lemma apply_texts_follows: "follows M (workspace V) (workspace (snd (apply_texts M n w us V)))"
proof (induction M n w us V rule: apply_texts.induct)
  case (2 M n w u tx rest V)
  show ?case
  proof (cases "manager_update M u tx (sessionId (session_at V n)) (workspace V)")
    case (Inr r)
    obtain v W where r: "r = (v, W)" by (cases r)
    from Inr r have "follows M (workspace V) W" by (auto dest: follows_calls)
    then show ?thesis using "2.IH"(2) [of "(v, W)" v W] Inr r by (auto simp: case_prod_beta Let_def intro: follows_trans)
  qed (use "2.IH"(1) in \<open>simp add: case_prod_beta Let_def\<close>)
qed simp

lemma updateAllApply_follows:
  assumes "updateAllApply M skips unbuilt n ws txs no V = Inr (answers, V')"
  shows "follows M (workspace V) (workspace V')"
  using assms apply_texts_follows [of M V n no]
  by (auto simp: updateAllApply_def Let_def split: option.splits prod.splits) (metis snd_conv)

lemma session_step_follows:
  fixes V :: "('a, 'b) service"
  assumes "session_step M op V = Some V'"
  shows "follows M (workspace V) (workspace V')"
proof -
  have closes: "follows M (workspace V) (workspace (closeDocument M now n u V1))" if "workspace V1 = workspace V" for now n u and V1 :: "('a, 'b) service"
    using closeDocument_follows [where V = V1] that by simp
  have persists: "persistDocument M n u base V = Inr (task, V') \<Longrightarrow> follows M (workspace V) (workspace V')" for n u base task V'
    by (auto simp: persistDocument_def Let_def split: option.splits sum.splits dest: follows_calls)
  show ?thesis
  proof (cases op)
    case (SvCreateSession now c token)
    then show ?thesis using assms createSession_follows [of M V now c token] by (auto split: sum.splits)
  next
    case (SvOpenReady now r)
    then show ?thesis
      using assms managerOpens_follows [of M V now r True] managerOpens_follows [where V = "set_session n f V" for n f]
      by (auto simp: openReady_def Let_def split: if_splits option.splits)
  next
    case (SvOpenRead now r lang d tx)
    then show ?thesis
      using assms by (auto simp: openRead_def Let_def split: if_splits option.splits open_stage.splits sum.splits dest: follows_calls)
  next
    case (SvOpenEnds now r)
    then show ?thesis
      using assms by (auto simp: openEnds_def Let_def closes split: if_splits open_stage.splits)
  next
    case (SvCreateReady now r good)
    then show ?thesis
      using assms managerOpens_follows by (auto simp: createReady_def Let_def split: if_splits option.splits)
  next
    case (SvWithOpenEnds now h)
    then show ?thesis
      using assms by (auto simp: withOpenEnds_def closes Let_def split: if_splits option.splits)
  next
    case (SvUpdate skips n a tx)
    then show ?thesis
      using assms by (auto simp: updateApply_def Let_def split: option.splits sum.splits dest: follows_calls)
  next
    case (SvUpdateAll skips unbuilt n ws txs no)
    then show ?thesis using assms updateAllApply_follows by (auto split: sum.splits if_splits)
  next
    case (SvWithOpen n u)
    then show ?thesis
      using assms by (auto simp: withOpenCalled_def Let_def dest: openDocument_same split: option.splits prod.splits)
  next
    case (SvOpen n u options)
    then show ?thesis
      using assms by (auto simp: openCalled_def dest: openDocument_same split: option.splits prod.splits)
  next
    case (SvDispose now n cause)
    then show ?thesis using assms disposeSession_follows [of M V now n cause] by simp
  next
    case (SvCreate n u tx)
    then show ?thesis using assms by (auto simp: createCalled_def split: option.splits)
  next
    case (SvWithOpenOpened h)
    then show ?thesis using assms by (auto simp: withOpenOpened_def Let_def split: option.splits if_splits)
  next
    case (SvPersist n u base)
    then show ?thesis using assms persists by (auto simp: if_live_def split: sum.splits if_splits)
  next
    case (SvSavePersists n u)
    then show ?thesis using assms persists by (auto split: sum.splits)
  next
    case (SvDelete inside n u base)
    then show ?thesis
      using assms by (auto simp: deleteDocument_def if_live_def Let_def split: option.splits sum.splits if_splits dest: follows_calls)
  next
    case (SvClose now n u)
    then show ?thesis using assms closeDocument_follows [of M V now n u] by (simp add: if_live_def split: if_splits)
  next
    case (SvWorkspace wop)
    then show ?thesis using assms by (auto split: option.splits if_splits dest: follows_step)
  qed
qed

lemma service_step_follows: "service_step M op V = Some V' \<Longrightarrow> follows M (workspace V) (workspace V')"
  using session_step_follows by (auto simp: service_step_def split: option.splits if_splits)

subsection \<open>What a write does to the store\<close>

text \<open>A text lands in a document: the version steps exactly when the text is another one.\<close>

definition lands :: "store \<Rightarrow> store \<Rightarrow> uri \<Rightarrow> text_body \<Rightarrow> version \<Rightarrow> bool" where
  "lands S S' k tx v \<longleftrightarrow>
     (\<exists>d. js_get (synced S) k = Some d \<and> v = docVersion d + (if docText d = tx then 0 else 1) \<and>
          js_get (synced S') k = Some (d\<lparr>docVersion := v, docText := tx\<rparr>))"

definition lands_only :: "store \<Rightarrow> store \<Rightarrow> uri \<Rightarrow> text_body \<Rightarrow> version \<Rightarrow> bool" where
  "lands_only S S' k tx v \<longleftrightarrow> lands S S' k tx v \<and> (\<forall>x. x \<noteq> k \<longrightarrow> js_get (synced S') x = js_get (synced S) x)"

lemma lands_cong: "js_get (synced S) k = js_get (synced T) k \<Longrightarrow> js_get (synced S') k = js_get (synced T') k \<Longrightarrow> lands S S' k tx v = lands T T' k tx v"
  by (simp add: lands_def)

lemma apply_lands:
  assumes "env_ok E" and "applyContentChange E u tx c S = Inr (v, S')"
  shows "lands_only S S' (documentKey E u) tx v"
proof -
  obtain d where d: "js_get (synced S) (documentKey E u) = Some d"
    using assms(2) by (auto simp: applyContentChange_def Let_def split: option.splits)
  have full: "update_text (textLib E) (docText d) [FullText tx] = tx" using assms(1) by (simp add: env_ok_def text_lib_ok_def)
  show ?thesis
    using assms(2) d full
    by (cases "docText d = tx")
      (auto simp: lands_only_def lands_def applyContentChange_def commitChange_def update_doc_def Let_def js_get_set)
qed

lemma open_has_document:
  assumes "store_ok E S" and "isOpenIn k c (sessionReg S)"
  shows "\<exists>d. js_get (synced S) k = Some d \<and> docUri d = k \<and> canonical E k = k"
  using store_okD(2) [OF assms(1), of k] assms(2) by (auto simp: view_ok_def split: option.splits)

lemma store_version_get: "env_ok E \<Longrightarrow> store_ok E S \<Longrightarrow> js_get (synced S) (documentKey E u) = Some d \<Longrightarrow> store_version E u S = docVersion d"
  by (simp add: store_version_def store_get_key)

lemma canonical_key [simp]: "env_ok (storeEnv M) \<Longrightarrow> documentKey (storeEnv M) (canonicalKey M u) = canonicalKey M u"
  by (simp add: env_ok_def documentKey_def canonicalKey_def)

lemma orElse_None [simp]: "orElse x y = None \<longleftrightarrow> x = None \<and> y = None"
  by (simp add: orElse_def split: option.split)

lemma write_check_None:
  assumes "write_check M skips n a V = None"
  shows "openIn M (canonicalKey M (writeUri a)) (sessionId (session_at V n)) V" "\<not> isDeleting M (canonicalKey M (writeUri a)) (workspace V)"
    "writeBase a = BaseVersion b \<Longrightarrow> store_version (storeEnv M) (canonicalKey M (writeUri a)) (sv_store V) = b"
  using assms by (auto simp: write_check_def Let_def assertOpen_def assertBaseVersion_def split: if_splits)

lemma opened_document:
  assumes "workspace_ok M (workspace V)" and "openIn M (canonicalKey M u) c V"
  obtains d where "js_get (synced (sv_store V)) (canonicalKey M u) = Some d"
    and "store_version (storeEnv M) (canonicalKey M u) (sv_store V) = docVersion d"
  using open_has_document [OF workspace_okD(2) [OF assms(1)], of "canonicalKey M u" c] assms(2)
    store_version_get [OF workspace_okD(1,2) [OF assms(1)], of "canonicalKey M u"] workspace_okD(1) [OF assms(1)]
  by (auto simp: openIn_def isOpenInClient_def)

lemma manager_update_lands:
  assumes "workspace_ok M W" and "manager_update M (canonicalKey M u) tx c W = Inr (v, W')"
  shows "lands_only (ws_store W) (ws_store W') (canonicalKey M u) tx v"
  using assms(2) apply_lands [OF workspace_okD(1) [OF assms(1)], of "canonicalKey M u"] workspace_okD(1) [OF assms(1)]
  by (auto simp: manager_update_def split: if_splits sum.splits)

lemma manager_update_open:
  assumes "workspace_ok M W" and "js_get (synced (ws_store W)) (canonicalKey M u) = Some d"
  shows "\<exists>v W'. manager_update M (canonicalKey M u) tx c W = Inr (v, W')"
  using assms(2) workspace_okD(1,2) [OF assms(1)]
  by (auto simp: manager_update_def manager_isOpen_def store_get_key applyContentChange_def Let_def case_prod_beta)

lemma updateApply_lands:
  assumes "workspace_ok M (workspace V)" and "updateApply M skips n a tx V = Inr (v, V')"
  shows "write_check M skips n a V = None" "lands_only (sv_store V) (sv_store V') (canonicalKey M (writeUri a)) tx v"
  using assms(2) manager_update_lands [OF assms(1), of "writeUri a" tx] by (auto simp: updateApply_def Let_def split: option.splits sum.splits)

text \<open>The texts of a set land each in its own document.\<close>

lemma apply_texts_lands:
  assumes "workspace_ok M (workspace V)" and "distinct (map fst us)"
    and "\<And>u tx. (u, tx) \<in> set us \<Longrightarrow> canonicalKey M u = u \<and> js_get (synced (sv_store V)) u \<noteq> None"
    and "apply_texts M n w us V = (answers, V')"
  shows "length answers = length us \<and>
    (\<forall>i < length us. \<exists>v. answers ! i = Inr v \<and> lands (sv_store V) (sv_store V') (fst (us ! i)) (snd (us ! i)) v) \<and>
    (\<forall>k. k \<notin> fst ` set us \<longrightarrow> js_get (synced (sv_store V')) k = js_get (synced (sv_store V)) k)"
  using assms
proof (induction us arbitrary: V answers)
  case (Cons p us)
  obtain u tx where p: "p = (u, tx)" by (cases p)
  have u: "canonicalKey M u = u" and there: "js_get (synced (sv_store V)) u \<noteq> None" using Cons.prems(3) p by auto
  obtain v W where W: "manager_update M u tx (sessionId (session_at V n)) (workspace V) = Inr (v, W)"
    using manager_update_open [OF Cons.prems(1), of u _ tx "sessionId (session_at V n)"] u there by auto
  have d: "lands (sv_store V) (ws_store W) u tx v" "\<And>k. k \<noteq> u \<Longrightarrow> js_get (synced (ws_store W)) k = js_get (synced (sv_store V)) k"
    using manager_update_lands [OF Cons.prems(1), of u tx] W u by (auto simp: lands_only_def)
  let ?V = "log_write n u w v (in_workspace M W V)"
  obtain rest where rest: "apply_texts M n w us ?V = (rest, V')" "answers = Inr v # rest"
    using Cons.prems(4) by (auto simp: p W Let_def split: prod.splits)
  have fresh: "u \<notin> fst ` set us" and others: "\<And>x tx. (x, tx) \<in> set us \<Longrightarrow> x \<noteq> u" using Cons.prems(2) p by force+
  have ok: "workspace_ok M (workspace ?V)" using follows_ok [OF Cons.prems(1) follows_calls(1) [OF W]] by simp
  have "canonicalKey M x = x \<and> js_get (synced (sv_store ?V)) x \<noteq> None" if "(x, y) \<in> set us" for x y
    using Cons.prems(3) [of x y] d(2) [of x] others [OF that] that by simp
  from Cons.IH [OF ok _ this rest(1)] Cons.prems(2)
  have IH: "length rest = length us" "\<And>k. k \<notin> fst ` set us \<Longrightarrow> js_get (synced (sv_store V')) k = js_get (synced (ws_store W)) k"
    "\<And>i. i < length us \<Longrightarrow> \<exists>v. rest ! i = Inr v \<and> lands (ws_store W) (sv_store V') (fst (us ! i)) (snd (us ! i)) v"
    by (simp_all add: p)
  show ?case
  proof (intro conjI allI impI)
    show "length answers = length (p # us)" using IH(1) rest(2) by simp
    show "js_get (synced (sv_store V')) k = js_get (synced (sv_store V)) k" if "k \<notin> fst ` set (p # us)" for k
      using that IH(2) d(2) p by auto
    show "\<exists>v. answers ! i = Inr v \<and> lands (sv_store V) (sv_store V') (fst ((p # us) ! i)) (snd ((p # us) ! i)) v"
      if i: "i < length (p # us)" for i
    proof (cases i)
      case 0
      have "lands (sv_store V) (sv_store V') u tx v"
        using d(1) lands_cong [OF refl IH(2) [OF fresh], of "sv_store V" tx v] by simp
      then show ?thesis using 0 p rest(2) by simp
    next
      case (Suc j)
      then have j: "j < length us" using i by simp
      then have "fst (us ! j) \<noteq> u" using others [of "fst (us ! j)" "snd (us ! j)"] by simp
      from lands_cong [OF d(2) [OF this] refl] IH(3) [OF j] show ?thesis using rest(2) Suc by simp
    qed
  qed
qed simp

subsection \<open>What sessions remember of their writes\<close>

text \<open>A session that at most forgets.\<close>

definition quieter :: "'o session \<Rightarrow> 'o session \<Rightarrow> bool" where
  "quieter s s' \<longleftrightarrow> sessionId s' = sessionId s \<and> appliedWrites s' = appliedWrites s \<and> (sessionDisposed s \<longrightarrow> sessionDisposed s') \<and>
     (\<forall>u rs. js_get (writeNumbers s') u = Some rs \<longrightarrow> js_get (writeNumbers s) u = Some rs)"

abbreviation all_quieter :: "('e, 'o) service \<Rightarrow> ('e, 'o) service \<Rightarrow> bool" where
  "all_quieter V V' \<equiv> list_all2 quieter (sessionObjects V) (sessionObjects V')"

lemma quieter_refl [simp]: "quieter s s"
  by (simp add: quieter_def)

lemma quieter_trans: "quieter s t \<Longrightarrow> quieter t r \<Longrightarrow> quieter s r"
  by (auto simp: quieter_def)

lemma all_quieter_refl [simp]: "all_quieter V V"
  by (simp add: list_all2_refl)

lemma all_quieter_trans: "all_quieter V X \<Longrightarrow> all_quieter X Y \<Longrightarrow> all_quieter V Y"
  by (rule list_all2_trans [OF quieter_trans])

lemma all_quieter_same: "sessionObjects V' = sessionObjects X \<Longrightarrow> all_quieter V X \<Longrightarrow> all_quieter V V'"
  by simp

lemma all_quieter_here: "(\<And>s. quieter s (f s)) \<Longrightarrow> all_quieter X (set_session n f X)"
  by (cases "n < length (sessionObjects X)") (auto simp: list_all2_conv_all_nth nth_list_update list_update_beyond)

lemma all_quieter_set: "(\<And>s. quieter s (f s)) \<Longrightarrow> all_quieter V X \<Longrightarrow> all_quieter V (set_session n f X)"
  by (rule all_quieter_trans [OF _ all_quieter_here])

lemma all_quieter_fold:
  assumes "\<And>x X. all_quieter X (f x X)"
  shows "all_quieter V X \<Longrightarrow> all_quieter V (fold f xs X)"
proof (induction xs arbitrary: X)
  case (Cons x xs)
  from Cons.IH [OF all_quieter_trans [OF Cons.prems assms]] show ?case by simp
qed simp

lemma quieter_close: "quieter s (heard_close ev s)"
  by (cases "(ev, s)" rule: heard_close.cases) (auto simp: quieter_def js_get_delete split: if_splits)

lemma quieter_dispose: "quieter s (dispose_handle s)"
  by (simp add: quieter_def dispose_handle_def)

lemma quieter_holds:
  "all_quieter V (fold (\<lambda>run. set_session (runSession run) (\<lambda>s. s\<lparr>heldByOpen := set_add u (heldByOpen s)\<rparr>)) rs (V\<lparr>openRuns := xs\<rparr>))"
  by (rule all_quieter_fold, rule all_quieter_here) (simp_all add: quieter_def)

lemma quieter_heard: "all_quieter V (heard M ev V)"
  by (cases ev) (simp_all add: quieter_holds list.rel_map list_all2_refl quieter_close del: heard_close.simps)

lemma quieter_end: "all_quieter V (heard_end e V)"
  using all_quieter_set [OF quieter_dispose, of V] by (auto simp: heard_end_def Let_def split: option.split)

lemma quieter_workspace: "all_quieter V X \<Longrightarrow> all_quieter V (in_workspace M W X)"
  unfolding in_workspace_def Let_def
  by (intro all_quieter_fold quieter_heard quieter_end) simp

lemma quieter_frame [simp]:
  "quieter s (s\<lparr>heldByOpen := h\<rparr>)" "quieter s (s\<lparr>openOptionsByUri := opts\<rparr>)" "quieter s (s\<lparr>pendingOpens := p\<rparr>)"
  "quieter s (s\<lparr>withOpenHolds := w\<rparr>)" "quieter s (s\<lparr>listening := l\<rparr>)" "quieter s (s\<lparr>heldByOpen := h, withOpenHolds := w\<rparr>)"
  "quieter s (s\<lparr>sessionDisposed := True, writeNumbers := []\<rparr>)"
  by (simp_all add: quieter_def)

lemma quieter_settle: "all_quieter V X \<Longrightarrow> all_quieter V (settleOpen M r good X)"
  unfolding settleOpen_def Let_def by (auto intro!: all_quieter_set simp del: set_session_frame(7) set_run_frame(5))

lemma quieter_openDocument: "openDocument M n u options b X = (r, V') \<Longrightarrow> all_quieter V X \<Longrightarrow> all_quieter V V'"
  by (auto simp: openDocument_def Let_def simp del: set_session_frame(7) set_run_frame(5) intro!: all_quieter_set split: option.splits)

lemma quieter_closeDocument: "all_quieter V X \<Longrightarrow> all_quieter V (closeDocument M now n u X)"
  by (simp add: closeDocument_def quieter_workspace)

lemma quieter_disposeSession: "all_quieter V X \<Longrightarrow> all_quieter V (disposeSession M now n cause X)"
  unfolding disposeSession_def Let_def
  by (auto intro!: all_quieter_set quieter_workspace simp del: set_session_frame(7))

lemma quieter_takeOver: "all_quieter V X \<Longrightarrow> all_quieter V (takeOver M now c token X)"
  by (simp add: takeOver_def quieter_disposeSession split: option.split)

lemma quieter_managerOpens: "all_quieter V X \<Longrightarrow> all_quieter V (managerOpens M now r b X)"
  by (auto simp: managerOpens_def Let_def quieter_settle quieter_workspace split: sum.split)

lemmas quieter_intros = quieter_settle quieter_closeDocument quieter_disposeSession quieter_managerOpens quieter_workspace all_quieter_set

text \<open>What neither starts a session nor writes leaves all sessions quieter.\<close>

fun adds_to_sessions :: "'o service_op \<Rightarrow> bool" where
  "adds_to_sessions (SvCreateSession now c token) = True"
| "adds_to_sessions (SvUpdate skips n a txt) = True"
| "adds_to_sessions (SvUpdateAll skips unbuilt n as txts w) = True"
| "adds_to_sessions op = False"

lemma session_step_quieter:
  fixes V :: "('e, 'o) service"
  assumes step: "session_step M op V = Some V'" and op: "\<not> adds_to_sessions op"
  shows "all_quieter V V'"
proof -
  have persists: "persistDocument M n u base V = Inr (task, V') \<Longrightarrow> all_quieter V V'" for n u base task V'
    by (auto simp: persistDocument_def Let_def quieter_workspace split: option.splits sum.splits)
  show ?thesis
  proof (cases op)
    case (SvOpen n u options)
    then show ?thesis using step
      by (auto simp: openCalled_def simp del: set_session_frame(7) split: option.splits prod.splits intro!: all_quieter_set elim!: quieter_openDocument)
  next
    case (SvOpenReady now r)
    then show ?thesis using step
      by (auto simp: openReady_def Let_def simp del: set_session_frame(7) split: if_splits option.splits intro!: quieter_intros)
  next
    case (SvOpenRead now r lang v tx)
    then show ?thesis using step
      by (auto simp: openRead_def Let_def split: if_splits option.splits open_stage.splits sum.splits intro!: quieter_intros)
  next
    case (SvOpenEnds now r)
    then show ?thesis using step
      by (auto simp: openEnds_def Let_def split: if_splits open_stage.splits intro!: quieter_intros)
  next
    case (SvCreateReady now r good)
    then show ?thesis using step
      by (auto simp: createReady_def Let_def split: if_splits option.splits intro!: quieter_intros)
  next
    case (SvWithOpen n u)
    then show ?thesis using step
      by (auto simp: withOpenCalled_def Let_def simp del: set_session_frame(7) split: option.splits prod.splits
          intro!: all_quieter_set elim!: quieter_openDocument)
  next
    case (SvWithOpenOpened h)
    then show ?thesis using step
      by (auto simp: withOpenOpened_def Let_def simp del: set_session_frame(7) split: option.splits if_splits intro!: all_quieter_set)
  next
    case (SvWithOpenEnds now h)
    then show ?thesis using step
      by (auto simp: withOpenEnds_def Let_def simp del: set_session_frame(7) split: option.splits if_splits intro!: quieter_intros)
  next
    case (SvDelete inside n u base)
    then show ?thesis using step
      by (auto simp: deleteDocument_def if_live_def Let_def quieter_workspace split: option.splits sum.splits if_splits)
  qed (use step op persists in \<open>auto simp: createCalled_def if_live_def quieter_disposeSession quieter_closeDocument quieter_workspace
      split: option.splits sum.splits if_splits\<close>)
qed

text \<open>
  Every number kept for a document is that of a write which answered the version kept with it, and no write answered a
  version beyond where its document stands.
\<close>

definition numbers_ok :: "store \<Rightarrow> 'o session \<Rightarrow> bool" where
  "numbers_ok S s \<longleftrightarrow>
     (\<forall>u rs. js_get (writeNumbers s) u = Some rs \<longrightarrow>
        length rs \<le> WRITE_RECORDS_KEPT \<and> (\<forall>(w, v) \<in> set rs. (u, w, v) \<in> set (appliedWrites s))) \<and>
     (\<forall>(u, w, v) \<in> set (appliedWrites s). \<exists>v' h. standing S u = Some (v', h) \<and> v \<le> v')"

definition all_numbers_ok :: "('e, 'o) service \<Rightarrow> bool" where
  "all_numbers_ok V \<longleftrightarrow> (\<forall>s \<in> set (sessionObjects V). numbers_ok (sv_store V) s)"

definition service_ok :: "manager_env \<Rightarrow> ('e, 'o) service \<Rightarrow> bool" where
  "service_ok M V \<longleftrightarrow> workspace_ok M (workspace V) \<and> all_numbers_ok V"

lemma numbers_ok_moved: "numbers_ok S s \<Longrightarrow> sequences_progress S S' \<Longrightarrow> numbers_ok S' s"
  unfolding numbers_ok_def using moved_past [of S S'] by (fastforce intro: order_trans)

lemma numbers_okI:
  assumes "\<And>u rs. js_get (writeNumbers s) u = Some rs \<Longrightarrow> length rs \<le> WRITE_RECORDS_KEPT"
    and "\<And>u rs w v. js_get (writeNumbers s) u = Some rs \<Longrightarrow> (w, v) \<in> set rs \<Longrightarrow> (u, w, v) \<in> set (appliedWrites s)"
    and "\<And>u w v. (u, w, v) \<in> set (appliedWrites s) \<Longrightarrow> \<exists>v' h. standing S u = Some (v', h) \<and> v \<le> v'"
  shows "numbers_ok S s"
  using assms by (fastforce simp: numbers_ok_def)

lemma numbers_okD:
  assumes "numbers_ok S s"
  shows "js_get (writeNumbers s) u = Some rs \<Longrightarrow> length rs \<le> WRITE_RECORDS_KEPT"
    and "js_get (writeNumbers s) u = Some rs \<Longrightarrow> (w, v) \<in> set rs \<Longrightarrow> (u, w, v) \<in> set (appliedWrites s)"
    and "(u, w, v) \<in> set (appliedWrites s) \<Longrightarrow> \<exists>v' h. standing S u = Some (v', h) \<and> v \<le> v'"
  using assms by (fastforce simp: numbers_ok_def)+

lemma numbers_of_ok: "numbers_ok S s \<Longrightarrow> r \<in> set (numbers_of s u) \<Longrightarrow> (u, r) \<in> set (appliedWrites s)"
  using numbers_okD(2) [of S s u _ "fst r" "snd r"] by (cases "js_get (writeNumbers s) u") (auto simp: numbers_of_def)

lemma numbers_ok_quieter:
  assumes "numbers_ok S s" and "quieter s s'"
  shows "numbers_ok S s'"
  using assms(2) unfolding quieter_def by (intro numbers_okI) (metis numbers_okD [OF assms(1)])+

lemma numbers_ok_log:
  assumes "numbers_ok S s" and "standing S u = Some (v, h)"
  shows "numbers_ok S (s\<lparr>appliedWrites := appliedWrites s @ [(u, w, v)]\<rparr>)"
  using assms(2) numbers_okD [OF assms(1)] by (intro numbers_okI) (auto simp: assms(2))

lemma numbers_ok_record:
  assumes "numbers_ok S s" and "\<And>r. r \<in> set rs \<Longrightarrow> (u, r) \<in> set (appliedWrites s)" and "length rs \<le> WRITE_RECORDS_KEPT"
  shows "numbers_ok S (s\<lparr>writeNumbers := js_set u rs (writeNumbers s)\<rparr>)"
  using assms(2,3) numbers_okD [OF assms(1)] by (intro numbers_okI) (auto simp: js_get_set split: if_splits)

lemma all_numbers_ok_quieter:
  assumes "all_numbers_ok V" and "all_quieter V V'" and "sequences_progress (sv_store V) (sv_store V')"
  shows "all_numbers_ok V'"
  unfolding all_numbers_ok_def
proof
  fix s' assume "s' \<in> set (sessionObjects V')"
  then obtain n where n: "n < length (sessionObjects V')" "s' = session_at V' n" by (auto simp: in_set_conv_nth)
  then have "quieter (session_at V n) s'" and "session_at V n \<in> set (sessionObjects V)"
    using assms(2) by (auto simp: list_all2_conv_all_nth)
  then show "numbers_ok (sv_store V') s'"
    using assms(1,3) numbers_ok_quieter numbers_ok_moved unfolding all_numbers_ok_def by blast
qed

lemma all_numbers_ok_set:
  assumes "all_numbers_ok V" and "n < length (sessionObjects V) \<Longrightarrow> numbers_ok (sv_store V) (f (session_at V n))"
  shows "all_numbers_ok (set_session n f V)"
  using assms by (cases "n < length (sessionObjects V)") (auto simp: all_numbers_ok_def list_update_beyond dest!: set_update_subset_insert [THEN subsetD])

lemma log_write_ok:
  assumes "all_numbers_ok V" and "standing (sv_store V) u = Some (v, h)"
  shows "all_numbers_ok (log_write n u w v V)"
proof -
  have "numbers_ok (sv_store V) (session_at V n)" if "n < length (sessionObjects V)" using assms(1) that by (simp add: all_numbers_ok_def)
  then show ?thesis using assms by (auto simp: log_write_def split: option.split intro!: all_numbers_ok_set numbers_ok_log)
qed

lemma record_ok:
  assumes "all_numbers_ok V" and "\<And>x. w = Some x \<Longrightarrow> n < length (sessionObjects V) \<Longrightarrow>
    (u, x, store_version (storeEnv M) u (sv_store V)) \<in> set (appliedWrites (session_at V n))"
  shows "all_numbers_ok (recordWriteNumber M n u w V)"
proof (cases w)
  case (Some x)
  let ?rs = "numbers_of (session_at V n) u @ [(x, store_version (storeEnv M) u (sv_store V))]"
  have "numbers_ok (sv_store V) ((session_at V n)\<lparr>writeNumbers := js_set u (drop (length ?rs - WRITE_RECORDS_KEPT) ?rs) (writeNumbers (session_at V n))\<rparr>)"
    if n: "n < length (sessionObjects V)"
  proof (rule numbers_ok_record)
    show ok: "numbers_ok (sv_store V) (session_at V n)" using assms(1) n by (simp add: all_numbers_ok_def)
    have "(u, r) \<in> set (appliedWrites (session_at V n))" if "r \<in> set ?rs" for r
      using that assms(2) [OF Some n] numbers_of_ok [OF ok, of r] by auto
    then show "(u, r) \<in> set (appliedWrites (session_at V n))" if "r \<in> set (drop (length ?rs - WRITE_RECORDS_KEPT) ?rs)" for r
      using that by (blast dest: in_set_dropD)
    show "length (drop (length ?rs - WRITE_RECORDS_KEPT) ?rs) \<le> WRITE_RECORDS_KEPT" by simp
  qed
  then show ?thesis unfolding recordWriteNumber_def Some Let_def option.case by (rule all_numbers_ok_set [OF assms(1)])
qed (simp add: recordWriteNumber_def assms(1))

lemma sessions_frame_log:
  "length (sessionObjects (log_write n u w v V)) = length (sessionObjects V)"
  "set (appliedWrites (session_at V m)) \<subseteq> set (appliedWrites (session_at (log_write n u w v V) m))"
  "w = Some x \<Longrightarrow> n < length (sessionObjects V) \<Longrightarrow> (u, x, v) \<in> set (appliedWrites (session_at (log_write n u w v V) n))"
  by (simp_all add: log_write_def split: option.split)
    (cases "m < length (sessionObjects V)"; cases "n = m"; auto simp: list_update_beyond)

lemma appliedWrites_record:
  "length (sessionObjects (recordWriteNumber M n u w V)) = length (sessionObjects V)"
  "appliedWrites (session_at (recordWriteNumber M n u w V) m) = appliedWrites (session_at V m)"
  by (cases "n < length (sessionObjects V)"; auto simp: recordWriteNumber_def Let_def nth_list_update list_update_beyond split: option.split)+

lemma appliedWrites_workspace:
  "length (sessionObjects (in_workspace M W V)) = length (sessionObjects V)"
  "n < length (sessionObjects V) \<Longrightarrow> appliedWrites (session_at (in_workspace M W V) n) = appliedWrites (session_at V n)"
  using quieter_workspace [OF all_quieter_refl, of V M W] by (auto simp: list_all2_conv_all_nth quieter_def)

lemma lands_standing: "lands S S' k tx v \<Longrightarrow> \<exists>h. standing S' k = Some (v, h)"
  by (auto simp: lands_def standing_def)

lemma updates_progress:
  assumes "workspace_ok M (workspace V)" and "follows M (workspace V) (workspace V')"
  shows "sequences_progress (sv_store V) (sv_store V')"
  using reaches_ok [OF workspace_okD(1,2) [OF assms(1)] follows_reaches [OF assms(2)]] by blast

text \<open>What holds after one text of a set, before its number is recorded.\<close>

lemma log_in_workspace:
  assumes W: "workspace_ok M (workspace V)" and nums: "all_numbers_ok V"
    and W': "manager_update M (canonicalKey M u) tx c (workspace V) = Inr (v, W')"
  shows "workspace_ok M W'" "store_version (storeEnv M) (canonicalKey M u) (ws_store W') = v" "all_numbers_ok (log_write n (canonicalKey M u) w v (in_workspace M W' V))"
proof -
  show ok: "workspace_ok M W'" by (rule follows_ok [OF W follows_calls(1) [OF W']])
  have land: "lands (sv_store V) (ws_store W') (canonicalKey M u) tx v" using manager_update_lands [OF W W'] by (simp add: lands_only_def)
  then show "store_version (storeEnv M) (canonicalKey M u) (ws_store W') = v"
    using store_version_get [OF workspace_okD(1,2) [OF ok], of "canonicalKey M u"] workspace_okD(1) [OF ok] by (auto simp: lands_def)
  then obtain h where st: "standing (sv_store (in_workspace M W' V)) (canonicalKey M u) = Some (v, h)" using lands_standing [OF land] by auto
  have "sequences_progress (sv_store V) (sv_store (in_workspace M W' V))"
    by (rule updates_progress [OF W]) (use follows_calls(1) [OF W'] in simp)
  from log_write_ok [OF all_numbers_ok_quieter [OF nums quieter_workspace [OF all_quieter_refl] this] st]
  show "all_numbers_ok (log_write n (canonicalKey M u) w v (in_workspace M W' V))" .
qed

lemma updateApply_numbers:
  assumes ok: "service_ok M V" and "updateApply M skips n a tx V = Inr (v, V')"
  shows "all_numbers_ok V'"
proof -
  let ?key = "canonicalKey M (writeUri a)"
  obtain W' where W': "manager_update M ?key tx (sessionId (session_at V n)) (workspace V) = Inr (v, W')"
    and V': "V' = recordWriteNumber M n ?key (writeNumber a) (log_write n ?key (writeNumber a) v (in_workspace M W' V))"
    using assms(2) by (auto simp: updateApply_def Let_def split: option.splits sum.splits)
  have "workspace_ok M (workspace V)" "all_numbers_ok V" using ok by (simp_all add: service_ok_def)
  note after = log_in_workspace [OF this W']
  show ?thesis unfolding V'
    by (intro record_ok after(3))
      (use after(2) sessions_frame_log(1,3) [where V = "in_workspace M W' V"] in \<open>auto simp del: set_session_frame(7)\<close>)
qed

lemma apply_texts_numbers:
  assumes "workspace_ok M (workspace V)" and "all_numbers_ok V" and "\<And>u tx. (u, tx) \<in> set us \<Longrightarrow> canonicalKey M u = u"
    and "apply_texts M n w us V = (answers, V')" and "n < length (sessionObjects V)"
  shows "all_numbers_ok V' \<and> length (sessionObjects V') = length (sessionObjects V) \<and>
    set (appliedWrites (session_at V n)) \<subseteq> set (appliedWrites (session_at V' n)) \<and>
    (\<forall>i < length us. \<forall>v x. answers ! i = Inr v \<longrightarrow> w = Some x \<longrightarrow> (fst (us ! i), x, v) \<in> set (appliedWrites (session_at V' n)))"
  using assms
proof (induction us arbitrary: V answers)
  case (Cons p us)
  obtain u tx where p: "p = (u, tx)" by (cases p)
  have u: "canonicalKey M u = u" using Cons.prems(3) p by auto
  show ?case
  proof (cases "manager_update M u tx (sessionId (session_at V n)) (workspace V)")
    case (Inl e)
    obtain rest where rest: "apply_texts M n w us V = (rest, V')" "answers = Inl e # rest"
      using Cons.prems(4) by (auto simp: p Inl Let_def split: prod.splits)
    have IH: "all_numbers_ok V' \<and> length (sessionObjects V') = length (sessionObjects V) \<and>
      set (appliedWrites (session_at V n)) \<subseteq> set (appliedWrites (session_at V' n)) \<and>
      (\<forall>i < length us. \<forall>v x. rest ! i = Inr v \<longrightarrow> w = Some x \<longrightarrow> (fst (us ! i), x, v) \<in> set (appliedWrites (session_at V' n)))"
      by (rule Cons.IH [OF Cons.prems(1,2) _ rest(1) Cons.prems(5)]) (use Cons.prems(3) in auto)
    have "(fst ((p # us) ! i), x, v) \<in> set (appliedWrites (session_at V' n))"
      if "i < length (p # us)" "answers ! i = Inr v" "w = Some x" for i v x
      using that IH rest(2) by (cases i) auto
    then show ?thesis using IH by blast
  next
    case (Inr r)
    obtain v W where r: "r = (v, W)" by (cases r)
    have W: "manager_update M (canonicalKey M u) tx (sessionId (session_at V n)) (workspace V) = Inr (v, W)" using Inr r u by simp
    let ?V = "log_write n u w v (in_workspace M W V)"
    obtain rest where rest: "apply_texts M n w us ?V = (rest, V')" "answers = Inr v # rest"
      using Cons.prems(4) by (auto simp: p Inr r Let_def split: prod.splits)
    have ok: "workspace_ok M W" "all_numbers_ok ?V" using log_in_workspace [OF Cons.prems(1,2) W] u by simp_all
    have same: "length (sessionObjects ?V) = length (sessionObjects V)" by (simp add: sessions_frame_log(1) appliedWrites_workspace(1))
    have IH: "all_numbers_ok V' \<and> length (sessionObjects V') = length (sessionObjects ?V) \<and>
      set (appliedWrites (session_at ?V n)) \<subseteq> set (appliedWrites (session_at V' n)) \<and>
      (\<forall>i < length us. \<forall>v x. rest ! i = Inr v \<longrightarrow> w = Some x \<longrightarrow> (fst (us ! i), x, v) \<in> set (appliedWrites (session_at V' n)))"
      by (rule Cons.IH [OF _ ok(2) _ rest(1)]) (use ok(1) Cons.prems(3,5) same in auto)
    have grown: "set (appliedWrites (session_at V n)) \<subseteq> set (appliedWrites (session_at ?V n))"
      using sessions_frame_log(2) [of "in_workspace M W V" n n u w v] appliedWrites_workspace(2) [OF Cons.prems(5), of M W] by simp
    have first: "(u, x, v) \<in> set (appliedWrites (session_at ?V n))" if "w = Some x" for x
      using sessions_frame_log(3) [OF that, of n "in_workspace M W V" u v] Cons.prems(5) appliedWrites_workspace(1) [of M W V] by simp
    have "(fst ((p # us) ! i), x, v') \<in> set (appliedWrites (session_at V' n))"
      if "i < length (p # us)" "answers ! i = Inr v'" "w = Some x" for i v' x
      using that IH rest(2) first p by (cases i) auto
    then show ?thesis using IH same grown by auto
  qed
qed simp

lemma records_ok:
  assumes "all_numbers_ok V" and "n < length (sessionObjects V)"
    and "\<And>u x. u \<in> set us \<Longrightarrow> w = Some x \<Longrightarrow> (u, x, store_version (storeEnv M) u (sv_store V)) \<in> set (appliedWrites (session_at V n))"
  shows "all_numbers_ok (fold (\<lambda>u. recordWriteNumber M n u w) us V)"
  using assms
proof (induction us arbitrary: V)
  case (Cons u us)
  have "all_numbers_ok (recordWriteNumber M n u w V)" by (rule record_ok [OF Cons.prems(1)]) (simp add: Cons.prems(3))
  from Cons.IH [OF this] Cons.prems(2,3) show ?case by (simp add: appliedWrites_record)
qed simp

lemma check_opens:
  assumes "workspace_ok M (workspace V)" and "updates_check M skips unbuilt n ws V = None" and "a \<in> set ws"
  shows "write_check M skips n a V = None" "js_get (synced (sv_store V)) (canonicalKey M (writeUri a)) \<noteq> None"
proof -
  have "orElse (write_check M skips n x V) (assertCanBuild unbuilt (canonicalKey M (writeUri x))) = None" if "x \<in> set ws" for x
    using assms(2) that unfolding updates_check_def by (induction ws) auto
  then show "write_check M skips n a V = None" using assms(3) by simp
  from write_check_None(1) [OF this] opened_document [OF assms(1)]
  show "js_get (synced (sv_store V)) (canonicalKey M (writeUri a)) \<noteq> None" by fastforce
qed

abbreviation keys_of :: "manager_env \<Rightarrow> write_args list \<Rightarrow> uri list" where
  "keys_of M ws \<equiv> map (\<lambda>a. canonicalKey M (writeUri a)) ws"

lemma updateAll_parts:
  assumes W: "workspace_ok M (workspace V)" and "updateAllApply M skips unbuilt n ws txs w V = Inr (answers, V')"
    and len: "length txs = length ws"
  obtains V1 where "apply_texts M n w (zip (keys_of M ws) txs) V = (answers, V1)" "V' = fold (\<lambda>u. recordWriteNumber M n u w) (keys_of M ws) V1"
    and "\<And>a. a \<in> set ws \<Longrightarrow> write_check M skips n a V = None"
    and "\<And>u tx. (u, tx) \<in> set (zip (keys_of M ws) txs) \<Longrightarrow> canonicalKey M u = u \<and> js_get (synced (sv_store V)) u \<noteq> None"
proof -
  have checked: "updates_check M skips unbuilt n ws V = None" using assms(2) by (auto simp: updateAllApply_def Let_def split: option.splits)
  obtain V1 where V1: "apply_texts M n w (zip (keys_of M ws) txs) V = (answers, V1)" "V' = fold (\<lambda>u. recordWriteNumber M n u w) (keys_of M ws) V1"
    using assms(2) checked by (auto simp: updateAllApply_def Let_def split: prod.splits)
  have "canonicalKey M u = u \<and> js_get (synced (sv_store V)) u \<noteq> None" if "(u, tx) \<in> set (zip (keys_of M ws) txs)" for u tx
  proof -
    from that have "u \<in> set (keys_of M ws)" by (rule set_zip_leftD)
    then obtain a where a: "a \<in> set ws" "u = canonicalKey M (writeUri a)" by auto
    then show ?thesis using check_opens(2) [OF W checked a(1)] workspace_okD(1) [OF W] by (simp add: env_ok_def canonicalKey_def)
  qed
  with V1 check_opens(1) [OF W checked] show ?thesis by (intro that [of V1]) auto
qed

lemma updateAll_lands:
  assumes W: "workspace_ok M (workspace V)" and upd: "updateAllApply M skips unbuilt n ws txs w V = Inr (answers, V')"
    and "distinct (keys_of M ws)" and len: "length txs = length ws"
  shows "length answers = length ws" "\<And>a. a \<in> set ws \<Longrightarrow> write_check M skips n a V = None"
    "\<And>i. i < length ws \<Longrightarrow> \<exists>v. answers ! i = Inr v \<and> lands (sv_store V) (sv_store V') (canonicalKey M (writeUri (ws ! i))) (txs ! i) v"
    "\<And>k. k \<notin> set (keys_of M ws) \<Longrightarrow> js_get (synced (sv_store V')) k = js_get (synced (sv_store V)) k"
proof -
  obtain V1 where V1: "apply_texts M n w (zip (keys_of M ws) txs) V = (answers, V1)" "V' = fold (\<lambda>u. recordWriteNumber M n u w) (keys_of M ws) V1"
    and checks: "\<And>a. a \<in> set ws \<Longrightarrow> write_check M skips n a V = None"
    and keys: "\<And>u tx. (u, tx) \<in> set (zip (keys_of M ws) txs) \<Longrightarrow> canonicalKey M u = u \<and> js_get (synced (sv_store V)) u \<noteq> None"
    using updateAll_parts [OF W upd len] by metis
  show "write_check M skips n a V = None" if "a \<in> set ws" for a using checks [OF that] .
  have same: "workspace V' = workspace V1" using V1(2) by simp
  have "distinct (map fst (zip (keys_of M ws) txs))" using assms(3) len by simp
  from apply_texts_lands [OF W this _ V1(1)] keys
  have lands: "length answers = length (zip (keys_of M ws) txs) \<and>
    (\<forall>i < length (zip (keys_of M ws) txs). \<exists>v. answers ! i = Inr v \<and>
       lands (sv_store V) (sv_store V1) (fst (zip (keys_of M ws) txs ! i)) (snd (zip (keys_of M ws) txs ! i)) v) \<and>
    (\<forall>k. k \<notin> fst ` set (zip (keys_of M ws) txs) \<longrightarrow> js_get (synced (sv_store V1)) k = js_get (synced (sv_store V)) k)"
    by blast
  show "length answers = length ws" using lands len by simp
  show "\<exists>v. answers ! i = Inr v \<and> lands (sv_store V) (sv_store V') (canonicalKey M (writeUri (ws ! i))) (txs ! i) v" if i: "i < length ws" for i
    using lands len i unfolding same by simp
  show "js_get (synced (sv_store V')) k = js_get (synced (sv_store V)) k" if "k \<notin> set (keys_of M ws)" for k
  proof -
    have "k \<notin> fst ` set (zip (keys_of M ws) txs)" using that set_zip_leftD [of k _ "keys_of M ws" txs] by auto
    with lands show ?thesis unfolding same by blast
  qed
qed

lemma updateAll_numbers:
  assumes ok: "service_ok M V" and upd: "updateAllApply M skips unbuilt n ws txs w V = Inr (answers, V')"
    and dist: "distinct (keys_of M ws)" and len: "length txs = length ws" and n: "n < length (sessionObjects V)"
  shows "all_numbers_ok V'"
proof -
  have W: "workspace_ok M (workspace V)" and nums: "all_numbers_ok V" using ok by (simp_all add: service_ok_def)
  obtain V1 where V1: "apply_texts M n w (zip (keys_of M ws) txs) V = (answers, V1)" "V' = fold (\<lambda>u. recordWriteNumber M n u w) (keys_of M ws) V1"
    and keys: "\<And>u tx. (u, tx) \<in> set (zip (keys_of M ws) txs) \<Longrightarrow> canonicalKey M u = u \<and> js_get (synced (sv_store V)) u \<noteq> None"
    using updateAll_parts [OF W upd len] by metis
  have "canonicalKey M u = u" if "(u, tx) \<in> set (zip (keys_of M ws) txs)" for u tx using keys [OF that] by simp
  from apply_texts_numbers [OF W nums this V1(1) n]
  have V1ok: "all_numbers_ok V1" "length (sessionObjects V1) = length (sessionObjects V)"
    and noted: "\<And>i v x. i < length ws \<Longrightarrow> answers ! i = Inr v \<Longrightarrow> w = Some x \<Longrightarrow>
      (canonicalKey M (writeUri (ws ! i)), x, v) \<in> set (appliedWrites (session_at V1 n))"
    using len by simp_all
  have V1W: "workspace_ok M (workspace V1)" using follows_ok [OF W] apply_texts_follows [of M V n w "zip (keys_of M ws) txs"] V1(1) by simp
  have "(u, x, store_version (storeEnv M) u (sv_store V1)) \<in> set (appliedWrites (session_at V1 n))"
    if u: "u \<in> set (keys_of M ws)" and x: "w = Some x" for u x
  proof -
    obtain i where i: "i < length ws" "u = canonicalKey M (writeUri (ws ! i))" using u by (auto simp: in_set_conv_nth)
    obtain v where v: "answers ! i = Inr v" "lands (sv_store V) (sv_store V1) u (txs ! i) v"
      using updateAll_lands(3) [OF W upd dist len i(1)] V1(2) i(2) by auto
    have "store_version (storeEnv M) u (sv_store V1) = v"
      using v(2) store_version_get [OF workspace_okD(1,2) [OF V1W], of u] i(2) workspace_okD(1) [OF W] by (auto simp: lands_def)
    then show ?thesis using noted [OF i(1) v(1) x] i(2) by simp
  qed
  then show ?thesis unfolding V1(2) by (intro records_ok [OF V1ok(1)]) (use V1ok(2) n in simp_all)
qed

lemma new_session_numbers [simp]: "numbers_ok S (new_session c)"
  by (simp add: numbers_ok_def new_session_def)

lemma createSession_numbers:
  assumes ok: "service_ok M V"
  shows "all_numbers_ok (case createSession M now c token V of Inl (e, V') \<Rightarrow> V' | Inr (n, V') \<Rightarrow> V')"
proof -
  let ?V1 = "takeOver M now c token V"
  have W: "workspace_ok M (workspace V)" and nums: "all_numbers_ok V" using ok by (simp_all add: service_ok_def)
  have V1: "all_numbers_ok ?V1"
    by (rule all_numbers_ok_quieter [OF nums quieter_takeOver [OF all_quieter_refl] updates_progress [OF W takeOver_follows]])
  show ?thesis
  proof (cases "registerSession c (sv_store ?V1)")
    case (Inr S)
    let ?V2 = "in_workspace M (with_store M (\<lambda>_. S) (workspace ?V1)) ?V1"
    have "follows M (workspace ?V1) (workspace ?V2)"
      using Inr follows_with_store [where op = "StRegister c" and f = "\<lambda>_. S" and W = "workspace ?V1"] by simp
    from updates_progress [OF follows_ok [OF W takeOver_follows] this]
    have "all_numbers_ok ?V2" by (rule all_numbers_ok_quieter [OF V1 quieter_workspace [OF all_quieter_refl]])
    then show ?thesis using Inr by (auto simp: createSession_def Let_def all_numbers_ok_def split: option.split)
  qed (use V1 in \<open>simp add: createSession_def Let_def\<close>)
qed

lemma service_step_ok:
  assumes ok: "service_ok M V" and step: "service_step M op V = Some V'"
  shows "service_ok M V'"
proof -
  have W: "workspace_ok M (workspace V)" using ok by (simp add: service_ok_def)
  have "follows M (workspace V) (workspace V')" by (rule service_step_follows [OF step])
  note moved = follows_ok [OF W this] updates_progress [OF W this]
  have "all_numbers_ok V'"
  proof (cases "adds_to_sessions op")
    case True
    then show ?thesis
    proof (cases op rule: adds_to_sessions.cases)
      case (1 now c token)
      then show ?thesis using step createSession_numbers [OF ok, of now c token] by (auto simp: service_step_def split: sum.splits)
    next
      case (2 skips n a tx)
      then show ?thesis using step updateApply_numbers [OF ok, of skips n a tx] by (auto simp: service_step_def split: sum.splits if_splits)
    next
      case (3 skips unbuilt n ws txs w)
      then show ?thesis using step updateAll_numbers [OF ok, of skips unbuilt n ws txs w]
        by (auto simp: service_step_def split: sum.splits if_splits)
    qed (use True in simp_all)
  next
    case False
    then have "all_quieter V V'" using step session_step_quieter by (auto simp: service_step_def split: option.splits if_splits)
    from all_numbers_ok_quieter [OF _ this moved(2)] ok show ?thesis by (simp add: service_ok_def)
  qed
  with moved(1) show ?thesis by (simp add: service_ok_def)
qed

interpretation sv: progress_component "service_step M" "service_ok M" "\<lambda>V V'. sequences_progress (sv_store V) (sv_store V')"
  for M :: manager_env
proof unfold_locales
  fix V V' :: "('e, 'o) service" and op
  assume "service_ok M V" and "service_step M op V = Some V'"
  then show "sequences_progress (sv_store V) (sv_store V')"
    by (auto simp: service_ok_def intro: updates_progress service_step_follows)
qed (auto intro: service_step_ok progress_trans)

lemma new_service_ok:
  assumes "env_ok (storeEnv M)" and "store_ok (storeEnv M) (textStore Y)"
  shows "service_ok M (new_service (new_workspace Y fs))"
  using new_workspace_ok [OF assms] by (simp add: service_ok_def all_numbers_ok_def new_service_def)

lemma service_run_ok:
  assumes "env_ok (storeEnv M)" and "store_ok (storeEnv M) (textStore Y)"
  shows "service_ok M (sv.run M ops (new_service (new_workspace Y fs)))"
  by (rule sv.run_inv [OF new_service_ok [OF assms]])

lemma service_run_follows: "follows M (workspace V) (workspace (sv.run M ops V))"
proof (induction ops arbitrary: V)
  case (Cons op ops)
  then show ?case by (cases "service_step M op V") (auto intro: follows_trans service_step_follows)
qed simp

end
