(* ===== verification/SessionOpens.thy ===== *)
theory SessionOpens
  imports SessionRuns
begin

section \<open>Whose opens the store keeps\<close>

text \<open>
  Which opens the steps of the store, of the workspace and of the sessions add and end, and the invariant that every
  open under the id of a session is that of a session that lives, or of a call that is about to undo it.
\<close>

subsection \<open>What the operations of the store do to the opens\<close>

text \<open>Some opens may have ended, and \<open>x\<close> may be new; the sessions are those of before.\<close>

definition opens_at_most :: "(uri \<times> client_id) option \<Rightarrow> store \<Rightarrow> store \<Rightarrow> bool" where
  "opens_at_most x S S' \<longleftrightarrow>
     (\<forall>k c. isOpenIn k c (sessionReg S') \<longrightarrow> isOpenIn k c (sessionReg S) \<or> x = Some (k, c)) \<and>
     sessions (sessionReg S') = sessions (sessionReg S) \<and> closedEvents (sessionReg S') = closedEvents (sessionReg S)"

abbreviation no_more_opens :: "store \<Rightarrow> store \<Rightarrow> bool" where
  "no_more_opens \<equiv> opens_at_most None"

lemma opens_refl [simp]: "opens_at_most x S S"
  by (simp add: opens_at_most_def)

lemma opens_same: "sessionReg S' = sessionReg S \<Longrightarrow> opens_at_most x S S'"
  by (simp add: opens_at_most_def)

lemma opens_trans: "no_more_opens S T \<Longrightarrow> opens_at_most x T U \<Longrightarrow> opens_at_most x S U"
  unfolding opens_at_most_def by (auto split: option.splits)

lemma opens_then: "opens_at_most x S T \<Longrightarrow> sessionReg U = sessionReg T \<Longrightarrow> opens_at_most x S U"
  by (simp add: opens_at_most_def)

lemma opens_weaker: "no_more_opens S T \<Longrightarrow> opens_at_most x S T"
  by (simp add: opens_at_most_def)

lemma closed_frame [simp]:
  "closedEvents (forgetClientVersions u R) = closedEvents R" "closedEvents (setClientVersion u c v R) = closedEvents R"
  "closedEvents (snd (removeOpen u c R)) = closedEvents R" "closedEvents (snd (beginClose c R)) = closedEvents R"
  by (simp_all add: forgetClientVersions_def setClientVersion_def removeOpen_def beginClose_def Let_def)

lemma release_opens: "no_more_opens S (releaseDocument key S)"
  by (cases "js_get (synced S) key") (simp_all add: releaseDocument_None releaseDocument_def opens_at_most_def case_prod_beta Let_def)

lemma release_unless_opens: "no_more_opens S (release_unless_open key S)"
  by (simp add: release_unless_open_def release_opens)

lemma defer_opens: "no_more_opens S (deferRelease now key S)"
  using release_unless_opens [of "S\<lparr>releases := R\<rparr>" key for R]
  by (auto simp: deferRelease_def case_prod_beta Let_def opens_at_most_def)

lemma releaseIfDeferred_opens: "no_more_opens S (releaseIfDeferred key S)"
  using release_opens [of "S\<lparr>releases := R\<rparr>" key for R] by (auto simp: releaseIfDeferred_def opens_at_most_def)

lemma resolve_opens: "no_more_opens S (resolveDeferredRelease now key c S)"
  using release_opens [of "S\<lparr>releases := R\<rparr>" key for R]
  by (auto simp: resolveDeferredRelease_def case_prod_beta Let_def opens_at_most_def)

lemma removeOpen_opens: "registry_ok R \<Longrightarrow> isOpenIn k d (snd (removeOpen u c R)) \<Longrightarrow> isOpenIn k d R"
  by (simp add: isOpenIn_removeOpen)

lemma close_in_shadow_registry [simp]: "sessionReg (close_in_shadow E u S) = sessionReg S"
  by (simp add: close_in_shadow_def Let_def)

lemma close_opens:
  assumes "store_ok E S"
  shows "no_more_opens S (notifyDidCloseTextDocument E now u c cause S)"
proof -
  let ?S = "notifyDidCloseTextDocument E now u c cause S"
  have "sessions (sessionReg ?S) = sessions (sessionReg S) \<and> closedEvents (sessionReg ?S) = closedEvents (sessionReg S)"
    using release_opens defer_opens
    by (auto simp: notifyDidCloseTextDocument_def Let_def case_prod_beta opens_at_most_def split: option.splits)
  then show ?thesis using isOpenIn_notifyDidClose [OF assms] by (auto simp: opens_at_most_def)
qed

lemma fold_close_opens:
  assumes "store_ok E S" and "\<And>x S. store_ok E S \<Longrightarrow> store_ok E (f x S) \<and> no_more_opens S (f x S)"
  shows "store_ok E (fold f xs S) \<and> no_more_opens S (fold f xs S)"
  using assms(1)
proof (induction xs arbitrary: S)
  case (Cons x xs)
  note x = assms(2) [OF Cons.prems, of x]
  note xs = Cons.IH [OF conjunct1 [OF x]]
  from conjunct1 [OF xs] opens_trans [OF conjunct2 [OF x] conjunct2 [OF xs]] show ?case by (simp only: fold.simps o_apply simp_thms)
qed simp

lemma shadow_opens [simp]: "opens_at_most x S (with_shadow f S)"
  by (simp add: opens_same)

lemma tracker_registry [simp]: "sessionReg (with_tracker f S) = sessionReg S"
  by (simp add: with_tracker_def case_prod_beta)

lemma closes_opens:
  assumes ok: "store_ok E S"
  shows "no_more_opens S (closeLanguageClientDocuments E now S)" "no_more_opens S (notifyDocumentDeleted E now u S)"
    "no_more_opens S (store_delete E now u S)"
proof -
  note close = notifyDidClose_ok close_opens
  have removing: "no_more_opens T (with_shadow (removeAllOpens k) T)" for k T by (rule shadow_opens)
  show "no_more_opens S (closeLanguageClientDocuments E now S)"
    unfolding closeLanguageClientDocuments_def
  proof (rule fold_close_opens [THEN conjunct2, OF ok])
    fix k T assume "store_ok E T"
    then have T: "store_ok E (with_shadow (removeAllOpens k) T)" by (rule removeAllOpens_store_ok)
    show "store_ok E (notifyDidCloseTextDocument E now k LANGUAGE_CLIENT_ID Closed (with_shadow (removeAllOpens k) T)) \<and>
        no_more_opens T (notifyDidCloseTextDocument E now k LANGUAGE_CLIENT_ID Closed (with_shadow (removeAllOpens k) T))"
      by (rule conjI [OF notifyDidClose_ok [OF T] opens_trans [OF removing close_opens [OF T]]])
  qed
  have "store_ok E (fold (\<lambda>c S. if c \<noteq> LANGUAGE_CLIENT_ID then notifyDidCloseTextDocument E now k c Closed S else S) cs S) \<and>
      no_more_opens S (fold (\<lambda>c S. if c \<noteq> LANGUAGE_CLIENT_ID then notifyDidCloseTextDocument E now k c Closed S else S) cs S)" for k cs
    by (rule fold_close_opens [OF ok]) (simp add: close)
  then show "no_more_opens S (notifyDocumentDeleted E now u S)"
    unfolding notifyDocumentDeleted_def Let_def by (blast intro: opens_trans [OF _ releaseIfDeferred_opens])
  have "no_more_opens (with_shadow (removeAllOpens k) S) (fold (\<lambda>c. notifyDidCloseTextDocument E now k c Closed) cs (with_shadow (removeAllOpens k) S))" for k cs
    by (rule fold_close_opens [THEN conjunct2, OF removeAllOpens_store_ok [OF ok]]) (simp add: close)
  from opens_trans [OF removing opens_trans [OF this releaseIfDeferred_opens]]
  show "no_more_opens S (store_delete E now u S)" unfolding store_delete_def Let_def by (rule opens_then) simp
qed

fun opens_for :: "env \<Rightarrow> store_op \<Rightarrow> (uri \<times> client_id) option" where
  "opens_for E (StOpen now built L u lang v tx c) = Some (documentKey E u, c)"
| "opens_for E (StAttach now u c) = Some (documentKey E u, c)"
| "opens_for E op = None"

lemma addOpen_opens:
  assumes "addOpen k c (sessionReg T) = Inr (b, R)" and "registry_ok (sessionReg T)" and "sessionReg U = setClientVersion k c v R"
  shows "opens_at_most (Some (k, c)) T U"
proof -
  have "sessions R = sessions (sessionReg T)" "closedEvents R = closedEvents (sessionReg T)"
    using assms(1) by (auto simp: addOpen_def split: option.splits if_splits)
  then show ?thesis using isOpenIn_addOpen [OF assms(1,2)] assms(3) by (auto simp: opens_at_most_def)
qed

lemma resolved_registry_ok: "store_ok E S \<Longrightarrow> registry_ok (sessionReg (resolveDeferredRelease now key c S))"
  by (rule base_okD(1) [OF ok_exceptD [OF resolveDeferredRelease_ok(1)]])

lemma commitChange_registry [simp]: "sessionReg (snd (commitChange E key d changes c S)) = sessionReg S"
  by (simp add: commitChange_def Let_def)

lemma refreshContent_registry [simp]: "sessionReg (refreshContent E u c S) = sessionReg S"
  by (simp add: refreshContent_def split: option.split)

lemma open_opens:
  assumes "store_ok E S" and "notifyDidOpenTextDocument E now built L u lang v tx c S = Inr S'"
  shows "opens_at_most (Some (documentKey E u, c)) S S'"
proof (rule notifyDidOpen_cases [OF assms(2)], goal_cases)
  case 1
  show ?case unfolding 1(2) by (rule opens_then [OF opens_weaker [OF resolve_opens]]) simp
next
  case (2 b R)
  let ?T = "resolveDeferredRelease now (documentKey E u) c S"
  have "sessionReg S' = setClientVersion (documentKey E u) c v R" by (simp add: 2(3) firstOpen_simps [OF refl])
  from addOpen_opens [OF 2(2) resolved_registry_ok [OF assms(1)] this] show ?case by (rule opens_trans [OF resolve_opens])
qed

lemma attach_opens:
  assumes "store_ok E S" and "attachClient E now u c S = Inr (b, S')"
  shows "opens_at_most (Some (documentKey E u, c)) S S'"
proof -
  let ?T = "resolveDeferredRelease now (documentKey E u) c S"
  have "S' = S \<or> S' = ?T \<or> (\<exists>b R v. addOpen (documentKey E u) c (sessionReg ?T) = Inr (b, R) \<and>
      sessionReg S' = setClientVersion (documentKey E u) c v R)"
    using assms(2) unfolding attachClient_def Let_def by (auto split: option.splits sum.splits prod.splits if_splits)
  then show ?thesis
    using opens_weaker [OF resolve_opens] opens_trans [OF resolve_opens addOpen_opens [OF _ resolved_registry_ok [OF assms(1)]]] by auto
qed

lemma session_end_events:
  assumes "store_ok E S" and "isRegistered c (sessionReg S)"
  shows "closedEvents (sessionReg (closeSession E now c cause S)) = closedEvents (sessionReg S) @ [(c, cause)]"
proof -
  note table = closeSession_table [OF assms]
  have "store_ok E (fold (\<lambda>u. notifyDidCloseTextDocument E now u c cause) us S0) \<and>
      no_more_opens S0 (fold (\<lambda>u. notifyDidCloseTextDocument E now u c cause) us S0)" if "store_ok E S0" for us S0
    by (rule fold_close_opens [OF that]) (simp add: notifyDidClose_ok close_opens)
  from this [OF table(1)] show ?thesis
    using assms(2) by (auto simp: table(3) opens_at_most_def unregister_def isRegistered_def beginClose_def js_has_set Let_def)
qed

lemma sets_registry [simp]:
  "sessionReg (store_setDiskBaseline E u t S) = sessionReg S" "sessionReg (stagePendingContent E u tx S) = sessionReg S"
  "sessionReg (store_setLanguageClientText E u tx S) = sessionReg S" "sessionReg (store_invalidateLanguageClientText E u S) = sessionReg S"
  "sessionReg (reloadDiskBaseline E u r ex r' S) = sessionReg S" "sessionReg (store_markCreated E u S) = sessionReg S"
  "sessionReg (notifyWillSaveTextDocument E u i S) = sessionReg S" "sessionReg (announceSave d c S) = sessionReg S"
  "sessionReg (snd (languageClientSaveBegins E u S)) = sessionReg S" "sessionReg (snd (textState E u S)) = sessionReg S"
  "sessionReg (releaseSettled E key token b b' S) = sessionReg S"
  by (simp_all add: store_setDiskBaseline_def stagePendingContent_def store_setLanguageClientText_def Let_def
      store_invalidateLanguageClientText_def reloadDiskBaseline_def store_markCreated_def notifyWillSaveTextDocument_def
      announceSave_def languageClientSaveBegins_def textState_def releaseSettled_def case_prod_beta split: option.split)

lemma saved_registry [simp]:
  "sessionReg (notifyDidSaveTextDocument E u t c S) = sessionReg S" "sessionReg (languageClientSaveRead E d t S) = sessionReg S"
  "sessionReg (snd (reconcileExternalContent E u tx S)) = sessionReg S" "sessionReg (snd (commitRepair E u tx tx' S)) = sessionReg S"
  by (simp_all add: notifyDidSaveTextDocument_def languageClientSaveRead_def reconcileExternalContent_def commitRepair_def
      Let_def case_prod_beta split: option.split)

lemma apply_registry: "applyContentChange E u tx c S = Inr (v, S') \<Longrightarrow> sessionReg S' = sessionReg S"
  by (auto simp: applyContentChange_def Let_def commitChange_def split: option.splits prod.splits if_splits)

lemma change_opens: "notifyDidChangeTextDocument E u v changes c S = Inr S' \<Longrightarrow> no_more_opens S S'"
  by (auto simp: notifyDidChangeTextDocument_def opens_at_most_def commitChange_def Let_def case_prod_beta
      split: option.splits if_splits)

fun ends_or_begins :: "store_op \<Rightarrow> bool" where
  "ends_or_begins (StRegister c) = True"
| "ends_or_begins (StCloseSession now c cause) = True"
| "ends_or_begins op = False"

lemma store_step_opens:
  assumes "store_ok E S" and "store_step E op S = Some S'" and "\<not> ends_or_begins op"
  shows "opens_at_most (opens_for E op) S S'"
proof (cases op)
  case (StOpen now built L u lang v tx c)
  then show ?thesis using assms(2) open_opens [OF assms(1)] by (auto split: sum.splits)
next
  case (StAttach now u c)
  then show ?thesis using assms(2) attach_opens [OF assms(1)] by (auto split: sum.splits)
next
  case (StTimer now key)
  then show ?thesis using assms(2) release_unless_opens [of "S\<lparr>releases := R\<rparr>" key for R]
    by (auto simp: releaseTimer_def opens_at_most_def split: option.splits)
next
  case (StChange u v changes c)
  then show ?thesis using assms(2) change_opens by (auto split: sum.splits)
next
  case (StApply u tx c)
  then show ?thesis using assms(2) by (auto simp: opens_same apply_registry split: sum.splits)
qed (use assms closes_opens [OF assms(1)] close_opens [OF assms(1)] in \<open>auto split: if_splits simp: opens_same\<close>)

subsection \<open>What the operations of the workspace do to the opens\<close>

fun ws_opens_for :: "manager_env \<Rightarrow> workspace_op \<Rightarrow> (uri \<times> client_id) option" where
  "ws_opens_for M (WsOpenBegins now u c) = Some (documentKey (storeEnv M) u, c)"
| "ws_opens_for M (WsOpenTakes now u lang v tx supplied c) = Some (documentKey (storeEnv M) u, c)"
| "ws_opens_for M (WsStore op) = opens_for (storeEnv M) op"
| "ws_opens_for M op = None"

lemma open_takes_opens:
  assumes "store_ok (storeEnv M) (ws_store W)" and "openTakes M now u lang v tx supplied c W = Inr W'"
  shows "opens_at_most (Some (documentKey (storeEnv M) u, c)) (ws_store W) (ws_store W')"
proof -
  obtain S where S: "notifyDidOpenTextDocument (storeEnv M) now (built_root M u W) (modelLedger (inSync W)) u lang v tx c (ws_store W) = Inr S"
    using assms(2) by (auto simp: openTakes_def Let_def split: sum.splits)
  have "sessionReg (ws_store W') = sessionReg S"
    using assms(2) S by (auto simp: openTakes_def Let_def syncTo_store split: option.splits if_splits bool.splits)
  then show ?thesis by (rule opens_then [OF open_opens [OF assms(1) S]])
qed

lemma open_begins_opens:
  assumes "store_ok (storeEnv M) (ws_store W)" and "openBegins M now u c W = Inr (reads, W')"
  shows "opens_at_most (Some (documentKey (storeEnv M) u, c)) (ws_store W) (ws_store W')"
  using assms attach_opens [OF assms(1), of now u c] by (auto simp: openBegins_def Let_def split: if_splits sum.splits)

lemma forget_deleted_opens:
  "store_ok (storeEnv M) (ws_store W) \<Longrightarrow> no_more_opens (ws_store W) (ws_store (fold (forget_deleted M now) us W))"
proof (induction us arbitrary: W)
  case (Cons u us)
  have step: "ws_store (forget_deleted M now u W) = notifyDocumentDeleted (storeEnv M) now u (ws_store W)"
    by (simp add: forget_deleted_def Let_def)
  have "store_ok (storeEnv M) (ws_store (forget_deleted M now u W))" unfolding step by (rule notifyDocumentDeleted_ok [OF Cons.prems])
  from opens_trans [OF closes_opens(2) [OF Cons.prems, of now u, folded step] Cons.IH [OF this]] show ?case by simp
qed simp

lemma update_registry: "manager_update M u tx c W = Inr (v, W') \<Longrightarrow> sessionReg (ws_store W') = sessionReg (ws_store W)"
  by (auto simp: manager_update_def apply_registry split: if_splits sum.splits)

lemma save_store: "saveCalled M u c W = Inr (task, W') \<Longrightarrow> ws_store W' = ws_store W"
  by (auto simp: saveCalled_def Let_def split: option.splits prod.splits)

lemma delete_store: "deleteBegins M inside u c W = Inr W' \<Longrightarrow> ws_store W' = ws_store W"
  by (auto simp: deleteBegins_def queueDeleteFile_def Let_def split: if_splits prod.splits)

lemma manager_close_opens: "workspace_ok M W \<Longrightarrow> no_more_opens (ws_store W) (ws_store (manager_close M now u c W))"
  by (simp add: manager_close_def close_opens workspace_okD(2))

lemma announce_registry [simp]: "sessionReg (ws_store (announce_save M n s W)) = sessionReg (ws_store W)"
  by (simp add: announce_save_def Let_def)

lemma produced_registry [simp]: "sessionReg (textStore (modelProduced E doc v tx Y)) = sessionReg (textStore Y)"
  using produced_store [of E doc v tx Y] by auto

fun ends_or_begins_in :: "workspace_op \<Rightarrow> bool" where
  "ends_or_begins_in (WsStore op) = ends_or_begins op"
| "ends_or_begins_in op = False"

lemma workspace_step_opens:
  assumes "workspace_ok M W" and "workspace_step M op W = Some W'" and "\<not> ends_or_begins_in op"
  shows "opens_at_most (ws_opens_for M op) (ws_store W) (ws_store W')"
proof (cases op)
  case (WsOpenBegins now u c)
  then show ?thesis using assms(2) open_begins_opens [OF workspace_okD(2) [OF assms(1)]] by (auto split: sum.splits)
next
  case (WsOpenTakes now u lang v tx supplied c)
  then show ?thesis using assms(2) open_takes_opens [OF workspace_okD(2) [OF assms(1)]] by (auto split: sum.splits)
next
  case (WsStore sop)
  then show ?thesis using assms store_step_opens [OF workspace_okD(2) [OF assms(1)], of sop] by (auto split: option.splits)
next
  case (WsBuild now changed gone)
  then show ?thesis using assms(2) forget_deleted_opens [where W = "with_manager g W" for g] workspace_okD(2) [OF assms(1)]
    by (auto simp: buildUpdate_def)
next
  case (WsDeleteBuilt now key refused)
  then show ?thesis using assms manager_close_opens [OF assms(1)]
    by (auto simp: deleteBuilt_def closeDeletingOpen_def Let_def split: if_splits)
qed (use assms in \<open>auto simp: opens_same manager_close_opens update_registry save_store delete_store saveTurn_def saveTaskSettles_def saveResolves_def
      queueDeleteFile_def deleteRegistered_def deleteFileStarts_def deleteFileEnds_def deleteRefusedEnds_def saveRead_def saveWritten_def
      Let_def split: option.splits if_splits sum.splits save_state.splits prod.splits delete_stage.splits\<close>)

end
