(* ===== verification/SessionOwners.thy ===== *)
theory SessionOwners
  imports SessionOpens
begin

section \<open>The opens of ended sessions\<close>

text \<open>
  The invariant that every open under the id of a session is that of a session that lives, or of a call that has yet
  to end: the sessions, the live ones, the opens under way and the registry are all it depends on.
\<close>

subsection \<open>The invariant\<close>

definition live_faces :: "(client_id \<times> bool) list \<Rightarrow> (client_id, nat) js_map \<Rightarrow> bool" where
  "live_faces ss live \<longleftrightarrow> (\<forall>c n. js_get live c = Some n \<longleftrightarrow> n < length ss \<and> ss ! n = (c, False))"

definition live_ids :: "(client_id \<times> bool) list \<Rightarrow> (client_id, nat) js_map \<Rightarrow> registry \<Rightarrow> bool" where
  "live_ids ss live R \<longleftrightarrow>
     (\<forall>c. js_has live c \<longrightarrow> js_has (sessions R) c) \<and> (\<forall>c \<in> fst ` set ss. js_has (sessions R) c \<longrightarrow> js_has live c) \<and>
     LANGUAGE_CLIENT_ID \<notin> fst ` set ss"

definition runs_known :: "(client_id \<times> bool) list \<Rightarrow> (nat \<times> uri \<times> open_stage) list \<Rightarrow> bool" where
  "runs_known ss runs \<longleftrightarrow> (\<forall>n u st. (n, u, st) \<in> set runs \<longrightarrow> n < length ss \<and> st \<noteq> OpenReads True)"

definition to_be_ended :: "env \<Rightarrow> (client_id \<times> bool) list \<Rightarrow> (nat \<times> uri \<times> open_stage) list \<Rightarrow> uri \<Rightarrow> client_id \<Rightarrow> bool" where
  "to_be_ended E ss runs k c \<longleftrightarrow> (\<exists>n u. (n, u, OpenStands False) \<in> set runs \<and> fst (ss ! n) = c \<and> documentKey E u = k)"

definition opens_owned ::
  "env \<Rightarrow> (client_id \<times> bool) list \<Rightarrow> (client_id, nat) js_map \<Rightarrow> (nat \<times> uri \<times> open_stage) list \<Rightarrow> registry \<Rightarrow> bool" where
  "opens_owned E ss live runs R \<longleftrightarrow>
     (\<forall>k. \<forall>c \<in> fst ` set ss. isOpenIn k c R \<longrightarrow> js_has live c \<or> to_be_ended E ss runs k c)"

definition owned_in ::
  "env \<Rightarrow> (client_id \<times> bool) list \<Rightarrow> (client_id, nat) js_map \<Rightarrow> (nat \<times> uri \<times> open_stage) list \<Rightarrow> registry \<Rightarrow> bool" where
  "owned_in E ss live runs R \<longleftrightarrow>
     live_faces ss live \<and> live_ids ss live R \<and> runs_known ss runs \<and> opens_owned E ss live runs R"

definition faces :: "('e, 'o) service \<Rightarrow> (client_id \<times> bool) list" where
  "faces V = map (\<lambda>s. (sessionId s, sessionDisposed s)) (sessionObjects V)"

definition run_faces :: "('e, 'o) service \<Rightarrow> (nat \<times> uri \<times> open_stage) list" where
  "run_faces V = map (\<lambda>run. (runSession run, runUri run, runStage run)) (openRuns V)"

abbreviation sv_registry :: "('e, 'o) service \<Rightarrow> registry" where
  "sv_registry V \<equiv> sessionReg (sv_store V)"

definition owned :: "manager_env \<Rightarrow> ('e, 'o) service \<Rightarrow> bool" where
  "owned M V \<longleftrightarrow> owned_in (storeEnv M) (faces V) (liveSessions V) (run_faces V) (sv_registry V)"

subsection \<open>Steps of its parts\<close>

lemma owned_registry:
  assumes own: "owned_in E ss live runs R" and "\<And>c. js_has (sessions R') c = js_has (sessions R) c"
    and "\<And>k c. isOpenIn k c R' \<Longrightarrow> c \<in> fst ` set ss \<Longrightarrow> isOpenIn k c R \<or> js_has live c"
  shows "owned_in E ss live runs R'"
proof -
  have "live_ids ss live R' = live_ids ss live R" by (simp add: live_ids_def assms(2))
  moreover have "opens_owned E ss live runs R'" using own assms(3) unfolding owned_in_def opens_owned_def by blast
  ultimately show ?thesis using own by (simp add: owned_in_def)
qed

text \<open>A run moves on; what it leaves open when it stood is no longer there, or is that of a session that lives.\<close>

lemma owned_run:
  assumes own: "owned_in E ss live runs R" and r: "r < length runs" "runs ! r = (n, u, st)" and st': "st' \<noteq> OpenReads True"
    and left: "st = OpenStands False \<Longrightarrow> st' = OpenStands False \<or> js_has live (fst (ss ! n)) \<or> \<not> isOpenIn (documentKey E u) (fst (ss ! n)) R"
  shows "owned_in E ss live (runs[r := (n, u, st')]) R"
proof -
  have known: "runs_known ss (runs[r := (n, u, st')])"
  proof -
    have "(n, u, st) \<in> set runs" using r nth_mem by metis
    then have "n < length ss" using own by (auto simp: owned_in_def runs_known_def)
    then show ?thesis
      using own set_update_subset_insert [of runs r "(n, u, st')"] st' unfolding owned_in_def runs_known_def by blast
  qed
  have "to_be_ended E ss (runs[r := (n, u, st')]) k c \<or> (st = OpenStands False \<and> st' \<noteq> OpenStands False \<and> fst (ss ! n) = c \<and> documentKey E u = k)"
    if ended: "to_be_ended E ss runs k c" for k c
  proof -
    obtain i m v where i: "i < length runs" "runs ! i = (m, v, OpenStands False)" "fst (ss ! m) = c" "documentKey E v = k"
      using ended unfolding to_be_ended_def in_set_conv_nth by blast
    show ?thesis
    proof (cases "i = r")
      case True
      then have "(n, u, st') \<in> set (runs[r := (n, u, st')])" using r(1) by (simp add: set_update_memI)
      with True i r show ?thesis by (force simp: to_be_ended_def)
    next
      case False
      then have "(m, v, OpenStands False) \<in> set (runs[r := (n, u, st')])"
        using i by (metis length_list_update nth_list_update_neq nth_mem)
      with i show ?thesis by (force simp: to_be_ended_def)
    qed
  qed
  note ended = this
  have "opens_owned E ss live (runs[r := (n, u, st')]) R"
    unfolding opens_owned_def
  proof (intro allI ballI impI)
    fix k c assume c: "c \<in> fst ` set ss" "isOpenIn k c R"
    then have "js_has live c \<or> to_be_ended E ss runs k c" using own unfolding owned_in_def opens_owned_def by blast
    then show "js_has live c \<or> to_be_ended E ss (runs[r := (n, u, st')]) k c" using ended [of k c] left c(2) by auto
  qed
  with own known show ?thesis by (simp add: owned_in_def)
qed

lemma owned_new_run:
  assumes "owned_in E ss live runs R" and "n < length ss"
  shows "owned_in E ss live (runs @ [(n, u, OpenWaits)]) R"
proof -
  have "to_be_ended E ss (runs @ [(n, u, OpenWaits)]) k c = to_be_ended E ss runs k c" for k c by (auto simp: to_be_ended_def)
  with assms show ?thesis by (auto simp: owned_in_def runs_known_def opens_owned_def)
qed

text \<open>A run that reads takes its text and stands with what it opened.\<close>

lemma owned_takes:
  assumes own: "owned_in E ss live runs R" and r: "r < length runs" "runs ! r = (n, u, OpenReads wasOpen)"
    and "\<And>c. js_has (sessions R') c = js_has (sessions R) c"
    and opens: "\<And>k c. isOpenIn k c R' \<Longrightarrow> isOpenIn k c R \<or> (k = documentKey E u \<and> c = fst (ss ! n))"
  shows "owned_in E ss live (runs[r := (n, u, OpenStands wasOpen)]) R'"
proof -
  have "(n, u, OpenReads wasOpen) \<in> set runs" using r nth_mem by metis
  then have [simp]: "\<not> wasOpen" using own by (auto simp: owned_in_def runs_known_def)
  have own': "owned_in E ss live (runs[r := (n, u, OpenStands wasOpen)]) R" by (rule owned_run [OF own r]) simp_all
  have "(n, u, OpenStands False) \<in> set (runs[r := (n, u, OpenStands wasOpen)])" using r(1) by (simp add: set_update_memI)
  then have stands: "to_be_ended E ss (runs[r := (n, u, OpenStands wasOpen)]) (documentKey E u) (fst (ss ! n))"
    unfolding to_be_ended_def by blast
  have "live_ids ss live R' = live_ids ss live R" by (simp add: live_ids_def assms(4))
  moreover have "opens_owned E ss live (runs[r := (n, u, OpenStands wasOpen)]) R'"
    unfolding opens_owned_def
  proof (intro allI ballI impI)
    fix k e assume "e \<in> fst ` set ss" "isOpenIn k e R'"
    from opens [OF this(2)] this(1) show "js_has live e \<or> to_be_ended E ss (runs[r := (n, u, OpenStands wasOpen)]) k e"
      using own' stands by (auto simp: owned_in_def opens_owned_def)
  qed
  ultimately show ?thesis using own' by (simp add: owned_in_def)
qed

text \<open>A session ends: its id is free, and nothing is open under it.\<close>

definition face_ended :: "client_id \<Rightarrow> (client_id, nat) js_map \<Rightarrow> (client_id \<times> bool) list \<Rightarrow> (client_id \<times> bool) list" where
  "face_ended c live ss = (case js_get live c of None \<Rightarrow> ss | Some n \<Rightarrow> ss[n := (c, True)])"

lemma owned_end:
  assumes own: "owned_in E ss live runs R" and "\<And>e. js_has (sessions R') e \<longleftrightarrow> js_has (sessions R) e \<and> e \<noteq> c"
    and opens: "\<And>k e. isOpenIn k e R' \<longleftrightarrow> isOpenIn k e R \<and> e \<noteq> c"
  shows "owned_in E (face_ended c live ss) (js_delete c live) runs R'"
proof -
  let ?ss = "face_ended c live ss"
  have live: "js_get live e = Some n \<longleftrightarrow> n < length ss \<and> ss ! n = (e, False)" for e n
    using own by (auto simp: owned_in_def live_faces_def)
  have len: "length ?ss = length ss" by (simp add: face_ended_def split: option.split)
  have ids: "fst (?ss ! n) = fst (ss ! n)" for n
  proof (cases "js_get live c")
    case (Some m)
    then have "ss ! m = (c, False)" "m < length ss" by (simp_all add: live)
    then show ?thesis by (cases "n = m") (simp_all add: face_ended_def Some)
  qed (simp add: face_ended_def)
  have "map fst ?ss = map fst ss" by (rule nth_equalityI) (simp_all add: len ids)
  then have set: "fst ` set ?ss = fst ` set ss" by (metis list.set_map)
  have "live_faces ?ss (js_delete c live)"
    unfolding live_faces_def
  proof (intro allI)
    fix e n
    show "js_get (js_delete c live) e = Some n \<longleftrightarrow> n < length ?ss \<and> ?ss ! n = (e, False)"
    proof (cases "js_get live c")
      case None
      with live [of c n] live [of e n] show ?thesis by (auto simp: face_ended_def js_get_delete)
    next
      case (Some m)
      with live [of c m] live [of c n] live [of e n] show ?thesis by (cases "n = m") (auto simp: face_ended_def js_get_delete)
    qed
  qed
  moreover have "live_ids ?ss (js_delete c live) R'" using own assms(2) by (auto simp: owned_in_def live_ids_def set js_has_delete)
  moreover have "runs_known ?ss runs" using own by (simp add: owned_in_def runs_known_def len)
  moreover have "to_be_ended E ?ss runs = to_be_ended E ss runs" by (intro ext) (simp add: to_be_ended_def ids)
  then have "opens_owned E ?ss (js_delete c live) runs R'"
    using own opens by (auto simp: owned_in_def opens_owned_def set js_has_delete)
  ultimately show ?thesis by (simp add: owned_in_def)
qed

lemma owned_new_session:
  assumes own: "owned_in E ss live runs R" and free: "\<not> js_has (sessions R) c" "c \<noteq> LANGUAGE_CLIENT_ID"
    and reg: "\<And>e. js_has (sessions R') e \<longleftrightarrow> js_has (sessions R) e \<or> e = c" and opens: "\<And>k e. isOpenIn k e R' = isOpenIn k e R"
  shows "owned_in E (ss @ [(c, False)]) (js_set c (length ss) live) runs R'"
proof -
  have live: "js_get live e = Some n \<longleftrightarrow> n < length ss \<and> ss ! n = (e, False)" for e n
    using own by (auto simp: owned_in_def live_faces_def)
  have none: "\<not> js_has live c" using own free by (auto simp: owned_in_def live_ids_def)
  have "live_faces (ss @ [(c, False)]) (js_set c (length ss) live)"
    using none live by (auto simp: live_faces_def js_get_set nth_append less_Suc_eq js_has_get)
  moreover have "live_ids (ss @ [(c, False)]) (js_set c (length ss) live) R'"
    using own reg free(2) by (auto simp: owned_in_def live_ids_def js_has_set)
  moreover have "runs_known (ss @ [(c, False)]) runs" using own unfolding owned_in_def runs_known_def by (simp add: less_SucI)
  moreover have "to_be_ended E (ss @ [(c, False)]) runs k e = to_be_ended E ss runs k e" for k e
    using own by (auto simp: owned_in_def runs_known_def to_be_ended_def nth_append split: if_splits)
  then have "opens_owned E (ss @ [(c, False)]) (js_set c (length ss) live) runs R'"
    using own opens by (auto simp: owned_in_def opens_owned_def js_has_set)
  ultimately show ?thesis by (simp add: owned_in_def)
qed

subsection \<open>What the sessions hear\<close>

lemma faces_set_session:
  "sessionId (f (session_at V n)) = sessionId (session_at V n) \<Longrightarrow> sessionDisposed (f (session_at V n)) = sessionDisposed (session_at V n) \<Longrightarrow>
    faces (set_session n f V) = faces V"
  by (cases "n < length (sessionObjects V)") (simp_all add: faces_def map_update list_update_same_conv list_update_beyond)

lemma run_faces_set_session [simp]: "run_faces (set_session n f V) = run_faces V"
  by (simp add: run_faces_def)

lemma faces_set_run [simp]: "faces (set_run r f V) = faces V"
  by (simp add: faces_def)

lemma heard_close_face [simp]: "sessionId (heard_close ev s) = sessionId s" "sessionDisposed (heard_close ev s) = sessionDisposed s"
  by (cases "(ev, s)" rule: heard_close.cases; simp)+

lemma fold_held_faces [simp]:
  "faces (fold (\<lambda>run. set_session (runSession run) (\<lambda>s. s\<lparr>heldByOpen := set_add u (heldByOpen s)\<rparr>)) rs V) = faces V"
  "run_faces (fold (\<lambda>run. set_session (runSession run) (\<lambda>s. s\<lparr>heldByOpen := set_add u (heldByOpen s)\<rparr>)) rs V) = run_faces V"
  "liveSessions (fold (\<lambda>run. set_session (runSession run) (\<lambda>s. s\<lparr>heldByOpen := set_add u (heldByOpen s)\<rparr>)) rs V) = liveSessions V"
  by (rule fold_frame, simp add: faces_set_session)+

lemma marked_runs [simp]: "map (\<lambda>run. (runSession run, runUri run, runStage run)) (map (\<lambda>run. if P run then run\<lparr>createdAt := v\<rparr> else run) rs) =
    map (\<lambda>run. (runSession run, runUri run, runStage run)) rs"
  by (induction rs) auto

lemma heard_faces [simp]: "faces (heard M ev V) = faces V" "run_faces (heard M ev V) = run_faces V" "liveSessions (heard M ev V) = liveSessions V"
proof -
  have eq: "faces (V\<lparr>openRuns := rs\<rparr>) = faces V" "run_faces (V\<lparr>sessionObjects := ss\<rparr>) = run_faces V" for rs ss
    by (simp_all add: faces_def run_faces_def)
  have runs: "run_faces (V\<lparr>openRuns := map (\<lambda>run. if P run then run\<lparr>createdAt := v\<rparr> else run) (openRuns V)\<rparr>) = run_faces V" for P v
    by (simp add: run_faces_def del: map_map)
  have close: "faces (V\<lparr>sessionObjects := map (heard_close ev) (sessionObjects V)\<rparr>) = faces V" for ev
    by (simp add: faces_def comp_def)
  show "faces (heard M ev V) = faces V" by (cases ev) (simp_all only: heard.simps fold_held_faces eq close)
  show "run_faces (heard M ev V) = run_faces V" by (cases ev) (simp_all only: heard.simps fold_held_faces eq runs)
  show "liveSessions (heard M ev V) = liveSessions V" by (cases ev) simp_all
qed

lemma fold_heard_faces [simp]:
  "faces (fold (heard M) evs V) = faces V" "run_faces (fold (heard M) evs V) = run_faces V"
  "liveSessions (fold (heard M) evs V) = liveSessions V"
  by (rule fold_frame, simp)+

lemma with_workspace_faces [simp]: "faces (V\<lparr>workspace := W\<rparr>) = faces V" "run_faces (V\<lparr>workspace := W\<rparr>) = run_faces V"
  by (simp_all add: faces_def run_faces_def)

text \<open>Where no session ends, an operation of the workspace leaves the sessions as they are.\<close>

lemma in_workspace_faces:
  assumes "closedEvents (sessionReg (ws_store W)) = closedEvents (sv_registry V)"
  shows "faces (in_workspace M W V) = faces V" "run_faces (in_workspace M W V) = run_faces V" "liveSessions (in_workspace M W V) = liveSessions V"
  using assms by (simp_all add: in_workspace_def Let_def)

lemma in_workspace_ended:
  assumes "closedEvents (sessionReg (ws_store W)) = closedEvents (sv_registry V) @ [(c, cause)]"
    and "\<forall>n. js_get (liveSessions V) c = Some n \<longrightarrow> n < length (faces V) \<and> fst (faces V ! n) = c"
  shows "faces (in_workspace M W V) = face_ended c (liveSessions V) (faces V)" "run_faces (in_workspace M W V) = run_faces V"
    "liveSessions (in_workspace M W V) = js_delete c (liveSessions V)"
proof -
  let ?V = "fold (heard M) (drop (length (storeLog (sv_store V))) (storeLog (ws_store W))) (V\<lparr>workspace := W\<rparr>)"
  have V': "in_workspace M W V = heard_end (c, cause) ?V" using assms(1) by (simp add: in_workspace_def Let_def)
  have f: "faces ?V = faces V" "run_faces ?V = run_faces V" "liveSessions ?V = liveSessions V" by simp_all
  show "liveSessions (in_workspace M W V) = js_delete c (liveSessions V)" "run_faces (in_workspace M W V) = run_faces V"
    unfolding V' using f by (simp_all add: heard_end_def Let_def run_faces_def split: option.split)
  show "faces (in_workspace M W V) = face_ended c (liveSessions V) (faces V)"
  proof (cases "js_get (liveSessions V) c")
    case None
    then show ?thesis unfolding V' using f by (simp add: heard_end_def face_ended_def Let_def faces_def)
  next
    case (Some n)
    then have n: "n < length (faces V)" "fst (faces V ! n) = c" using assms(2) by auto
    then have id: "n < length (sessionObjects ?V)" "sessionId (session_at ?V n) = c"
      using arg_cong [OF f(1), of length] arg_cong [OF f(1), of "\<lambda>xs. xs ! n"] by (auto simp: faces_def)
    have "faces (heard_end (c, cause) ?V) = (faces ?V)[n := (c, True)]"
      using Some f(3) id by (auto simp: heard_end_def Let_def faces_def map_update dispose_handle_def)
    then show ?thesis unfolding V' using Some f(1) by (simp add: face_ended_def)
  qed
qed

subsection \<open>Steps of the workspace\<close>

lemma owned_parts:
  assumes "owned M V" 
  shows "live_faces (faces V) (liveSessions V)" "live_ids (faces V) (liveSessions V) (sv_registry V)"
  using assms by (simp_all add: owned_def owned_in_def)

lemma owned_cong:
  "faces V' = faces V \<Longrightarrow> run_faces V' = run_faces V \<Longrightarrow> liveSessions V' = liveSessions V \<Longrightarrow> workspace V' = workspace V \<Longrightarrow> owned M V' = owned M V"
  by (simp add: owned_def)

lemma owned_workspace:
  assumes own: "owned M V" and "opens_at_most x (sv_store V) (ws_store W)"
    and "\<And>k c. x = Some (k, c) \<Longrightarrow> c \<in> fst ` set (faces V) \<Longrightarrow> js_has (liveSessions V) c"
  shows "owned M (in_workspace M W V)"
proof -
  have same: "closedEvents (sessionReg (ws_store W)) = closedEvents (sv_registry V)" "sessions (sessionReg (ws_store W)) = sessions (sv_registry V)"
    using assms(2) by (simp_all add: opens_at_most_def)
  show ?thesis
    unfolding owned_def in_workspace_faces [OF same(1)] in_workspace_workspace
    by (rule owned_registry [OF own [unfolded owned_def]]) (use assms(2,3) same(2) in \<open>auto simp: opens_at_most_def\<close>)
qed

lemma owned_closeSession:
  assumes own: "owned M V" and ok: "workspace_ok M (workspace V)"
    and W: "ws_store W = closeSession (storeEnv M) now c cause (sv_store V)"
  shows "owned M (in_workspace M W V)"
proof (cases "isRegistered c (sv_registry V)")
  case True
  note table = closeSession_table [OF workspace_okD(2) [OF ok] True]
  have ev: "closedEvents (sessionReg (ws_store W)) = closedEvents (sv_registry V) @ [(c, cause)]"
    unfolding W by (rule session_end_events [OF workspace_okD(2) [OF ok] True])
  have "\<forall>n. js_get (liveSessions V) c = Some n \<longrightarrow> n < length (faces V) \<and> fst (faces V ! n) = c"
    using owned_parts(1) [OF own] by (auto simp: live_faces_def)
  note ended = in_workspace_ended [OF ev this]
  show ?thesis
    unfolding owned_def ended in_workspace_workspace
    by (rule owned_end [OF own [unfolded owned_def]]) (simp_all add: W table(4,5))
next
  case False
  then have "ws_store W = sv_store V" by (simp add: W closeSession_def)
  then show ?thesis by (intro owned_workspace [OF own, where x = None]) simp_all
qed

lemma registerSession_registry:
  assumes "registerSession c S = Inr S'"
  shows "\<not> js_has (sessions (sessionReg S)) c" "c \<noteq> LANGUAGE_CLIENT_ID" "js_has (sessions (sessionReg S')) e \<longleftrightarrow> js_has (sessions (sessionReg S)) e \<or> e = c"
    "isOpenIn k e (sessionReg S') = isOpenIn k e (sessionReg S)" "closedEvents (sessionReg S') = closedEvents (sessionReg S)"
proof -
  obtain R where R: "register c (sessionReg S) = Inr R" "S' = S\<lparr>sessionReg := R\<rparr>"
    using assms by (auto simp: registerSession_def split: sum.splits)
  then show "\<not> js_has (sessions (sessionReg S)) c" "c \<noteq> LANGUAGE_CLIENT_ID" "js_has (sessions (sessionReg S')) e \<longleftrightarrow> js_has (sessions (sessionReg S)) e \<or> e = c"
    "isOpenIn k e (sessionReg S') = isOpenIn k e (sessionReg S)" "closedEvents (sessionReg S') = closedEvents (sessionReg S)"
    by (auto simp: register_def js_has_set isOpenIn_register RESERVED_CLIENT_IDS_def FRAMEWORK_CLIENT_IDS_def split: if_splits)
qed

text \<open>An id that no session of the service has may be registered and opened under elsewhere.\<close>

lemma owned_registered_elsewhere:
  assumes own: "owned M V" and "registerSession c (sv_store V) = Inr S" and "c \<notin> fst ` set (faces V)" and W: "ws_store W = S"
  shows "owned M (in_workspace M W V)"
proof -
  note reg = registerSession_registry [OF assms(2)]
  have ev: "closedEvents (sessionReg (ws_store W)) = closedEvents (sv_registry V)" by (simp add: W reg(5))
  have ids: "live_ids (faces V) (liveSessions V) (sessionReg S)"
    using owned_parts(2) [OF own] assms(3) reg(3) by (auto simp: live_ids_def)
  have "opens_owned (storeEnv M) (faces V) (liveSessions V) (run_faces V) (sessionReg S)"
    using own by (simp add: owned_def owned_in_def opens_owned_def reg(4))
  with own ids show ?thesis by (simp add: owned_def owned_in_def in_workspace_faces [OF ev] W)
qed

lemma owned_elsewhere:
  assumes own: "owned M V" and ok: "workspace_ok M (workspace V)" and step: "workspace_step M op (workspace V) = Some W"
    and acts: "case acts_as op of None \<Rightarrow> True | Some c \<Rightarrow> c \<notin> fst ` set (faces V)"
  shows "owned M (in_workspace M W V)"
proof (cases "ends_or_begins_in op")
  case False
  have "x = Some (k, c) \<Longrightarrow> acts_as op = Some c" if "x = ws_opens_for M op" for x k c
    using that by (cases "(M, op)" rule: ws_opens_for.cases) (auto elim: opens_for.elims)
  with acts show ?thesis by (intro owned_workspace [OF own workspace_step_opens [OF ok step False]]) auto
next
  case True
  then obtain sop where op: "op = WsStore sop" "ends_or_begins sop" by (cases op) auto
  then obtain S where S: "store_step (storeEnv M) sop (sv_store V) = Some S" "ws_store W = S"
    using step by (auto split: option.splits)
  show ?thesis
  proof (cases sop)
    case (StRegister c)
    with S op acts show ?thesis by (intro owned_registered_elsewhere [OF own, where c = c]) (auto split: sum.splits)
  next
    case (StCloseSession now c cause)
    with S show ?thesis by (intro owned_closeSession [OF own ok, where c = c]) auto
  qed (use op(2) in simp_all)
qed

subsection \<open>Steps of the sessions\<close>

lemma face_at: "n < length (sessionObjects V) \<Longrightarrow> faces V ! n = (sessionId (session_at V n), sessionDisposed (session_at V n))"
  by (simp add: faces_def)

lemma length_faces [simp]: "length (faces V) = length (sessionObjects V)" "length (run_faces V) = length (openRuns V)"
  by (simp_all add: faces_def run_faces_def)

lemma ids_faces: "fst ` set (faces V) = sessionId ` set (sessionObjects V)"
  by (simp add: faces_def image_image)

lemma live_session:
  assumes "owned M V" and "n < length (sessionObjects V)" and "\<not> sessionDisposed (session_at V n)"
  shows "js_get (liveSessions V) (sessionId (session_at V n)) = Some n"
  using owned_parts(1) [OF assms(1)] face_at [OF assms(2)] assms(2,3) by (simp add: live_faces_def)

lemma owned_dispose:
  assumes own: "owned M V" and ok: "workspace_ok M (workspace V)" and n: "n < length (sessionObjects V)"
  shows "owned M (disposeSession M now n cause V)"
proof (cases "sessionDisposed (session_at V n)")
  case True
  with own show ?thesis by (simp add: disposeSession_def)
next
  case False
  let ?c = "sessionId (session_at V n)"
  let ?V1 = "set_session n (\<lambda>s. s\<lparr>sessionDisposed := True, writeNumbers := []\<rparr>) V"
  let ?W = "with_store M (closeSession (storeEnv M) now ?c cause) (workspace V)"
  note live = live_session [OF own n False]
  have reg: "isRegistered ?c (sv_registry V)"
    using owned_parts(2) [OF own] live by (auto simp: live_ids_def isRegistered_def js_has_get)
  note table = closeSession_table [OF workspace_okD(2) [OF ok] reg]
  have f1: "faces ?V1 = (faces V)[n := (?c, True)]" "run_faces ?V1 = run_faces V" by (simp_all add: faces_def map_update)
  have "closedEvents (sessionReg (ws_store ?W)) = closedEvents (sv_registry ?V1) @ [(?c, cause)]"
    using session_end_events [OF workspace_okD(2) [OF ok] reg] by simp
  moreover have "liveSessions ?V1 = liveSessions V" by simp
  then have "\<forall>m. js_get (liveSessions ?V1) ?c = Some m \<longrightarrow> m < length (faces ?V1) \<and> fst (faces ?V1 ! m) = ?c"
    unfolding f1 using live n by simp
  ultimately have ended: "faces (in_workspace M ?W ?V1) = face_ended ?c (liveSessions V) (faces V)"
    "run_faces (in_workspace M ?W ?V1) = run_faces V" "liveSessions (in_workspace M ?W ?V1) = js_delete ?c (liveSessions V)"
    using in_workspace_ended [of ?W ?V1 ?c cause M] live by (simp_all add: f1 face_ended_def)
  have "owned M (in_workspace M ?W ?V1)"
    unfolding owned_def ended in_workspace_workspace
    by (rule owned_end [OF own [unfolded owned_def]]) (simp_all add: table(4,5))
  then have "owned M (set_session n (\<lambda>s. s\<lparr>listening := False\<rparr>) (in_workspace M ?W ?V1))"
    by (subst owned_cong) (simp_all add: faces_set_session)
  then show ?thesis using False by (simp add: disposeSession_def Let_def)
qed

lemma owned_takeOver:
  assumes "owned M V" and "workspace_ok M (workspace V)"
  shows "owned M (takeOver M now c token V)"
proof -
  have "n < length (sessionObjects V)" if "js_get (liveSessions V) c = Some n" for n
    using owned_parts(1) [OF assms(1)] that by (simp add: live_faces_def)
  then show ?thesis using assms owned_dispose [OF assms] by (auto simp: takeOver_def split: option.split)
qed

lemma owned_createSession:
  assumes own: "owned M V" and ok: "workspace_ok M (workspace V)"
  shows "owned M (case createSession M now c token V of Inl (e, V') \<Rightarrow> V' | Inr (n, V') \<Rightarrow> V')"
proof -
  let ?V1 = "takeOver M now c token V"
  have own1: "owned M ?V1" by (rule owned_takeOver [OF own ok])
  show ?thesis
  proof (cases "registerSession c (sv_store ?V1)")
    case (Inr S)
    let ?V2 = "in_workspace M (with_store M (\<lambda>_. S) (workspace ?V1)) ?V1"
    note reg = registerSession_registry [OF Inr]
    have "faces ?V2 = faces ?V1" "run_faces ?V2 = run_faces ?V1" "liveSessions ?V2 = liveSessions ?V1"
      using in_workspace_faces [of "with_store M (\<lambda>_. S) (workspace ?V1)" ?V1 M] reg(5) by simp_all
    then have "owned M (?V2\<lparr>sessionObjects := sessionObjects ?V2 @ [new_session c], liveSessions := js_set c (length (sessionObjects ?V1)) (liveSessions ?V2),
        resumeTokens := t\<rparr>)" for t
      using owned_new_session [OF own1 [unfolded owned_def] reg(1,2,3,4)]
      by (simp add: owned_def faces_def run_faces_def new_session_def)
    note owns = this this [of "resumeTokens ?V2"]
    show ?thesis using Inr owns by (auto simp: createSession_def Let_def split: option.split)
  qed (use own1 in \<open>simp add: createSession_def Let_def\<close>)
qed

lemma new_service_owned: "owned M (new_service W)"
  by (simp add: owned_def owned_in_def live_faces_def live_ids_def runs_known_def opens_owned_def faces_def run_faces_def new_service_def js_has_get)

subsection \<open>Steps of the opens\<close>

lemma run_at: "r < length (openRuns V) \<Longrightarrow> run_faces V ! r = (runSession (openRuns V ! r), runUri (openRuns V ! r), runStage (openRuns V ! r))"
  by (simp add: run_faces_def)

lemma run_faces_set_run: "run_faces (set_run r f V) = (run_faces V)[r := (runSession (f (openRuns V ! r)), runUri (f (openRuns V ! r)), runStage (f (openRuns V ! r)))]"
  by (simp add: run_faces_def map_update)

lemma session_face:
  assumes "owned M V" and "r < length (openRuns V)"
  shows "runSession (openRuns V ! r) < length (sessionObjects V)"
    "fst (faces V ! runSession (openRuns V ! r)) = sessionId (session_at V (runSession (openRuns V ! r)))"
    "runStage (openRuns V ! r) \<noteq> OpenReads True"
proof -
  have "run_faces V ! r \<in> set (run_faces V)" using assms(2) by (intro nth_mem) simp
  then have *: "runSession (openRuns V ! r) < length (faces V) \<and> runStage (openRuns V ! r) \<noteq> OpenReads True"
    using assms by (simp add: owned_def owned_in_def runs_known_def run_at)
  then show "runSession (openRuns V ! r) < length (sessionObjects V)" "runStage (openRuns V ! r) \<noteq> OpenReads True" by simp_all
  then show "fst (faces V ! runSession (openRuns V ! r)) = sessionId (session_at V (runSession (openRuns V ! r)))" by (simp add: face_at)
qed

lemma owned_set_session:
  assumes "owned M V" and "sessionId (f (session_at V n)) = sessionId (session_at V n)" "sessionDisposed (f (session_at V n)) = sessionDisposed (session_at V n)"
  shows "owned M (set_session n f V)"
  using assms by (subst owned_cong [where V = V]) (simp_all add: faces_set_session)

text \<open>What the run leaves open, when it stood, is that of a live session or is closed by now.\<close>

definition may_settle :: "manager_env \<Rightarrow> nat \<Rightarrow> ('e, 'o) service \<Rightarrow> bool" where
  "may_settle M r V \<longleftrightarrow>
     (let run = openRuns V ! r; c = sessionId (session_at V (runSession run))
      in runStage run = OpenStands False \<longrightarrow>
           js_has (liveSessions V) c \<or> \<not> isOpenIn (documentKey (storeEnv M) (runUri run)) c (sv_registry V))"

lemma owned_set_run:
  assumes own: "owned M V" and "r < length (openRuns V)"
    and same: "runSession (f (openRuns V ! r)) = runSession (openRuns V ! r)" "runUri (f (openRuns V ! r)) = runUri (openRuns V ! r)"
    and "runStage (f (openRuns V ! r)) \<noteq> OpenReads True" and "may_settle M r V \<or> runStage (f (openRuns V ! r)) = runStage (openRuns V ! r)"
  shows "owned M (set_run r f V)"
proof -
  have "owned_in (storeEnv M) (faces V) (liveSessions V)
      ((run_faces V)[r := (runSession (openRuns V ! r), runUri (openRuns V ! r), runStage (f (openRuns V ! r)))]) (sv_registry V)"
    by (rule owned_run [OF own [unfolded owned_def] _ run_at [OF assms(2)]])
      (use assms session_face [OF own assms(2)] in \<open>auto simp: may_settle_def Let_def\<close>)
  then show ?thesis by (simp add: owned_def run_faces_set_run same)
qed

lemma owned_settle:
  assumes own: "owned M V" and "r < length (openRuns V)" and "may_settle M r V"
  shows "owned M (settleOpen M r good V)"
proof -
  have "owned M (set_run r (\<lambda>run. run\<lparr>runStage := (if good then OpenDone else OpenFailed)\<rparr>) V)"
    by (rule owned_set_run [OF assms(1,2)]) (use assms(3) in simp_all)
  then show ?thesis by (auto simp: settleOpen_def Let_def intro!: owned_set_session)
qed

lemma owned_close:
  assumes own: "owned M V" and ok: "workspace_ok M (workspace V)"
  shows "owned M (closeDocument M now n u V)"
    "n < length (sessionObjects V) \<Longrightarrow>
      \<not> isOpenIn (documentKey (storeEnv M) u) (sessionId (session_at V n)) (sv_registry (closeDocument M now n u V))"
    "faces (closeDocument M now n u V) = faces V" "run_faces (closeDocument M now n u V) = run_faces V"
    "liveSessions (closeDocument M now n u V) = liveSessions V"
proof -
  note closed = manager_close_opens [OF ok, of now u "sessionId (session_at V n)"]
  show "owned M (closeDocument M now n u V)"
    unfolding closeDocument_def by (rule owned_workspace [OF own closed]) simp
  have ev: "closedEvents (sessionReg (ws_store (manager_close M now u (sessionId (session_at V n)) (workspace V)))) = closedEvents (sv_registry V)"
    using closed by (simp add: opens_at_most_def)
  show "faces (closeDocument M now n u V) = faces V" "run_faces (closeDocument M now n u V) = run_faces V"
    "liveSessions (closeDocument M now n u V) = liveSessions V"
    unfolding closeDocument_def by (rule in_workspace_faces [OF ev])+
  assume "n < length (sessionObjects V)"
  then have "sessionId (session_at V n) \<noteq> LANGUAGE_CLIENT_ID"
    using owned_parts(2) [OF own] nth_mem [of n "sessionObjects V"] by (metis imageI ids_faces live_ids_def)
  then show "\<not> isOpenIn (documentKey (storeEnv M) u) (sessionId (session_at V n)) (sv_registry (closeDocument M now n u V))"
    by (simp add: closeDocument_def manager_close_def isOpenIn_notifyDidClose [OF workspace_okD(2) [OF ok]])
qed

lemma closed_may_settle:
  fixes now :: time
  assumes own: "owned M V" and ok: "workspace_ok M (workspace V)" and r: "r < length (openRuns V)"
  defines "V' \<equiv> closeDocument M now (runSession (openRuns V ! r)) (runUri (openRuns V ! r)) V"
  shows "owned M V'" "r < length (openRuns V')" "may_settle M r V'"
proof -
  note close = owned_close [OF own ok]
  note at = session_face [OF own r]
  show "owned M V'" unfolding V'_def by (rule close(1))
  show len: "r < length (openRuns V')" using arg_cong [OF close(4), of length] r by (simp add: V'_def)
  have same: "runSession (openRuns V' ! r) = runSession (openRuns V ! r)" "runUri (openRuns V' ! r) = runUri (openRuns V ! r)"
    using run_at [OF r] run_at [OF len] close(4) by (simp_all add: V'_def)
  have "length (sessionObjects V') = length (sessionObjects V)" using arg_cong [OF close(3), of length] by (simp add: V'_def)
  then have "sessionId (session_at V' (runSession (openRuns V ! r))) = sessionId (session_at V (runSession (openRuns V ! r)))"
    using face_at [of _ V'] face_at [OF at(1)] at(1) close(3) by (simp add: V'_def)
  then show "may_settle M r V'"
    using close(2) [OF at(1), of "runUri (openRuns V ! r)" now] unfolding may_settle_def Let_def same V'_def [symmetric] by simp
qed

lemma opened_reads:
  assumes ok: "workspace_ok M W" and "isOpenInClient (storeEnv M) u c (ws_store W)" and "openBegins M now u c W = Inr (reads, W')"
  shows "\<not> reads"
proof -
  have "\<exists>d. js_get (synced (ws_store W)) (documentKey (storeEnv M) u) = Some d"
    using open_has_document [OF workspace_okD(2) [OF ok]] assms(2) by (auto simp: isOpenInClient_def)
  then show ?thesis
    using assms(2,3) isOpenInClient_key [OF workspace_okD(1) [OF ok], of u c "ws_store W"] store_get_key [OF workspace_okD(1,2) [OF ok], of u]
    by (auto simp: openBegins_def manager_isOpen_def attachClient_def isOpenInClient_def Let_def js_has_get split: if_splits sum.splits)
qed

lemma owned_managerOpens:
  assumes own: "owned M V" and ok: "workspace_ok M (workspace V)" and r: "r < length (openRuns V)"
    and stage: "runStage (openRuns V ! r) = OpenWaits"
    and live: "\<not> sessionDisposed (session_at V (runSession (openRuns V ! r)))"
    and was: "wasOpen \<Longrightarrow> openIn M (runUri (openRuns V ! r)) (sessionId (session_at V (runSession (openRuns V ! r)))) V"
  shows "owned M (managerOpens M now r wasOpen V)"
proof -
  let ?n = "runSession (openRuns V ! r)" and ?u = "runUri (openRuns V ! r)"
  let ?c = "sessionId (session_at V ?n)"
  note at = session_face [OF own r]
  note alive = live_session [OF own at(1) live]
  show ?thesis
  proof (cases "openBegins M now ?u ?c (workspace V)")
    case (Inl e)
    have "owned M (settleOpen M r False V)" by (rule owned_settle [OF own r]) (simp add: may_settle_def Let_def stage)
    with Inl show ?thesis by (simp add: managerOpens_def Let_def)
  next
    case (Inr x)
    obtain reads W where x: "x = (reads, W)" by (cases x)
    note opens = open_begins_opens [OF workspace_okD(2) [OF ok] Inr [unfolded x]]
    let ?V = "in_workspace M W V"
    have own': "owned M ?V" by (rule owned_workspace [OF own opens]) (use alive in \<open>simp add: js_has_get\<close>)
    have ev: "closedEvents (sessionReg (ws_store W)) = closedEvents (sv_registry V)" using opens by (simp add: opens_at_most_def)
    have len: "r < length (openRuns ?V)" using arg_cong [OF in_workspace_faces(2) [OF ev, of M], of length] r by simp
    have "runStage (openRuns ?V ! r) = OpenWaits"
      using run_at [OF r] run_at [OF len] in_workspace_faces(2) [OF ev, of M] stage by simp
    moreover have "\<not> (reads \<and> wasOpen)" using was opened_reads [OF ok _ Inr [unfolded x]] by (auto simp: openIn_def)
    ultimately have "owned M (set_run r (\<lambda>run. run\<lparr>runStage := (if reads then OpenReads wasOpen else OpenStands wasOpen)\<rparr>) ?V)"
      by (intro owned_set_run [OF own' len]) (auto simp: may_settle_def Let_def)
    with Inr x show ?thesis by (simp add: managerOpens_def Let_def)
  qed
qed

lemma owned_openReady:
  assumes own: "owned M V" and ok: "workspace_ok M (workspace V)" and step: "openReady M now r V = Some V'"
  shows "owned M V'"
proof -
  let ?run = "openRuns V ! r"
  let ?n = "runSession ?run"
  have r: "r < length (openRuns V)" and stage: "runStage ?run = OpenWaits" using step by (auto simp: openReady_def split: if_splits)
  note at = session_face [OF own r]
  have settle: "may_settle M r V" by (simp add: may_settle_def Let_def stage)
  let ?wasOpen = "openIn M (runUri ?run) (sessionId (session_at V ?n)) V"
  let ?V1 = "if ?wasOpen then V
    else set_session ?n (\<lambda>s. s\<lparr>openOptionsByUri := js_set (canonicalKey M (runUri ?run)) (runOptions ?run) (openOptionsByUri s)\<rparr>) V"
  show ?thesis
  proof (cases "sessionDisposed (session_at V ?n)")
    case True
    then show ?thesis using step owned_settle [OF own r settle] by (auto simp: openReady_def assertLive_def Let_def split: if_splits)
  next
    case False
    then have V': "V' = managerOpens M now r ?wasOpen ?V1" using step by (auto simp: openReady_def assertLive_def Let_def split: if_splits)
    have own1: "owned M ?V1" using owned_set_session [OF own] own by simp
    have "session_at ?V1 ?n = session_at V ?n \<or> sessionDisposed (session_at ?V1 ?n) = sessionDisposed (session_at V ?n) \<and>
        sessionId (session_at ?V1 ?n) = sessionId (session_at V ?n)" using at(1) by simp
    then have "sessionDisposed (session_at ?V1 ?n) = sessionDisposed (session_at V ?n)" "sessionId (session_at ?V1 ?n) = sessionId (session_at V ?n)"
      by auto
    moreover have "workspace ?V1 = workspace V" "openRuns ?V1 = openRuns V" by simp_all
    ultimately show ?thesis
      unfolding V' by (intro owned_managerOpens [OF own1]) (use ok r stage False in \<open>simp_all add: openIn_def\<close>)
  qed
qed

lemma owned_createReady:
  assumes own: "owned M V" and ok: "workspace_ok M (workspace V)" and step: "createReady M now r good V = Some V'"
  shows "owned M V'"
proof -
  have r: "r < length (openRuns V)" and stage: "runStage (openRuns V ! r) = OpenWaits"
    using step by (auto simp: createReady_def split: if_splits)
  have settle: "may_settle M r V" by (simp add: may_settle_def Let_def stage)
  show ?thesis
  proof (cases "create_check M good (runSession (openRuns V ! r)) (runUri (openRuns V ! r)) V")
    case None
    then have "\<not> sessionDisposed (session_at V (runSession (openRuns V ! r)))" by (auto simp: create_check_def assertLive_def split: if_splits)
    then show ?thesis using None step owned_managerOpens [OF own ok r stage, of False now] by (auto simp: createReady_def Let_def split: if_splits)
  qed (use step owned_settle [OF own r settle] in \<open>auto simp: createReady_def Let_def split: if_splits\<close>)
qed

lemma owned_openRead:
  assumes own: "owned M V" and ok: "workspace_ok M (workspace V)" and step: "openRead M now r lang v tx V = Some V'"
  shows "owned M V'"
proof -
  let ?run = "openRuns V ! r"
  let ?c = "sessionId (session_at V (runSession ?run))"
  have r: "r < length (openRuns V)" using step by (auto simp: openRead_def split: if_splits)
  then obtain wasOpen where stage: "runStage ?run = OpenReads wasOpen"
    using step by (auto simp: openRead_def Let_def split: if_splits open_stage.splits)
  have settled: "owned M (settleOpen M r False V)" by (rule owned_settle [OF own r]) (simp add: may_settle_def Let_def stage)
  have "V' = settleOpen M r False V \<or> (\<exists>W t. openTakes M now (runUri ?run) lang v t (runText ?run \<noteq> None) ?c (workspace V) = Inr W \<and>
      V' = set_run r (\<lambda>run. run\<lparr>runStage := OpenStands wasOpen\<rparr>) (in_workspace M W V))"
    using step r stage by (auto simp: openRead_def Let_def split: if_splits option.splits sum.splits)
  then show ?thesis
  proof (elim disjE exE conjE)
    fix W t
    assume W: "openTakes M now (runUri ?run) lang v t (runText ?run \<noteq> None) ?c (workspace V) = Inr W"
      and V': "V' = set_run r (\<lambda>run. run\<lparr>runStage := OpenStands wasOpen\<rparr>) (in_workspace M W V)"
    have opens: "opens_at_most (Some (documentKey (storeEnv M) (runUri ?run), ?c)) (sv_store V) (ws_store W)"
      by (rule open_takes_opens [OF workspace_okD(2) [OF ok] W])
    then have ev: "closedEvents (sessionReg (ws_store W)) = closedEvents (sv_registry V)" by (simp add: opens_at_most_def)
    note same = in_workspace_faces [OF ev, of M]
    have len: "r < length (openRuns (in_workspace M W V))" using arg_cong [OF same(2), of length] r by simp
    have at: "runSession (openRuns (in_workspace M W V) ! r) = runSession ?run" "runUri (openRuns (in_workspace M W V) ! r) = runUri ?run"
      using run_at [OF r] run_at [OF len] same(2) by simp_all
    have "owned_in (storeEnv M) (faces V) (liveSessions V) ((run_faces V)[r := (runSession ?run, runUri ?run, OpenStands wasOpen)])
        (sessionReg (ws_store W))"
      by (rule owned_takes [OF own [unfolded owned_def] _ run_at [OF r, unfolded stage]])
        (use opens r session_face(2) [OF own r] in \<open>auto simp: opens_at_most_def\<close>)
    then show ?thesis unfolding V' by (simp add: owned_def run_faces_set_run same at)
  qed (simp add: settled)
qed

lemma owned_openEnds:
  assumes own: "owned M V" and ok: "workspace_ok M (workspace V)" and step: "openEnds M now r V = Some V'"
  shows "owned M V'"
proof -
  let ?run = "openRuns V ! r"
  let ?n = "runSession ?run"
  let ?s = "session_at V ?n"
  have r: "r < length (openRuns V)" using step by (auto simp: openEnds_def split: if_splits)
  then obtain wasOpen where stage: "runStage ?run = OpenStands wasOpen"
    using step by (auto simp: openEnds_def Let_def split: if_splits open_stage.splits)
  note at = session_face [OF own r]
  have settled: "may_settle M r V \<Longrightarrow> owned M (settleOpen M r good V)" for good by (rule owned_settle [OF own r])
  note closed = closed_may_settle [OF own ok r, of now]
  have closed_settled: "owned M (settleOpen M r good (closeDocument M now ?n (runUri ?run) V))" for good
    by (rule owned_settle [OF closed])
  show ?thesis
  proof (cases "sessionDisposed ?s")
    case True
    have "may_settle M r V" if "\<not> (\<not> wasOpen \<and> getSession (sessionId ?s) V = None)"
      using that stage by (auto simp: may_settle_def Let_def getSession_def js_has_get)
    with True step r stage settled closed_settled show ?thesis by (auto simp: openEnds_def Let_def split: if_splits)
  next
    case False
    have "may_settle M r V" using live_session [OF own at(1) False] by (simp add: may_settle_def Let_def js_has_get)
    with False step r stage settled closed_settled show ?thesis by (auto simp: openEnds_def Let_def split: if_splits)
  qed
qed

lemma owned_openDocument:
  assumes own: "owned M V" and n: "n < length (sessionObjects V)"
  shows "owned M (snd (openDocument M n u options b V))"
proof (cases "js_get (pendingOpens (session_at V n)) (canonicalKey M u)")
  case (Some p)
  have "owned M (set_run p (\<lambda>run. run\<lparr>byOpen := byOpen run \<or> b\<rparr>) V)"
  proof (cases "p < length (openRuns V)")
    case True
    then show ?thesis by (rule owned_set_run [OF own]) (use session_face(3) [OF own True] in simp_all)
  next
    case False
    then show ?thesis using own by (subst owned_cong [where V = V]) (simp_all add: run_faces_def list_update_beyond)
  qed
  with Some show ?thesis by (simp add: openDocument_def Let_def)
next
  case None
  let ?run = "\<lparr>runSession = n, runUri = u, runOptions = options, runText = None, runStage = OpenWaits, byOpen = b, createdAt = None\<rparr>"
  have "owned M (V\<lparr>openRuns := openRuns V @ [?run]\<rparr>)"
    using owned_new_run [OF own [unfolded owned_def], of n u] n by (simp add: owned_def faces_def run_faces_def)
  with None show ?thesis by (auto simp: openDocument_def Let_def intro!: owned_set_session)
qed

lemma owned_same_opens: "owned M V \<Longrightarrow> sessionReg (ws_store W) = sv_registry V \<Longrightarrow> owned M (in_workspace M W V)"
  by (rule owned_workspace [where x = None]) (simp_all add: opens_same)

lemma owned_logs:
  "owned M V \<Longrightarrow> owned M (recordWriteNumber M n u w V)" "owned M V \<Longrightarrow> owned M (log_write n u w v V)"
  by (auto simp: recordWriteNumber_def log_write_def Let_def intro!: owned_set_session split: option.split)

lemma owned_fold_records: "owned M V \<Longrightarrow> owned M (fold (\<lambda>u. recordWriteNumber M n u w) us V)"
  by (induction us arbitrary: V) (auto intro: owned_logs)

lemma owned_apply_texts: "owned M V \<Longrightarrow> owned M (snd (apply_texts M n w us V))"
proof (induction us arbitrary: V)
  case (Cons p us)
  obtain u tx where p: "p = (u, tx)" by (cases p)
  show ?case
  proof (cases "manager_update M u tx (sessionId (session_at V n)) (workspace V)")
    case (Inr x)
    obtain v W where x: "x = (v, W)" by (cases x)
    have "owned M (log_write n u w v (in_workspace M W V))"
      by (rule owned_logs(2) [OF owned_same_opens [OF Cons.prems update_registry [OF Inr [unfolded x]]]])
    from Cons.IH [OF this] show ?thesis by (simp add: p Inr x case_prod_beta Let_def)
  qed (use Cons in \<open>simp add: p case_prod_beta Let_def\<close>)
qed simp

subsection \<open>Runs\<close>

lemma openDocument_owned:
  "owned M V \<Longrightarrow> n < length (sessionObjects V) \<Longrightarrow> openDocument M n u options b V = (r, V') \<Longrightarrow> owned M V'"
  using owned_openDocument [of M V n u options b] by simp

lemma owned_holds: "owned M (V\<lparr>withOpens := hs, nextHold := i\<rparr>) = owned M V" "owned M (V\<lparr>withOpens := hs\<rparr>) = owned M V"
  by (rule owned_cong; simp add: faces_def run_faces_def)+

lemma owned_withOpenEnds:
  assumes own: "owned M V" and ok: "workspace_ok M (workspace V)" and step: "withOpenEnds M now h V = Some V'"
  shows "owned M V'"
proof -
  obtain hold where hold: "js_get (withOpens V) h = Some hold" using step by (auto simp: withOpenEnds_def split: option.splits)
  let ?n = "holdSession hold" and ?key = "canonicalKey M (holdUri hold)"
  let ?V1 = "V\<lparr>withOpens := js_delete h (withOpens V)\<rparr>"
  let ?V2 = "set_session ?n (\<lambda>s. s\<lparr>withOpenHolds := js_delete ?key (withOpenHolds s)\<rparr>) ?V1"
  have own1: "owned M ?V1" using own by (simp add: owned_holds)
  have sets: "owned M (set_session ?n (\<lambda>s. s\<lparr>withOpenHolds := g s\<rparr>) ?V1)" for g by (rule owned_set_session [OF own1]) simp_all
  have closed: "owned M (closeDocument M now ?n (holdUri hold) ?V2)" by (rule owned_close(1) [OF sets]) (simp add: ok)
  have "(\<exists>g. V' = set_session ?n (\<lambda>s. s\<lparr>withOpenHolds := g s\<rparr>) ?V1) \<or> V' = closeDocument M now ?n (holdUri hold) ?V2"
    using step hold by (auto simp: withOpenEnds_def Let_def split: if_splits)
  then show ?thesis using sets closed by auto
qed

lemma owned_session_step:
  assumes own: "owned M V" and ok: "workspace_ok M (workspace V)" and step: "session_step M op V = Some V'"
    and "case called_on op of None \<Rightarrow> True | Some n \<Rightarrow> n < length (sessionObjects V)"
  shows "owned M V'"
proof (cases op)
  case (SvCreateSession now c token)
  then show ?thesis using step owned_createSession [OF own ok, of now c token] by (auto split: sum.splits)
next
  case (SvDispose now n cause)
  then show ?thesis using step assms(4) owned_dispose [OF own ok] by auto
next
  case (SvOpen n u options)
  have "owned M (set_session n (\<lambda>s. s\<lparr>heldByOpen := h s\<rparr>) V)" for h by (rule owned_set_session [OF own]) simp_all
  from openDocument_owned [OF this] show ?thesis using SvOpen step assms(4) by (auto simp: openCalled_def split: option.splits prod.splits)
next
  case (SvOpenReady now r)
  then show ?thesis using step owned_openReady [OF own ok] by simp
next
  case (SvOpenRead now r lang v tx)
  then show ?thesis using step owned_openRead [OF own ok] by simp
next
  case (SvOpenEnds now r)
  then show ?thesis using step owned_openEnds [OF own ok] by simp
next
  case (SvCreate n u tx)
  then show ?thesis
    using step assms(4) owned_new_run [OF own [unfolded owned_def], of n u]
    by (auto simp: createCalled_def owned_def faces_def run_faces_def split: option.splits)
next
  case (SvCreateReady now r good)
  then show ?thesis using step owned_createReady [OF own ok] by simp
next
  case (SvWithOpen n u)
  have "owned M (set_session n (\<lambda>s. s\<lparr>heldByOpen := h s, withOpenHolds := g s\<rparr>) V)" for h g by (rule owned_set_session [OF own]) simp_all
  from openDocument_owned [OF this] show ?thesis
    using SvWithOpen step assms(4) by (auto simp: withOpenCalled_def owned_holds Let_def split: option.splits prod.splits)
next
  case (SvWithOpenOpened h)
  have "owned M (set_session n (\<lambda>s. s\<lparr>heldByOpen := g s\<rparr>) (V\<lparr>withOpens := hs\<rparr>))" for n g hs
    by (rule owned_set_session) (simp_all add: owned_holds own)
  then show ?thesis
    using SvWithOpenOpened step own by (auto simp: withOpenOpened_def owned_holds Let_def split: option.splits if_splits)
next
  case (SvWithOpenEnds now h)
  then show ?thesis using step owned_withOpenEnds [OF own ok] by simp
next
  case (SvUpdate skips n a tx)
  then show ?thesis
    using step by (auto simp: updateApply_def Let_def split: option.splits sum.splits intro!: owned_logs owned_same_opens [OF own] dest: update_registry)
next
  case (SvUpdateAll skips unbuilt n ws txs w)
  have "owned M V1" if "apply_texts M n w us V = (answers, V1)" for us answers V1
    using owned_apply_texts [OF own, of n w us] that by simp
  then show ?thesis
    using SvUpdateAll step by (auto simp: updateAllApply_def Let_def split: option.splits sum.splits prod.splits if_splits intro!: owned_fold_records)
next
  case (SvPersist n u base)
  then show ?thesis
    using step by (auto simp: persistDocument_def if_live_def Let_def split: option.splits sum.splits if_splits intro!: owned_same_opens [OF own] dest: save_store)
next
  case (SvSavePersists n u)
  then show ?thesis
    using step by (auto simp: persistDocument_def Let_def split: option.splits sum.splits if_splits intro!: owned_same_opens [OF own] dest: save_store)
next
  case (SvDelete inside n u base)
  then show ?thesis
    using step by (auto simp: deleteDocument_def if_live_def Let_def split: option.splits sum.splits if_splits intro!: owned_same_opens [OF own] dest: delete_store)
next
  case (SvClose now n u)
  then show ?thesis using step owned_close(1) [OF own ok] by (auto simp: if_live_def split: if_splits)
next
  case (SvWorkspace wop)
  then show ?thesis
    using step owned_elsewhere [OF own ok, of wop] by (auto simp: ids_faces split: if_splits option.splits)
qed

lemma owned_step: "owned M V \<Longrightarrow> workspace_ok M (workspace V) \<Longrightarrow> service_step M op V = Some V' \<Longrightarrow> owned M V'"
  using owned_session_step [of M V op V'] by (auto simp: service_step_def split: option.splits if_splits)

lemma owned_run_service: "service_ok M V \<Longrightarrow> owned M V \<Longrightarrow> owned M (sv.run M ops V)"
proof (induction ops arbitrary: V)
  case (Cons op ops)
  show ?case
  proof (cases "service_step M op V")
    case None
    with Cons show ?thesis by simp
  next
    case (Some V')
    have "owned M V'" by (rule owned_step [OF Cons.prems(2) _ Some]) (use Cons.prems(1) in \<open>simp add: service_ok_def\<close>)
    with Cons.IH [OF service_step_ok [OF Cons.prems(1) Some]] Some show ?thesis by simp
  qed
qed simp

lemma owned_opens:
  assumes own: "owned M V" and n: "n < length (sessionObjects V)" and o: "openIn M u (sessionId (session_at V n)) V"
  shows "getSession (sessionId (session_at V n)) V \<noteq> None \<or>
    (\<exists>run \<in> set (openRuns V). runStage run = OpenStands False \<and> sessionId (session_at V (runSession run)) = sessionId (session_at V n) \<and>
       documentKey (storeEnv M) (runUri run) = documentKey (storeEnv M) u)"
proof (cases "js_has (liveSessions V) (sessionId (session_at V n))")
  case True
  then show ?thesis by (auto simp: getSession_def js_has_get)
next
  case False
  have "sessionId (session_at V n) \<in> fst ` set (faces V)" using n by (simp add: ids_faces)
  with False o own have "to_be_ended (storeEnv M) (faces V) (run_faces V) (documentKey (storeEnv M) u) (sessionId (session_at V n))"
    unfolding owned_def owned_in_def opens_owned_def openIn_def isOpenInClient_def by blast
  then obtain m v where "(m, v, OpenStands False) \<in> set (run_faces V)" "fst (faces V ! m) = sessionId (session_at V n)"
    "documentKey (storeEnv M) v = documentKey (storeEnv M) u" unfolding to_be_ended_def by blast
  moreover from this obtain run where "run \<in> set (openRuns V)" "m = runSession run" "v = runUri run" "runStage run = OpenStands False"
    by (auto simp: run_faces_def)
  moreover have "m < length (sessionObjects V)"
    using own calculation(1) by (auto simp: owned_def owned_in_def runs_known_def)
  ultimately show ?thesis by (auto simp: face_at)
qed

lemma ended_open_closes:
  assumes own: "owned M V" and ok: "workspace_ok M (workspace V)" and r: "r < length (openRuns V)"
    and stage: "runStage (openRuns V ! r) = OpenStands False"
    and gone: "getSession (sessionId (session_at V (runSession (openRuns V ! r)))) V = None" and step: "openEnds M now r V = Some V'"
  shows "\<not> openIn M (runUri (openRuns V ! r)) (sessionId (session_at V (runSession (openRuns V ! r)))) V'"
proof -
  let ?n = "runSession (openRuns V ! r)"
  have "sessionDisposed (session_at V ?n)"
    using live_session [OF own session_face(1) [OF own r]] gone by (auto simp: getSession_def)
  then have "V' = settleOpen M r False (closeDocument M now ?n (runUri (openRuns V ! r)) V)"
    using step r stage gone by (simp add: openEnds_def Let_def)
  then have "sv_store V' = sv_store (closeDocument M now ?n (runUri (openRuns V ! r)) V)" by simp
  then show ?thesis using owned_close(2) [OF own ok session_face(1) [OF own r]] by (simp add: openIn_def isOpenInClient_def)
qed

end
