(* ===== verification/SessionProperties.thy ===== *)
theory SessionProperties
  imports SessionOwners
begin

section \<open>What client sessions promise\<close>

text \<open>
  Properties of the sessions of the model service over every run of \<open>service_step\<close>: what gated writes, sets of writes,
  write numbers and saves guarantee their clients.
\<close>

lemma reached_ok:
  assumes "env_ok (storeEnv M)" and "store_ok (storeEnv M) (textStore Y)" and "V = sv.run M ops (new_service (new_workspace Y fs))"
  shows "service_ok M V" "workspace_ok M (workspace V)"
proof -
  show "service_ok M V" unfolding assms(3) by (rule service_run_ok [OF assms(1,2)])
  then show "workspace_ok M (workspace V)" by (simp add: service_ok_def)
qed

subsection \<open>Gated writes\<close>

lemma lands_version:
  assumes "workspace_ok M W" and "lands S (ws_store W) (canonicalKey M u) tx v"
  shows "store_version (storeEnv M) (canonicalKey M u) (ws_store W) = v"
  using assms(2) store_version_get [OF workspace_okD(1,2) [OF assms(1)], of "canonicalKey M u"] workspace_okD(1) [OF assms(1)]
  by (auto simp: lands_def)

text \<open>
  C33: A write that names its base lands exactly on it: it is applied only where its session has the document open, no
  delete of it is under way and the document stands at the version named; the document then holds the text written, the
  version answered is that of the text, one past the base where the text is another one and the base itself where it
  is the same, and no other document changes.
\<close>

theorem gated_write_takes_base:
  assumes "env_ok (storeEnv M)" and "store_ok (storeEnv M) (textStore Y)"
    and "V = sv.run M ops (new_service (new_workspace Y fs))" and "updateApply M skips n a tx V = Inr (v, V')"
  shows "openIn M (canonicalKey M (writeUri a)) (sessionId (session_at V n)) V \<and> \<not> isDeleting M (canonicalKey M (writeUri a)) (workspace V) \<and>
    (\<forall>b. writeBase a = BaseVersion b \<longrightarrow> store_version (storeEnv M) (canonicalKey M (writeUri a)) (sv_store V) = b \<and> v \<in> {b, b + 1}) \<and>
    lands_only (sv_store V) (sv_store V') (canonicalKey M (writeUri a)) tx v"
proof -
  note W = reached_ok(2) [OF assms(1-3)]
  note landed = updateApply_lands [OF W assms(4)]
  note checked = write_check_None [OF landed(1)]
  have "v \<in> {b, b + 1}" if "writeBase a = BaseVersion b" for b
    using landed(2) checked(3) [OF that] store_version_get [OF workspace_okD(1,2) [OF W], of "canonicalKey M (writeUri a)"] assms(1)
    by (auto simp: lands_only_def lands_def split: if_splits)
  then show ?thesis using landed(2) checked by blast
qed

text \<open>
  C3: No update is lost. Once a write was applied and answered a version, no write of the same document that is based on an
  earlier version is ever applied again, by whatever session, however it names the document, and through whatever closes,
  reopens, deletes and ends of sessions lie between: it is refused at the door and in the step that would apply it.
\<close>

theorem stale_write_refused:
  assumes "env_ok (storeEnv M)" and "store_ok (storeEnv M) (textStore Y)"
    and "V = sv.run M ops (new_service (new_workspace Y fs))" and "updateApply M skips n a tx V = Inr (v, V')"
    and "canonicalKey M (writeUri a') = canonicalKey M (writeUri a)" and "writeBase a' = BaseVersion b" and "b < v"
  shows "(\<exists>e. updateApply M skips' m a' tx' (sv.run M later V') = Inl e) \<and> (\<exists>e. updateDoor M skips' unbuilt m a' (sv.run M later V') = Some e)"
proof -
  let ?V2 = "sv.run M later V'" and ?key = "canonicalKey M (writeUri a)"
  note V = reached_ok(1) [OF assms(1-3)] and W = reached_ok(2) [OF assms(1-3)]
  have follow: "follows M (workspace V) (workspace V')" using session_step_follows [of M "SvUpdate skips n a tx" V V'] assms(4) by simp
  have V': "service_ok M V'" using follows_ok [OF W follow] updateApply_numbers [OF V assms(4)] by (simp add: service_ok_def)
  then have V2: "workspace_ok M (workspace ?V2)" using sv.run_inv [of M V'] by (simp add: service_ok_def)
  obtain h where "standing (sv_store V') ?key = Some (v, h)"
    using updateApply_lands(2) [OF W assms(4)] lands_standing [of "sv_store V" "sv_store V'" ?key tx v] by (auto simp: lands_only_def)
  then obtain v2 h2 where v2: "standing (sv_store ?V2) ?key = Some (v2, h2)" "v \<le> v2"
    using moved_past [OF sv.run_progress [OF V']] by blast
  have refused: "write_check M skips' m a' ?V2 \<noteq> None"
  proof
    assume none: "write_check M skips' m a' ?V2 = None"
    obtain d where "js_get (synced (sv_store ?V2)) ?key = Some d" "store_version (storeEnv M) ?key (sv_store ?V2) = docVersion d"
      using opened_document [OF V2] write_check_None(1) [OF none] assms(5) by metis
    with v2 write_check_None(3) [OF none assms(6)] assms(5,7) show False by (simp add: standing_def)
  qed
  then show ?thesis by (auto simp: updateApply_def updateDoor_def orElse_def Let_def split: option.split)
qed

text \<open>
  C5: A set of writes is applied whole or not at all: where any of them would be refused, the step answers the refusal and
  applies nothing; where it is applied, every one of its documents stood at the base its write names and was open, each
  then holds the text written for it at the version answered, and no document outside the set changes.
\<close>

theorem updates_all_or_none:
  assumes "env_ok (storeEnv M)" and "store_ok (storeEnv M) (textStore Y)"
    and "V = sv.run M ops (new_service (new_workspace Y fs))"
    and "distinct (keys_of M ws)" and "length txs = length ws"
  shows "case updateAllApply M skips unbuilt n ws txs w V of
      Inl e \<Rightarrow> service_step M (SvUpdateAll skips unbuilt n ws txs w) V = None
    | Inr (answers, V') \<Rightarrow>
        (\<forall>i < length ws. \<exists>v. answers ! i = Inr v \<and>
           lands (sv_store V) (sv_store V') (canonicalKey M (writeUri (ws ! i))) (txs ! i) v \<and>
           openIn M (canonicalKey M (writeUri (ws ! i))) (sessionId (session_at V n)) V \<and>
           (\<forall>b. writeBase (ws ! i) = BaseVersion b \<longrightarrow> store_version (storeEnv M) (canonicalKey M (writeUri (ws ! i))) (sv_store V) = b)) \<and>
        (\<forall>k. k \<notin> set (keys_of M ws) \<longrightarrow> js_get (synced (sv_store V')) k = js_get (synced (sv_store V)) k)"
proof (cases "updateAllApply M skips unbuilt n ws txs w V")
  case (Inl e)
  then show ?thesis by (simp add: service_step_def)
next
  case (Inr r)
  obtain answers V' where r: "r = (answers, V')" by (cases r)
  note W = reached_ok(2) [OF assms(1-3)]
  note landed = updateAll_lands [OF W Inr [unfolded r] assms(4,5)]
  have "\<exists>v. answers ! i = Inr v \<and>
       lands (sv_store V) (sv_store V') (canonicalKey M (writeUri (ws ! i))) (txs ! i) v \<and>
       openIn M (canonicalKey M (writeUri (ws ! i))) (sessionId (session_at V n)) V \<and>
       (\<forall>b. writeBase (ws ! i) = BaseVersion b \<longrightarrow> store_version (storeEnv M) (canonicalKey M (writeUri (ws ! i))) (sv_store V) = b)"
    if i: "i < length ws" for i
    using landed(3) [OF i] write_check_None [OF landed(2) [OF nth_mem [OF i]]] by blast
  then show ?thesis using Inr r landed(4) by auto
qed

subsection \<open>Write numbers\<close>

lemma highest_held:
  "case highest_held v rs most of
     None \<Rightarrow> most = None \<and> (\<forall>r \<in> set rs. v < snd r)
   | Some h \<Rightarrow> (most = Some h \<or> (\<exists>r \<in> set rs. fst r = h \<and> snd r \<le> v)) \<and> (\<forall>m. most = Some m \<longrightarrow> m \<le> h) \<and>
       (\<forall>r \<in> set rs. snd r \<le> v \<longrightarrow> fst r \<le> h)"
  unfolding highest_held_def
proof (induction rs arbitrary: most)
  case (Cons r rs)
  show ?case using Cons.IH [of "if snd r \<le> v \<and> (case most of None \<Rightarrow> True | Some h \<Rightarrow> h < fst r) then Some (fst r) else most"]
    by (force split: option.splits if_splits)
qed (simp split: option.split)

lemma highest_held_ge:
  assumes "r \<in> set rs" and "snd r \<le> v"
  shows "\<exists>h \<ge> fst r. highest_held v rs None = Some h"
proof (cases "highest_held v rs None")
  case None
  then show ?thesis using highest_held [where most = None and v = v and rs = rs] assms by fastforce
next
  case (Some h)
  then show ?thesis using highest_held [where most = None and v = v and rs = rs] assms by auto
qed

lemma held_landed:
  assumes "service_ok M V" and "n < length (sessionObjects V)" and "heldWrite M n u v V = Some h"
  shows "\<exists>at. at \<le> v \<and> (canonicalKey M u, h, at) \<in> set (appliedWrites (session_at V n))"
proof -
  obtain r where r: "r \<in> set (numbers_of (session_at V n) (canonicalKey M u))" "fst r = h" "snd r \<le> v"
    using highest_held [where most = None and v = v and rs = "numbers_of (session_at V n) (canonicalKey M u)"] assms(3) by (auto simp: heldWrite_def)
  have "numbers_ok (sv_store V) (session_at V n)" using assms(1,2) by (simp add: service_ok_def all_numbers_ok_def)
  from numbers_of_ok [OF this r(1)] r(2,3) show ?thesis by (cases r) auto
qed

lemma recorded_held:
  assumes "n < length (sessionObjects V)" and "store_version (storeEnv M) (canonicalKey M u) (sv_store V) \<le> x"
  shows "\<exists>h \<ge> w. heldWrite M n u x (recordWriteNumber M n (canonicalKey M u) (Some w) V) = Some h"
proof -
  let ?r = "(w, store_version (storeEnv M) (canonicalKey M u) (sv_store V))"
  let ?rs = "numbers_of (session_at V n) (canonicalKey M u) @ [?r]"
  have "?r \<in> set (drop (length ?rs - WRITE_RECORDS_KEPT) ?rs)" by (auto simp: WRITE_RECORDS_KEPT_def)
  from highest_held_ge [OF this] assms(2)
  have "\<exists>h \<ge> w. highest_held x (drop (length ?rs - WRITE_RECORDS_KEPT) ?rs) None = Some h" by simp
  then show ?thesis using assms(1) by (simp add: heldWrite_def recordWriteNumber_def numbers_of_def Let_def js_get_set)
qed

text \<open>
  C34: A write number is reported only for text that holds the write, and is reported for all such text at once. After
  a numbered write was applied and answered a version, the session names for that version and every later one a number no
  lower; and each number it names, for any document and version, is one of its writes which answered a version not after it.
\<close>

theorem held_write_true:
  assumes "env_ok (storeEnv M)" and "store_ok (storeEnv M) (textStore Y)"
    and "V = sv.run M ops (new_service (new_workspace Y fs))" and "n < length (sessionObjects V)"
    and "updateApply M skips n a tx V = Inr (v, V')" and "writeNumber a = Some w"
  shows "(\<forall>x \<ge> v. \<exists>h \<ge> w. heldWrite M n (writeUri a) x V' = Some h) \<and>
    (\<forall>u x h. heldWrite M n u x V' = Some h \<longrightarrow> (\<exists>at. at \<le> x \<and> (canonicalKey M u, h, at) \<in> set (appliedWrites (session_at V' n)))) \<and>
    (canonicalKey M (writeUri a), w, v) \<in> set (appliedWrites (session_at V' n))"
proof -
  let ?key = "canonicalKey M (writeUri a)"
  note V = reached_ok(1) [OF assms(1-3)] and W = reached_ok(2) [OF assms(1-3)]
  obtain W' where W': "manager_update M ?key tx (sessionId (session_at V n)) (workspace V) = Inr (v, W')"
    and V': "V' = recordWriteNumber M n ?key (Some w) (log_write n ?key (Some w) v (in_workspace M W' V))"
    using assms(5,6) by (auto simp: updateApply_def Let_def split: option.splits sum.splits)
  let ?V1 = "log_write n ?key (Some w) v (in_workspace M W' V)"
  have nums: "all_numbers_ok V" using V by (simp add: service_ok_def)
  have n: "n < length (sessionObjects ?V1)" using assms(4) by (simp add: sessions_frame_log(1) appliedWrites_workspace(1))
  have "store_version (storeEnv M) ?key (sv_store ?V1) = v" using log_in_workspace(2) [OF W nums W'] by simp
  then have found: "\<forall>x \<ge> v. \<exists>h \<ge> w. heldWrite M n (writeUri a) x V' = Some h" using recorded_held [OF n, of M "writeUri a"] unfolding V' by simp
  have "(?key, w, v) \<in> set (appliedWrites (session_at ?V1 n))"
    by (rule sessions_frame_log(3)) (use assms(4) in \<open>simp_all add: appliedWrites_workspace(1)\<close>)
  then have noted: "(?key, w, v) \<in> set (appliedWrites (session_at V' n))" unfolding V' by (simp add: appliedWrites_record(2))
  have "service_ok M V'"
    using updateApply_numbers [OF V assms(5)] log_in_workspace(1) [OF W nums W'] by (simp add: service_ok_def V')
  moreover have "n < length (sessionObjects V')" using n unfolding V' by (simp add: appliedWrites_record(1))
  ultimately show ?thesis using held_landed found noted by blast
qed

subsection \<open>Saves of a session\<close>

lemma save_call_kept:
  assumes ok: "workspace_ok M W" and "workspace_step M op W = Some W'" and s: "js_get (saveCalls W) j = Some s"
  shows "\<exists>t. js_get (saveCalls W') j = Some t \<and> same_call s t"
proof -
  have updated: "\<exists>t. js_get (js_set n r' (saveCalls W)) j = Some t \<and> same_call s t" if "js_get (saveCalls W) n = Some r" "same_call r r'" for n r r'
    using that s by (auto simp: js_get_set same_call_def)
  have same: "same_call s s" by (simp add: same_call_def)
  show ?thesis
  proof (cases op)
    case (WsSave u c)
    have "j < length (tasks (fileQueue W))" by (rule workspace_okD(5) [OF ok s])
    then show ?thesis
      using WsSave assms(2) s same
      by (auto simp: saveCalled_def Let_def enqueue_def js_get_set split: sum.splits option.splits prod.splits)
  next
    case (WsSaveTurn n)
    then show ?thesis using assms(2)
      by (auto simp: saveTurn_def Let_def set_save_def intro!: updated split: option.splits if_splits)
  next
    case (WsSaveRead n r)
    then show ?thesis using assms(2)
      by (auto simp: saveRead_def announce_save_def Let_def set_save_def intro!: updated split: option.splits if_splits)
  next
    case (WsSaveWritten n r)
    then show ?thesis using assms(2)
      by (auto simp: saveWritten_def announce_save_def Let_def set_save_def intro!: updated split: option.splits if_splits)
  next
    case (WsSaveResolves n)
    then show ?thesis using assms(2)
      by (auto simp: saveResolves_def set_save_def intro!: updated split: option.splits if_splits)
  next
    case (WsOpenTakes now u lang v tx supplied c)
    then show ?thesis using assms(2) s same by (auto simp: openTakes_def Let_def split: sum.splits option.splits bool.splits if_splits)
  qed (use assms(2) s same in \<open>auto simp: openBegins_def manager_update_def manager_close_def Let_def saveTaskSettles_def
      deleteBegins_def queueDeleteFile_def deleteRegistered_def deleteFileStarts_def deleteFileEnds_def deleteBuilt_def closeDeletingOpen_def
      deleteRefusedEnds_def buildUpdate_def split: if_splits sum.splits option.splits save_state.splits delete_stage.splits prod.splits\<close>)
qed

lemma save_call_stays:
  assumes "workspace_ok M W" and "follows M W W'" and "js_get (saveCalls W) j = Some s"
  shows "\<exists>t. js_get (saveCalls W') j = Some t \<and> same_call s t"
proof -
  have "\<exists>t. js_get (saveCalls (ws.run M ops W)) j = Some t \<and> same_call s t" for ops
    using assms(1,3)
  proof (induction ops arbitrary: W s)
    case (Cons op ops)
    show ?case
    proof (cases "workspace_step M op W")
      case (Some X)
      obtain t where t: "js_get (saveCalls X) j = Some t" "same_call s t" using save_call_kept [OF Cons.prems(1) Some Cons.prems(2)] by blast
      from Cons.IH [OF ws.step_inv [OF Cons.prems(1) Some] t(1)] t(2) Some show ?thesis by (auto simp: same_call_def)
    qed (use Cons in simp)
  qed (simp add: same_call_def)
  with assms(2) show ?thesis by (auto simp: follows_def)
qed

text \<open>
  C6: A save stores what its client saw, or later text. A persist that names its base takes the text at that version;
  and when its promise resolves, over any interleaving of sessions, saves and other work, the version it resolves to is not
  before the one taken, and exactly the text of the version resolved to was found or written in the file.
\<close>

theorem persist_stores_base:
  assumes "env_ok (storeEnv M)" and "store_ok (storeEnv M) (textStore Y)"
    and "V = sv.run M ops (new_service (new_workspace Y fs))" and "persistDocument M n u base V = Inr (task, V')"
    and "V2 = sv.run M later V'" and "js_get (saveCalls (workspace V2)) task = Some s" and "saveEnd s = SavedAs v"
  shows "(\<forall>b. base = BaseVersion b \<longrightarrow> store_version (storeEnv M) (canonicalKey M u) (sv_store V) = b) \<and>
    store_version (storeEnv M) (canonicalKey M u) (sv_store V) \<le> v \<and>
    (\<exists>j t. js_get (saveCalls (workspace V2)) j = Some t \<and> saveUri t = canonicalKey M u \<and> saveVersion t = v \<and>
       (j, Some (saveText t)) \<in> set (announcedSaves (workspace V2)))"
proof -
  note V = reached_ok [OF assms(1-3)]
  let ?key = "canonicalKey M u"
  have checked: "assertBaseVersion M ?key base V = None" and "\<exists>W. saveCalled M ?key (sessionId (session_at V n)) (workspace V) = Inr (task, W) \<and> workspace V' = W"
    using assms(4) by (auto simp: persistDocument_def Let_def split: option.splits sum.splits)
  then obtain W where W: "saveCalled M ?key (sessionId (session_at V n)) (workspace V) = Inr (task, W)" "workspace V' = W" by blast
  have base: "store_version (storeEnv M) ?key (sv_store V) = b" if "base = BaseVersion b" for b
    using checked that by (simp add: assertBaseVersion_def Let_def split: if_splits)
  have key: "canonical (storeEnv M) ?key = ?key" using assms(1) by (simp add: env_ok_def canonicalKey_def)
  obtain s0 where s0: "js_get (saveCalls W) task = Some s0" "saveUri s0 = ?key" "saveVersion s0 = store_version (storeEnv M) ?key (sv_store V)"
    using W(1) key by (auto simp: saveCalled_def store_version_def Let_def js_get_set split: option.splits prod.splits)
  have Wok: "workspace_ok M W" by (rule follows_ok [OF V(2) follows_calls(2) [OF W(1)]])
  have run: "follows M W (workspace V2)" using service_run_follows [of M V'] by (simp add: assms(5) W(2))
  from save_call_stays [OF Wok run s0(1)] assms(6) have same: "saveUri s = ?key" "saveVersion s = store_version (storeEnv M) ?key (sv_store V)"
    using s0(2,3) by (auto simp: same_call_def)
  from saved_stored [OF follows_ok [OF Wok run] assms(6,7)] same base show ?thesis by auto
qed

subsection \<open>The opens of ended sessions\<close>

text \<open>
  C7: The end of a session leaves nothing open behind. The live sessions are exactly those not disposed; a document is open
  under the id of a session of the service only while a session of that id lives, or while a call that opened it after its
  session had ended is about to end; and that call, when no new session holds the id, closes what it opened.
\<close>

theorem ended_session_leaves_no_open:
  assumes "env_ok (storeEnv M)" and "store_ok (storeEnv M) (textStore Y)"
    and "V = sv.run M ops (new_service (new_workspace Y fs))" and "n < length (sessionObjects V)"
  shows "(getSession (sessionId (session_at V n)) V = Some n \<longleftrightarrow> \<not> sessionDisposed (session_at V n)) \<and>
    (openIn M u (sessionId (session_at V n)) V \<and> getSession (sessionId (session_at V n)) V = None \<longrightarrow>
      (\<exists>r < length (openRuns V). runStage (openRuns V ! r) = OpenStands False \<and>
         sessionId (session_at V (runSession (openRuns V ! r))) = sessionId (session_at V n) \<and>
         documentKey (storeEnv M) (runUri (openRuns V ! r)) = documentKey (storeEnv M) u)) \<and>
    (\<forall>r now V'. r < length (openRuns V) \<and> runStage (openRuns V ! r) = OpenStands False \<and> runSession (openRuns V ! r) = n \<and>
       getSession (sessionId (session_at V n)) V = None \<and> openEnds M now r V = Some V' \<longrightarrow>
       \<not> openIn M (runUri (openRuns V ! r)) (sessionId (session_at V n)) V')"
proof -
  note ok = reached_ok [OF assms(1-3)]
  have own: "owned M V" unfolding assms(3) by (rule owned_run_service [OF new_service_ok [OF assms(1,2)] new_service_owned])
  have "getSession (sessionId (session_at V n)) V = Some n \<longleftrightarrow> \<not> sessionDisposed (session_at V n)"
    using owned_parts(1) [OF own] face_at [OF assms(4)] assms(4) by (simp add: live_faces_def getSession_def)
  moreover have "\<exists>r < length (openRuns V). runStage (openRuns V ! r) = OpenStands False \<and>
         sessionId (session_at V (runSession (openRuns V ! r))) = sessionId (session_at V n) \<and>
         documentKey (storeEnv M) (runUri (openRuns V ! r)) = documentKey (storeEnv M) u"
    if "openIn M u (sessionId (session_at V n)) V" "getSession (sessionId (session_at V n)) V = None"
    using owned_opens [OF own assms(4) that(1)] that(2) by (auto simp: in_set_conv_nth)
  moreover have "\<not> openIn M (runUri (openRuns V ! r)) (sessionId (session_at V n)) V'"
    if "r < length (openRuns V)" "runStage (openRuns V ! r) = OpenStands False" "runSession (openRuns V ! r) = n"
      "getSession (sessionId (session_at V n)) V = None" "openEnds M now r V = Some V'" for r now V'
    using ended_open_closes [OF own ok(2) that(1,2)] that(3-5) by simp
  ultimately show ?thesis by blast
qed

subsection \<open>A run to apply them to\<close>

text \<open>A session opens a document that its file holds; the calls below are made on it then.\<close>

definition opened_ops :: "unit service_op list" where
  "opened_ops =
     [SvCreateSession 0 ''form'' None, SvOpen 0 ''a'' None, SvOpenReady 0 0, SvOpenRead 0 0 ''x'' 1 (Some [7]), SvOpenEnds 0 0]"

abbreviation quiet_service :: "(unit, unit) service" where
  "quiet_service \<equiv> new_service (new_workspace empty_sync [])"

abbreviation opened_service :: "(unit, unit) service" where
  "opened_service \<equiv> sv.run plain_manager opened_ops quiet_service"

definition first_write :: write_args where
  "first_write = \<lparr>writeUri = ''a'', writeBase = BaseVersion 1, isModel = True, restores = False, writeNumber = Some 5\<rparr>"

lemmas service_eval = service_step_def createSession_def takeOver_def registerSession_def register_def in_workspace_def
  openCalled_def assertLive_def openDocument_def set_session_def set_run_def openReady_def managerOpens_def openBegins_def openIn_def
  openRead_def openEnds_def settleOpen_def canonicalKey_def new_session_def new_service_def hears_open_def
  isRegistered_def getSession_def RESERVED_CLIENT_IDS_def FRAMEWORK_CLIENT_IDS_def UNKNOWN_CLIENT_ID_def DOCUMENT_RELEASE_CLIENT_ID_def
  INTEGRITY_CLIENT_ID_def List.map_filter_simps workspace_eval plain_manager_def store_eval witness_lib_def witness_env_def documentKey_def Let_def

lemmas write_eval = updateApply_def write_check_def assertOpen_def isDeleting_def assertBaseVersion_def assertParses_def orElse_def
  recordWriteNumber_def log_write_def numbers_of_def first_write_def store_version_def applyContentChange_def commitChange_def update_doc_def
  updateAllApply_def updates_check_def assertCanBuild_def persistDocument_def WRITE_RECORDS_KEPT_def

lemmas create_eval = createCalled_def createReady_def create_check_def isReleaseDeferred_def isDeferred_def disposeSession_def heard_end_def
  dispose_handle_def closeSession_def beginClose_def unregister_def opensOf_def notifyDidCloseTextDocument_def removeOpen_def
  deferRelease_def defer_release_def release_unless_open_def recordLoss_def cancel_def isOpen_def
  store_markCreated_def markCreated_def multi_del_def

lemma opened_write: "\<exists>V'. updateApply plain_manager [] 0 first_write [8] opened_service = Inr (2, V')"
  by (simp add: opened_ops_def service_eval write_eval split del: if_split)

lemma opened_updates: "\<exists>V'. updateAllApply plain_manager [] [] 0 [first_write] [[8]] None opened_service = Inr ([Inr 2], V')"
  by (simp add: opened_ops_def service_eval write_eval split del: if_split)

abbreviation persisted_service :: "(unit, unit) service" where
  "persisted_service \<equiv> snd (projr (persistDocument plain_manager 0 ''a'' (BaseVersion 1) opened_service))"

definition save_steps :: "unit service_op list" where
  "save_steps = map SvWorkspace [WsSaveTurn 0, WsSaveRead 0 True, WsSaveWritten 0 True, WsSaveTaskSettles 0, WsSaveResolves 0]"

lemma opened_persist: "persistDocument plain_manager 0 ''a'' (BaseVersion 1) opened_service = Inr (0, persisted_service)"
  by (simp add: opened_ops_def service_eval write_eval split del: if_split)

lemma persist_resolved:
  "js_get (saveCalls (workspace (sv.run plain_manager save_steps persisted_service))) 0 =
     Some \<lparr>saveUri = ''a'', saveText = [7], saveVersion = 1, saveClient = ''form'', saveState = SaveReturned True,
       supersededBy = None, saveEnd = SavedAs 1\<rparr>"
  by (simp add: opened_ops_def save_steps_def service_eval write_eval task_status.simps split del: if_split)

theorem gated_write_takes_base_witness:
  "\<exists>V'. updateApply plain_manager [] 0 first_write [8] opened_service = Inr (2, V') \<and>
     lands_only (sv_store opened_service) (sv_store V') (canonicalKey plain_manager (writeUri first_write)) [8] 2"
proof -
  obtain V' where "updateApply plain_manager [] 0 first_write [8] opened_service = Inr (2, V')" using opened_write by blast
  with gated_write_takes_base [OF plain_manager_ok refl this] show ?thesis by blast
qed

theorem stale_write_refused_witness:
  "\<exists>V' e. updateApply plain_manager [] 0 first_write [8] opened_service = Inr (2, V') \<and>
     updateApply plain_manager [] 0 first_write [9] (sv.run plain_manager [SvDispose 3 0 Lost, SvCreateSession 4 ''form'' None] V') = Inl e"
proof -
  obtain V' where V': "updateApply plain_manager [] 0 first_write [8] opened_service = Inr (2, V')" using opened_write by blast
  have "(\<exists>e. updateApply plain_manager [] 0 first_write [9] (sv.run plain_manager [SvDispose 3 0 Lost, SvCreateSession 4 ''form'' None] V') = Inl e) \<and>
    (\<exists>e. updateDoor plain_manager [] [] 0 first_write (sv.run plain_manager [SvDispose 3 0 Lost, SvCreateSession 4 ''form'' None] V') = Some e)"
    by (rule stale_write_refused [OF plain_manager_ok refl V' refl, of 1]) (simp_all add: first_write_def)
  then show ?thesis using V' by blast
qed

theorem updates_all_or_none_witness:
  "\<exists>V' v. updateAllApply plain_manager [] [] 0 [first_write] [[8]] None opened_service = Inr ([Inr 2], V') \<and>
     lands (sv_store opened_service) (sv_store V') (canonicalKey plain_manager (writeUri first_write)) [8] v"
proof -
  obtain V' where V': "updateAllApply plain_manager [] [] 0 [first_write] [[8]] None opened_service = Inr ([Inr 2], V')"
    using opened_updates by blast
  from updates_all_or_none [OF plain_manager_ok refl, where ws = "[first_write]" and txs = "[[8]]" and ops = opened_ops and fs = "[]"
      and skips = "[]" and unbuilt = "[]" and n = 0 and w = None] V'
  show ?thesis by auto
qed

theorem held_write_true_witness:
  "\<exists>V' h. updateApply plain_manager [] 0 first_write [8] opened_service = Inr (2, V') \<and> 5 \<le> h \<and>
     heldWrite plain_manager 0 (writeUri first_write) 3 V' = Some h"
proof -
  obtain V' where V': "updateApply plain_manager [] 0 first_write [8] opened_service = Inr (2, V')" using opened_write by blast
  have "0 < length (sessionObjects opened_service)" by (simp add: opened_ops_def service_eval split del: if_split)
  from held_write_true [OF plain_manager_ok refl this V', of 5] V' show ?thesis by (auto simp: first_write_def)
qed

theorem persist_stores_base_witness:
  "store_version (storeEnv plain_manager) (canonicalKey plain_manager ''a'') (sv_store opened_service) \<le> 1 \<and>
   (\<exists>j t. js_get (saveCalls (workspace (sv.run plain_manager save_steps persisted_service))) j = Some t \<and> saveVersion t = 1 \<and>
     (j, Some (saveText t)) \<in> set (announcedSaves (workspace (sv.run plain_manager save_steps persisted_service))))"
  using persist_stores_base [OF plain_manager_ok refl opened_persist refl persist_resolved] by auto

theorem ended_session_leaves_no_open_witness:
  "\<not> openIn plain_manager ''a'' ''form'' (sv.run plain_manager (opened_ops @ [SvDispose 5 0 Lost]) quiet_service)"
proof -
  let ?V = "sv.run plain_manager (opened_ops @ [SvDispose 5 0 Lost]) quiet_service"
  have V: "0 < length (sessionObjects ?V)" "sessionId (session_at ?V 0) = ''form''" "getSession ''form'' ?V = None"
      "map runStage (openRuns ?V) = [OpenDone]"
    by (simp_all add: opened_ops_def service_eval create_eval write_eval split del: if_split)
  have "runStage (openRuns ?V ! r) = OpenDone" if "r < length (openRuns ?V)" for r
    using V(4) that by (metis length_map length_Cons less_Suc0 list.size(3) nth_Cons_0 nth_map)
  with ended_session_leaves_no_open [OF plain_manager_ok refl V(1), of "''a''"] V(2,3) show ?thesis by auto
qed

subsection \<open>Two creates of one session\<close>

text \<open>
  Of two creates of one URI both may succeed, though their documentation promises that at most one does. Where both
  have passed their checks before either opens, the open of the first is heard by both, as both listen for an open of their
  session: the second is answered the version of the first as its own, and its text is stored nowhere.
\<close>

definition two_creates :: "unit service_op list" where
  "two_creates =
     [SvCreateSession 0 ''form'' None, SvCreate 0 ''a'' [7], SvCreate 0 ''a'' [8], SvCreateReady 0 0 False, SvCreateReady 0 1 False,
      SvOpenRead 0 0 ''x'' 1 None, SvOpenEnds 0 0, SvOpenRead 0 1 ''x'' 1 None, SvOpenEnds 0 1]"

theorem two_creates_both_succeed:
  "let V = sv.run plain_manager two_creates quiet_service
   in map (\<lambda>run. (runText run, runStage run, createdAt run)) (openRuns V) = [(Some [7], OpenDone, Some 1), (Some [8], OpenDone, Some 1)] \<and>
      map_option docText (js_get (synced (sv_store V)) ''a'') = Some [7]"
  by (simp add: two_creates_def service_eval create_eval write_eval split del: if_split)

end
