(* ===== verification/FileSystems.thy ===== *)
theory FileSystems
  imports Prelude "HOL-Library.Sublist"
begin

section \<open>File systems without a disk\<close>

text \<open>
  \<open>InMemoryFileSystemProvider\<close> of \<open>core/src/langium/workspace/in-memory-file-system-provider.ts\<close>, and
  \<open>PersistentFileSystemProvider\<close> of \<open>persistent-file-system-provider.ts\<close>, which mirrors its writes into an asynchronous
  store and is restored from it. A URI object is the string it prints as; \<open>P\<close> stands for \<open>URI.parse(s).toString()\<close>.
  The store is what its interface says of it, a map of strings whose requests may each be refused. A request
  settles in one step, in which its provider goes on.
\<close>

subsection \<open>The files of a map\<close>

type_synonym file_map = "(string, text_body) js_map"

datatype fs_error =
    NoSuchFile uri
  | NoSuchPath uri
  | DeleteDirectoryRefused uri
  | OutsideStoreRoot uri

definition strip_separator :: "string \<Rightarrow> string" where
  "strip_separator t = (if t \<noteq> [] \<and> last t = CHR ''/'' then butlast t else t)"

text \<open>\<open>normalize\<close> of a URI, which is \<open>fileKey\<close>, and of a string.\<close>

definition fileKey :: "uri \<Rightarrow> string" where
  "fileKey u = strip_separator u"

definition normalize_text :: "(string \<Rightarrow> uri) \<Rightarrow> string \<Rightarrow> string" where
  "normalize_text P s = strip_separator (P s)"

definition in_folder :: "string \<Rightarrow> string" where
  "in_folder path = path @ ''/''"

definition seeded_files :: "(string \<Rightarrow> uri) \<Rightarrow> string option \<Rightarrow> (string \<times> text_body) list \<Rightarrow> file_map" where
  "seeded_files P root seed =
     fold (\<lambda>(path, content). js_set (normalize_text P (case root of None \<Rightarrow> path | Some r \<Rightarrow> in_folder r @ path)) content) seed []"

definition hasChildren :: "string \<Rightarrow> file_map \<Rightarrow> bool" where
  "hasChildren path fs \<longleftrightarrow> list_ex (prefix (in_folder path)) (js_keys fs)"

definition memory_setFile :: "uri \<Rightarrow> text_body \<Rightarrow> file_map \<Rightarrow> file_map" where
  "memory_setFile u content fs = js_set (fileKey u) content fs"

definition memory_deleteFile :: "uri \<Rightarrow> file_map \<Rightarrow> fs_error + file_map" where
  "memory_deleteFile u fs =
     (if hasChildren (fileKey u) fs then Inl (DeleteDirectoryRefused u) else Inr (js_delete (fileKey u) fs))"

definition readFileSync :: "uri \<Rightarrow> file_map \<Rightarrow> fs_error + text_body" where
  "readFileSync u fs = (case js_get fs (fileKey u) of None \<Rightarrow> Inl (NoSuchFile u) | Some content \<Rightarrow> Inr content)"

text \<open>Whether the node is a file; a directory otherwise.\<close>

definition statSync :: "uri \<Rightarrow> file_map \<Rightarrow> fs_error + bool" where
  "statSync u fs =
     (if js_has fs (fileKey u) then Inr True else if hasChildren (fileKey u) fs then Inr False else Inl (NoSuchPath u))"

definition existsSync :: "uri \<Rightarrow> file_map \<Rightarrow> bool" where
  "existsSync u fs \<longleftrightarrow> js_has fs (fileKey u) \<or> hasChildren (fileKey u) fs"

definition first_segment :: "string \<Rightarrow> string" where
  "first_segment = takeWhile (\<lambda>x. x \<noteq> CHR ''/'')"

definition children_of :: "string \<Rightarrow> string list \<Rightarrow> (string, bool) js_map \<Rightarrow> (string, bool) js_map" where
  "children_of folder =
     fold (\<lambda>path children.
       if \<not> prefix folder path then children
       else (let remainder = drop (length folder) path; name = first_segment remainder
             in if js_has children name then children else js_set name (name = remainder) children))"

definition readDirectorySync :: "(string \<Rightarrow> uri) \<Rightarrow> uri \<Rightarrow> file_map \<Rightarrow> (uri \<times> bool) list" where
  "readDirectorySync P u fs =
     (let folder = in_folder (fileKey u)
      in map (\<lambda>(name, isFile). (P (folder @ name), isFile)) (children_of folder (js_keys fs) []))"

subsection \<open>Files mirrored into a store\<close>

definition TOMBSTONE :: text_body where
  "TOMBSTONE = 0 # map of_char ''hydranium:deleted'' @ [0]"

text \<open>A request to the store, with what its provider does once it is answered.\<close>

datatype store_request =
    AwaitedWrite uri string text_body
  | MirroredWrite uri string text_body
  | AwaitedDelete uri string

record persistent_fs =
  fsFiles :: file_map
  fsRoot :: "string option"
  fsSeed :: "(string \<times> text_body) list"
  storeContent :: file_map
  restoredPaths :: "string list"
  requests :: "(nat, store_request) js_map"
  nextRequest :: nat
  refusedDeletes :: "uri list"
  reportedFailures :: "uri list"

definition store_root :: "(string \<Rightarrow> uri) \<Rightarrow> string option \<Rightarrow> string" where
  "store_root P root = (case root of None \<Rightarrow> [] | Some r \<Rightarrow> in_folder (normalize_text P r))"

definition storeUri :: "(string \<Rightarrow> uri) \<Rightarrow> string option \<Rightarrow> string \<Rightarrow> uri" where
  "storeUri P root path = P (store_root P root @ path)"

definition storeKey :: "(string \<Rightarrow> uri) \<Rightarrow> string option \<Rightarrow> uri \<Rightarrow> fs_error + string" where
  "storeKey P root u =
     (let key = fileKey u; prefix_of_keys = store_root P root
      in if \<not> prefix prefix_of_keys key then Inl (OutsideStoreRoot u) else Inr (drop (length prefix_of_keys) key))"

definition seededPaths :: "(string \<Rightarrow> uri) \<Rightarrow> string option \<Rightarrow> (string \<times> text_body) list \<Rightarrow> (fs_error + string) list" where
  "seededPaths P root seed = map (\<lambda>(path, content). storeKey P root (storeUri P root path)) seed"

definition restore :: "(string \<Rightarrow> uri) \<Rightarrow> string option \<Rightarrow> file_map \<Rightarrow> file_map \<Rightarrow> file_map" where
  "restore P root =
     fold (\<lambda>(path, content) fs.
       if content = TOMBSTONE then js_delete (fileKey (storeUri P root path)) fs
       else memory_setFile (storeUri P root path) content fs)"

text \<open>The constructor, over what the store was loaded with; it throws for a seed path that leaves the root, which has no key.\<close>

definition persistent_provider ::
  "(string \<Rightarrow> uri) \<Rightarrow> string option \<Rightarrow> (string \<times> text_body) list \<Rightarrow> file_map \<Rightarrow> persistent_fs" where
  "persistent_provider P root seed restored =
     \<lparr>fsFiles = restore P root restored (seeded_files P root seed), fsRoot = root, fsSeed = seed, storeContent = restored,
      restoredPaths = map fst (filter (\<lambda>(path, content). content \<noteq> TOMBSTONE) restored),
      requests = [], nextRequest = 0, refusedDeletes = [], reportedFailures = []\<rparr>"

definition ask_store :: "store_request \<Rightarrow> persistent_fs \<Rightarrow> persistent_fs" where
  "ask_store r F = F\<lparr>requests := js_set (nextRequest F) r (requests F), nextRequest := nextRequest F + 1\<rparr>"

definition fs_setFile :: "(string \<Rightarrow> uri) \<Rightarrow> uri \<Rightarrow> text_body \<Rightarrow> persistent_fs \<Rightarrow> persistent_fs" where
  "fs_setFile P u content F =
     (let F1 = F\<lparr>fsFiles := memory_setFile u content (fsFiles F)\<rparr>
      in case storeKey P (fsRoot F) u of
           Inl e \<Rightarrow> F1\<lparr>reportedFailures := reportedFailures F1 @ [u]\<rparr>
         | Inr path \<Rightarrow> ask_store (MirroredWrite u path content) F1)"

definition fs_writeFile :: "(string \<Rightarrow> uri) \<Rightarrow> uri \<Rightarrow> text_body \<Rightarrow> persistent_fs \<Rightarrow> fs_error + persistent_fs" where
  "fs_writeFile P u content F =
     (case storeKey P (fsRoot F) u of Inl e \<Rightarrow> Inl e | Inr path \<Rightarrow> Inr (ask_store (AwaitedWrite u path content) F))"

definition fs_deleteFile :: "(string \<Rightarrow> uri) \<Rightarrow> uri \<Rightarrow> persistent_fs \<Rightarrow> fs_error + persistent_fs" where
  "fs_deleteFile P u F =
     (if hasChildren (fileKey u) (fsFiles F) then Inl (DeleteDirectoryRefused u)
      else case storeKey P (fsRoot F) u of Inl e \<Rightarrow> Inl e | Inr path \<Rightarrow> Inr (ask_store (AwaitedDelete u path) F))"

definition store_forgets :: "(string \<Rightarrow> uri) \<Rightarrow> string \<Rightarrow> persistent_fs \<Rightarrow> persistent_fs" where
  "store_forgets P path F =
     F\<lparr>storeContent := (if Inr path \<in> set (seededPaths P (fsRoot F) (fsSeed F)) then js_set path TOMBSTONE (storeContent F)
                        else js_delete path (storeContent F))\<rparr>"

text \<open>The store carries a request out, or refuses it.\<close>

definition request_settles :: "(string \<Rightarrow> uri) \<Rightarrow> nat \<Rightarrow> bool \<Rightarrow> persistent_fs \<Rightarrow> persistent_fs option" where
  "request_settles P n done_by_store F =
     (case js_get (requests F) n of
        None \<Rightarrow> None
      | Some r \<Rightarrow>
          (let F1 = F\<lparr>requests := js_delete n (requests F)\<rparr>
           in Some (case r of
                AwaitedWrite u path content \<Rightarrow>
                  if done_by_store
                  then F1\<lparr>storeContent := js_set path content (storeContent F), fsFiles := memory_setFile u content (fsFiles F)\<rparr> else F1
              | MirroredWrite u path content \<Rightarrow>
                  if done_by_store then F1\<lparr>storeContent := js_set path content (storeContent F)\<rparr>
                  else F1\<lparr>reportedFailures := reportedFailures F1 @ [u]\<rparr>
              | AwaitedDelete u path \<Rightarrow>
                  if done_by_store
                  then (let F2 = store_forgets P path F1
                        in case memory_deleteFile u (fsFiles F2) of
                             Inl e \<Rightarrow> F2\<lparr>refusedDeletes := refusedDeletes F2 @ [u]\<rparr>
                           | Inr fs \<Rightarrow> F2\<lparr>fsFiles := fs\<rparr>)
                  else F1)))"

datatype fs_op =
    FsWrite uri text_body
  | FsDelete uri
  | FsSet uri text_body
  | FsSettles nat bool
  | FsReload

definition reload :: "(string \<Rightarrow> uri) \<Rightarrow> persistent_fs \<Rightarrow> persistent_fs" where
  "reload P F = persistent_provider P (fsRoot F) (fsSeed F) (storeContent F)"

fun fs_step :: "(string \<Rightarrow> uri) \<Rightarrow> fs_op \<Rightarrow> persistent_fs \<Rightarrow> persistent_fs option" where
  "fs_step P (FsWrite u content) F = (case fs_writeFile P u content F of Inl e \<Rightarrow> None | Inr F' \<Rightarrow> Some F')"
| "fs_step P (FsDelete u) F = (case fs_deleteFile P u F of Inl e \<Rightarrow> None | Inr F' \<Rightarrow> Some F')"
| "fs_step P (FsSet u content) F = Some (fs_setFile P u content F)"
| "fs_step P (FsSettles n done_by_store) F = request_settles P n done_by_store F"
| "fs_step P FsReload F = Some (reload P F)"

subsection \<open>What the reads answer\<close>

lemma children_of_get:
  "js_map_ok ch \<Longrightarrow> js_map_ok (children_of folder paths ch) \<and>
    (\<forall>name. js_has (children_of folder paths ch) name \<longleftrightarrow>
      js_has ch name \<or> (\<exists>path \<in> set paths. prefix folder path \<and> name = first_segment (drop (length folder) path)))"
proof (induction paths arbitrary: ch)
  case (Cons path paths)
  show ?case
  proof (cases "prefix folder path \<and> \<not> js_has ch (first_segment (drop (length folder) path))")
    case True
    then have "js_map_ok (js_set (first_segment (drop (length folder) path)) b ch)" for b using Cons.prems by (simp add: js_map_ok_set)
    from Cons.IH [OF this] True show ?thesis by (auto simp: children_of_def Let_def js_has_set)
  next
    case False
    then show ?thesis using Cons.IH [OF Cons.prems] by (auto simp: children_of_def Let_def)
  qed
qed (simp add: children_of_def)

lemma children_of_kind:
  assumes "js_get (children_of folder paths ch) name = Some isFile"
  shows "js_get ch name = Some isFile \<or>
    (\<exists>path \<in> set paths. prefix folder path \<and> name = first_segment (drop (length folder) path) \<and> isFile = (name = drop (length folder) path))"
  using assms
proof (induction paths arbitrary: ch)
  case (Cons path paths)
  let ?rest = "drop (length folder) path"
  let ?ch = "if \<not> prefix folder path \<or> js_has ch (first_segment ?rest) then ch else js_set (first_segment ?rest) (first_segment ?rest = ?rest) ch"
  have "children_of folder (path # paths) ch = children_of folder paths ?ch" by (simp add: children_of_def Let_def)
  with Cons.IH [of ?ch] Cons.prems show ?case by (auto simp: js_get_set split: if_splits)
qed (simp add: children_of_def)

lemma first_segment_folder: "first_segment s \<noteq> s \<Longrightarrow> prefix (first_segment s @ ''/'') s"
proof (induction s)
  case (Cons x s)
  then show ?case by (cases "x = CHR ''/''") (auto simp: first_segment_def)
qed (simp add: first_segment_def)

text \<open>
  The reads of the file system in memory agree with one another. A directory lists each of its children once, which are
  the first segments of the paths below it; it has one exactly where the directory exists; a child it lists as a file
  reads as a file, and one it lists as a directory has children of its own.
\<close>

theorem directory_reads_agree:
  "distinct (js_keys (children_of (in_folder (fileKey u)) (js_keys fs) [])) \<and>
   (\<forall>name. js_has (children_of (in_folder (fileKey u)) (js_keys fs) []) name \<longleftrightarrow>
      (\<exists>rest. js_has fs (in_folder (fileKey u) @ rest) \<and> name = first_segment rest)) \<and>
   (readDirectorySync P u fs \<noteq> [] \<longleftrightarrow> hasChildren (fileKey u) fs) \<and>
   (existsSync u fs \<longleftrightarrow> (\<exists>isFile. statSync u fs = Inr isFile)) \<and>
   (\<forall>name isFile. (name, isFile) \<in> set (children_of (in_folder (fileKey u)) (js_keys fs) []) \<longrightarrow>
      (if isFile then js_has fs (in_folder (fileKey u) @ name) else hasChildren (in_folder (fileKey u) @ name) fs))"
proof -
  let ?folder = "in_folder (fileKey u)"
  let ?ch = "children_of ?folder (js_keys fs) []"
  have ok: "js_map_ok ?ch" and mem: "js_has ?ch name \<longleftrightarrow> (\<exists>path \<in> set (js_keys fs). prefix ?folder path \<and> name = first_segment (drop (length ?folder) path))" for name
    using children_of_get [of "[]" ?folder "js_keys fs"] by (simp_all add: js_has_def)
  have "js_has ?ch name \<longleftrightarrow> (\<exists>rest. js_has fs (?folder @ rest) \<and> name = first_segment rest)" for name
    unfolding mem by (auto simp: js_has_def elim!: prefixE) (metis append_eq_conv_conj fst_conv image_eqI, metis append_eq_conv_conj prefixI fst_conv)
  moreover have "readDirectorySync P u fs \<noteq> [] \<longleftrightarrow> hasChildren (fileKey u) fs"
  proof -
    have "?ch = [] \<longleftrightarrow> (\<forall>name. \<not> js_has ?ch name)" by (cases ?ch) (auto simp: js_has_def)
    then show ?thesis by (auto simp: readDirectorySync_def Let_def hasChildren_def list_ex_iff mem)
  qed
  moreover have "if isFile then js_has fs (?folder @ name) else hasChildren (?folder @ name) fs" if "(name, isFile) \<in> set ?ch" for name isFile
  proof -
    have "js_get ?ch name = Some isFile" using ok that by (simp add: js_get_mem)
    from children_of_kind [OF this] obtain path where path: "path \<in> set (js_keys fs)" "prefix ?folder path"
      "name = first_segment (drop (length ?folder) path)" "isFile = (name = drop (length ?folder) path)" by auto
    from path(2) obtain rest where rest: "path = ?folder @ rest" by (auto simp: prefix_def)
    show ?thesis
    proof (cases isFile)
      case True
      then show ?thesis using path rest by (auto simp: js_has_def)
    next
      case False
      then have "prefix (name @ ''/'') rest" using path(3,4) rest first_segment_folder [of rest] by simp
      then have "prefix (in_folder (?folder @ name)) path" using rest by (auto simp: in_folder_def prefix_def)
      then show ?thesis using False path(1) by (auto simp: hasChildren_def list_ex_iff)
    qed
  qed
  ultimately show ?thesis using ok by (auto simp: js_map_ok_def existsSync_def statSync_def)
qed

subsection \<open>The invariant\<close>

fun request_of :: "(string \<Rightarrow> uri) \<Rightarrow> string option \<Rightarrow> store_request \<Rightarrow> bool" where
  "request_of P root (AwaitedWrite u path content) \<longleftrightarrow> storeKey P root u = Inr path"
| "request_of P root (MirroredWrite u path content) \<longleftrightarrow> storeKey P root u = Inr path"
| "request_of P root (AwaitedDelete u path) \<longleftrightarrow> storeKey P root u = Inr path"

definition fs_ok :: "(string \<Rightarrow> uri) \<Rightarrow> persistent_fs \<Rightarrow> bool" where
  "fs_ok P F \<longleftrightarrow> js_map_ok (storeContent F) \<and> (\<forall>n r. js_get (requests F) n = Some r \<longrightarrow> n < nextRequest F \<and> request_of P (fsRoot F) r)"

lemma ask_store_ok: "fs_ok P F \<Longrightarrow> request_of P (fsRoot F) r \<Longrightarrow> fs_ok P (ask_store r F)"
  by (auto simp: fs_ok_def ask_store_def js_get_set less_Suc_eq split: if_splits)

lemma fs_ok_frame: "storeContent F' = storeContent F \<Longrightarrow> requests F' = requests F \<Longrightarrow> nextRequest F' = nextRequest F \<Longrightarrow> fsRoot F' = fsRoot F \<Longrightarrow> fs_ok P F \<Longrightarrow> fs_ok P F'"
  by (simp add: fs_ok_def)

lemma settles_ok:
  assumes "fs_ok P F" and "request_settles P n good F = Some F'"
  shows "fs_ok P F'"
proof -
  obtain r where "js_get (requests F) n = Some r" using assms(2) by (auto simp: request_settles_def split: option.splits)
  then show ?thesis using assms
    by (cases r) (auto simp: request_settles_def fs_ok_def store_forgets_def js_get_delete Let_def intro!: js_map_ok_set js_map_ok_delete
        split: if_splits sum.splits)
qed

interpretation fs: component "fs_step P" "fs_ok P" for P :: "string \<Rightarrow> uri"
proof unfold_locales
  fix F F' op
  assume ok: "fs_ok P F" and step: "fs_step P op F = Some F'"
  show "fs_ok P F'"
  proof (cases op)
    case (FsSet u content)
    have "fs_ok P (F\<lparr>fsFiles := fs, reportedFailures := us\<rparr>)" "fs_ok P (F\<lparr>fsFiles := fs\<rparr>)" for fs us using ok by (simp_all add: fs_ok_def)
    then show ?thesis using step FsSet by (auto simp: fs_setFile_def Let_def intro!: ask_store_ok split: sum.splits)
  next
    case (FsSettles n good)
    then show ?thesis using settles_ok [OF ok] step by simp
  next
    case FsReload
    then show ?thesis using ok step by (auto simp: reload_def persistent_provider_def fs_ok_def)
  qed (use ok step in \<open>auto simp: fs_writeFile_def fs_deleteFile_def intro!: ask_store_ok split: sum.splits if_splits\<close>)
qed

subsection \<open>Restoring\<close>

text \<open>A key that names one file under the root: it is its own normal form.\<close>

definition plain_key :: "(string \<Rightarrow> uri) \<Rightarrow> string option \<Rightarrow> string \<Rightarrow> bool" where
  "plain_key P root k \<longleftrightarrow> P k = k \<and> strip_separator k = k \<and> prefix (store_root P root) k"

definition path_of :: "(string \<Rightarrow> uri) \<Rightarrow> string option \<Rightarrow> string \<Rightarrow> string" where
  "path_of P root k = drop (length (store_root P root)) k"

definition merged :: "(string \<Rightarrow> uri) \<Rightarrow> string option \<Rightarrow> file_map \<Rightarrow> file_map \<Rightarrow> string \<Rightarrow> text_body option" where
  "merged P root base store k =
     (if prefix (store_root P root) k
      then (case js_get store (path_of P root k) of
              None \<Rightarrow> js_get base k | Some content \<Rightarrow> if content = TOMBSTONE then None else Some content)
      else js_get base k)"

lemma plain_file:
  assumes "plain_key P root (store_root P root @ path)"
  shows "fileKey (storeUri P root path) = store_root P root @ path"
  using assms by (simp add: plain_key_def storeUri_def fileKey_def)

lemma path_of_root [simp]: "path_of P root (store_root P root @ path) = path"
  by (simp add: path_of_def)

lemma root_path: "prefix (store_root P root) k \<Longrightarrow> store_root P root @ path_of P root k = k"
  by (auto simp: path_of_def prefix_def)

lemma storeKey_plain: "plain_key P root (fileKey u) \<Longrightarrow> storeKey P root u = Inr (path_of P root (fileKey u))"
  by (simp add: plain_key_def storeKey_def path_of_def Let_def)

lemma restore_get:
  assumes "js_map_ok store" and "\<And>path. js_has store path \<Longrightarrow> plain_key P root (store_root P root @ path)"
  shows "js_get (restore P root store base) k = merged P root base store k"
  using assms
proof (induction store arbitrary: base)
  case (Cons entry store)
  obtain path content where entry: "entry = (path, content)" by (cases entry)
  let ?key = "store_root P root @ path"
  let ?base = "if content = TOMBSTONE then js_delete ?key base else js_set ?key content base"
  have at_key: "fileKey (storeUri P root path) = ?key" by (rule plain_file) (use Cons.prems(2) entry in \<open>simp add: js_has_def\<close>)
  have fresh: "js_get store path = None" using Cons.prems(1) entry by (auto simp: js_map_ok_def map_of_eq_None_iff)
  have "restore P root (entry # store) base = restore P root store ?base"
    by (simp add: restore_def entry memory_setFile_def at_key)
  moreover have "js_get (restore P root store ?base) k = merged P root ?base store k"
    by (rule Cons.IH) (use Cons.prems in \<open>auto simp: js_map_ok_def js_has_def\<close>)
  moreover have "merged P root ?base store k = merged P root base (entry # store) k"
  proof (cases "k = ?key")
    case True
    then show ?thesis using fresh by (simp add: merged_def entry js_get_set js_get_delete)
  next
    case False
    then have "prefix (store_root P root) k \<Longrightarrow> path_of P root k \<noteq> path" using root_path by metis
    with False show ?thesis by (auto simp: merged_def entry js_get_set js_get_delete split: option.split)
  qed
  ultimately show ?case by simp
qed (simp add: restore_def merged_def)

subsection \<open>What a reload finds\<close>

text \<open>Calls on files under the root in normal form, whose text is not the marker of a deleted file.\<close>

fun plain_op :: "(string \<Rightarrow> uri) \<Rightarrow> string option \<Rightarrow> fs_op \<Rightarrow> bool" where
  "plain_op P root (FsWrite u content) \<longleftrightarrow> plain_key P root (fileKey u) \<and> content \<noteq> TOMBSTONE"
| "plain_op P root (FsDelete u) \<longleftrightarrow> plain_key P root (fileKey u)"
| "plain_op P root (FsSet u content) \<longleftrightarrow> plain_key P root (fileKey u)"
| "plain_op P root op \<longleftrightarrow> True"

definition seed_keys :: "(string \<Rightarrow> uri) \<Rightarrow> string option \<Rightarrow> (string \<times> text_body) list \<Rightarrow> string list" where
  "seed_keys P root seed = map (\<lambda>(path, content). normalize_text P (case root of None \<Rightarrow> path | Some r \<Rightarrow> in_folder r @ path)) seed"

text \<open>
  The files are what the store and the seed say, save those in \<open>K\<close>, which \<open>setFile\<close> stored without waiting, and those
  of the deletes refused after the store took them.
\<close>

fun request_in :: "(string \<Rightarrow> uri) \<Rightarrow> string option \<Rightarrow> string set \<Rightarrow> store_request \<Rightarrow> bool" where
  "request_in P root K (AwaitedWrite u path content) \<longleftrightarrow>
     plain_key P root (fileKey u) \<and> path = path_of P root (fileKey u) \<and> content \<noteq> TOMBSTONE"
| "request_in P root K (MirroredWrite u path content) \<longleftrightarrow>
     plain_key P root (fileKey u) \<and> path = path_of P root (fileKey u) \<and> fileKey u \<in> K"
| "request_in P root K (AwaitedDelete u path) \<longleftrightarrow> plain_key P root (fileKey u) \<and> path = path_of P root (fileKey u)"

definition unsure :: "string set \<Rightarrow> persistent_fs \<Rightarrow> string set" where
  "unsure K F = K \<union> fileKey ` set (refusedDeletes F)"

definition mirrored :: "(string \<Rightarrow> uri) \<Rightarrow> string option \<Rightarrow> (string \<times> text_body) list \<Rightarrow> string set \<Rightarrow> persistent_fs \<Rightarrow> bool" where
  "mirrored P root seed K F \<longleftrightarrow>
     fsRoot F = root \<and> fsSeed F = seed \<and>
     (\<forall>n r. js_get (requests F) n = Some r \<longrightarrow> request_in P root K r) \<and>
     (\<forall>path. js_has (storeContent F) path \<longrightarrow> plain_key P root (store_root P root @ path)) \<and>
     (\<forall>k. k \<notin> unsure K F \<longrightarrow> js_get (fsFiles F) k = merged P root (seeded_files P root seed) (storeContent F) k)"

lemma seeded_files_has: "js_has (seeded_files P root seed) k \<Longrightarrow> k \<in> set (seed_keys P root seed)"
proof -
  have "js_has (fold (\<lambda>(path, content). js_set (f path) content) seed fs) k \<Longrightarrow> js_has fs k \<or> k \<in> f ` fst ` set seed" for f fs
  proof (induction seed arbitrary: fs)
    case (Cons p seed)
    then show ?case using Cons.IH [of "js_set (f (fst p)) (snd p) fs"] by (auto simp: case_prod_beta js_has_set)
  qed simp
  from this [of "\<lambda>path. normalize_text P (case root of None \<Rightarrow> path | Some r \<Rightarrow> in_folder r @ path)" "[]"]
  show "js_has (seeded_files P root seed) k \<Longrightarrow> k \<in> set (seed_keys P root seed)"
    by (simp add: seeded_files_def seed_keys_def js_has_get image_image case_prod_beta)
qed

lemma seeded_path:
  assumes "\<And>r. root = Some r \<Longrightarrow> normalize_text P r = r" and "k \<in> set (seed_keys P root seed)" and "prefix (store_root P root) k"
  shows "Inr (path_of P root k) \<in> set (seededPaths P root seed)"
proof -
  obtain path content where p: "(path, content) \<in> set seed" "k = normalize_text P (case root of None \<Rightarrow> path | Some r \<Rightarrow> in_folder r @ path)"
    using assms(2) by (auto simp: seed_keys_def)
  have "fileKey (storeUri P root path) = k"
    using p(2) assms(1) by (cases root) (simp_all add: storeUri_def store_root_def fileKey_def normalize_text_def)
  then have "storeKey P root (storeUri P root path) = Inr (path_of P root k)" using assms(3) by (simp add: storeKey_def path_of_def Let_def)
  then show ?thesis using p(1) by (force simp: seededPaths_def)
qed

lemma mirrored_reload:
  assumes "js_map_ok (storeContent F)" and "mirrored P root seed K F"
  shows "k \<notin> unsure K F \<Longrightarrow> js_get (fsFiles (reload P F)) k = js_get (fsFiles F) k" "mirrored P root seed K (reload P F)"
proof -
  have same: "js_get (fsFiles (reload P F)) k = merged P root (seeded_files P root seed) (storeContent F) k" for k
    using assms(2) restore_get [OF assms(1), of P root "seeded_files P root seed" k]
    by (simp add: mirrored_def reload_def persistent_provider_def)
  then show "k \<notin> unsure K F \<Longrightarrow> js_get (fsFiles (reload P F)) k = js_get (fsFiles F) k" using assms(2) by (simp add: mirrored_def)
  have "fsRoot (reload P F) = root \<and> fsSeed (reload P F) = seed \<and> refusedDeletes (reload P F) = [] \<and> requests (reload P F) = [] \<and>
      storeContent (reload P F) = storeContent F"
    using assms(2) by (simp add: mirrored_def reload_def persistent_provider_def)
  with same assms(2) show "mirrored P root seed K (reload P F)" by (simp add: mirrored_def)
qed

lemma mirrored_ask: "mirrored P root seed K F \<Longrightarrow> request_in P root K r \<Longrightarrow> mirrored P root seed K (ask_store r F)"
  by (auto simp: mirrored_def unsure_def ask_store_def js_get_set split: if_splits)

lemma merged_set:
  assumes "plain_key P root k"
  shows "merged P root base (js_set (path_of P root k) content store) x =
    (if x = k then (if content = TOMBSTONE then None else Some content) else merged P root base store x)"
proof -
  have k: "prefix (store_root P root) k" using assms by (simp add: plain_key_def)
  have "prefix (store_root P root) x \<Longrightarrow> path_of P root x = path_of P root k \<Longrightarrow> x = k" using root_path [OF k] root_path by metis
  then show ?thesis using k by (auto simp: merged_def js_get_set)
qed

lemma merged_delete:
  assumes "plain_key P root k" and "js_get base k = None"
  shows "merged P root base (js_delete (path_of P root k) store) x = (if x = k then None else merged P root base store x)"
proof -
  have k: "prefix (store_root P root) k" using assms by (simp add: plain_key_def)
  have "prefix (store_root P root) x \<Longrightarrow> path_of P root x = path_of P root k \<Longrightarrow> x = k" using root_path [OF k] root_path by metis
  then show ?thesis using k assms(2) by (auto simp: merged_def js_get_delete)
qed

lemma mirrored_settles:
  assumes root: "\<And>r. root = Some r \<Longrightarrow> normalize_text P r = r"
    and m: "mirrored P root seed K F" and step: "request_settles P n good F = Some F'"
  shows "mirrored P root seed K F'"
proof -
  obtain r where r: "js_get (requests F) n = Some r" using step by (auto simp: request_settles_def split: option.splits)
  have "request_in P root K r" using m r by (simp add: mirrored_def)
  have rest: "js_get (js_delete n (requests F)) i = Some x \<Longrightarrow> request_in P root K x" for i x
    using m by (auto simp: mirrored_def js_get_delete split: if_splits)
  have gone: "mirrored P root seed K (F\<lparr>requests := js_delete n (requests F)\<rparr>)" using m rest by (simp add: mirrored_def unsure_def)
  have at_root: "store_root P root @ path_of P root k = k" if "plain_key P root k" for k
    using that root_path [of P root k] by (simp add: plain_key_def)
  show ?thesis
  proof (cases r)
    case (AwaitedWrite u path content)
    then have u: "plain_key P root (fileKey u)" "path = path_of P root (fileKey u)" "content \<noteq> TOMBSTONE"
      using \<open>request_in P root K r\<close> by simp_all
    show ?thesis
    proof (cases good)
      case True
      then show ?thesis
        using step r AwaitedWrite u m rest at_root [OF u(1)] merged_set [OF u(1)]
        by (auto simp: request_settles_def mirrored_def unsure_def memory_setFile_def js_has_set js_get_set Let_def)
    qed (use step r AwaitedWrite gone in \<open>simp add: request_settles_def Let_def\<close>)
  next
    case (MirroredWrite u path content)
    then have u: "plain_key P root (fileKey u)" "path = path_of P root (fileKey u)" "fileKey u \<in> K"
      using \<open>request_in P root K r\<close> by simp_all
    have "mirrored P root seed K (F\<lparr>requests := js_delete n (requests F), storeContent := js_set path content (storeContent F)\<rparr>)"
      "mirrored P root seed K (F\<lparr>requests := js_delete n (requests F), reportedFailures := reportedFailures F @ [u]\<rparr>)"
      using u m rest at_root [OF u(1)] merged_set [OF u(1)] gone by (auto simp: mirrored_def unsure_def js_has_set)
    then show ?thesis using step r MirroredWrite by (simp add: request_settles_def Let_def split: if_splits)
  next
    case (AwaitedDelete u path)
    then have u: "plain_key P root (fileKey u)" "path = path_of P root (fileKey u)"
      using \<open>request_in P root K r\<close> by simp_all
    show ?thesis
    proof (cases good)
      case True
      have parts: "fsRoot F = root" "fsSeed F = seed" using m by (simp_all add: mirrored_def)
      have pre: "prefix (store_root P root) (fileKey u)" using u(1) by (simp add: plain_key_def)
      define store where "store = (if Inr path \<in> set (seededPaths P root seed) then js_set path TOMBSTONE (storeContent F) else js_delete path (storeContent F))"
      have "merged P root (seeded_files P root seed) store k =
          (if k = fileKey u then None else merged P root (seeded_files P root seed) (storeContent F) k)" for k
      proof (cases "Inr path \<in> set (seededPaths P root seed)")
        case True
        then show ?thesis using merged_set [OF u(1), of "seeded_files P root seed" TOMBSTONE "storeContent F" k] by (simp add: store_def u(2))
      next
        case False
        then have "js_get (seeded_files P root seed) (fileKey u) = None"
          using seeded_files_has [of P root seed "fileKey u"] seeded_path [OF root _ pre, of seed] u(2)
          by (cases "js_get (seeded_files P root seed) (fileKey u)") (auto simp: js_has_get)
        then show ?thesis using False merged_delete [OF u(1)] by (simp add: store_def u(2))
      qed
      moreover have "plain_key P root (store_root P root @ p)" if "js_has store p" for p
        using that u m at_root [OF u(1)] by (auto simp: store_def mirrored_def js_has_set js_has_delete split: if_splits)
      moreover have "F' = (if hasChildren (fileKey u) (fsFiles F)
          then F\<lparr>requests := js_delete n (requests F), storeContent := store, refusedDeletes := refusedDeletes F @ [u]\<rparr>
          else F\<lparr>requests := js_delete n (requests F), storeContent := store, fsFiles := js_delete (fileKey u) (fsFiles F)\<rparr>)"
        by (cases "hasChildren (fileKey u) (fsFiles F)")
           (use step r AwaitedDelete \<open>good\<close> parts in
             \<open>auto simp: request_settles_def store_forgets_def memory_deleteFile_def store_def Let_def\<close>)
      ultimately show ?thesis using m rest by (auto simp: mirrored_def unsure_def js_get_delete)
    qed (use step r AwaitedDelete gone in \<open>simp add: request_settles_def Let_def\<close>)
  qed
qed

lemma mirrored_step:
  assumes root: "\<And>r. root = Some r \<Longrightarrow> normalize_text P r = r"
    and m: "mirrored P root seed K F" and ok: "fs_ok P F" and "plain_op P root op"
    and "\<And>u content. op = FsSet u content \<Longrightarrow> fileKey u \<in> K" and step: "fs_step P op F = Some F'"
  shows "mirrored P root seed K F'"
proof -
  have fsRoot: "fsRoot F = root" using m by (simp add: mirrored_def)
  show ?thesis
  proof (cases op)
    case (FsWrite u content)
    then have "F' = ask_store (AwaitedWrite u (path_of P root (fileKey u)) content) F"
      using step assms(4) fsRoot by (simp add: fs_writeFile_def storeKey_plain)
    then show ?thesis using FsWrite assms(4) by (auto intro: mirrored_ask [OF m])
  next
    case (FsDelete u)
    then have "F' = ask_store (AwaitedDelete u (path_of P root (fileKey u))) F"
      using step assms(4) fsRoot by (simp add: fs_deleteFile_def storeKey_plain split: if_splits)
    then show ?thesis using FsDelete assms(4) by (auto intro: mirrored_ask [OF m])
  next
    case (FsSet u content)
    then have "F' = ask_store (MirroredWrite u (path_of P root (fileKey u)) content) (F\<lparr>fsFiles := js_set (fileKey u) content (fsFiles F)\<rparr>)"
      using step assms(4) fsRoot by (simp add: fs_setFile_def memory_setFile_def storeKey_plain Let_def)
    moreover have "mirrored P root seed K (F\<lparr>fsFiles := js_set (fileKey u) content (fsFiles F)\<rparr>)"
      using m assms(5) [OF FsSet] by (auto simp: mirrored_def unsure_def js_get_set)
    ultimately show ?thesis using FsSet assms(4) assms(5) [OF FsSet] by (simp add: mirrored_ask)
  next
    case (FsSettles n good)
    then show ?thesis using step mirrored_settles [OF root m] by simp
  next
    case FsReload
    then show ?thesis using step mirrored_reload(2) [OF _ m] ok by (simp add: fs_ok_def)
  qed
qed

lemma mirrored_run:
  assumes "\<And>r. root = Some r \<Longrightarrow> normalize_text P r = r" and "mirrored P root seed K F" and "fs_ok P F"
    and "\<forall>op \<in> set ops. plain_op P root op \<and> (\<forall>u content. op = FsSet u content \<longrightarrow> fileKey u \<in> K)"
  shows "mirrored P root seed K (fs.run P ops F)"
  using assms(2-4)
proof (induction ops arbitrary: F)
  case (Cons op ops)
  show ?case
  proof (cases "fs_step P op F")
    case None
    then show ?thesis using Cons by simp
  next
    case (Some F')
    have "mirrored P root seed K F'"
      by (rule mirrored_step [OF assms(1) Cons.prems(1,2) _ _ Some]) (use Cons.prems(3) in simp_all)
    then show ?thesis using Cons.IH [of F'] fs.step_inv [OF Cons.prems(2) Some] Cons.prems(3) Some by simp
  qed
qed simp

text \<open>
  C15: A reload loses no file that was written and waited for. After any run of calls on files under the root, of answers
  and refusals of the store, and of earlier reloads, the file system restored from the store holds a file exactly as the
  one it replaces does, with its text or not at all: a deleted file of the seed stays deleted, a write that the store
  refused is in neither, and the seed is served where the store says nothing. Two kinds of file are excepted: those
  \<open>setFile\<close> stored, which does not wait for the store, and those whose delete was refused as that of a directory after
  the store had taken it. The paths are in normal form, and no text is the marker of a deleted file.
\<close>

theorem reload_restores_files:
  assumes "\<And>r. root = Some r \<Longrightarrow> normalize_text P r = r"
    and "\<forall>op \<in> set ops. plain_op P root op"
    and "F = fs.run P ops (persistent_provider P root seed [])"
    and "\<forall>u content. FsSet u content \<in> set ops \<longrightarrow> fileKey u \<noteq> k"
    and "\<forall>u \<in> set (refusedDeletes F). fileKey u \<noteq> k"
  shows "js_get (fsFiles (reload P F)) k = js_get (fsFiles F) k"
proof -
  let ?K = "{fileKey u |u content. FsSet u content \<in> set ops}"
  let ?F0 = "persistent_provider P root seed []"
  have ok0: "fs_ok P ?F0" by (simp add: fs_ok_def persistent_provider_def)
  have "mirrored P root seed ?K ?F0" by (auto simp: mirrored_def persistent_provider_def restore_def js_has_def merged_def)
  then have "mirrored P root seed ?K F"
    unfolding assms(3) by (intro mirrored_run) (use assms(1,2) ok0 in auto)
  moreover have "js_map_ok (storeContent F)" using fs.run_inv [OF ok0, of ops] by (simp add: assms(3) fs_ok_def)
  moreover have "k \<notin> unsure ?K F" using assms(4,5) by (auto simp: unsure_def)
  ultimately show ?thesis using mirrored_reload(1) by blast
qed

subsection \<open>Runs to apply them to\<close>

definition plain_uris :: "string \<Rightarrow> uri" where
  "plain_uris s = s"

definition edits_before_reload :: "fs_op list" where
  "edits_before_reload =
     [FsWrite ''r/a'' [1], FsSettles 0 True, FsDelete ''r/b'', FsWrite ''r/c'' [2], FsSettles 2 False, FsSettles 1 True, FsReload,
      FsWrite ''r/d'' [3], FsSettles 0 True]"

lemmas fs_eval = fs_writeFile_def fs_deleteFile_def fs_setFile_def storeKey_def store_root_def normalize_text_def strip_separator_def
  fileKey_def in_folder_def ask_store_def request_settles_def store_forgets_def seededPaths_def storeUri_def memory_deleteFile_def
  memory_setFile_def hasChildren_def persistent_provider_def reload_def restore_def seeded_files_def plain_uris_def TOMBSTONE_def

theorem reload_restores_files_witness:
  "js_get (fsFiles (reload plain_uris (fs.run plain_uris edits_before_reload (persistent_provider plain_uris (Some ''r'') [(''a'', [9]), (''b'', [8])] [])))) ''r/b'' =
   js_get (fsFiles (fs.run plain_uris edits_before_reload (persistent_provider plain_uris (Some ''r'') [(''a'', [9]), (''b'', [8])] []))) ''r/b''"
proof (rule reload_restores_files [OF _ _ refl])
  show "\<forall>op \<in> set edits_before_reload. plain_op plain_uris (Some ''r'') op"
    by (simp add: edits_before_reload_def plain_key_def plain_uris_def fileKey_def strip_separator_def store_root_def normalize_text_def
        in_folder_def TOMBSTONE_def)
  show "\<forall>u \<in> set (refusedDeletes (fs.run plain_uris edits_before_reload (persistent_provider plain_uris (Some ''r'') [(''a'', [9]), (''b'', [8])] []))).
      fileKey u \<noteq> ''r/b''"
    by (simp add: edits_before_reload_def fs_eval)
qed (simp_all add: normalize_text_def plain_uris_def strip_separator_def edits_before_reload_def fileKey_def)

text \<open>
  A file deleted while a path below it is written: the store drops the file, the delete is then refused as that of a
  directory, and the file is served until the next reload has lost it.
\<close>

theorem refused_delete_lost_on_reload:
  "let F = fs.run plain_uris [FsWrite ''a'' [1], FsSettles 0 True, FsDelete ''a'', FsWrite ''a/b'' [2], FsSettles 2 True, FsSettles 1 True]
        (persistent_provider plain_uris None [] [])
   in refusedDeletes F = [''a''] \<and> readFileSync ''a'' (fsFiles F) = Inr [1] \<and> readFileSync ''a'' (fsFiles (reload plain_uris F)) = Inl (NoSuchFile ''a'')"
  by (simp add: fs_eval readFileSync_def)

end
