(* ===== verification/SelfSaves.thy ===== *)
theory SelfSaves
  imports Prelude
begin

section \<open>The server's own saves\<close>

text \<open>
  \<open>DefaultSelfSaveRegistry\<close> of \<open>core/src/langium/workspace/self-save-registry.ts\<close>: the times of the server's own writes, by
  which it tells their echo from a change. \<open>fold_case\<close> stands for the case folding of the host's file system; an
  entry keeps the clock reading of its registration.
\<close>

definition DEFAULT_TTL_MS :: int where "DEFAULT_TTL_MS = 30000"

record self_save =
  mtimeMs :: int
  registeredAt :: int

definition isExpired :: "int \<Rightarrow> int \<Rightarrow> self_save \<Rightarrow> bool" where
  "isExpired ttl now e \<longleftrightarrow> ttl < now - registeredAt e"

definition evictExpired :: "int \<Rightarrow> int \<Rightarrow> (string, self_save) js_map \<Rightarrow> (string, self_save) js_map" where
  "evictExpired ttl now entries = filter (\<lambda>(key, e). \<not> isExpired ttl now e) entries"

definition register_save ::
  "(string \<Rightarrow> string) \<Rightarrow> int \<Rightarrow> int \<Rightarrow> string \<Rightarrow> int \<Rightarrow> (string, self_save) js_map \<Rightarrow> (string, self_save) js_map" where
  "register_save fold_case ttl now fsPath mtime entries =
     js_set (fold_case fsPath) \<lparr>mtimeMs = mtime, registeredAt = now\<rparr> (evictExpired ttl now entries)"

definition isRegistered_save :: "(string \<Rightarrow> string) \<Rightarrow> int \<Rightarrow> int \<Rightarrow> string \<Rightarrow> int \<Rightarrow> (string, self_save) js_map \<Rightarrow> bool" where
  "isRegistered_save fold_case ttl now fsPath mtime entries =
     (case js_get entries (fold_case fsPath) of
        None \<Rightarrow> False
      | Some e \<Rightarrow> \<not> isExpired ttl now e \<and> mtimeMs e = mtime)"

subsection \<open>Registrations in the order of the clock\<close>

type_synonym registration = "int \<times> string \<times> int"

fun registrations :: "(string \<Rightarrow> string) \<Rightarrow> int \<Rightarrow> registration list \<Rightarrow> (string, self_save) js_map" where
  "registrations fold_case ttl [] = []"
| "registrations fold_case ttl ((now, fsPath, mtime) # earlier) =
     register_save fold_case ttl now fsPath mtime (registrations fold_case ttl earlier)"

text \<open>The reference: the last registration of the path, nothing evicted. The latest registration comes first.\<close>

definition last_registration :: "(string \<Rightarrow> string) \<Rightarrow> string \<Rightarrow> registration list \<Rightarrow> registration option" where
  "last_registration fold_case fsPath regs = find (\<lambda>(at, path, mtime). fold_case path = fold_case fsPath) regs"

lemma registrations_ok: "js_map_ok (registrations fold_case ttl regs)"
proof (induction regs)
  case (Cons reg regs)
  have "js_map_ok (filter P m)" if "js_map_ok m" for P and m :: "(string, self_save) js_map"
    using that by (induction m) (auto simp: js_map_ok_def)
  with Cons show ?case by (cases reg) (simp add: register_save_def evictExpired_def js_map_ok_set)
qed simp

lemma evicted_get:
  assumes "js_map_ok m"
  shows "js_get (evictExpired ttl now m) k = (case js_get m k of None \<Rightarrow> None | Some e \<Rightarrow> if isExpired ttl now e then None else Some e)"
  using assms by (induction m) (auto simp: evictExpired_def js_map_ok_def map_of_eq_None_iff split: option.split)

lemma registrations_get:
  assumes "sorted_wrt (\<lambda>r r'. fst r' \<le> fst r) regs" and "\<And>r. r \<in> set regs \<Longrightarrow> fst r \<le> now"
  shows "(case js_get (registrations fold_case ttl regs) (fold_case fsPath) of
      None \<Rightarrow> (case last_registration fold_case fsPath regs of None \<Rightarrow> True | Some (at, path, mtime) \<Rightarrow> ttl < now - at)
    | Some e \<Rightarrow> (\<exists>path. last_registration fold_case fsPath regs = Some (registeredAt e, path, mtimeMs e)))"
  using assms
proof (induction regs arbitrary: now)
  case (Cons reg regs)
  obtain at path mtime where reg: "reg = (at, path, mtime)" by (cases reg)
  have IH: "(case js_get (registrations fold_case ttl regs) (fold_case fsPath) of
      None \<Rightarrow> (case last_registration fold_case fsPath regs of None \<Rightarrow> True | Some (t, p, m) \<Rightarrow> ttl < at - t)
    | Some e \<Rightarrow> (\<exists>path. last_registration fold_case fsPath regs = Some (registeredAt e, path, mtimeMs e)))"
    by (rule Cons.IH) (use Cons.prems(1) reg in auto)
  have "at \<le> now" using Cons.prems(2) [of reg] reg by simp
  then show ?case
    using IH evicted_get [OF registrations_ok, of ttl at fold_case ttl regs "fold_case fsPath"]
    by (auto simp: reg register_save_def js_get_set last_registration_def isExpired_def split: option.splits if_splits)
qed (simp add: last_registration_def)

text \<open>
  The server recognises the echo of its own save, and only that. Whatever was registered before, in the order of the clock,
  a path is taken for saved by the server at a time exactly when its last registration, under the folding of the file system, is
  of that modification time and not older than the window: evicting what expired never changes an answer.
\<close>

theorem echo_of_last_save:
  assumes "sorted_wrt (\<lambda>r r'. fst r' \<le> fst r) regs" and "\<And>r. r \<in> set regs \<Longrightarrow> fst r \<le> now"
  shows "isRegistered_save fold_case ttl now fsPath mtime (registrations fold_case ttl regs) \<longleftrightarrow>
    (\<exists>at path. last_registration fold_case fsPath regs = Some (at, path, mtime) \<and> now - at \<le> ttl)"
  using registrations_get [OF assms, where fold_case = fold_case and ttl = ttl and fsPath = fsPath]
  by (auto simp: isRegistered_save_def isExpired_def split: option.splits)

theorem echo_of_last_save_witness:
  "isRegistered_save (\<lambda>p. p) DEFAULT_TTL_MS 30005 ''/a'' 7 (registrations (\<lambda>p. p) DEFAULT_TTL_MS [(9, ''/b'', 3), (5, ''/a'', 7), (1, ''/a'', 6)])"
proof (rule iffD2 [OF echo_of_last_save])
  show "\<exists>at path. last_registration (\<lambda>p. p) ''/a'' [(9, ''/b'', 3), (5, ''/a'', 7), (1, ''/a'', 6)] = Some (at, path, 7) \<and> 30005 - at \<le> DEFAULT_TTL_MS"
    by (simp add: last_registration_def DEFAULT_TTL_MS_def)
qed auto

end
