(* ===== verification/Spec2Isabelle.thy ===== *)
theory Spec2Isabelle
  imports StoreProperties ReleaseWaits MessageChannel MergeRoundtrip ReconcileWrite VersionSync TaskQueue Debouncer ReleaseHandler CopyProperties CopyWrites AstEvents SessionProperties FileSystems SelfSaves
begin

text \<open>
  Verification of the coordination layer of Hydranium.

  \<^bold>\<open>The program.\<close> Hydranium runs a Langium language server that several kinds of clients edit through at the
  same time: the text editor over LSP, diagram and form clients over a data protocol, and the server's own
  integrity repairs. All of them meet in one text store on the server
  (\<open>packages/core/src/documents/hydranium-text-documents.ts\<close>), which numbers the texts of a document, keeps
  track of who holds it, pushes server-side edits to the editor, and releases a document to its file
  when the last client leaves. Clients of the data protocol reach it through a session each
  (\<open>packages/core/src/langium/model-service/client-session.ts\<close>), which gates their writes on versions, over the document
  manager (\<open>packages/core/src/documents/ast-document-manager.ts\<close>), which opens, saves and deletes files. The build of the workspace is kept in step with the store by the
  version sync service, and a client whose write meets a newer version merges its patch on the client side
  (\<open>packages/protocol/src/patch-merge.ts\<close>, \<open>reconcile-write.ts\<close>). The client keeps a working copy of the
  document (\<open>packages/protocol/src/client/working-copy.ts\<close>): the last document the server sent, and the edits not
  written yet, which it writes in batches through that merge. Messages cross a reconnecting socket
  through a write buffer and an inbound sequence (\<open>packages/client-theia/src/common\<close>).

  \<^bold>\<open>Theories and sources\<close> (paths under \<open>src/packages\<close>).
  \<^item> \<open>Prelude\<close>: JavaScript maps and sets in insertion order as association and distinct lists, the
    collections \<open>js_simps\<close> and \<open>js_intros\<close>, and the interfaces \<open>component\<close> and \<open>progress_component\<close>.
  \<^item> \<open>TextHash\<close>: \<open>textHash\<close> and \<open>cyrb53\<close> of \<open>protocol/src/util.ts\<close> on 32-bit words. Its rounds are bijections,
    so a single changed code unit always changes the digest.
  \<^item> \<open>SessionRegistry\<close>: \<open>core/src/documents/client-session-registry.ts\<close>.
  \<^item> \<open>TextLedger\<close>: \<open>core/src/documents/text-ledger.ts\<close>, with the interface \<open>version_sequence\<close>.
  \<^item> \<open>ReleaseScheduler\<close>: \<open>core/src/documents/document-release-scheduler.ts\<close>.
  \<^item> \<open>DirtyState\<close>: \<open>core/src/documents/dirty-state-tracker.ts\<close>.
  \<^item> \<open>ClientShadow\<close>: \<open>core/src/documents/language-client-shadow.ts\<close>.
  \<^item> \<open>ModelLedger\<close>: \<open>core/src/documents/model-ledger.ts\<close>.
  \<^item> \<open>TextDocuments\<close>: the store \<open>hydranium-text-documents.ts\<close>, composed of the six components above: the
    notifications of the editor, sessions, authored writes, repairs, deferred and immediate releases, pushes,
    saves and deletions. \<open>StoreInvariant\<close> proves its invariant kept by each operation, \<open>StoreRuns\<close>
    lifts it and the order of versions to all runs, \<open>StoreProperties\<close> states what follows, and \<open>ReleaseWaits\<close> what
    is kept of a document whose release waits.
  \<^item> \<open>RecoveryBuilds\<close> and \<open>VersionSync\<close>: \<open>core/src/documents/version-sync-service.ts\<close>; the latter composes the
    store, the model ledger and the recovery builds.
  \<^item> \<open>TaskQueue\<close>: \<open>core/src/documents/file-system-task-queue.ts\<close>.
  \<^item> \<open>ReleaseHandler\<close>: \<open>core/src/documents/document-release-handler.ts\<close>, on top of the recovery builds.
  \<^item> \<open>AstDocuments\<close>: \<open>core/src/documents/ast-document-manager.ts\<close> as the workspace the sessions work in: the store, the
    version sync, the file task queue and the files, with attribution, opens, updates, saves and deletes. \<open>AstSaves\<close>
    proves its invariant and what saves promise, \<open>AstEvents\<close> whose change an update event reports.
  \<^item> \<open>ClientSessions\<close>: \<open>core/src/langium/model-service/client-session.ts\<close> and \<open>createSession\<close> of \<open>model-service.ts\<close> over
    that workspace: gated writes, sets of writes, write numbers, saves, opens and creates. \<open>SessionRuns\<close> proves
    that sessions move the workspace by its own steps only, with the invariant of the write numbers; \<open>SessionOpens\<close> says
    what every operation does to the opens and \<open>SessionOwners\<close> whose they are; \<open>SessionProperties\<close> states what follows of every run.
  \<^item> \<open>PatchMerge\<close>: \<open>protocol/src/patch-merge.ts\<close>; \<open>MergeOrder\<close>, \<open>MergeRoundtrip\<close> and \<open>MergeReplay\<close> prove its
    three parts: the order of merged arrays, the rewriting by key, and the replay.
  \<^item> \<open>ReconcileWrite\<close>: \<open>protocol/src/reconcile-write.ts\<close> over the resolvers of \<open>patch-merge.ts\<close>.
  \<^item> \<open>WorkingCopy\<close>: the state machine of \<open>protocol/src/client/working-copy.ts\<close>: opening, edits, the write loop,
    documents taken and held, events, restores, saves, closing and disposal. \<open>CopyEdits\<close>, \<open>CopyState\<close>,
    \<open>CopySnapshot\<close> and \<open>CopyProgress\<close> each prove one invariant of it (the edits, the dirty announcements, the
    snapshots, the write loops), \<open>CopyProperties\<close> what follows of every run, and \<open>CopyWrites\<close> models what the
    write of a batch awaits (\<open>reconcile\<close>, \<open>splitConflict\<close>) over \<open>ReconcileWrite\<close>.
  \<^item> \<open>WriteBuffer\<close>: \<open>framed-socket-write-buffer.ts\<close> and \<open>inbound-message-sequence.ts\<close>; \<open>MessageChannel\<close> joins
    both ends by a socket that delivers in order, may drop, and whose sends may throw, in the middle of a flush too.
  \<^item> \<open>Debouncer\<close>: \<open>protocol/src/debouncer.ts\<close>.
  \<^item> \<open>FileSystems\<close>: \<open>core/src/langium/workspace/in-memory-file-system-provider.ts\<close>, and \<open>persistent-file-system-provider.ts\<close>
    over an asynchronous store; \<open>SelfSaves\<close>: \<open>self-save-registry.ts\<close> beside it.
\<close>

text \<open>
  \<^bold>\<open>How code becomes definitions.\<close> A class is a record of its fields, a method a function from its
  arguments and the state to a result and the state after it, with one branch per early return; an error
  thrown is a constructor of an error type on the left of a sum, or \<open>None\<close> of a step. A text is a list of
  UTF-16 code units (\<open>16 word\<close>), versions are integers, digests are computed on \<open>32 word\<close> with wrap-around.
  Events that the code fires are appended to a log in the state. An asynchronous operation is split
  at its awaits, one definition for each stretch that runs without interruption, and the stretches are
  separate steps of the component, so a run of steps covers every interleaving at the awaits. The
  state machines are \<open>component\<close>s: \<open>step\<close> answers \<open>None\<close> where an operation throws or is not enabled, and
  \<open>run\<close> folds a list of operations.

  \<^bold>\<open>Interfaces.\<close> \<open>component\<close> (an invariant every step keeps) is interpreted on the registry, the tracker,
  the shadow, the write buffer, the channel, the task queue, the recovery builds, the workspace
  of the document manager, the mirrored file system and the working copy; its extension
  \<open>progress_component\<close> (a preorder every step follows) on the store, the debouncer and the client sessions. \<open>version_sequence\<close>
  is what the store relies on from the ledger. \<open>conflict_resolver\<close> is what the reconcile loop
  relies on from a resolver, interpreted on the reconciling and on the forcing one.

  \<^bold>\<open>What is shown.\<close>
  \<^item> The store: held, deferred and dirty documents are consistent after any run; versions move forward and
    identify texts; an editor change makes the store hold the editor's buffer; repairs are guarded;
    the last client lost from a document and back within the grace finds its text; the end of a session and a delete leave
    no opens behind.
  \<^item> Saves and sessions: a save that resolves was stored, in the order of the calls; a gated write lands exactly on its
    base, after which no write based on an older version lands again; sets of writes are applied whole or not at all; write
    numbers are reported truly; an ended session leaves nothing open; a rebuilt document names a client exactly where the
    current versions point to it alone.
  \<^item> Releases and builds: a release settles by its contract, yields to a client, removes only what is
    missing and never waits without a build; recovery requests are settled exactly once, and end once no write
    cancels them; a produced root is in step with the store or, behind it, has a build queued.
  \<^item> Merging: replay never clobbers; the cached checks equal their reference definitions; arrays matched by key
    keep one order and round trip; every outcome of a merge is true of the refetched root; a reconciled write lands at most
    once, on the version it was merged onto, in a bounded number of writes. Whether a request that failed was carried out is left
    open: the hypotheses \<open>counts_writes\<close> and \<open>session_counts\<close> allow both.
  \<^item> The working copy: every edit is settled exactly once, told the truth about its write and never stranded;
    writes are gated on the document they were made on or merged onto; the document shown never runs backwards, the
    dirty events are never wrong, and a save persists what is shown.
  \<^item> Transport and timing: messages are delivered in order and at most once, and all of them once a flush is through, while no copy
    was given up or overtaken; buffers and queues are bounded; the task queue refines one queue per file and never blocks; the
    debouncer keeps its ceiling.
  \<^item> Files: a file system restored from its store holds the files of the one it replaces, but for files that \<open>setFile\<close> stored
    without waiting and those a refused delete had dropped from the store; reads of files and directories
    agree; the echo of an own save is recognised for exactly the window of its last registration.

  \<^bold>\<open>Bounds.\<close> No definition uses fuel: every recursion is structural or carries a measure (the reconcile loop
  its remaining writes and refusals, the release loop the attempts left before a removal, the rewriting of
  roots their size). Lengths of runs are arbitrary.

  \<^bold>\<open>Parameters.\<close> Code outside the repository is an argument: the text-document type and the line diff
  (\<open>text_lib\<close>), URI normalisation and the canonical URI policy (\<open>env\<close>), \<open>fast-json-patch\<close>
  (\<open>patch_lib\<close>), the session of a working copy (\<open>copy_session\<close>), the socket, the clock, and what the lock, the builder and the file system provider answer. Hypotheses
  on them (\<open>env_ok\<close>, \<open>session_ok\<close> and the like) are discharged on concrete instances by the witnesses.

  \<^bold>\<open>Not modelled.\<close> Log lines and tracing; the random epoch of a ledger; rejected event listeners; the pacing
  of promise callbacks finer than the awaits (the task queue's caller resumes before the next task starts,
  which the model leaves open); that a disposed working copy stops listening once its edits have answered. A
  listener that calls back into a working copy from an event is the steps that follow, and the servers of one life are assumed
  to report the writes a document holds always or never (\<open>reporting\<close>). Of the repository: the Langium services (scoping, naming, serialisation),
  whose data are generated or third-party ASTs; the hosts' glue (LSP, Theia, VS Code, browser, GLSP), the command line
  and the conformance suite. Of the
  model service the phase reads and rebuilds, which wait on Langium's builder; the client's data sessions, the cancellation counter of
  the workspace lock, the document builder's batching. The steps of a workspace that come from elsewhere open nothing under the id
  of a session.

  \<^bold>\<open>Findings.\<close> \<open>two_creates_both_succeed\<close> in \<open>SessionProperties\<close> is a run in which two creates of one URI by one session both
  succeed, the second without its text. \<open>refused_delete_lost_on_reload\<close> in \<open>FileSystems\<close> is a delete refused after the store has
  dropped the file. The steps of the model also show that the check before a save lets a save through while the editor still
  shows another text, when a text was pushed twice and only the first echo has come; that a message may go out ahead of
  copies a failed flush did not resend; and that the cause named for a build forgets an earlier writer of the same document.
\<close>

end
